(* ===== verification/Prelude.thy ===== *)
theory Prelude
  imports Main "HOL-Library.Word" "HOL-Library.Monad_Syntax"
begin

text \<open>
  Shared vocabulary of the development: the machine integers of the ARM target (32-bit
  \<open>int\<close>, \<open>unsigned\<close>, \<open>ulong\<close> and pointers), memory objects as lists that fault outside
  their bounds, and the C string functions that the components use.

  An access outside an object is undefined behaviour in C.  Every read and write of the
  models goes through \<open>rd\<close> and \<open>wr\<close>, whose value \<open>None\<close> is that fault; a C string is the
  list of its characters without the terminating NUL.
\<close>

section \<open>Machine integers\<close>

type_synonym u8 = "8 word"
type_synonym u16 = "16 word"
type_synonym u32 = "32 word"

named_theorems mem_simps \<open>reads and writes of memory objects\<close>

section \<open>Small values of words\<close>

lemma sint_small: "unat (x :: u32) < 2 ^ 31 \<Longrightarrow> sint x = int (unat x)"
proof -
  assume a: "unat x < 2 ^ 31"
  have "sint x = signed_take_bit 31 (uint x)" by (simp add: sint_uint)
  also have "\<dots> = uint x"
  proof (rule signed_take_bit_int_eq_self)
    from a have "int (unat x) < int (2 ^ 31)" by (simp only: of_nat_less_iff)
    then show "uint x < 2 ^ 31" unfolding uint_nat by (simp only: of_nat_power of_nat_numeral)
  qed (rule order_trans [of _ 0], simp_all)
  finally show ?thesis by (simp only: uint_nat)
qed

lemma sless_small: "unat (x :: u32) < 2 ^ 31 \<Longrightarrow> unat (y :: u32) < 2 ^ 31 \<Longrightarrow> x <s y \<longleftrightarrow> unat x < unat y"
  unfolding word_sless_alt by (simp only: sint_small of_nat_less_iff)

lemma sle_small: "unat (x :: u32) < 2 ^ 31 \<Longrightarrow> unat (y :: u32) < 2 ^ 31 \<Longrightarrow> x \<le>s y \<longleftrightarrow> unat x \<le> unat y"
  unfolding word_sle_eq by (simp only: sint_small of_nat_le_iff)

lemma scast_small: "unat (x :: u32) < 2 ^ 31 \<Longrightarrow> (scast x :: 64 word) = ucast x"
  unfolding scast_eq ucast_eq by (simp only: sint_small uint_nat)

lemma sint_small_64: "unat (z :: 64 word) < 2 ^ 63 \<Longrightarrow> sint z = int (unat z)"
proof -
  assume a: "unat z < 2 ^ 63"
  have "sint z = signed_take_bit 63 (uint z)" by (simp add: sint_uint)
  also have "\<dots> = uint z"
  proof (rule signed_take_bit_int_eq_self)
    from a have "int (unat z) < int (2 ^ 63)" by (simp only: of_nat_less_iff)
    then show "uint z < 2 ^ 63" unfolding uint_nat by (simp only: of_nat_power of_nat_numeral)
  qed (rule order_trans [of _ 0], simp_all)
  finally show ?thesis by (simp only: uint_nat)
qed

lemma sless_64: "unat (x :: 64 word) < 2 ^ 63 \<Longrightarrow> unat (y :: 64 word) < 2 ^ 63 \<Longrightarrow> x <s y \<longleftrightarrow> unat x < unat y"
  unfolding word_sless_alt by (simp only: sint_small_64 of_nat_less_iff)

lemma unat_add_32: "unat a + unat b < 2 ^ 32 \<Longrightarrow> unat (a + b :: u32) = unat a + unat b"
  by (simp add: unat_word_ariths)

lemma unat_sub_32: "b \<le> a \<Longrightarrow> unat (a - b :: u32) = unat a - unat b"
  by (rule unat_sub)

lemma unat_pow2: "j < 32 \<Longrightarrow> unat (2 ^ j :: u32) = 2 ^ j"
proof -
  assume "j < 32"
  then have "(2 :: nat) ^ j < 2 ^ 32" by (rule power_strict_increasing) simp
  moreover have "(2 ^ j :: u32) = of_nat (2 ^ j)" by simp
  ultimately show ?thesis using \<open>j < 32\<close> by (simp only: unsigned_of_nat) (simp add: take_bit_nat_eq_self)
qed

section \<open>Bounded memory objects\<close>

definition rd :: "'a list \<Rightarrow> nat \<Rightarrow> 'a option" where
  "rd xs i = (if i < length xs then Some (xs ! i) else None)"

definition wr :: "'a list \<Rightarrow> nat \<Rightarrow> 'a \<Rightarrow> 'a list option" where
  "wr xs i x = (if i < length xs then Some (xs[i := x]) else None)"

lemma rd_Some_iff [mem_simps]: "rd xs i = Some x \<longleftrightarrow> i < length xs \<and> xs ! i = x"
  by (auto simp: rd_def)

lemma rd_None_iff [mem_simps]: "rd xs i = None \<longleftrightarrow> length xs \<le> i"
  by (auto simp: rd_def)

lemma rd_in [simp]: "i < length xs \<Longrightarrow> rd xs i = Some (xs ! i)"
  by (simp add: rd_def)

lemma rd_out [simp]: "length xs \<le> i \<Longrightarrow> rd xs i = None"
  by (simp add: rd_def)

lemma wr_in [simp]: "i < length xs \<Longrightarrow> wr xs i x = Some (xs[i := x])"
  by (simp add: wr_def)

lemma wr_out [simp]: "length xs \<le> i \<Longrightarrow> wr xs i x = None"
  by (simp add: wr_def)

lemma wr_Some_iff [mem_simps]: "wr xs i x = Some ys \<longleftrightarrow> i < length xs \<and> ys = xs[i := x]"
  by (auto simp: wr_def)

lemma rd_append_left [mem_simps]: "i < length xs \<Longrightarrow> rd (xs @ ys) i = Some (xs ! i)"
  by (simp add: nth_append)

lemma rd_append_right [mem_simps]: "rd (xs @ ys) (length xs + i) = rd ys i"
  by (simp add: rd_def)

lemma rd_append_mid [mem_simps]: "rd (xs @ y # ys) (length xs) = Some y"
  by (simp add: rd_def)

lemma drop_eq_ConsD: "drop i xs = y # ys \<Longrightarrow> i < length xs \<and> xs ! i = y \<and> drop (i + 1) xs = ys"
  by (metis Cons_nth_drop_Suc Suc_eq_plus1 drop_all list.distinct(1) list.inject not_le)

section \<open>Small ranges\<close>

lemma less_4_iff: "(b :: nat) < 4 \<longleftrightarrow> b \<in> {0, 1, 2, 3}"
  by auto

lemma less_8_iff: "(b :: nat) < 8 \<longleftrightarrow> b \<in> {0, 1, 2, 3, 4, 5, 6, 7}"
  by auto

lemma less_32_iff:
  "(b :: nat) < 32 \<longleftrightarrow> b < 8 \<or> b \<in> {8, 9, 10, 11, 12, 13, 14, 15, 16, 17, 18, 19, 20, 21, 22,
     23, 24, 25, 26, 27, 28, 29, 30, 31}"
  unfolding insert_iff empty_iff by presburger

lemma bit_times_2: "bit (a * 2 :: 'a::len word) n \<longleftrightarrow> n < LENGTH('a) \<and> 0 < n \<and> bit a (n - 1)"
  using bit_double_iff [of a n] by (auto simp: mult.commute)

lemmas bit_ops = bit_or_iff bit_and_iff bit_xor_iff bit_not_iff bit_drop_bit_eq bit_push_bit_iff
  bit_unsigned_iff bit_times_2

section \<open>C strings\<close>

text \<open>A C string is a \<open>char list\<close> without its NUL; \<open>NUL\<close> is the terminator in memory.\<close>

abbreviation NUL :: char where
  "NUL \<equiv> CHR 0x00"

text \<open>\<open>chr0 s\<close> is \<open>*s\<close> for a pointer into a C string.\<close>

definition chr0 :: "string \<Rightarrow> char" where
  "chr0 s = (case s of [] \<Rightarrow> NUL | c # _ \<Rightarrow> c)"

lemma chr0_simps [simp]: "chr0 [] = NUL" "chr0 (c # s) = c"
  by (simp_all add: chr0_def)

text \<open>\<open>strchr\<close>: the suffix that starts at the first occurrence.\<close>

fun strchr :: "string \<Rightarrow> char \<Rightarrow> string option" where
  "strchr [] c = None"
| "strchr (x # s) c = (if x = c then Some (x # s) else strchr s c)"

lemma strchr_None_iff: "strchr s c = None \<longleftrightarrow> c \<notin> set s"
  by (induction s) auto

lemma strchr_Some_iff:
  "strchr s c = Some t \<longleftrightarrow> (\<exists>u v. s = u @ c # v \<and> c \<notin> set u \<and> t = c # v)"
proof (induction s)
  case (Cons x s)
  then show ?case
  proof (cases "x = c")
    case True
    then show ?thesis by (auto simp: Cons_eq_append_conv)
  next
    case False
    with Cons show ?thesis
      by (auto simp: Cons_eq_append_conv)
  qed
qed simp

text \<open>\<open>strncmp (a, b, n) == 0\<close>, and \<open>strcmp\<close>, which compares as \<open>unsigned char\<close>.\<close>

fun strncmp_eq :: "nat \<Rightarrow> string \<Rightarrow> string \<Rightarrow> bool" where
  "strncmp_eq 0 a b = True"
| "strncmp_eq (Suc n) [] [] = True"
| "strncmp_eq (Suc n) (x # a) (y # b) = (x = y \<and> strncmp_eq n a b)"
| "strncmp_eq (Suc n) _ _ = False"

lemma strncmp_eq_length: "strncmp_eq (length k) (k @ r) b \<longleftrightarrow> (\<exists>z. b = k @ z)"
proof (induction k arbitrary: b)
  case (Cons x k)
  then show ?case by (cases b) auto
qed simp

fun strcmp :: "string \<Rightarrow> string \<Rightarrow> int" where
  "strcmp [] [] = 0"
| "strcmp [] (y # b) = - int (of_char y)"
| "strcmp (x # a) [] = int (of_char x)"
| "strcmp (x # a) (y # b) = (if x = y then strcmp a b else int (of_char x) - int (of_char y))"

text \<open>The string that starts at index \<open>i\<close> of a buffer, up to its NUL.\<close>

function cstr_at :: "char list \<Rightarrow> nat \<Rightarrow> string option" where
  "cstr_at b i = do { c \<leftarrow> rd b i;
     if c = NUL then Some [] else do { s \<leftarrow> cstr_at b (Suc i); Some (c # s) } }"
  by pat_completeness auto
termination
  by (relation "measure (\<lambda>(b, i). length b - i)") (auto simp: rd_Some_iff)

declare cstr_at.simps [simp del]

lemma cstr_at_append:
  assumes "NUL \<notin> set s"
  shows "cstr_at (p @ s @ NUL # q) (length p) = Some s"
  using assms
proof (induction s arbitrary: p)
  case Nil
  then show ?case by (subst cstr_at.simps) (simp add: rd_append_mid)
next
  case (Cons c s)
  from Cons.IH [of "p @ [c]"] Cons.prems show ?case
    by (subst cstr_at.simps) (auto simp: rd_append_mid)
qed

section \<open>Storing a string into a buffer\<close>

text \<open>\<open>while ((*p = *s++) != 0) p++;\<close> leaves \<open>p\<close> at the stored NUL.\<close>

fun store_str :: "char list \<Rightarrow> nat \<Rightarrow> string \<Rightarrow> (char list \<times> nat) option" where
  "store_str b p [] = do { b' \<leftarrow> wr b p NUL; Some (b', p) }"
| "store_str b p (c # s) = do { b' \<leftarrow> wr b p c; store_str b' (Suc p) s }"

definition put_at :: "'a list \<Rightarrow> nat \<Rightarrow> 'a list \<Rightarrow> 'a list" where
  "put_at b p xs = take p b @ xs @ drop (p + length xs) b"

lemma length_put_at [simp]: "p + length xs \<le> length b \<Longrightarrow> length (put_at b p xs) = length b"
  by (simp add: put_at_def)

lemma put_at_Cons: "p < length b \<Longrightarrow> put_at (b[p := x]) (Suc p) xs = put_at b p (x # xs)"
  by (simp add: put_at_def take_Suc_conv_app_nth drop_update_cancel)

lemma put_at_one: "p < length b \<Longrightarrow> put_at b p [x] = b[p := x]"
  by (simp add: put_at_def upd_conv_take_nth_drop)

lemma put_at_put_at:
  "p + length xs + length ys \<le> length b \<Longrightarrow>
   put_at (put_at b p xs) (p + length xs) ys = put_at b p (xs @ ys)"
  by (simp add: put_at_def ac_simps)

lemma store_str_eq:
  "store_str b p s = (if p + length s < length b
     then Some (put_at b p (s @ [NUL]), p + length s) else None)"
proof (induction s arbitrary: b p)
  case Nil
  then show ?case by (simp add: wr_def put_at_one)
next
  case (Cons c s)
  then show ?case by (auto simp: wr_def put_at_Cons)
qed

section \<open>Printing numbers\<close>

text \<open>\<open>%u\<close> (and \<open>%d\<close> of a value that is not negative) and \<open>%08lx\<close>.\<close>

definition digit :: "nat \<Rightarrow> char" where
  "digit n = char_of (if n < 10 then 48 + n else 87 + n)"

fun dec :: "nat \<Rightarrow> string" where
  "dec n = (if n < 10 then [digit n] else dec (n div 10) @ [digit (n mod 10)])"

declare dec.simps [simp del]

definition hex8 :: "u32 \<Rightarrow> string" where
  "hex8 w = map (\<lambda>i. digit (unat (take_bit 4 (drop_bit (28 - 4 * i) w)))) [0..<8]"

definition is_digit :: "char \<Rightarrow> bool" where
  "is_digit c \<longleftrightarrow> 48 \<le> (of_char c :: nat) \<and> (of_char c :: nat) \<le> 57"

lemma digit_is_digit: "n < 10 \<Longrightarrow> is_digit (digit n)"
  by (simp add: digit_def is_digit_def)

lemma dec_digits: "list_all is_digit (dec n)"
proof (induction n rule: dec.induct)
  case (1 n)
  then show ?case by (subst dec.simps) (auto simp: digit_is_digit)
qed

lemma dec_nonempty [simp]: "dec n \<noteq> []"
  by (subst dec.simps) auto

end
