(* ===== verification/EnvStore.thy ===== *)
theory EnvStore
  imports Prelude
begin

unbundle bit_operations_syntax

text \<open>
  The environment of \<open>common/cmd_nvedit.c\<close> and \<open>common/env_common.c\<close>: a block of memory that
  holds NUL-terminated \<open>name=value\<close> strings and ends with an empty one.  \<open>getenv\<close>,
  \<open>getenv_r\<close>, \<open>setenv\<close> and \<open>_do_setenv\<close> work on the bytes, by index, as the code does; the
  lemmas relate them to the list of entries (\<open>env_repr\<close>) and to the map from names to
  values (\<open>env_lookup\<close>), and the locale \<open>env_store\<close> states what the other components use.

  Modelled build: ARM little endian, \<open>CONFIG_CONSOLE_MUX\<close>, \<open>CONFIG_SERIAL_MULTI\<close>,
  \<open>CONFIG_HAS_UID\<close>, \<open>CONFIG_OVERWRITE_ETHADDR_ONCE\<close> and \<open>CONFIG_CMD_NET\<close> undefined;
  \<open>CONFIG_ENV_OVERWRITE\<close>, \<open>CONFIG_ENV_IS_NOWHERE\<close>, \<open>CONFIG_ENV_SIZE\<close> and the baud rate table
  are fields of \<open>env_cfg\<close>, and so are the functions that are not under \<open>src\<close>
  (\<open>simple_strtoul\<close>, \<open>crc32\<close>, \<open>htonl\<close>) and \<open>console_assign\<close>.
\<close>

section \<open>State\<close>

record env_cfg =
  CONFIG_ENV_OVERWRITE :: bool
  CONFIG_ENV_IS_NOWHERE :: bool
  CONFIG_ENV_SIZE :: nat
  baudrate_table :: "u32 list"
  simple_strtoul :: "string \<Rightarrow> nat \<Rightarrow> u32 \<times> string"
  crc32 :: "u32 \<Rightarrow> char list \<Rightarrow> u32"
  htonl :: "u32 \<Rightarrow> u32"
  console_assign :: "nat \<Rightarrow> string \<Rightarrow> int"

text \<open>\<open>env_data\<close> is the block at \<open>gd->env_addr\<close> (\<open>env_ptr->data\<close>); \<open>serial_in\<close> is what
  \<open>getc\<close> will return.\<close>

record env_state =
  env_valid :: bool
  gd_reloc :: bool
  env_data :: "char list"
  default_environment :: "char list"
  env_ptr_crc :: u32
  env_id :: u32
  gd_baudrate :: u32
  bi_ip_addr :: u32
  load_addr :: u32
  serial_in :: "char list"

text \<open>The block that \<open>env_get_addr (0)\<close> points to, and a store into it.\<close>

definition env_buf :: "env_state \<Rightarrow> char list" where
  "env_buf st = (if env_valid st then env_data st else default_environment st)"

definition set_env_buf :: "env_state \<Rightarrow> char list \<Rightarrow> env_state" where
  "set_env_buf st b = (if env_valid st then st\<lparr>env_data := b\<rparr> else st\<lparr>default_environment := b\<rparr>)"

lemma env_buf_set [simp]: "env_buf (set_env_buf st b) = b"
  by (simp add: env_buf_def set_env_buf_def)

section \<open>Reading\<close>

definition env_get_char_spec :: "env_state \<Rightarrow> nat \<Rightarrow> char option" where
  "env_get_char_spec st i = rd (env_data st) i"

definition env_get_char_init :: "env_state \<Rightarrow> nat \<Rightarrow> char option" where
  "env_get_char_init st i =
     (if env_valid st then env_get_char_spec st i else rd (default_environment st) i)"

definition env_get_char_memory :: "env_state \<Rightarrow> nat \<Rightarrow> char option" where
  "env_get_char_memory st i =
     (if env_valid st then rd (env_data st) i else rd (default_environment st) i)"

definition env_get_char :: "env_state \<Rightarrow> nat \<Rightarrow> char option" where
  "env_get_char st i = (if gd_reloc st then env_get_char_memory st i else env_get_char_init st i)"

lemma env_get_char_buf: "env_get_char st i = rd (env_buf st) i"
  by (simp add: env_get_char_def env_get_char_memory_def env_get_char_init_def
      env_get_char_spec_def env_buf_def)

text \<open>\<open>envmatch\<close>: \<open>s1\<close> is a name or a \<open>name=value\<close> pair, \<open>i2\<close> an index; \<open>Some None\<close> is \<open>-1\<close>.
  The loop reads on while the characters agree, also past the NUL of \<open>s1\<close>, which is a fault.\<close>

fun envmatch :: "env_state \<Rightarrow> string \<Rightarrow> nat \<Rightarrow> nat option option" where
  "envmatch st [] i2 =
     do { e \<leftarrow> env_get_char st i2;
          if e = NUL then None
          else if e = CHR ''='' then Some (Some (i2 + 1)) else Some None }"
| "envmatch st (c # s1) i2 =
     do { e \<leftarrow> env_get_char st i2;
          if c = e
          then if c = CHR ''='' then Some (Some (i2 + 1)) else envmatch st s1 (i2 + 1)
          else Some None }"

text \<open>The inner loop of \<open>getenv\<close>, which gives up at \<open>CONFIG_ENV_SIZE\<close> (\<open>Some None\<close>).\<close>

function getenv_nxt :: "nat \<Rightarrow> env_state \<Rightarrow> nat \<Rightarrow> nat option option" where
  "getenv_nxt sz st nxt =
     do { c \<leftarrow> env_get_char st nxt;
          if c = NUL then Some (Some nxt)
          else if nxt \<ge> sz then Some None else getenv_nxt sz st (nxt + 1) }"
  by pat_completeness auto
termination
  by (relation "measure (\<lambda>(sz, st, nxt). length (env_buf st) - nxt)")
    (auto simp: env_get_char_buf rd_Some_iff)

declare getenv_nxt.simps [simp del]

lemma getenv_nxt_ge: "getenv_nxt sz st i = Some (Some n) \<Longrightarrow> i \<le> n \<and> n < length (env_buf st)"
proof (induction sz st i rule: getenv_nxt.induct)
  case (1 sz st i)
  have IH: "getenv_nxt sz st (i + 1) = Some (Some n) \<Longrightarrow> i + 1 \<le> n \<and> n < length (env_buf st)"
    if "i < length (env_buf st)" "env_buf st ! i \<noteq> NUL" "\<not> sz \<le> i"
    using "1.IH" that by (simp add: env_get_char_buf)
  from "1.prems" show ?case
    by (subst (asm) getenv_nxt.simps)
      (auto simp: env_get_char_buf rd_Some_iff split: Option.bind_splits if_splits dest!: IH)
qed

text \<open>The common outer loop of \<open>getenv\<close> and \<open>getenv_r\<close>: the index of the value.\<close>

function getenv_loop :: "nat \<Rightarrow> env_state \<Rightarrow> string \<Rightarrow> nat \<Rightarrow> nat option option" where
  "getenv_loop sz st name i =
     do { c \<leftarrow> env_get_char st i;
          if c = NUL then Some None
          else case getenv_nxt sz st i of
            None \<Rightarrow> None
          | Some None \<Rightarrow> Some None
          | Some (Some nxt) \<Rightarrow>
              (case envmatch st name i of
                 None \<Rightarrow> None
               | Some None \<Rightarrow> getenv_loop sz st name (nxt + 1)
               | Some (Some val) \<Rightarrow> Some (Some val)) }"
  by pat_completeness auto
termination
  by (relation "measure (\<lambda>(sz, st, name, i). length (env_buf st) - i)")
    (auto dest: getenv_nxt_ge)

declare getenv_loop.simps [simp del]

text \<open>\<open>getenv\<close> returns a pointer into the block (\<open>None\<close> inside the result is NULL); callers
  read the string it points to.\<close>

definition getenv_addr :: "env_cfg \<Rightarrow> env_state \<Rightarrow> string \<Rightarrow> nat option option" where
  "getenv_addr cfg st name = getenv_loop (CONFIG_ENV_SIZE cfg) st name 0"

definition getenv :: "env_cfg \<Rightarrow> env_state \<Rightarrow> string \<Rightarrow> string option option" where
  "getenv cfg st name =
     do { r \<leftarrow> getenv_addr cfg st name;
          case r of None \<Rightarrow> Some None
          | Some val \<Rightarrow> do { s \<leftarrow> cstr_at (env_buf st) val; Some (Some s) } }"

text \<open>\<open>getenv_r\<close> copies into \<open>buf\<close>, the object of the caller; \<open>len\<close> is the length it passes.
  The loop state is the next store position \<open>p\<close>, \<open>val\<close> and \<open>n\<close>.\<close>

function getenv_r_loop ::
  "env_state \<Rightarrow> nat \<Rightarrow> char list \<Rightarrow> nat \<Rightarrow> nat \<Rightarrow> nat \<Rightarrow> (char list \<times> nat \<times> nat) option" where
  "getenv_r_loop st len buf p val n =
     (if len > n
      then do { c \<leftarrow> env_get_char st val;
                buf \<leftarrow> wr buf p c;
                if c = NUL then Some (buf, p + 1, n + 1)
                else getenv_r_loop st len buf (p + 1) (val + 1) (n + 1) }
      else Some (buf, p, n + 1))"
  by pat_completeness auto
termination
  by (relation "measure (\<lambda>(st, len, buf, p, val, n). len - n)") auto

declare getenv_r_loop.simps [simp del]

definition getenv_r :: "env_cfg \<Rightarrow> env_state \<Rightarrow> string \<Rightarrow> char list \<Rightarrow> nat \<Rightarrow> (int \<times> char list) option" where
  "getenv_r cfg st name buf len =
     do { r \<leftarrow> getenv_addr cfg st name;
          case r of None \<Rightarrow> Some (-1, buf)
          | Some val \<Rightarrow>
              do { (buf, p, n) \<leftarrow> getenv_r_loop st len buf 0 val 0;
                   buf \<leftarrow> (if len = n then wr buf p NUL else Some buf);
                   Some (int n, buf) } }"

section \<open>Writing: \<open>_do_setenv\<close>\<close>

text \<open>Search: \<open>for (nxt=env; *nxt; ++nxt);\<close> and the loop around it.  The result is the start of
  the matching entry, the index of its NUL and the index of its value.\<close>

function str_end :: "char list \<Rightarrow> nat \<Rightarrow> nat option" where
  "str_end b nxt = do { c \<leftarrow> rd b nxt; if c = NUL then Some nxt else str_end b (nxt + 1) }"
  by pat_completeness auto
termination
  by (relation "measure (\<lambda>(b, nxt). length b - nxt)") (auto simp: rd_Some_iff)

declare str_end.simps [simp del]

lemma str_end_ge: "str_end b i = Some n \<Longrightarrow> i \<le> n \<and> n < length b \<and> b ! n = NUL"
proof (induction b i rule: str_end.induct)
  case (1 b i)
  have IH: "str_end b (i + 1) = Some n \<Longrightarrow> i + 1 \<le> n \<and> n < length b \<and> b ! n = NUL"
    if "i < length b" "b ! i \<noteq> NUL"
    using "1.IH" that by simp
  from "1.prems" show ?case
    by (subst (asm) str_end.simps)
      (auto simp: rd_Some_iff split: Option.bind_splits if_splits dest!: IH)
qed

function setenv_search ::
  "env_state \<Rightarrow> string \<Rightarrow> nat \<Rightarrow> (nat \<times> nat \<times> nat) option option" where
  "setenv_search st name env =
     do { c \<leftarrow> rd (env_buf st) env;
          if c = NUL then Some None
          else case str_end (env_buf st) env of
            None \<Rightarrow> None
          | Some nxt \<Rightarrow>
              (case envmatch st name env of
                 None \<Rightarrow> None
               | Some (Some oldval) \<Rightarrow> Some (Some (env, nxt, oldval))
               | Some None \<Rightarrow> setenv_search st name (nxt + 1)) }"
  by pat_completeness auto
termination
  by (relation "measure (\<lambda>(st, name, env). length (env_buf st) - env)") (auto dest: str_end_ge)

declare setenv_search.simps [simp del]

text \<open>Deletion: \<open>for (;;) { *env = *nxt++; if ((*env == 0) && (*nxt == 0)) break; ++env; }\<close>.\<close>

function shift_down :: "char list \<Rightarrow> nat \<Rightarrow> nat \<Rightarrow> (char list \<times> nat) option" where
  "shift_down b env nxt =
     do { c \<leftarrow> rd b nxt;
          b' \<leftarrow> wr b env c;
          c2 \<leftarrow> (if c = NUL then rd b' (nxt + 1) else Some c);
          if c = NUL \<and> c2 = NUL then Some (b', env)
          else shift_down b' (env + 1) (nxt + 1) }"
  by pat_completeness auto
termination
  by (relation "measure (\<lambda>(b, env, nxt). length b - nxt)") (auto simp: rd_Some_iff wr_Some_iff)

declare shift_down.simps [simp del]

definition setenv_delete :: "char list \<Rightarrow> nat \<Rightarrow> nat \<Rightarrow> char list option" where
  "setenv_delete b env nxt =
     do { let nxt = nxt + 1;
          c \<leftarrow> rd b nxt;
          (b, env) \<leftarrow> (if c = NUL
             then if env > 0 then Some (b, env - 1)
                  else do { b \<leftarrow> wr b env NUL; Some (b, env) }
             else shift_down b env nxt);
          wr b (env + 1) NUL }"

text \<open>The end of the block: \<open>for (env=env_data; *env || *(env+1); ++env);\<close>\<close>

function find_end :: "char list \<Rightarrow> nat \<Rightarrow> nat option" where
  "find_end b env =
     do { c \<leftarrow> rd b env;
          if c \<noteq> NUL then find_end b (env + 1)
          else do { c2 \<leftarrow> rd b (env + 1); if c2 \<noteq> NUL then find_end b (env + 1) else Some env } }"
  by pat_completeness auto
termination
  by (relation "measure (\<lambda>(b, env). length b - env)") (auto simp: rd_Some_iff)

declare find_end.simps [simp del]

text \<open>The arguments after the name: \<open>=\<close> before the first, a blank before the others.\<close>

fun store_args :: "char list \<Rightarrow> nat \<Rightarrow> bool \<Rightarrow> string list \<Rightarrow> (char list \<times> nat) option" where
  "store_args b env isfirst [] = Some (b, env)"
| "store_args b env isfirst (val # vals) =
     do { b \<leftarrow> wr b env (if isfirst then CHR ''='' else CHR '' '');
          (b, env) \<leftarrow> store_str b (env + 1) val;
          store_args b env False vals }"

text \<open>\<open>Inl b\<close> is the overflow return, with the block as it is then.  The end of the block that is tested is that
  of the block in use: \<open>ENV_SIZE\<close> for the stored one (\<open>env_valid\<close>).  For \<open>default_environment\<close> the code tests
  \<open>ENV_SIZE\<close> too, whatever the size of that array is; a default block of another size is not modelled, and does
  not occur once \<open>env_relocate\<close> has run, which leaves \<open>env_valid\<close> set.\<close>

definition setenv_append :: "char list \<Rightarrow> string \<Rightarrow> string list \<Rightarrow> (char list + char list) option" where
  "setenv_append b name vals =
     do { env \<leftarrow> find_end b 0;
          let env = (if env > 0 then env + 1 else env);
          let len = length name + 2 + (\<Sum>v\<leftarrow>vals. length v + 1);
          if len > length b - env then Some (Inl b)
          else do { (b, env) \<leftarrow> store_str b env name;
                    (b, env) \<leftarrow> store_args b env True vals;
                    b \<leftarrow> wr b (env + 1) NUL;
                    Some (Inr b) } }"

definition env_crc_update :: "env_cfg \<Rightarrow> env_state \<Rightarrow> env_state" where
  "env_crc_update cfg st =
     (if CONFIG_ENV_IS_NOWHERE cfg then st else st\<lparr>env_ptr_crc := crc32 cfg 0 (env_data st)\<rparr>)"

text \<open>The checks made when the variable exists: \<open>Inl rc\<close> returns, \<open>Inr\<close> goes on.\<close>

definition console_of :: "string \<Rightarrow> nat option" where
  "console_of name = (if name = ''stdin'' then Some 0 else if name = ''stdout'' then Some 1
     else if name = ''stderr'' then Some 2 else None)"

definition setenv_baudrate :: "env_cfg \<Rightarrow> env_state \<Rightarrow> string list \<Rightarrow> (int + env_state) option" where
  "setenv_baudrate cfg st vals =
     (case vals of [] \<Rightarrow> None
      | v # _ \<Rightarrow>
          let baudrate = fst (simple_strtoul cfg v 10) in
          if baudrate \<notin> set (baudrate_table cfg) then Some (Inl 1)
          else case dropWhile (\<lambda>c. c \<noteq> CHR 0x0D) (serial_in st) of
                 [] \<Rightarrow> None
               | _ # rest \<Rightarrow> Some (Inr (st\<lparr>gd_baudrate := baudrate, serial_in := rest\<rparr>)))"

definition setenv_checks ::
  "env_cfg \<Rightarrow> env_state \<Rightarrow> string \<Rightarrow> string list \<Rightarrow> (int + env_state) option" where
  "setenv_checks cfg st name vals =
     (if \<not> CONFIG_ENV_OVERWRITE cfg \<and> (name = ''serial#'' \<or> name = ''ethaddr'')
      then Some (Inl 1)
      else case console_of name of
        Some console \<Rightarrow>
          (case vals of [] \<Rightarrow> Some (Inl 1)
           | v # _ \<Rightarrow> if console_assign cfg console v < 0 then Some (Inl 1) else Some (Inr st))
      | None \<Rightarrow> if name = ''baudrate'' then setenv_baudrate cfg st vals else Some (Inr st))"

text \<open>The updates made after the store, when the variable is one that is cached elsewhere.\<close>

fun parse_ip :: "env_cfg \<Rightarrow> nat \<Rightarrow> u32 \<Rightarrow> string \<Rightarrow> u32" where
  "parse_ip cfg 0 addr s = addr"
| "parse_ip cfg (Suc i) addr s =
     (let (val, e) = simple_strtoul cfg s 10
      in parse_ip cfg i (push_bit 8 addr OR (val AND 0xFF)) (tl e))"

definition setenv_cached :: "env_cfg \<Rightarrow> env_state \<Rightarrow> string \<Rightarrow> string \<Rightarrow> env_state" where
  "setenv_cached cfg st name val =
     (if name = ''ipaddr''
      then st\<lparr>bi_ip_addr := htonl cfg (parse_ip cfg 4 0 val)\<rparr>
      else if name = ''loadaddr'' then st\<lparr>load_addr := fst (simple_strtoul cfg val 16)\<rparr>
      else st)"

text \<open>\<open>argv\<close> is \<open>argv[0] .. argv[argc-1]\<close>; the callers pass a name, so \<open>argc\<close> is 2 or more.\<close>

definition do_setenv_internal ::
  "env_cfg \<Rightarrow> env_state \<Rightarrow> string list \<Rightarrow> (int \<times> env_state) option" where
  "do_setenv_internal cfg st argv =
     (case argv of
        _ # name # vals \<Rightarrow>
          if CHR ''='' \<in> set name then Some (1, st)
          else do {
            let st = st\<lparr>env_id := env_id st + 1\<rparr>;
            found \<leftarrow> setenv_search st name 0;
            deleted \<leftarrow>
              (case found of None \<Rightarrow> Some (Inr st)
               | Some (env, nxt, oldval) \<Rightarrow>
                   do { r \<leftarrow> setenv_checks cfg st name vals;
                        case r of Inl rc \<Rightarrow> Some (Inl rc)
                        | Inr st \<Rightarrow>
                            do { b \<leftarrow> setenv_delete (env_buf st) env nxt;
                                 Some (Inr (set_env_buf st b)) } });
            case deleted of
              Inl rc \<Rightarrow> Some (rc, st)
            | Inr st \<Rightarrow>
                (case vals of
                   [] \<Rightarrow> Some (0, env_crc_update cfg st)
                 | val # _ \<Rightarrow>
                     do { r \<leftarrow> setenv_append (env_buf st) name vals;
                          case r of
                            Inl b \<Rightarrow> Some (1, set_env_buf st b)
                          | Inr b \<Rightarrow>
                              Some (0, setenv_cached cfg (env_crc_update cfg (set_env_buf st b))
                                         name val) }) }
      | _ \<Rightarrow> None)"

definition setenv ::
  "env_cfg \<Rightarrow> env_state \<Rightarrow> string \<Rightarrow> string option \<Rightarrow> (int \<times> env_state) option" where
  "setenv cfg st varname varvalue =
     (case varvalue of
        None \<Rightarrow> do_setenv_internal cfg st [''setenv'', varname]
      | Some v \<Rightarrow> do_setenv_internal cfg st [''setenv'', varname, v])"

text \<open>The command: \<open>cmd_usage\<close> prints the help text when there is no name.\<close>

definition do_setenv :: "env_cfg \<Rightarrow> env_state \<Rightarrow> string list \<Rightarrow> (int \<times> env_state) option" where
  "do_setenv cfg st argv =
     (if length argv < 2 then Some (1, st) else do_setenv_internal cfg st argv)"

text \<open>\<open>askenv\<close>: \<open>cbsize\<close> is \<open>CONFIG_SYS_CBSIZE\<close>, the size of \<open>message\<close> and of \<open>console_buffer\<close>;
  \<open>readline\<close> gives its result and what it leaves in \<open>console_buffer\<close>.  A message that does not
  fit is a fault.\<close>

fun askenv_join :: "string \<Rightarrow> string list \<Rightarrow> string" where
  "askenv_join message [] = message"
| "askenv_join message (a # as) =
     askenv_join (if message \<noteq> [] then message @ CHR '' '' # a else a) as"

definition askenv_prompt :: "env_cfg \<Rightarrow> nat \<Rightarrow> string list \<Rightarrow> (string \<times> int) option" where
  "askenv_prompt cfg cbsize argv =
     do { let enter = ''Please enter '' @ [CHR 0x27] @ argv ! 1 @ [CHR 0x27] @ '':'';
          let (message, len) =
            (if length argv = 2 then (enter, int cbsize - 1)
             else if length argv = 3 then (enter, sint (fst (simple_strtoul cfg (argv ! 2) 10)))
             else (askenv_join [] (butlast (drop 2 argv)), sint (fst (simple_strtoul cfg (last argv) 10))));
          if length message < cbsize then Some (message, len) else None }"

definition do_askenv ::
  "env_cfg \<Rightarrow> nat \<Rightarrow> (string \<Rightarrow> int \<times> char list) \<Rightarrow> env_state \<Rightarrow> string list \<Rightarrow>
   (int \<times> env_state) option" where
  "do_askenv cfg cbsize readline st argv =
     (if length argv < 2 then Some (1, st)
      else do {
        (message, limit) \<leftarrow> askenv_prompt cfg cbsize argv;
        let limit = (if limit \<ge> int cbsize then int cbsize - 1 else limit);
        if limit \<le> 0 then Some (1, st)
        else do {
          let (len, console_buffer) = readline message;
          console_buffer \<leftarrow> (if limit < len then wr console_buffer (nat limit) NUL
                             else Some console_buffer);
          line \<leftarrow> cstr_at console_buffer 0;
          do_setenv_internal cfg st
            (if line \<noteq> [] then [argv ! 0, argv ! 1, line] else [argv ! 0, argv ! 1]) } })"

definition set_default_env :: "env_cfg \<Rightarrow> env_state \<Rightarrow> env_state" where
  "set_default_env cfg st =
     (if length (default_environment st) > length (env_data st) then st
      else (env_crc_update cfg (st\<lparr>env_ptr_crc := 0, env_data := default_environment st @
              replicate (length (env_data st) - length (default_environment st)) NUL\<rparr>))
             \<lparr>env_valid := True\<rparr>)"

section \<open>Printing and asking\<close>

text \<open>\<open>printenv\<close> prints through a buffer of 16 characters and a NUL; \<open>buf\<close> is what \<open>buf[0 .. j-1]\<close>
  holds, \<open>out\<close> what has been printed, and \<open>ctrlc k\<close> the answer of the call of \<open>ctrlc\<close> at
  index \<open>k\<close>.\<close>

definition puts :: "char list \<Rightarrow> string" where
  "puts buf = takeWhile (\<lambda>c. c \<noteq> NUL) buf"

function printenv_str ::
  "env_state \<Rightarrow> nat \<Rightarrow> nat \<Rightarrow> char list \<Rightarrow> string \<Rightarrow> (nat \<times> char list \<times> string) option" where
  "printenv_str st state i buf out =
     do { c \<leftarrow> env_get_char st i;
          let buf = buf @ [c];
          let (buf, out) = (if length buf = 16 then ([], if state \<le> 1 then out @ puts buf else out)
                            else (buf, out));
          if c \<noteq> NUL then printenv_str st state (i + 1) buf out else Some (i + 1, buf, out) }"
  by pat_completeness auto
termination
  by (relation "measure (\<lambda>(st, state, i, buf, out). length (env_buf st) - i)")
    (auto simp: env_get_char_buf rd_Some_iff)

declare printenv_str.simps [simp del]

lemma printenv_str_gt: "printenv_str st state i buf out = Some (j, r) \<Longrightarrow> i < j \<and> j \<le> length (env_buf st)"
proof (induction st state i buf out rule: printenv_str.induct)
  case (1 st state i buf out)
  obtain c where c: "env_get_char st i = Some c"
    using "1.prems" by (subst (asm) printenv_str.simps) (auto split: Option.bind_splits)
  then have i: "i < length (env_buf st)" by (simp add: env_get_char_buf rd_Some_iff)
  show ?case
  proof (cases "c = NUL")
    case True
    with "1.prems" c i show ?thesis
      by (subst (asm) printenv_str.simps) (auto simp: Let_def split: if_splits)
  next
    case False
    from "1.IH" [OF c refl _ refl False] "1.prems" c False show ?thesis
      by (subst (asm) (2) printenv_str.simps) (auto simp: Let_def split: if_splits)
  qed
qed

function printenv_loop ::
  "env_state \<Rightarrow> (nat \<Rightarrow> bool) \<Rightarrow> string \<Rightarrow> nat \<Rightarrow> nat \<Rightarrow> string \<Rightarrow> (int \<times> string) option" where
  "printenv_loop st ctrlc name state i out =
     (if state = 0 then Some (0, out)
      else do {
        c \<leftarrow> env_get_char st i;
        if c = NUL then Some (int i, out)
        else do {
          state \<leftarrow> (if state = 2
            then do { r \<leftarrow> envmatch st name i; Some (if r \<noteq> None then 0 else state) }
            else Some state);
          case printenv_str st state i [] out of
            None \<Rightarrow> None
          | Some (i', buf, out) \<Rightarrow>
              let out = (if state \<le> 1 then out @ puts buf @ [CHR 0x0A] else out) in
              if ctrlc i' then Some (-1, out)
              else printenv_loop st ctrlc name state i' out } })"
  by pat_completeness auto
termination
  by (relation "measure (\<lambda>(st, ctrlc, name, state, i, out). length (env_buf st) - i)")
    (auto dest: printenv_str_gt)

declare printenv_loop.simps [simp del]

definition printenv :: "env_state \<Rightarrow> (nat \<Rightarrow> bool) \<Rightarrow> string \<Rightarrow> nat \<Rightarrow> (int \<times> string) option" where
  "printenv st ctrlc name state = printenv_loop st ctrlc name state 0 []"

fun do_printenv_names ::
  "env_state \<Rightarrow> (nat \<Rightarrow> bool) \<Rightarrow> string list \<Rightarrow> int \<Rightarrow> string \<Rightarrow> (int \<times> string) option" where
  "do_printenv_names st ctrlc [] rcode out = Some (rcode, out)"
| "do_printenv_names st ctrlc (name # names) rcode out =
     do { (r, o1) \<leftarrow> printenv st ctrlc name 2;
          if r \<noteq> 0
          then do_printenv_names st ctrlc names (rcode + 1)
                 (out @ o1 @ ''## Error: '' @ [CHR 0x22] @ name @ [CHR 0x22] @ '' not defined'' @ [CHR 0x0A])
          else do_printenv_names st ctrlc names rcode (out @ o1) }"

text \<open>\<open>size_msg\<close> is the text of the final \<open>printf\<close> with the number of bytes.\<close>

definition do_printenv ::
  "(nat \<Rightarrow> string) \<Rightarrow> env_state \<Rightarrow> (nat \<Rightarrow> bool) \<Rightarrow> string list \<Rightarrow> (int \<times> string) option" where
  "do_printenv size_msg st ctrlc argv =
     (case argv of
        [_] \<Rightarrow> do { (rcode, out) \<leftarrow> printenv st ctrlc [] 1;
                   if rcode < 0 then Some (1, out)
                   else Some (0, out @ size_msg (nat rcode)) }
      | _ \<Rightarrow> do_printenv_names st ctrlc (tl argv) 0 [])"
section \<open>Entries\<close>

text \<open>The bytes of a list of entries, and the blocks that represent it.  An empty block starts
  with two NULs, which the search for its end relies on.\<close>

definition enc :: "string list \<Rightarrow> char list" where
  "enc es = concat (map (\<lambda>e. e @ [NUL]) es)"

definition entry_name :: "string \<Rightarrow> string" where
  "entry_name e = takeWhile (\<lambda>c. c \<noteq> CHR ''='') e"

definition entry_value :: "string \<Rightarrow> string" where
  "entry_value e = tl (dropWhile (\<lambda>c. c \<noteq> CHR ''='') e)"

definition entry_ok :: "string \<Rightarrow> bool" where
  "entry_ok e \<longleftrightarrow> NUL \<notin> set e \<and> CHR ''='' \<in> set e"

definition env_repr :: "char list \<Rightarrow> string list \<Rightarrow> bool" where
  "env_repr b es \<longleftrightarrow> (\<forall>e\<in>set es. entry_ok e) \<and> distinct (map entry_name es) \<and>
     (\<exists>junk. b = enc es @ NUL # junk \<and> (es = [] \<longrightarrow> junk \<noteq> [] \<and> hd junk = NUL))"

definition env_lookup :: "string list \<Rightarrow> string \<Rightarrow> string option" where
  "env_lookup es = map_of (map (\<lambda>e. (entry_name e, entry_value e)) es)"

lemma enc_simps [simp]: "enc [] = []" "enc (e # es) = e @ NUL # enc es"
  "enc (es @ es') = enc es @ enc es'"
  by (simp_all add: enc_def)

lemma entry_split: "entry_ok e \<Longrightarrow> e = entry_name e @ CHR ''='' # entry_value e"
proof -
  assume "entry_ok e"
  then obtain u v where e: "e = u @ CHR ''='' # v" "CHR ''='' \<notin> set u"
    by (metis entry_ok_def split_list_first)
  then have "entry_name e = u" "entry_value e = v"
    by (auto simp: entry_name_def entry_value_def takeWhile_append dropWhile_append)
  with e show ?thesis by simp
qed

lemma entry_name_no_eq: "CHR ''='' \<notin> set (entry_name e)"
  by (auto simp: entry_name_def dest: set_takeWhileD)

lemma entry_parts:
  assumes "CHR ''='' \<notin> set n"
  shows "entry_name (n @ CHR ''='' # v) = n" and "entry_value (n @ CHR ''='' # v) = v"
  using assms by (auto simp: entry_name_def entry_value_def takeWhile_append dropWhile_append)

section \<open>Matching and searching\<close>

lemma envmatch_entry:
  assumes "CHR ''='' \<notin> set n" and "NUL \<notin> set n" and "entry_ok e"
    and "env_buf st = p @ e @ NUL # q"
  shows "envmatch st n (length p) =
     Some (if entry_name e = n then Some (length p + length n + 1) else None)"
  using assms
proof (induction n arbitrary: p e)
  case Nil
  then show ?case
    by (cases e) (auto simp: env_get_char_buf rd_append_mid entry_ok_def entry_name_def)
next
  case (Cons c n)
  show ?case
  proof (cases e)
    case Nil
    with Cons.prems show ?thesis by (simp add: entry_ok_def)
  next
    case e: (Cons x xs)
    show ?thesis
    proof (cases "c = x")
      case False
      with Cons.prems e show ?thesis
        by (auto simp: env_get_char_buf rd_append_mid entry_name_def)
    next
      case True
      then have ok: "entry_ok xs" using Cons.prems e by (auto simp: entry_ok_def)
      have "envmatch st n (length (p @ [c])) =
          Some (if entry_name xs = n then Some (length (p @ [c]) + length n + 1) else None)"
        using Cons.prems e True by (intro Cons.IH ok) auto
      with Cons.prems e True show ?thesis
        by (auto simp: env_get_char_buf rd_append_mid entry_name_def)
    qed
  qed
qed

lemma str_end_append:
  assumes "NUL \<notin> set e"
  shows "str_end (p @ e @ NUL # q) (length p) = Some (length p + length e)"
  using assms
proof (induction e arbitrary: p)
  case Nil
  then show ?case by (subst str_end.simps) (simp add: rd_append_mid)
next
  case (Cons c e)
  from Cons.IH [of "p @ [c]"] Cons.prems show ?case
    by (subst str_end.simps) (auto simp: rd_append_mid)
qed

lemma getenv_nxt_append:
  assumes "NUL \<notin> set e" and "env_buf st = p @ e @ NUL # q" and "length p + length e \<le> sz"
  shows "getenv_nxt sz st (length p) = Some (Some (length p + length e))"
  using assms
proof (induction e arbitrary: p)
  case Nil
  then show ?case by (subst getenv_nxt.simps) (simp add: env_get_char_buf rd_append_mid)
next
  case (Cons c e)
  from Cons.IH [of "p @ [c]"] Cons.prems show ?case
    by (subst getenv_nxt.simps) (auto simp: env_get_char_buf rd_append_mid)
qed

text \<open>The index of the value of \<open>n\<close> in a block that starts with the entries.\<close>

lemma getenv_loop_entries:
  assumes "\<forall>e\<in>set es. entry_ok e" and "CHR ''='' \<notin> set n" and "NUL \<notin> set n"
    and "env_buf st = p @ enc es @ NUL # q" and "length (p @ enc es) \<le> sz"
  shows "\<exists>r. getenv_loop sz st n (length p) = Some r \<and>
     (case r of None \<Rightarrow> env_lookup es n = None
      | Some val \<Rightarrow> \<exists>v. env_lookup es n = Some v \<and> cstr_at (env_buf st) val = Some v)"
  using assms
proof (induction es arbitrary: p)
  case Nil
  then show ?case
    by (subst getenv_loop.simps) (simp add: env_get_char_buf rd_append_mid env_lookup_def)
next
  case (Cons e es)
  have ok: "entry_ok e" and b: "env_buf st = p @ e @ NUL # (enc es @ NUL # q)"
    using Cons.prems by auto
  have nxt: "getenv_nxt sz st (length p) = Some (Some (length p + length e))"
    using ok Cons.prems by (intro getenv_nxt_append [OF _ b]) (auto simp: entry_ok_def)
  have mt: "envmatch st n (length p) =
      Some (if entry_name e = n then Some (length p + length n + 1) else None)"
    using Cons.prems ok b by (intro envmatch_entry) auto
  have first: "env_get_char st (length p) = Some (hd e)" "hd e \<noteq> NUL"
    using b ok by (cases e; auto simp: env_get_char_buf rd_append_mid entry_ok_def)+
  show ?case
  proof (cases "entry_name e = n")
    case True
    define v where "v = entry_value e"
    have e: "e = n @ CHR ''='' # v" using entry_split [OF ok] True by (simp add: v_def)
    have "env_buf st = (p @ n @ [CHR ''='']) @ v @ NUL # (enc es @ NUL # q)" using b e by simp
    moreover have "NUL \<notin> set v" using ok e by (auto simp: entry_ok_def)
    ultimately have "cstr_at (env_buf st) (length p + length n + 1) = Some v"
      using cstr_at_append [of v "p @ n @ [CHR ''='']"] by simp
    then show ?thesis using first nxt mt True
      by (subst getenv_loop.simps) (simp add: env_lookup_def v_def)
  next
    case False
    have skip: "getenv_loop sz st n (length p) = getenv_loop sz st n (length (p @ e @ [NUL]))"
      using first nxt mt False by (subst getenv_loop.simps) simp
    have rest: "env_lookup (e # es) n = env_lookup es n"
      using False by (simp add: env_lookup_def)
    show ?thesis unfolding skip rest using Cons.prems by (intro Cons.IH) auto
  qed
qed

lemma getenv_repr:
  assumes "env_repr (env_buf st) es" and "CHR ''='' \<notin> set n" and "NUL \<notin> set n"
    and "length (env_buf st) \<le> CONFIG_ENV_SIZE cfg"
  shows "getenv cfg st n = Some (env_lookup es n)"
proof -
  obtain q where b: "env_buf st = [] @ enc es @ NUL # q" and ok: "\<forall>e\<in>set es. entry_ok e"
    using assms(1) by (auto simp: env_repr_def)
  have "length ([] @ enc es) \<le> CONFIG_ENV_SIZE cfg" using b assms(4) by simp
  from getenv_loop_entries [OF ok assms(2,3) b this] show ?thesis
    by (auto simp: getenv_def getenv_addr_def split: option.splits)
qed

section \<open>The search of \<open>_do_setenv\<close>\<close>

lemma setenv_search_step:
  assumes "entry_ok e" and "CHR ''='' \<notin> set n" "NUL \<notin> set n"
    and b: "env_buf st = p @ e @ NUL # q"
  shows "setenv_search st n (length p) =
      (if entry_name e = n
       then Some (Some (length p, length p + length e, length p + length n + 1))
       else setenv_search st n (length (p @ e @ [NUL])))"
proof -
  have "str_end (env_buf st) (length p) = Some (length p + length e)"
    using assms str_end_append [of e p] by (simp add: entry_ok_def)
  moreover have "rd (env_buf st) (length p) = Some (hd e)" "hd e \<noteq> NUL"
    using assms by (cases e; auto simp: rd_append_mid entry_ok_def)+
  ultimately show ?thesis using envmatch_entry [OF assms(2,3,1) b]
    by (subst setenv_search.simps) simp
qed

lemma setenv_search_none:
  assumes "\<forall>e\<in>set es. entry_ok e" and "CHR ''='' \<notin> set n" and "NUL \<notin> set n"
    and "env_buf st = p @ enc es @ NUL # q" and "n \<notin> entry_name ` set es"
  shows "setenv_search st n (length p) = Some None"
  using assms
proof (induction es arbitrary: p)
  case Nil
  then show ?case by (subst setenv_search.simps) (simp add: rd_append_mid)
next
  case (Cons e es)
  then have "setenv_search st n (length p) = setenv_search st n (length (p @ e @ [NUL]))"
    using setenv_search_step [of e n st p "enc es @ NUL # q"] by auto
  also have "\<dots> = Some None" using Cons.prems by (intro Cons.IH) auto
  finally show ?case .
qed

lemma setenv_search_found:
  assumes "\<forall>e\<in>set (es1 @ e # es2). entry_ok e" and "CHR ''='' \<notin> set n" and "NUL \<notin> set n"
    and "env_buf st = p @ enc (es1 @ e # es2) @ NUL # q"
    and "entry_name e = n" and "n \<notin> entry_name ` set es1"
  shows "setenv_search st n (length p) =
     Some (Some (length p + length (enc es1), length p + length (enc es1) + length e,
                 length p + length (enc es1) + length n + 1))"
  using assms
proof (induction es1 arbitrary: p)
  case Nil
  then show ?case using setenv_search_step [of e n st p "enc es2 @ NUL # q"] by auto
next
  case (Cons d es1)
  then have "setenv_search st n (length p) = setenv_search st n (length (p @ d @ [NUL]))"
    using setenv_search_step [of d n st p "enc (es1 @ e # es2) @ NUL # q"] by auto
  also have "\<dots> = Some (Some (length (p @ d @ [NUL]) + length (enc es1),
      length (p @ d @ [NUL]) + length (enc es1) + length e,
      length (p @ d @ [NUL]) + length (enc es1) + length n + 1))"
    using Cons.prems by (intro Cons.IH) auto
  finally show ?case by (simp add: ac_simps)
qed

section \<open>Deleting an entry\<close>

text \<open>The bytes of a non-empty list of entries have no two NULs in a row before their end.\<close>

fun no_gap :: "char list \<Rightarrow> bool" where
  "no_gap [] = False"
| "no_gap [c] = (c = NUL)"
| "no_gap (c # d # w) = (\<not> (c = NUL \<and> d = NUL) \<and> no_gap (d # w))"

lemma no_gap_append:
  assumes "NUL \<notin> set e" and "e \<noteq> []" and "w = [] \<or> (no_gap w \<and> hd w \<noteq> NUL)"
  shows "no_gap (e @ NUL # w)"
  using assms
proof (induction e)
  case (Cons c e)
  then show ?case by (cases e; cases w) auto
qed simp

lemma entry_nonempty: "entry_ok e \<Longrightarrow> e \<noteq> [] \<and> hd e \<noteq> NUL"
  by (cases e) (auto simp: entry_ok_def)

lemma no_gap_enc: "\<forall>e\<in>set es. entry_ok e \<Longrightarrow> es \<noteq> [] \<Longrightarrow> no_gap (enc es) \<and> hd (enc es) \<noteq> NUL"
proof (induction es)
  case (Cons e es)
  then have "enc es = [] \<or> (no_gap (enc es) \<and> hd (enc es) \<noteq> NUL)" by (cases es) auto
  with Cons.prems show ?case using entry_nonempty [of e]
    by (auto simp: entry_ok_def intro: no_gap_append)
qed simp

lemma shift_down_eq:
  assumes "no_gap w" and "drop q b = w @ NUL # junk" and "p < q"
  shows "\<exists>b'. shift_down b p q = Some (b', p + length w - 1) \<and> length b' = length b \<and>
     take (p + length w) b' = take p b @ w"
  using assms
proof (induction w arbitrary: b p q rule: no_gap.induct)
  case (2 c)
  have q: "q + 1 < length b" "b ! q = NUL" "b ! (q + 1) = NUL"
    using 2 by (auto dest!: drop_eq_ConsD)
  then show ?case using 2 by (subst shift_down.simps) (simp add: take_Suc_conv_app_nth)
next
  case (3 c d w)
  have q: "q < length b" "b ! q = c" "drop (q + 1) b = d # w @ NUL # junk"
    using 3 drop_eq_ConsD [of q b c] by auto
  then have q1: "q + 1 < length b" and d: "b ! (q + 1) = d"
    using drop_eq_ConsD [of "q + 1" b d] by auto
  let ?b = "b[p := c]"
  have "drop (q + 1) ?b = (d # w) @ NUL # junk" using q 3 by simp
  moreover have "no_gap (d # w)" "\<not> (c = NUL \<and> d = NUL)" using 3 by auto
  ultimately obtain b' where b': "shift_down ?b (p + 1) (q + 1) = Some (b', p + 1 + length (d # w) - 1)"
      "length b' = length ?b" "take (p + 1 + length (d # w)) b' = take (p + 1) ?b @ d # w"
    using 3 by (metis add_less_mono1)
  have "shift_down b p q = shift_down ?b (p + 1) (q + 1)"
    using q q1 d 3 by (subst shift_down.simps) auto
  then show ?case using b' 3 q by (simp add: take_Suc_conv_app_nth)
qed simp

lemma take_append_drop: "take k b = xs \<Longrightarrow> b = xs @ drop k b"
  by (metis append_take_drop_id)

lemma setenv_delete_entries:
  assumes "\<forall>x\<in>set (es1 @ e # es2). entry_ok x"
    and "b = enc es1 @ e @ NUL # enc es2 @ NUL # junk"
  shows "\<exists>junk'. setenv_delete b (length (enc es1)) (length (enc es1) + length e) =
      Some (enc (es1 @ es2) @ NUL # junk') \<and>
      (es1 @ es2 = [] \<longrightarrow> junk' \<noteq> [] \<and> hd junk' = NUL) \<and>
      length (enc (es1 @ es2) @ NUL # junk') = length b"
proof (cases "es2 = []")
  case True
  let ?k = "length (enc es1)"
  have e: "e \<noteq> []" using assms(1) entry_nonempty by auto
  have nul: "rd b (?k + length e + 1) = Some NUL"
    using assms(2) True by (simp add: rd_def nth_append)
  obtain x y ys where e2: "e @ [NUL] = x # y # ys" using e by (cases e; cases "tl e") auto
  have "b = enc es1 @ (e @ [NUL]) @ NUL # junk" using assms(2) True by simp
  then have b: "b = enc es1 @ x # y # ys @ NUL # junk" unfolding e2 by simp
  show ?thesis
  proof (cases "?k > 0")
    case True
    then have "setenv_delete b ?k (?k + length e) = Some (b[?k := NUL])"
      using nul b by (simp add: setenv_delete_def)
    then show ?thesis using True b \<open>es2 = []\<close> by (auto simp: list_update_append)
  next
    case False
    then have "es1 = []" by (cases es1) auto
    moreover from this have "setenv_delete b 0 (length e) = Some (b[0 := NUL, 1 := NUL])"
      using nul b by (simp add: setenv_delete_def)
    ultimately show ?thesis using b \<open>es2 = []\<close> by simp
  qed
next
  case False
  let ?k = "length (enc es1)" and ?q = "length (enc es1) + length e + 1"
  have gap: "no_gap (enc es2)" "hd (enc es2) \<noteq> NUL" using no_gap_enc [of es2] assms(1) False by auto
  have drop: "drop ?q b = enc es2 @ NUL # junk" using assms(2) by simp
  obtain b' where b': "shift_down b ?k ?q = Some (b', ?k + length (enc es2) - 1)"
      "length b' = length b" "take (?k + length (enc es2)) b' = take ?k b @ enc es2"
    using shift_down_eq [OF gap(1) drop, of ?k] by auto
  obtain y ys where es2: "enc es2 = y # ys" "y \<noteq> NUL" using gap by (cases "enc es2") auto
  have head: "rd b ?q = Some y" using drop es2 drop_eq_ConsD [of ?q b] by auto
  have pos: "?k + length (enc es2) < length b" using assms(2) by simp
  have "setenv_delete b ?k (?k + length e) = Some (b'[?k + length (enc es2) := NUL])"
    using head b' es2 pos by (simp add: setenv_delete_def)
  moreover have "b' = enc es1 @ enc es2 @ drop (?k + length (enc es2)) b'"
    using take_append_drop [OF b'(3)] assms(2) by simp
  then have "b'[?k + length (enc es2) := NUL] =
      enc es1 @ enc es2 @ NUL # drop (?k + length (enc es2) + 1) b'"
    using pos b'(2) by (subst upd_conv_take_nth_drop) (simp_all add: b'(3) assms(2))
  ultimately show ?thesis using False b'(2) pos by (auto dest: arg_cong [where f = length])
qed

section \<open>Appending an entry\<close>

lemma find_end_gap:
  assumes "no_gap w" and "drop i b = w @ NUL # junk"
  shows "find_end b i = Some (i + length w - 1)"
  using assms
proof (induction w arbitrary: i rule: no_gap.induct)
  case (2 c)
  then show ?case by (subst find_end.simps) (auto dest!: drop_eq_ConsD)
next
  case (3 c d w)
  then have q: "i < length b" "b ! i = c" "drop (i + 1) b = d # w @ NUL # junk"
    using drop_eq_ConsD [of i b c] by auto
  then have "find_end b (i + 1) = Some (i + 1 + length (d # w) - 1)" using 3 by auto
  then show ?case using q 3 drop_eq_ConsD [of "i + 1" b d] by (subst find_end.simps) auto
qed simp

lemma find_end_repr:
  assumes "env_repr b es"
  shows "find_end b 0 = Some (length (enc es) - 1)"
proof (cases "es = []")
  case True
  then obtain x where "b = NUL # NUL # x" using assms by (auto simp: env_repr_def neq_Nil_conv)
  then show ?thesis using True by (subst find_end.simps) simp
next
  case False
  then show ?thesis using assms no_gap_enc [of es] find_end_gap [of "enc es" 0 b]
    by (auto simp: env_repr_def)
qed

text \<open>The text that the arguments of \<open>setenv\<close> add to the name.\<close>

fun args_str :: "bool \<Rightarrow> string list \<Rightarrow> string" where
  "args_str isfirst [] = []"
| "args_str isfirst (v # vs) = (if isfirst then CHR ''='' else CHR '' '') # v @ args_str False vs"

lemma length_args_str: "length (args_str f vs) = (\<Sum>v\<leftarrow>vs. length v + 1)"
  by (induction f vs rule: args_str.induct) auto

lemma NUL_args_str: "NUL \<notin> set (args_str f vs) \<longleftrightarrow> (\<forall>v\<in>set vs. NUL \<notin> set v)"
  by (induction f vs rule: args_str.induct) auto

lemma put_at_nth: "p + length xs < length b \<Longrightarrow> put_at b p (xs @ [y]) ! (p + length xs) = y"
  by (simp add: put_at_def nth_append)

lemma put_at_overwrite:
  assumes "p + length xs + length ys < length b"
  shows "put_at (put_at b p (xs @ [y])) (p + length xs) (z # ys) = put_at b p (xs @ z # ys)"
  using assms by (simp add: put_at_def ac_simps)

lemma store_args_eq:
  assumes "p + length (args_str f vs) < length b" and "b ! p = NUL"
  shows "store_args b p f vs =
    Some (put_at b p (args_str f vs @ [NUL]), p + length (args_str f vs))"
  using assms
proof (induction f vs arbitrary: b p rule: args_str.induct)
  case (1 f)
  then show ?case by (metis append_Nil args_str.simps(1) list.size(3) list_update_id
        add.right_neutral put_at_one store_args.simps(1))
next
  case (2 f v vs)
  let ?c = "if f then CHR ''='' else CHR '' ''"
  let ?b = "put_at b p ((?c # v) @ [NUL])"
  have len: "p + length v + 1 < length b" "length ?b = length b" using 2 by auto
  have st: "store_str (b[p := ?c]) (p + 1) v = Some (?b, p + length v + 1)"
    using len put_at_Cons [of p b ?c "v @ [NUL]"] by (simp add: store_str_eq)
  have nul: "?b ! (p + length v + 1) = NUL" using put_at_nth [of p "?c # v" b NUL] len by simp
  have "store_args ?b (p + length v + 1) False vs = Some (put_at ?b (p + length v + 1)
      (args_str False vs @ [NUL]), p + length v + 1 + length (args_str False vs))"
    using 2 len nul by (intro "2.IH") auto
  moreover have "put_at ?b (p + length v + 1) (args_str False vs @ [NUL]) =
      put_at b p ((?c # v) @ args_str False vs @ [NUL])"
    using put_at_overwrite [of p "?c # v" "tl (args_str False vs @ [NUL])" b NUL
        "hd (args_str False vs @ [NUL])"] 2 by simp
  ultimately show ?case using len st by (simp add: wr_def)
qed

lemma setenv_append_repr:
  assumes repr: "env_repr b es" and "vs \<noteq> []" and ok: "CHR ''='' \<notin> set n" "NUL \<notin> set n"
    "\<forall>v\<in>set vs. NUL \<notin> set v"
  shows "if length (n @ args_str True vs) + 2 > length b - length (enc es)
     then setenv_append b n vs = Some (Inl b)
     else \<exists>junk. setenv_append b n vs =
            Some (Inr (enc (es @ [n @ args_str True vs]) @ NUL # junk)) \<and>
          length (enc (es @ [n @ args_str True vs]) @ NUL # junk) = length b"
proof -
  let ?k = "length (enc es)" and ?w = "args_str True vs"
  obtain junk where b: "b = enc es @ NUL # junk" and two: "es = [] \<longrightarrow> junk \<noteq> [] \<and> hd junk = NUL"
    using repr by (auto simp: env_repr_def)
  have pos: "(if ?k - 1 > 0 then ?k - 1 + 1 else ?k - 1) = ?k"
  proof (cases es)
    case (Cons e es')
    then have "e \<noteq> []" using repr entry_nonempty by (auto simp: env_repr_def)
    then show ?thesis using Cons by (cases e) auto
  qed simp
  have fe: "find_end b 0 = Some (?k - 1)" by (rule find_end_repr [OF repr])
  have unf: "setenv_append b n vs = (if length (n @ ?w) + 2 > length b - ?k then Some (Inl b)
      else do { (b, env) \<leftarrow> store_str b ?k n;
                (b, env) \<leftarrow> store_args b env True vs;
                b \<leftarrow> wr b (env + 1) NUL;
                Some (Inr b) })"
    unfolding setenv_append_def fe Option.bind.bind_lunit Let_def pos length_args_str length_append
    by (simp only: ac_simps)
  show ?thesis
  proof (cases "length (n @ ?w) + 2 > length b - ?k")
    case True
    then show ?thesis using unf by simp
  next
    case False
    let ?b = "put_at b ?k (n @ [NUL])"
    have len: "?k + length n + length ?w + 2 \<le> length b" using False b by simp
    have st: "store_str b ?k n = Some (?b, ?k + length n)" using len by (simp add: store_str_eq)
    have nul: "?b ! (?k + length n) = NUL" using len by (intro put_at_nth) simp
    have sa: "store_args ?b (?k + length n) True vs = Some (put_at ?b (?k + length n) (?w @ [NUL]),
        ?k + length n + length ?w)"
      using nul len by (intro store_args_eq) auto
    obtain x xs where w: "?w = x # xs" using \<open>vs \<noteq> []\<close> by (cases vs) auto
    have all: "put_at ?b (?k + length n) (?w @ [NUL]) = put_at b ?k (n @ ?w @ [NUL])"
      unfolding w using len w put_at_overwrite [of ?k n "xs @ [NUL]" b NUL x] by simp
    have fin: "wr (put_at b ?k (n @ ?w @ [NUL])) (?k + length n + length ?w + 1) NUL =
        Some (put_at b ?k (n @ ?w @ [NUL, NUL]))"
      using len put_at_put_at [of ?k "n @ ?w @ [NUL]" "[NUL]" b]
        put_at_one [of "?k + length n + length ?w + 1" "put_at b ?k (n @ ?w @ [NUL])"]
      by (simp add: ac_simps)
    have "setenv_append b n vs = Some (Inr (put_at b ?k (n @ ?w @ [NUL, NUL])))"
      unfolding unf using False st sa all fin by simp
    moreover have "put_at b ?k (n @ ?w @ [NUL, NUL]) =
        enc (es @ [n @ ?w]) @ NUL # drop (?k + length n + length ?w + 2) b"
      using b by (simp add: put_at_def)
    ultimately show ?thesis using False len by auto
  qed
qed

section \<open>The whole of \<open>_do_setenv\<close>\<close>

definition env_remove :: "string \<Rightarrow> string list \<Rightarrow> string list" where
  "env_remove n es = filter (\<lambda>e. entry_name e \<noteq> n) es"

definition env_fits :: "nat \<Rightarrow> string list \<Rightarrow> string \<Rightarrow> bool" where
  "env_fits sz es e \<longleftrightarrow> length (enc es) + length e + 2 \<le> sz"

text \<open>The entries after \<open>setenv n vs\<close>: the old value goes first, the new one is added at the end
  when it fits.\<close>

definition env_updated :: "nat \<Rightarrow> string list \<Rightarrow> string \<Rightarrow> string list \<Rightarrow> string list" where
  "env_updated sz es n vs = env_remove n es @
     (if vs \<noteq> [] \<and> env_fits sz (env_remove n es) (n @ args_str True vs)
      then [n @ args_str True vs] else [])"

lemma env_remove_split:
  assumes "distinct (map entry_name (es1 @ e # es2))"
  shows "env_remove (entry_name e) (es1 @ e # es2) = es1 @ es2"
proof -
  have "entry_name e \<notin> entry_name ` set es1" "entry_name e \<notin> entry_name ` set es2"
    using assms by simp_all
  then have "\<forall>x\<in>set es1. entry_name x \<noteq> entry_name e" "\<forall>x\<in>set es2. entry_name x \<noteq> entry_name e"
    by (metis imageI)+
  then show ?thesis by (simp add: env_remove_def filter_True)
qed

lemma env_lookup_None_iff: "env_lookup es n = None \<longleftrightarrow> n \<notin> entry_name ` set es"
  by (force simp: env_lookup_def map_of_eq_None_iff)

lemma env_lookup_remove: "env_lookup (env_remove n es) = (env_lookup es)(n := None)"
  by (induction es) (auto simp: env_lookup_def env_remove_def)

lemma entry_ok_new: "NUL \<notin> set n \<Longrightarrow> \<forall>v\<in>set vs. NUL \<notin> set v \<Longrightarrow> vs \<noteq> [] \<Longrightarrow>
    entry_ok (n @ args_str True vs)"
  using NUL_args_str [of True vs] by (cases vs) (auto simp: entry_ok_def)

lemma entry_new:
  assumes "CHR ''='' \<notin> set n" and "vs \<noteq> []"
  shows "entry_name (n @ args_str True vs) = n"
    and "entry_value (n @ args_str True vs) = tl (args_str True vs)"
  using assms entry_parts [OF assms(1)] by (cases vs; simp)+

lemma env_lookup_updated:
  assumes "CHR ''='' \<notin> set n"
  shows "env_lookup (env_updated sz es n vs) = (env_lookup es)(n :=
     (if vs \<noteq> [] \<and> env_fits sz (env_remove n es) (n @ args_str True vs)
      then Some (tl (args_str True vs)) else None))"
proof -
  have "env_lookup (es' @ [e]) = (if env_lookup es' (entry_name e) = None
      then (env_lookup es')(entry_name e \<mapsto> entry_value e) else env_lookup es')" for es' e
    by (auto simp: env_lookup_def map_add_def fun_eq_iff split: option.splits)
  note app = this
  show ?thesis
  proof (cases "vs \<noteq> [] \<and> env_fits sz (env_remove n es) (n @ args_str True vs)")
    case True
    then show ?thesis using entry_new [OF assms]
      unfolding env_updated_def by (simp add: app env_lookup_remove)
  next
    case False
    then show ?thesis unfolding env_updated_def by (simp only: if_False append_Nil2 env_lookup_remove)
  qed
qed

lemma env_repr_remove:
  assumes "env_repr (env_buf st) es" and "CHR ''='' \<notin> set n" "NUL \<notin> set n"
  shows "(n \<notin> entry_name ` set es \<and> env_remove n es = es \<and> setenv_search st n 0 = Some None) \<or>
    (n \<in> entry_name ` set es \<and> (\<exists>env nxt oldval b. setenv_search st n 0 = Some (Some (env, nxt, oldval)) \<and>
       setenv_delete (env_buf st) env nxt = Some b \<and>
       env_repr b (env_remove n es) \<and> length b = length (env_buf st)))"
proof -
  obtain junk where b: "env_buf st = [] @ enc es @ NUL # junk" and ok: "\<forall>e\<in>set es. entry_ok e"
    and dist: "distinct (map entry_name es)"
    using assms(1) by (auto simp: env_repr_def)
  show ?thesis
  proof (cases "n \<in> entry_name ` set es")
    case False
    then show ?thesis using setenv_search_none [OF ok assms(2,3) b] 
      by (auto simp: env_remove_def filter_id_conv)
  next
    case True
    then obtain e where "e \<in> set es" and n: "entry_name e = n" by auto
    then obtain es1 es2 where es: "es = es1 @ e # es2" by (meson split_list)
    have n1: "n \<notin> entry_name ` set es1" using dist es n by auto
    have rm: "env_remove n es = es1 @ es2" using env_remove_split dist es n by metis
    have "setenv_search st n 0 = Some (Some (length (enc es1), length (enc es1) + length e,
        length (enc es1) + length n + 1))"
      using setenv_search_found [OF _ assms(2,3) _ n n1, of es2 st "[]" junk] ok b es by simp
    moreover obtain junk' where "setenv_delete (env_buf st) (length (enc es1))
        (length (enc es1) + length e) = Some (enc (es1 @ es2) @ NUL # junk')"
      "es1 @ es2 = [] \<longrightarrow> junk' \<noteq> [] \<and> hd junk' = NUL"
      "length (enc (es1 @ es2) @ NUL # junk') = length (env_buf st)"
      using setenv_delete_entries [of es1 e es2 "env_buf st" junk] ok b es by auto
    moreover have "distinct (map entry_name (es1 @ es2))" "\<forall>e\<in>set (es1 @ es2). entry_ok e"
      using dist ok es by auto
    ultimately show ?thesis using True rm unfolding env_repr_def by auto
  qed
qed

lemma env_repr_append:
  assumes "env_repr b es" and "n \<notin> entry_name ` set es" and "vs \<noteq> []"
    and "CHR ''='' \<notin> set n" "NUL \<notin> set n" "\<forall>v\<in>set vs. NUL \<notin> set v"
  shows "if env_fits (length b) es (n @ args_str True vs)
     then \<exists>b'. setenv_append b n vs = Some (Inr b') \<and> length b' = length b \<and>
            env_repr b' (es @ [n @ args_str True vs])
     else setenv_append b n vs = Some (Inl b)"
proof -
  have "length (enc es) \<le> length b" using assms(1) by (auto simp: env_repr_def)
  then have fits: "env_fits (length b) es (n @ args_str True vs) \<longleftrightarrow>
      \<not> length (n @ args_str True vs) + 2 > length b - length (enc es)"
    by (auto simp: env_fits_def)
  have dist: "distinct (map entry_name (es @ [n @ args_str True vs]))"
    using assms entry_new [of n vs] by (auto simp: env_repr_def)
  have oks: "\<forall>e\<in>set (es @ [n @ args_str True vs]). entry_ok e"
    using assms entry_ok_new [of n vs] by (auto simp: env_repr_def)
  show ?thesis
  proof (cases "length (n @ args_str True vs) + 2 > length b - length (enc es)")
    case True
    then show ?thesis using setenv_append_repr [OF assms(1,3-6)] fits by simp
  next
    case False
    then obtain junk where "setenv_append b n vs =
        Some (Inr (enc (es @ [n @ args_str True vs]) @ NUL # junk))"
      "length (enc (es @ [n @ args_str True vs]) @ NUL # junk) = length b"
      using setenv_append_repr [OF assms(1,3-6)] by (simp only: if_False) blast
    moreover from this have "env_repr (enc (es @ [n @ args_str True vs]) @ NUL # junk)
        (es @ [n @ args_str True vs])"
      using dist oks unfolding env_repr_def by blast
    ultimately show ?thesis using False fits by auto
  qed
qed

lemma setenv_checks_buf:
  "setenv_checks cfg st n vs = Some (Inr st1) \<Longrightarrow>
   env_data st1 = env_data st \<and> env_valid st1 = env_valid st \<and> env_ptr_crc st1 = env_ptr_crc st \<and>
   default_environment st1 = default_environment st"
  by (auto simp: setenv_checks_def setenv_baudrate_def Let_def
      split: if_splits option.splits list.splits)

lemma cached_simps [simp]:
  "env_data (setenv_cached cfg st n v) = env_data st"
  "env_valid (setenv_cached cfg st n v) = env_valid st"
  "default_environment (setenv_cached cfg st n v) = default_environment st"
  "env_ptr_crc (setenv_cached cfg st n v) = env_ptr_crc st"
  "env_data (env_crc_update cfg st) = env_data st"
  "env_valid (env_crc_update cfg st) = env_valid st"
  "default_environment (env_crc_update cfg st) = default_environment st"
  by (simp_all add: setenv_cached_def env_crc_update_def)

lemma env_buf_cached [simp]:
  "env_buf (setenv_cached cfg st n v) = env_buf st"
  "env_buf (env_crc_update cfg st) = env_buf st"
  by (simp_all add: env_buf_def)

lemma env_valid_set [simp]: "env_valid (set_env_buf st b) = env_valid st"
  "env_ptr_crc (set_env_buf st b) = env_ptr_crc st"
  by (simp_all add: set_env_buf_def)

definition crc_ok :: "env_cfg \<Rightarrow> env_state \<Rightarrow> bool" where
  "crc_ok cfg st \<longleftrightarrow> CONFIG_ENV_IS_NOWHERE cfg \<or> env_ptr_crc st = crc32 cfg 0 (env_data st)"

lemma crc_ok_cached [simp]:
  "crc_ok cfg (setenv_cached cfg st n v) = crc_ok cfg st" "crc_ok cfg (env_crc_update cfg st)"
  by (simp_all add: crc_ok_def) (simp add: env_crc_update_def)

text \<open>A name that the block can hold, values that a command line can hold, and the variables
  that \<open>_do_setenv\<close> refuses to change.\<close>

definition name_ok :: "string \<Rightarrow> bool" where
  "name_ok n \<longleftrightarrow> CHR ''='' \<notin> set n \<and> NUL \<notin> set n"

definition values_ok :: "string list \<Rightarrow> bool" where
  "values_ok vs \<longleftrightarrow> (\<forall>v\<in>set vs. NUL \<notin> set v)"

definition accepts :: "env_cfg \<Rightarrow> env_state \<Rightarrow> string list \<Rightarrow> string \<Rightarrow> string list \<Rightarrow> bool" where
  "accepts cfg st es n vs \<longleftrightarrow> env_lookup es n = None \<or>
     (case setenv_checks cfg (st\<lparr>env_id := env_id st + 1\<rparr>) n vs of Some (Inr _) \<Rightarrow> True | _ \<Rightarrow> False)"

lemma env_buf_id [simp]: "env_buf (st\<lparr>env_id := i\<rparr>) = env_buf st"
  by (simp add: env_buf_def)

text \<open>The state after the first half, in which the old value is gone.\<close>

definition setenv_old ::
  "env_cfg \<Rightarrow> env_state \<Rightarrow> string \<Rightarrow> string list \<Rightarrow> (int + env_state) option" where
  "setenv_old cfg st name vals =
     do { found \<leftarrow> setenv_search st name 0;
          case found of None \<Rightarrow> Some (Inr st)
          | Some (env, nxt, oldval) \<Rightarrow>
              do { r \<leftarrow> setenv_checks cfg st name vals;
                   case r of Inl rc \<Rightarrow> Some (Inl rc)
                   | Inr st \<Rightarrow>
                       do { b \<leftarrow> setenv_delete (env_buf st) env nxt;
                            Some (Inr (set_env_buf st b)) } } }"

lemma setenv_old_repr:
  assumes "env_repr (env_buf st) es" and "name_ok n" and "accepts cfg st es n vs"
  shows "\<exists>st2. setenv_old cfg (st\<lparr>env_id := env_id st + 1\<rparr>) n vs = Some (Inr st2) \<and>
    env_repr (env_buf st2) (env_remove n es) \<and> length (env_buf st2) = length (env_buf st) \<and>
    env_valid st2 = env_valid st \<and> env_ptr_crc st2 = env_ptr_crc st"
proof -
  let ?st = "st\<lparr>env_id := env_id st + 1\<rparr>"
  have nm: "CHR ''='' \<notin> set n" "NUL \<notin> set n" using assms(2) by (auto simp: name_ok_def)
  have repr: "env_repr (env_buf ?st) es" using assms(1) by simp
  show ?thesis
  proof (cases "n \<in> entry_name ` set es")
    case False
    then have "setenv_search ?st n 0 = Some None" "env_remove n es = es"
      using env_repr_remove [OF repr nm] by auto
    then show ?thesis using assms(1)
      by (intro exI [of _ ?st]) (simp add: setenv_old_def)
  next
    case True
    then obtain st1 where chk: "setenv_checks cfg ?st n vs = Some (Inr st1)"
      using assms(3) env_lookup_None_iff [of es n]
      by (auto simp: accepts_def split: option.splits sum.splits)
    note same = setenv_checks_buf [OF chk]
    then have buf: "env_buf st1 = env_buf ?st" by (simp add: env_buf_def)
    obtain env nxt oldval b where "setenv_search ?st n 0 = Some (Some (env, nxt, oldval))"
      "setenv_delete (env_buf ?st) env nxt = Some b" "env_repr b (env_remove n es)"
      "length b = length (env_buf ?st)"
      using env_repr_remove [OF repr nm] True by blast
    then show ?thesis using chk same buf
      by (intro exI [of _ "set_env_buf st1 b"]) (simp add: setenv_old_def)
  qed
qed

lemma do_setenv_internal_eq:
  assumes "CHR ''='' \<notin> set n"
    and "setenv_old cfg (st\<lparr>env_id := env_id st + 1\<rparr>) n vs = Some (Inr st2)"
  shows "do_setenv_internal cfg st (c # n # vs) =
    (case vs of
       [] \<Rightarrow> Some (0, env_crc_update cfg st2)
     | val # _ \<Rightarrow>
         do { r \<leftarrow> setenv_append (env_buf st2) n vs;
              case r of
                Inl b \<Rightarrow> Some (1, set_env_buf st2 b)
              | Inr b \<Rightarrow> Some (0, setenv_cached cfg (env_crc_update cfg (set_env_buf st2 b)) n val) })"
proof -
  obtain found where f: "setenv_search (st\<lparr>env_id := env_id st + 1\<rparr>) n 0 = Some found"
    and d: "(case found of None \<Rightarrow> Some (Inr (st\<lparr>env_id := env_id st + 1\<rparr>))
          | Some (env, nxt, oldval) \<Rightarrow>
              do { r \<leftarrow> setenv_checks cfg (st\<lparr>env_id := env_id st + 1\<rparr>) n vs;
                   case r of Inl rc \<Rightarrow> Some (Inl rc)
                   | Inr st \<Rightarrow>
                       do { b \<leftarrow> setenv_delete (env_buf st) env nxt;
                            Some (Inr (set_env_buf st b)) } }) = Some (Inr st2)"
    using assms(2) unfolding setenv_old_def by (cases "setenv_search (st\<lparr>env_id := env_id st + 1\<rparr>) n 0") auto
  show ?thesis
    unfolding do_setenv_internal_def list.case Let_def f d Option.bind.bind_lunit sum.case
    using assms(1) by (simp only: if_False)
qed

lemma do_setenv_internal_repr:
  assumes repr: "env_repr (env_buf st) es" and nm: "name_ok n" and vs: "values_ok vs"
    and acc: "accepts cfg st es n vs"
  defines "rc \<equiv> (if vs = [] \<or> env_fits (length (env_buf st)) (env_remove n es)
      (n @ args_str True vs) then 0 else 1 :: int)"
  shows "\<exists>st'. do_setenv_internal cfg st (c # n # vs) = Some (rc, st') \<and>
    env_repr (env_buf st') (env_updated (length (env_buf st)) es n vs) \<and>
    length (env_buf st') = length (env_buf st) \<and> env_valid st' = env_valid st \<and>
    (if rc = 0 then crc_ok cfg st' else env_ptr_crc st' = env_ptr_crc st)"
proof -
  obtain st2 where old: "setenv_old cfg (st\<lparr>env_id := env_id st + 1\<rparr>) n vs = Some (Inr st2)"
    and st2: "env_repr (env_buf st2) (env_remove n es)" "length (env_buf st2) = length (env_buf st)"
      "env_valid st2 = env_valid st" "env_ptr_crc st2 = env_ptr_crc st"
    using setenv_old_repr [OF repr nm acc] by blast
  have n: "CHR ''='' \<notin> set n" "NUL \<notin> set n" using nm by (auto simp: name_ok_def)
  note eq = do_setenv_internal_eq [OF n(1) old, of c]
  show ?thesis
  proof (cases vs)
    case Nil
    then show ?thesis using eq st2 by (simp add: rc_def env_updated_def)
  next
    case (Cons v vs')
    let ?fits = "env_fits (length (env_buf st)) (env_remove n es) (n @ args_str True vs)"
    have "n \<notin> entry_name ` set (env_remove n es)" by (auto simp: env_remove_def)
    then have app: "if ?fits
       then \<exists>b'. setenv_append (env_buf st2) n vs = Some (Inr b') \<and> length b' = length (env_buf st) \<and>
            env_repr b' (env_remove n es @ [n @ args_str True vs])
       else setenv_append (env_buf st2) n vs = Some (Inl (env_buf st2))"
      using env_repr_append [OF st2(1) _ _ n, of vs] vs Cons st2(2) by (auto simp: values_ok_def)
    show ?thesis
    proof (cases ?fits)
      case True
      then obtain b' where "setenv_append (env_buf st2) n vs = Some (Inr b')"
        "length b' = length (env_buf st)" "env_repr b' (env_remove n es @ [n @ args_str True vs])"
        using app by auto
      with True Cons eq st2 show ?thesis by (simp add: rc_def env_updated_def)
    next
      case False
      then have "setenv_append (env_buf st2) n vs = Some (Inl (env_buf st2))" using app by simp
      with False Cons eq st2 show ?thesis by (simp add: rc_def env_updated_def)
    qed
  qed
qed

section \<open>Printing\<close>

lemma puts_id: "NUL \<notin> set b \<Longrightarrow> puts b = b" "NUL \<notin> set b \<Longrightarrow> puts (b @ NUL # w) = b"
  by (induction b) (auto simp: puts_def)

lemma printenv_str_append:
  assumes "NUL \<notin> set e" and "env_buf st = p @ e @ NUL # q" and "NUL \<notin> set buf" and "length buf < 16"
  shows "\<exists>buf' out'. printenv_str st state (length p) buf out =
      Some (length p + length e + 1, buf', out') \<and>
    (if state \<le> 1 then out' @ puts buf' = out @ buf @ e else out' = out)"
  using assms
proof (induction e arbitrary: p buf out)
  case Nil
  then show ?case
    by (subst printenv_str.simps)
      (auto simp: env_get_char_buf rd_append_mid puts_id Let_def puts_def [of "[]"])
next
  case (Cons c e)
  define buf1 where "buf1 = (if length (buf @ [c]) = 16 then [] else buf @ [c])"
  define out1 where "out1 = (if length (buf @ [c]) = 16 \<and> state \<le> 1 then out @ puts (buf @ [c]) else out)"
  have "printenv_str st state (length p) buf out = printenv_str st state (length (p @ [c])) buf1 out1"
    using Cons.prems by (subst printenv_str.simps)
      (auto simp: env_get_char_buf rd_append_mid buf1_def out1_def Let_def)
  moreover have "\<exists>buf' out'. printenv_str st state (length (p @ [c])) buf1 out1 =
      Some (length (p @ [c]) + length e + 1, buf', out') \<and>
      (if state \<le> 1 then out' @ puts buf' = out1 @ buf1 @ e else out' = out1)"
    using Cons.prems by (intro Cons.IH) (auto simp: buf1_def)
  then obtain buf' out' where "printenv_str st state (length (p @ [c])) buf1 out1 =
      Some (length (p @ [c]) + length e + 1, buf', out')"
    and "if state \<le> 1 then out' @ puts buf' = (out1 @ buf1) @ e else out' = out1" by auto
  moreover have "if state \<le> 1 then out1 @ buf1 = out @ buf @ [c] else out1 = out"
    using Cons.prems by (auto simp: out1_def buf1_def puts_id)
  ultimately show ?case
    by (intro exI [of _ buf'] exI [of _ out']) (cases "state \<le> 1"; simp)
qed

lemma printenv_loop_all:
  assumes "\<forall>e\<in>set es. entry_ok e" and "env_buf st = p @ enc es @ NUL # q"
  shows "printenv_loop st (\<lambda>_. False) n 1 (length p) out =
     Some (int (length (p @ enc es)), out @ concat (map (\<lambda>e. e @ [CHR 0x0A]) es))"
  using assms
proof (induction es arbitrary: p out)
  case Nil
  then show ?case by (subst printenv_loop.simps) (simp add: env_get_char_buf rd_append_mid)
next
  case (Cons e es)
  have b: "env_buf st = p @ e @ NUL # (enc es @ NUL # q)" and ok: "entry_ok e"
    using Cons.prems by auto
  then have first: "env_get_char st (length p) = Some (hd e)" "hd e \<noteq> NUL"
    by (cases e; auto simp: env_get_char_buf rd_append_mid entry_ok_def)+
  obtain buf' out' where str: "printenv_str st 1 (length p) [] out = Some (length (p @ e @ [NUL]), buf', out')"
      "out' @ puts buf' = out @ e"
    using printenv_str_append [OF _ b, of "[]" 1 out] ok by (auto simp: entry_ok_def)
  have "printenv_loop st (\<lambda>_. False) n 1 (length p) out =
      printenv_loop st (\<lambda>_. False) n 1 (length (p @ e @ [NUL])) ((out @ e) @ [CHR 0x0A])"
    unfolding str(2) [symmetric] using first str(1) by (subst printenv_loop.simps) simp
  also have "\<dots> = Some (int (length ((p @ e @ [NUL]) @ enc es)),
      ((out @ e) @ [CHR 0x0A]) @ concat (map (\<lambda>e. e @ [CHR 0x0A]) es))"
    using Cons.prems by (intro Cons.IH) auto
  finally show ?case by simp
qed

lemma printenv_loop_one:
  assumes "\<forall>e\<in>set es. entry_ok e" and "env_buf st = p @ enc es @ NUL # q" and "name_ok n"
  shows "printenv_loop st (\<lambda>_. False) n 2 (length p) out =
     (case env_lookup es n of
        None \<Rightarrow> Some (int (length (p @ enc es)), out)
      | Some v \<Rightarrow> Some (0, out @ n @ CHR ''='' # v @ [CHR 0x0A]))"
  using assms
proof (induction es arbitrary: p)
  case Nil
  then show ?case
    by (subst printenv_loop.simps) (simp add: env_get_char_buf rd_append_mid env_lookup_def)
next
  case (Cons e es)
  have b: "env_buf st = p @ e @ NUL # (enc es @ NUL # q)" and ok: "entry_ok e"
    using Cons.prems by auto
  then have first: "env_get_char st (length p) = Some (hd e)" "hd e \<noteq> NUL"
    by (cases e; auto simp: env_get_char_buf rd_append_mid entry_ok_def)+
  have mt: "envmatch st n (length p) =
      Some (if entry_name e = n then Some (length p + length n + 1) else None)"
    using Cons.prems ok b by (intro envmatch_entry) (auto simp: name_ok_def)
  show ?case
  proof (cases "entry_name e = n")
    case True
    obtain buf' out' where str: "printenv_str st 0 (length p) [] out = Some (length (p @ e @ [NUL]), buf', out')"
        "out' @ puts buf' = out @ e"
      using printenv_str_append [OF _ b, of "[]" 0 out] ok by (auto simp: entry_ok_def)
    have "printenv_loop st (\<lambda>_. False) n 2 (length p) out =
        printenv_loop st (\<lambda>_. False) n 0 (length (p @ e @ [NUL])) ((out @ e) @ [CHR 0x0A])"
      unfolding str(2) [symmetric] using first mt True str(1) by (subst printenv_loop.simps) simp
    then show ?thesis using True entry_split [OF ok]
      by (subst (asm) (2) printenv_loop.simps) (simp add: env_lookup_def)
  next
    case False
    obtain buf' where str: "printenv_str st 2 (length p) [] out = Some (length (p @ e @ [NUL]), buf', out)"
      using printenv_str_append [OF _ b, of "[]" 2 out] ok by (auto simp: entry_ok_def)
    have "printenv_loop st (\<lambda>_. False) n 2 (length p) out =
        printenv_loop st (\<lambda>_. False) n 2 (length (p @ e @ [NUL])) out"
      using first mt False str by (subst printenv_loop.simps) simp
    also have "\<dots> = (case env_lookup es n of
        None \<Rightarrow> Some (int (length ((p @ e @ [NUL]) @ enc es)), out)
      | Some v \<Rightarrow> Some (0, out @ n @ CHR ''='' # v @ [CHR 0x0A]))"
      using Cons.prems by (intro Cons.IH) auto
    also have "env_lookup es n = env_lookup (e # es) n" using False by (simp add: env_lookup_def)
    finally show ?thesis by (simp split: option.splits)
  qed
qed

section \<open>Copying a value out\<close>

lemma getenv_r_loop_eq:
  assumes "NUL \<notin> set s" and "env_buf st = u @ s @ NUL # q" and "n \<le> len" and "p + (len - n) \<le> length buf"
  shows "getenv_r_loop st len buf p (length u) n = Some
     (if n + length s < len then (put_at buf p (s @ [NUL]), p + length s + 1, n + length s + 1)
      else (put_at buf p (take (len - n) s), p + (len - n), len + 1))"
  using assms
proof (induction s arbitrary: u n p buf)
  case Nil
  then show ?case
    by (subst getenv_r_loop.simps)
      (auto simp: env_get_char_buf rd_append_mid wr_def put_at_def upd_conv_take_nth_drop)
next
  case (Cons c s)
  show ?case
  proof (cases "n < len")
    case True
    have "getenv_r_loop st len buf p (length u) n =
        getenv_r_loop st len (buf[p := c]) (p + 1) (length (u @ [c])) (n + 1)"
      using Cons.prems True by (subst getenv_r_loop.simps) (auto simp: env_get_char_buf rd_append_mid)
    also have "\<dots> = Some
     (if n + 1 + length s < len then (put_at (buf[p := c]) (p + 1) (s @ [NUL]), p + 1 + length s + 1, n + 1 + length s + 1)
      else (put_at (buf[p := c]) (p + 1) (take (len - (n + 1)) s), p + 1 + (len - (n + 1)), len + 1))"
      using Cons.prems True by (intro Cons.IH) auto
    finally show ?thesis using True Cons.prems put_at_Cons [of p buf c]
      by (auto simp: take_Cons' simp flip: diff_Suc_eq_diff_pred)
  next
    case False
    with Cons.prems show ?thesis by (subst getenv_r_loop.simps) (simp add: put_at_def)
  qed
qed

section \<open>Properties\<close>

lemma cstr_at_SomeD:
  "cstr_at b i = Some s \<Longrightarrow> NUL \<notin> set s \<and> (\<exists>u q. b = u @ s @ NUL # q \<and> length u = i)"
proof (induction b i arbitrary: s rule: cstr_at.induct)
  case (1 b i)
  obtain c where c: "i < length b" "b ! i = c"
    using "1.prems" by (subst (asm) cstr_at.simps) (auto simp: rd_Some_iff split: Option.bind_splits)
  then have b: "b = take i b @ c # drop (Suc i) b" by (metis id_take_nth_drop)
  show ?case
  proof (cases "c = NUL")
    case True
    then have "s = []" using "1.prems" c by (subst (asm) cstr_at.simps) simp
    then show ?thesis using b c True by (intro conjI exI [of _ "take i b"] exI [of _ "drop (Suc i) b"]) auto
  next
    case False
    then obtain s' where s': "cstr_at b (Suc i) = Some s'" "s = c # s'"
      using "1.prems" c by (subst (asm) cstr_at.simps) (auto split: Option.bind_splits)
    have "rd b i = Some c" using c by simp
    from "1.IH" [OF this False s'(1)] obtain u q where
      "NUL \<notin> set s'" "b = u @ s' @ NUL # q" "length u = Suc i" by auto
    moreover from this c have "u = take i u @ [c]"
      by (metis nth_append lessI take_Suc_conv_app_nth take_all le_refl)
    ultimately have "b = (take i u @ [c]) @ s' @ NUL # q" "length (take i u) = i" "NUL \<notin> set s'"
      by simp_all
    then show ?thesis using s' False by auto
  qed
qed

lemma getenv_addr_cases:
  assumes "env_repr (env_buf st) es" and "name_ok n" and "length (env_buf st) \<le> CONFIG_ENV_SIZE cfg"
  shows "\<exists>r. getenv_addr cfg st n = Some r \<and> (case r of None \<Rightarrow> env_lookup es n = None
      | Some val \<Rightarrow> \<exists>v. env_lookup es n = Some v \<and> cstr_at (env_buf st) val = Some v)"
proof -
  obtain q where b: "env_buf st = [] @ enc es @ NUL # q" and ok: "\<forall>e\<in>set es. entry_ok e"
    using assms(1) by (auto simp: env_repr_def)
  have "length ([] @ enc es) \<le> CONFIG_ENV_SIZE cfg" using b assms(3) by simp
  from getenv_loop_entries [OF ok _ _ b this] assms(2) show ?thesis
    by (simp add: getenv_addr_def name_ok_def)
qed

text \<open>The value that several arguments make: they are joined by single blanks.\<close>

fun unwords :: "string list \<Rightarrow> string" where
  "unwords [] = []"
| "unwords [w] = w"
| "unwords (w # ws) = w @ CHR '' '' # unwords ws"

lemma args_str_unwords: "vs \<noteq> [] \<Longrightarrow> args_str f vs = (if f then CHR ''='' else CHR '' '') # unwords vs"
  by (induction vs arbitrary: f rule: unwords.induct) auto

definition env_wf :: "env_cfg \<Rightarrow> env_state \<Rightarrow> bool" where
  "env_wf cfg st \<longleftrightarrow> (\<exists>es. env_repr (env_buf st) es) \<and> length (env_buf st) \<le> CONFIG_ENV_SIZE cfg"

lemma setenv_checks_rc: "setenv_checks cfg st n vs = Some (Inl rc) \<Longrightarrow> rc = 1"
  by (auto simp: setenv_checks_def setenv_baudrate_def Let_def
      split: if_splits option.splits list.splits)

lemma do_setenv_internal_refused:
  assumes "env_repr (env_buf st) es" and "name_ok n" and "\<not> accepts cfg st es n vs"
  shows "do_setenv_internal cfg st (c # n # vs) =
    (case setenv_checks cfg (st\<lparr>env_id := env_id st + 1\<rparr>) n vs of
       None \<Rightarrow> None | Some _ \<Rightarrow> Some (1, st\<lparr>env_id := env_id st + 1\<rparr>))"
proof -
  let ?st = "st\<lparr>env_id := env_id st + 1\<rparr>"
  have nm: "CHR ''='' \<notin> set n" "NUL \<notin> set n" using assms(2) by (auto simp: name_ok_def)
  have "n \<in> entry_name ` set es"
    using assms(3) env_lookup_None_iff [of es n] by (auto simp: accepts_def)
  then obtain env nxt oldval where f: "setenv_search ?st n 0 = Some (Some (env, nxt, oldval))"
    using env_repr_remove [of ?st es n] assms(1) nm by auto
  have "setenv_checks cfg ?st n vs = None \<or> setenv_checks cfg ?st n vs = Some (Inl 1)"
    using assms(3) setenv_checks_rc [of cfg ?st n vs] by (auto simp: accepts_def split: option.splits sum.splits)
  then show ?thesis
    unfolding do_setenv_internal_def list.case Let_def f Option.bind.bind_lunit
    using nm(1) by auto
qed

text \<open>Everything that a return of \<open>_do_setenv\<close> can mean.\<close>

lemma do_setenv_internal_cases:
  assumes "do_setenv_internal cfg st (c # n # vs) = Some (rc, st')"
    and "env_repr (env_buf st) es" and "name_ok n" and "values_ok vs"
  shows "length (env_buf st') = length (env_buf st) \<and> env_valid st' = env_valid st \<and>
    ((rc = 1 \<and> env_buf st' = env_buf st \<and> \<not> accepts cfg st es n vs) \<or>
     (accepts cfg st es n vs \<and> env_repr (env_buf st') (env_updated (length (env_buf st)) es n vs) \<and>
      rc = (if vs = [] \<or> env_fits (length (env_buf st)) (env_remove n es) (n @ args_str True vs)
            then 0 else 1) \<and> (if rc = 0 then crc_ok cfg st' else env_ptr_crc st' = env_ptr_crc st)))"
proof (cases "accepts cfg st es n vs")
  case True
  from do_setenv_internal_repr [OF assms(2-4) True, of c] assms(1) True show ?thesis by auto
next
  case False
  from do_setenv_internal_refused [OF assms(2,3) False, of c] assms(1) False show ?thesis
    by (auto split: option.splits)
qed

text \<open>C16: what \<open>getenv_r\<close> stores.  With \<open>len\<close> the length of the caller's buffer a value shorter
  than \<open>len - 1\<close> is copied with its NUL, a longer one is cut to \<open>len\<close> characters without a NUL,
  and a value of length exactly \<open>len - 1\<close> makes the code store a second NUL at \<open>buf[len]\<close>, one
  byte past a buffer of \<open>len\<close> bytes (the fault \<open>None\<close>).\<close>

theorem getenv_r_result:
  assumes "env_repr (env_buf st) es" and "name_ok n" and "length (env_buf st) \<le> CONFIG_ENV_SIZE cfg"
    and "len \<le> length buf"
  shows "getenv_r cfg st n buf len =
    (case env_lookup es n of
       None \<Rightarrow> Some (-1, buf)
     | Some v \<Rightarrow>
         if length v + 1 < len then Some (int (length v + 1), put_at buf 0 (v @ [NUL]))
         else if length v + 1 = len
         then if len < length buf then Some (int len, put_at buf 0 (v @ [NUL, NUL])) else None
         else Some (int (len + 1), put_at buf 0 (take len v)))"
proof -
  obtain r where r: "getenv_addr cfg st n = Some r" "case r of None \<Rightarrow> env_lookup es n = None
      | Some val \<Rightarrow> \<exists>v. env_lookup es n = Some v \<and> cstr_at (env_buf st) val = Some v"
    using getenv_addr_cases [OF assms(1-3)] by blast
  show ?thesis
  proof (cases r)
    case None
    with r show ?thesis by (simp add: getenv_r_def)
  next
    case (Some val)
    with r obtain v where v: "env_lookup es n = Some v" "cstr_at (env_buf st) val = Some v" by auto
    then obtain u q where "NUL \<notin> set v" "env_buf st = u @ v @ NUL # q" "length u = val"
      using cstr_at_SomeD by blast
    then have "getenv_r_loop st len buf 0 val 0 = Some
       (if length v < len then (put_at buf 0 (v @ [NUL]), length v + 1, length v + 1)
        else (put_at buf 0 (take len v), len, len + 1))"
      using getenv_r_loop_eq [of v st u q 0 len 0 buf] assms(4) by auto
    moreover have "length v + 1 = len \<Longrightarrow> wr (put_at buf 0 (v @ [NUL])) len NUL =
        (if len < length buf then Some (put_at buf 0 (v @ [NUL, NUL])) else None)"
      using assms(4) put_at_put_at [of 0 "v @ [NUL]" "[NUL]" buf]
        put_at_one [of len "put_at buf 0 (v @ [NUL])" NUL] by (auto simp: wr_def)
    ultimately show ?thesis using r(1) v(1) Some by (auto simp: getenv_r_def)
  qed
qed

text \<open>A small environment on which the properties are evaluated.\<close>

definition demo_cfg :: env_cfg where
  "demo_cfg = \<lparr>CONFIG_ENV_OVERWRITE = False, CONFIG_ENV_IS_NOWHERE = False, CONFIG_ENV_SIZE = 32,
     baudrate_table = [115200], simple_strtoul = (\<lambda>s b. (7, [])),
     crc32 = (\<lambda>c d. foldl (\<lambda>a x. a * 31 + of_char x) c d), htonl = id,
     console_assign = (\<lambda>_ _. 0)\<rparr>"

definition demo_entries :: "string list" where
  "demo_entries = [''a=1'', ''serial#=42'', ''ipaddr=9'']"

definition demo_env :: env_state where
  "demo_env = \<lparr>env_valid = True, gd_reloc = True,
     env_data = enc demo_entries @ replicate 8 NUL,
     default_environment = [NUL, NUL], env_ptr_crc = 5, env_id = 1, gd_baudrate = 115200,
     bi_ip_addr = 0, load_addr = 0, serial_in = []\<rparr>"

lemma demo_repr: "env_repr (env_buf demo_env) demo_entries"
  unfolding env_repr_def
  by (intro conjI exI [of _ "replicate 7 NUL"])
    (simp_all add: demo_env_def env_buf_def demo_entries_def entry_ok_def entry_name_def numeral_eq_Suc)

lemma demo_len: "length (env_buf demo_env) = 32" "length (env_buf demo_env) \<le> CONFIG_ENV_SIZE demo_cfg"
  by (simp_all add: demo_env_def env_buf_def demo_entries_def demo_cfg_def)

text \<open>C1: \<open>_do_setenv\<close> on a well-formed block: unless the variable is one that it refuses to
  change, afterwards \<open>getenv\<close> finds the new value (the arguments joined by blanks) under the name, or
  nothing when there was none, and the old value under every other name; the result is 0 and the
  stored CRC is that of the block exactly when the new entry fits, otherwise 1 and the variable is
  gone.\<close>

theorem setenv_getenv:
  assumes "env_repr (env_buf st) es" and "length (env_buf st) \<le> CONFIG_ENV_SIZE cfg"
    and "name_ok n" and "values_ok vs" and "accepts cfg st es n vs" and "name_ok m"
  shows "\<exists>rc st'. do_setenv_internal cfg st (c # n # vs) = Some (rc, st') \<and> env_wf cfg st' \<and>
    rc = (if vs = [] \<or> env_fits (length (env_buf st)) (env_remove n es) (n @ CHR ''='' # unwords vs)
          then 0 else 1) \<and>
    getenv cfg st' m = Some (if m = n then if rc = 0 \<and> vs \<noteq> [] then Some (unwords vs) else None
                             else env_lookup es m) \<and>
    (rc = 0 \<longrightarrow> crc_ok cfg st')"
proof -
  have e: "vs \<noteq> [] \<Longrightarrow> args_str True vs = CHR ''='' # unwords vs" by (simp add: args_str_unwords)
  have n: "CHR ''='' \<notin> set n" and m: "CHR ''='' \<notin> set m" "NUL \<notin> set m"
    using assms by (auto simp: name_ok_def)
  obtain st' where st': "do_setenv_internal cfg st (c # n # vs) = Some ((if vs = [] \<or>
        env_fits (length (env_buf st)) (env_remove n es) (n @ args_str True vs) then 0 else 1), st')"
    "env_repr (env_buf st') (env_updated (length (env_buf st)) es n vs)"
    "length (env_buf st') = length (env_buf st)"
    "vs = [] \<or> env_fits (length (env_buf st)) (env_remove n es) (n @ args_str True vs) \<longrightarrow> crc_ok cfg st'"
    using do_setenv_internal_repr [OF assms(1,3,4,5), of c] by auto
  have "getenv cfg st' m = Some (env_lookup (env_updated (length (env_buf st)) es n vs) m)"
    using st'(2,3) assms(2) m by (intro getenv_repr) auto
  moreover have "env_wf cfg st'" using st' assms(2) by (auto simp: env_wf_def)
  moreover have "vs = [] \<or> env_fits (length (env_buf st)) (env_remove n es) (n @ CHR ''='' # unwords vs)
      \<longleftrightarrow> vs = [] \<or> env_fits (length (env_buf st)) (env_remove n es) (n @ args_str True vs)"
    using e by (cases "vs = []") auto
  ultimately show ?thesis using st' e
    by (intro exI [of _ "if vs = [] \<or> env_fits (length (env_buf st)) (env_remove n es)
          (n @ args_str True vs) then 0 else 1"] exI [of _ st']) (simp add: env_lookup_updated [OF n])
qed

theorem setenv_getenv_witness:
  "\<exists>rc st'. do_setenv_internal demo_cfg demo_env [''setenv'', ''a'', ''2'', ''3''] = Some (rc, st') \<and>
     env_wf demo_cfg st' \<and> rc = 0 \<and> getenv demo_cfg st' ''a'' = Some (Some ''2 3'') \<and> crc_ok demo_cfg st'"
proof -
  have acc: "accepts demo_cfg demo_env demo_entries ''a'' [''2'', ''3'']"
    by (simp add: accepts_def setenv_checks_def console_of_def)
  have ok: "name_ok ''a''" "values_ok [''2'', ''3'']" by (simp_all add: name_ok_def values_ok_def)
  have fits: "env_fits (length (env_buf demo_env)) (env_remove ''a'' demo_entries)
      (''a'' @ CHR ''='' # unwords [''2'', ''3''])"
    unfolding demo_len by (simp add: env_fits_def env_remove_def demo_entries_def entry_name_def)
  from setenv_getenv [OF demo_repr demo_len(2) ok acc ok(1), of "''setenv''"] fits
  show ?thesis by auto
qed

text \<open>C18: when the new value does not fit, \<open>_do_setenv\<close> reports 1 after it has removed the
  old one, and it returns before \<open>env_crc_update\<close>: the block in memory has lost the variable while
  the stored CRC is still that of the block before.\<close>

theorem setenv_overflow_stale_crc:
  assumes "env_repr (env_buf st) es" and "length (env_buf st) \<le> CONFIG_ENV_SIZE cfg"
    and "name_ok n" and "values_ok vs" and "accepts cfg st es n vs"
    and "vs \<noteq> []" and "\<not> env_fits (length (env_buf st)) (env_remove n es) (n @ args_str True vs)"
  shows "\<exists>st'. do_setenv_internal cfg st (c # n # vs) = Some (1, st') \<and>
    getenv cfg st' n = Some None \<and> env_repr (env_buf st') (env_remove n es) \<and>
    env_ptr_crc st' = env_ptr_crc st"
proof -
  obtain st' where st': "do_setenv_internal cfg st (c # n # vs) = Some (1, st')"
    "env_repr (env_buf st') (env_updated (length (env_buf st)) es n vs)"
    "length (env_buf st') = length (env_buf st)" "env_ptr_crc st' = env_ptr_crc st"
    using do_setenv_internal_repr [OF assms(1,3,4,5), of c] assms(6,7) by auto
  then have repr: "env_repr (env_buf st') (env_remove n es)" using assms(7) by (simp add: env_updated_def)
  then have "getenv cfg st' n = Some (env_lookup (env_remove n es) n)"
    using st'(3) assms(2,3) by (intro getenv_repr) (auto simp: name_ok_def)
  then show ?thesis using st' repr by (auto simp: env_lookup_remove)
qed

theorem setenv_overflow_stale_crc_witness:
  "\<exists>st'. do_setenv_internal demo_cfg demo_env [''setenv'', ''a'', ''0123456789''] = Some (1, st') \<and>
    getenv demo_cfg st' ''a'' = Some None \<and> env_ptr_crc st' = env_ptr_crc demo_env"
proof -
  have acc: "accepts demo_cfg demo_env demo_entries ''a'' [''0123456789'']"
    by (simp add: accepts_def setenv_checks_def console_of_def)
  have ok: "name_ok ''a''" "values_ok [''0123456789'']" by (simp_all add: name_ok_def values_ok_def)
  have fits: "\<not> env_fits (length (env_buf demo_env)) (env_remove ''a'' demo_entries)
      (''a'' @ args_str True [''0123456789''])"
    unfolding demo_len by (simp add: env_fits_def env_remove_def demo_entries_def entry_name_def)
  from setenv_overflow_stale_crc [OF demo_repr demo_len(2) ok acc _ fits, of "''setenv''"]
  show ?thesis by auto
qed

text \<open>C20: without \<open>CONFIG_ENV_OVERWRITE\<close> the variables \<open>serial#\<close> and \<open>ethaddr\<close> are written once:
  when they exist, every \<open>setenv\<close> of them returns 1 and leaves every variable as it is.\<close>

theorem setenv_protected:
  assumes "env_repr (env_buf st) es" and "\<not> CONFIG_ENV_OVERWRITE cfg"
    and "n = ''serial#'' \<or> n = ''ethaddr''" and "env_lookup es n \<noteq> None"
  shows "\<exists>st'. do_setenv_internal cfg st (c # n # vs) = Some (1, st') \<and> env_buf st' = env_buf st \<and>
    env_ptr_crc st' = env_ptr_crc st"
proof -
  have chk: "setenv_checks cfg (st\<lparr>env_id := env_id st + 1\<rparr>) n vs = Some (Inl 1)"
    using assms(2,3) by (simp add: setenv_checks_def)
  have "name_ok n" using assms(3) by (auto simp: name_ok_def)
  moreover have "\<not> accepts cfg st es n vs" using assms(4) chk by (simp add: accepts_def)
  ultimately show ?thesis using do_setenv_internal_refused [OF assms(1), of n cfg vs c] chk by auto
qed

theorem setenv_protected_witness:
  "\<exists>st'. do_setenv_internal demo_cfg demo_env [''setenv'', ''serial#'', ''9''] = Some (1, st') \<and>
    env_buf st' = env_buf demo_env \<and> env_ptr_crc st' = env_ptr_crc demo_env"
proof -
  have "\<not> CONFIG_ENV_OVERWRITE demo_cfg" "env_lookup demo_entries ''serial#'' \<noteq> None"
    by (simp_all add: demo_cfg_def demo_entries_def env_lookup_def entry_name_def)
  from setenv_protected [OF demo_repr this(1) _ this(2)] show ?thesis by blast
qed

text \<open>\<open>printenv\<close> of the whole block prints every entry on a line of its own and returns the
  number of bytes in use; \<open>printenv name\<close> prints the entry with that name and returns 0, or prints
  nothing and returns the number of bytes in use (so that in an empty block a missing name is taken
  for a found one).\<close>

lemma printenv_result:
  assumes "env_repr (env_buf st) es" and "name_ok n"
  shows "printenv st (\<lambda>_. False) m 1 =
      Some (int (length (enc es)), concat (map (\<lambda>e. e @ [CHR 0x0A]) es)) \<and>
    printenv st (\<lambda>_. False) n 2 = (case env_lookup es n of
           None \<Rightarrow> Some (int (length (enc es)), [])
         | Some v \<Rightarrow> Some (0, n @ CHR ''='' # v @ [CHR 0x0A]))"
proof (rule conjI)
  obtain q where b: "env_buf st = [] @ enc es @ NUL # q" and ok: "\<forall>e\<in>set es. entry_ok e"
    using assms(1) by (auto simp: env_repr_def)
  show "printenv st (\<lambda>_. False) m 1 = Some (int (length (enc es)), concat (map (\<lambda>e. e @ [CHR 0x0A]) es))"
    using printenv_loop_all [OF ok b, of m "[]"] by (simp add: printenv_def)
  show "printenv st (\<lambda>_. False) n 2 = (case env_lookup es n of
           None \<Rightarrow> Some (int (length (enc es)), [])
         | Some v \<Rightarrow> Some (0, n @ CHR ''='' # v @ [CHR 0x0A]))"
    using printenv_loop_one [OF ok b assms(2), of "[]"] by (simp add: printenv_def cong: option.case_cong)
qed

lemma printenv_result_witness:
  "printenv demo_env (\<lambda>_. False) ''ipaddr'' 2 = Some (0, ''ipaddr=9'' @ [CHR 0x0A])"
  using printenv_result [OF demo_repr, of "''ipaddr''" "[]"]
  by (simp add: name_ok_def demo_entries_def env_lookup_def entry_name_def entry_value_def)

theorem getenv_r_result_witness:
  "getenv_r demo_cfg demo_env ''a'' (replicate 2 NUL) 2 = None \<and>
   getenv_r demo_cfg demo_env ''a'' (replicate 3 NUL) 3 = Some (2, ''1'' @ [NUL, NUL])"
  using getenv_r_result [OF demo_repr _ demo_len(2), of "''a''" 2 "replicate 2 NUL"]
    getenv_r_result [OF demo_repr _ demo_len(2), of "''a''" 3 "replicate 3 NUL"]
  by (simp add: name_ok_def demo_entries_def env_lookup_def entry_name_def entry_value_def put_at_def
      numeral_eq_Suc)

section \<open>The interface of the environment\<close>

text \<open>What the command line needs of the environment (\<open>env_reader\<close>), and what the users of
  \<open>setenv\<close> need: \<open>get\<close> and \<open>set_var\<close> are \<open>getenv\<close> and \<open>setenv\<close>, \<open>okn\<close> and \<open>okv\<close> the names and values
  they pass, \<open>inv\<close> the well-formed states.\<close>

locale env_reader =
  fixes inv :: "'s \<Rightarrow> bool" and okn :: "string \<Rightarrow> bool"
    and get :: "'s \<Rightarrow> string \<Rightarrow> string option option"
  assumes get_total: "inv s \<Longrightarrow> okn n \<Longrightarrow> get s n \<noteq> None"

locale env_store = env_reader inv okn get
  for inv :: "'s \<Rightarrow> bool" and okn :: "string \<Rightarrow> bool"
    and get :: "'s \<Rightarrow> string \<Rightarrow> string option option" +
  fixes okv :: "string option \<Rightarrow> bool"
    and set_var :: "'s \<Rightarrow> string \<Rightarrow> string option \<Rightarrow> (int \<times> 's) option"
  assumes set_inv: "inv s \<Longrightarrow> okn n \<Longrightarrow> okv v \<Longrightarrow> set_var s n v = Some (rc, s') \<Longrightarrow> inv s'"
    and set_other: "inv s \<Longrightarrow> okn n \<Longrightarrow> okv v \<Longrightarrow> set_var s n v = Some (rc, s') \<Longrightarrow> okn m \<Longrightarrow>
      m \<noteq> n \<Longrightarrow> get s' m = get s m"
    and set_same: "inv s \<Longrightarrow> okn n \<Longrightarrow> okv v \<Longrightarrow> set_var s n v = Some (0, s') \<Longrightarrow> get s' n = Some v"

text \<open>A series of assignments that stops at the first failure.\<close>

primrec set_all ::
  "('s \<Rightarrow> string \<Rightarrow> string option \<Rightarrow> (int \<times> 's) option) \<Rightarrow> 's \<Rightarrow> (string \<times> string option) list \<Rightarrow> 's option"
where
  "set_all set_var s [] = Some s"
| "set_all set_var s (a # as) =
     do { (rc, s) \<leftarrow> set_var s (fst a) (snd a); if rc = 0 then set_all set_var s as else None }"

context env_store
begin

lemma set_all_get:
  assumes "set_all set_var s as = Some s'" and "inv s" and "\<forall>a\<in>set as. okn (fst a) \<and> okv (snd a)"
    and "okn m"
  shows "inv s' \<and> get s' m = (case map_of (rev as) m of Some v \<Rightarrow> Some v | None \<Rightarrow> get s m)"
  using assms
proof (induction as arbitrary: s)
  case (Cons a as)
  obtain s1 where s1: "set_var s (fst a) (snd a) = Some (0, s1)" "set_all set_var s1 as = Some s'"
    using Cons.prems(1) by (auto split: Option.bind_splits if_splits)
  have inv1: "inv s1" using set_inv [OF _ _ _ s1(1)] Cons.prems by auto
  have "get s1 m = (if m = fst a then Some (snd a) else get s m)"
    using set_other [OF _ _ _ s1(1)] set_same [OF _ _ _ s1(1)] Cons.prems by auto
  moreover have "inv s' \<and> get s' m = (case map_of (rev as) m of Some v \<Rightarrow> Some v | None \<Rightarrow> get s1 m)"
    using Cons.prems by (intro Cons.IH s1(2) inv1) auto
  ultimately show ?case by (cases a) (auto simp: map_add_def split: option.splits)
qed simp

lemma set_set_same:
  assumes "inv s" and "okn n" and "okv v" and "okv w"
    and "set_var s n v = Some (0, s1)" and "set_var s1 n w = Some (0, s2)" and "okn m"
  shows "get s2 m = (if m = n then Some w else get s m)"
  using set_all_get [of s "[(n, v), (n, w)]" s2 m] assms by simp

end

text \<open>Variables without special treatment (\<open>plain\<close>): an assignment always returns, and one that
  fails leaves the variable unset.\<close>

locale plain_env = env_store inv okn get okv set_var
  for inv :: "'s \<Rightarrow> bool" and okn :: "string \<Rightarrow> bool"
    and get :: "'s \<Rightarrow> string \<Rightarrow> string option option" and okv :: "string option \<Rightarrow> bool"
    and set_var :: "'s \<Rightarrow> string \<Rightarrow> string option \<Rightarrow> (int \<times> 's) option" +
  fixes plain :: "string \<Rightarrow> bool"
  assumes set_total: "inv s \<Longrightarrow> okn n \<Longrightarrow> plain n \<Longrightarrow> okv v \<Longrightarrow> set_var s n v \<noteq> None"
    and set_failed: "inv s \<Longrightarrow> okn n \<Longrightarrow> plain n \<Longrightarrow> okv v \<Longrightarrow> set_var s n v = Some (rc, s') \<Longrightarrow>
      rc \<noteq> 0 \<Longrightarrow> get s' n = Some None"
begin

lemma set_plain:
  assumes "inv s" and "okn n" and "plain n" and "okv v"
  obtains rc s' where "set_var s n v = Some (rc, s')" and "inv s'"
    and "\<And>m. okn m \<Longrightarrow> m \<noteq> n \<Longrightarrow> get s' m = get s m"
    and "get s' n = Some (if rc = 0 then v else None)"
proof -
  obtain rc s' where run: "set_var s n v = Some (rc, s')"
    using set_total [OF assms] by auto
  moreover have "get s' n = Some (if rc = 0 then v else None)"
    using set_same [OF assms(1,2,4)] set_failed [OF assms run] run by auto
  ultimately show ?thesis
    using that set_inv [OF assms(1,2,4) run] set_other [OF assms(1,2,4) run] by blast
qed

end

text \<open>A value that one argument can be; \<open>None\<close> deletes.\<close>

definition value_ok :: "string option \<Rightarrow> bool" where
  "value_ok v \<longleftrightarrow> (case v of None \<Rightarrow> True | Some s \<Rightarrow> NUL \<notin> set s)"

lemma setenv_internal: "setenv cfg st n v =
    do_setenv_internal cfg st (''setenv'' # n # (case v of None \<Rightarrow> [] | Some s \<Rightarrow> [s]))"
  by (simp add: setenv_def split: option.splits)

lemma env_wf_get: "env_wf cfg st \<Longrightarrow> name_ok n \<Longrightarrow>
    \<exists>es. env_repr (env_buf st) es \<and> getenv cfg st n = Some (env_lookup es n)"
  using getenv_repr [of st _ n cfg] by (auto simp: env_wf_def name_ok_def)

lemma setenv_effect:
  assumes "env_wf cfg st" and "name_ok n" and "value_ok v" and "setenv cfg st n v = Some (rc, st')"
    and "name_ok m"
  shows "env_wf cfg st' \<and> (m \<noteq> n \<longrightarrow> getenv cfg st' m = getenv cfg st m) \<and>
    (rc = 0 \<longrightarrow> getenv cfg st' n = Some v)"
proof -
  define vs where "vs = (case v of None \<Rightarrow> [] | Some s \<Rightarrow> [s])"
  have ok: "values_ok vs" using assms(3) by (auto simp: vs_def values_ok_def value_ok_def split: option.splits)
  have run: "do_setenv_internal cfg st (''setenv'' # n # vs) = Some (rc, st')"
    using assms(4) by (simp add: setenv_internal vs_def)
  obtain es where es: "env_repr (env_buf st) es" and len: "length (env_buf st) \<le> CONFIG_ENV_SIZE cfg"
    using assms(1) by (auto simp: env_wf_def)
  note cs = do_setenv_internal_cases [OF run es assms(2) ok]
  have n: "CHR ''='' \<notin> set n" "NUL \<notin> set n" and m: "CHR ''='' \<notin> set m" "NUL \<notin> set m"
    using assms by (auto simp: name_ok_def)
  have old: "getenv cfg st k = Some (env_lookup es k)" if "CHR ''='' \<notin> set k" "NUL \<notin> set k" for k
    by (rule getenv_repr [OF es that len])
  show ?thesis
  proof (cases "accepts cfg st es n vs")
    case False
    with cs have "rc = 1" "env_buf st' = env_buf st" by auto
    then have "env_repr (env_buf st') es" "length (env_buf st') \<le> CONFIG_ENV_SIZE cfg"
      using es len by auto
    then show ?thesis using getenv_repr [of st' es m cfg] old [OF m] m \<open>rc = 1\<close>
      by (auto simp: env_wf_def)
  next
    case True
    let ?es = "env_updated (length (env_buf st)) es n vs"
    from True cs have new: "env_repr (env_buf st') ?es" "length (env_buf st') \<le> CONFIG_ENV_SIZE cfg"
      and rc: "rc = (if vs = [] \<or> env_fits (length (env_buf st)) (env_remove n es) (n @ args_str True vs)
            then 0 else 1)" using len by auto
    have "getenv cfg st' m = Some (env_lookup ?es m)" "getenv cfg st' n = Some (env_lookup ?es n)"
      using getenv_repr [OF new(1) _ _ new(2)] n m by auto
    moreover have "env_wf cfg st'" using new by (auto simp: env_wf_def)
    ultimately show ?thesis using old [OF m] rc
      by (auto simp: env_lookup_updated [OF n(1)] vs_def split: option.splits if_splits)
  qed
qed

interpretation es: env_reader "env_wf cfg" name_ok "getenv cfg" for cfg
  by unfold_locales (use env_wf_get in fastforce)

interpretation es: env_store "env_wf cfg" name_ok "getenv cfg" value_ok "setenv cfg" for cfg
  by unfold_locales (use setenv_effect in blast)+

definition plain_name :: "string \<Rightarrow> bool" where
  "plain_name n \<longleftrightarrow> n \<notin> {''serial#'', ''ethaddr'', ''baudrate''} \<and> console_of n = None"

lemma plain_accepts: "plain_name n \<Longrightarrow> accepts cfg st es n vs"
  by (simp add: plain_name_def accepts_def setenv_checks_def)

lemma setenv_plain:
  assumes "env_wf cfg st" and "name_ok n" and "plain_name n" and "value_ok v"
  shows "\<exists>rc st'. setenv cfg st n v = Some (rc, st') \<and> (rc \<noteq> 0 \<longrightarrow> getenv cfg st' n = Some None)"
proof -
  define vs where "vs = (case v of None \<Rightarrow> [] | Some s \<Rightarrow> [s])"
  have ok: "values_ok vs" using assms(4) by (auto simp: vs_def values_ok_def value_ok_def split: option.splits)
  obtain es where es: "env_repr (env_buf st) es" and len: "length (env_buf st) \<le> CONFIG_ENV_SIZE cfg"
    using assms(1) by (auto simp: env_wf_def)
  obtain rc st' where run: "do_setenv_internal cfg st (''setenv'' # n # vs) = Some (rc, st')"
    and st': "env_repr (env_buf st') (env_updated (length (env_buf st)) es n vs)"
      "length (env_buf st') = length (env_buf st)"
    and rc: "rc = (if vs = [] \<or> env_fits (length (env_buf st)) (env_remove n es) (n @ args_str True vs) then 0 else 1)"
    using do_setenv_internal_repr [OF es assms(2) ok plain_accepts [OF assms(3)], where c = "''setenv''"] by blast
  have "getenv cfg st' n = Some (env_lookup (env_updated (length (env_buf st)) es n vs) n)"
    using st' len assms(2) by (intro getenv_repr) (auto simp: name_ok_def)
  with rc assms(2) have get: "rc \<noteq> 0 \<Longrightarrow> getenv cfg st' n = Some None"
    by (auto simp: env_lookup_updated name_ok_def split: if_splits)
  from run have "setenv cfg st n v = Some (rc, st')" by (simp add: setenv_internal vs_def)
  with get show ?thesis by auto
qed

interpretation es: plain_env "env_wf cfg" name_ok "getenv cfg" value_ok "setenv cfg" plain_name for cfg
proof unfold_locales
  fix s n v
  assume "env_wf cfg s" "name_ok n" "plain_name n" "value_ok v"
  from setenv_plain [OF this] show "setenv cfg s n v \<noteq> None" by auto
next
  fix s n v rc s'
  assume "env_wf cfg s" "name_ok n" "plain_name n" "value_ok v" "setenv cfg s n v = Some (rc, s')" "rc \<noteq> 0"
  with setenv_plain [OF this(1-4)] show "getenv cfg s' n = Some None" by auto
qed

text \<open>C2: a series of \<open>setenv\<close> calls that all return 0 leaves a well-formed environment in which
  every name has the value of the last call for it, or its old value when there was none.\<close>

theorem setenv_sequence:
  assumes "env_wf cfg st" and "\<forall>a\<in>set as. name_ok (fst a) \<and> value_ok (snd a)" and "name_ok m"
    and "set_all (setenv cfg) st as = Some st'"
  shows "env_wf cfg st' \<and>
    getenv cfg st' m = (case map_of (rev as) m of Some v \<Rightarrow> Some v | None \<Rightarrow> getenv cfg st m)"
  using assms by (intro es.set_all_get)

theorem setenv_sequence_witness:
  "\<exists>st'. set_all (setenv demo_cfg) demo_env [(''a'', None), (''b'', Some ''3''), (''b'', Some ''4'')] = Some st' \<and>
     env_wf demo_cfg st' \<and> getenv demo_cfg st' ''b'' = Some (Some ''4'') \<and>
     getenv demo_cfg st' ''a'' = Some None"
proof -
  let ?as = "[(''a'', None), (''b'', Some ''3''), (''b'', Some ''4'')]"
  have "(case set_all (setenv demo_cfg) demo_env ?as of None \<Rightarrow> False | Some _ \<Rightarrow> True)"
    by code_simp
  then obtain st' where run: "set_all (setenv demo_cfg) demo_env ?as = Some st'"
    by (auto split: option.splits)
  have wf: "env_wf demo_cfg demo_env" using demo_repr demo_len by (auto simp: env_wf_def)
  have ok: "\<forall>a\<in>set ?as. name_ok (fst a) \<and> value_ok (snd a)" "name_ok ''a''" "name_ok ''b''"
    by (simp_all add: name_ok_def value_ok_def)
  from setenv_sequence [OF wf ok(1,2) run] setenv_sequence [OF wf ok(1,3) run] run
  show ?thesis by auto
qed

text \<open>\<open>set_default_env\<close> makes the block valid with the default entries, and its CRC is right.\<close>

lemma set_default_env_repr:
  assumes "env_repr (default_environment st) es" and "length (default_environment st) \<le> length (env_data st)"
    and "length (env_data st) \<le> CONFIG_ENV_SIZE cfg" and "name_ok n"
  shows "env_valid (set_default_env cfg st) \<and> crc_ok cfg (set_default_env cfg st) \<and>
    length (env_data (set_default_env cfg st)) = length (env_data st) \<and>
    getenv cfg (set_default_env cfg st) n = Some (env_lookup es n)"
proof -
  let ?st = "set_default_env cfg st"
  have data: "env_data ?st = default_environment st @
      replicate (length (env_data st) - length (default_environment st)) NUL" "env_valid ?st"
    using assms(2) by (simp_all add: set_default_env_def)
  then have buf: "env_buf ?st = default_environment st @
      replicate (length (env_data st) - length (default_environment st)) NUL"
    by (simp add: env_buf_def)
  obtain junk where "default_environment st = enc es @ NUL # junk"
    "es = [] \<longrightarrow> junk \<noteq> [] \<and> hd junk = NUL" "\<forall>e\<in>set es. entry_ok e" "distinct (map entry_name es)"
    using assms(1) by (auto simp: env_repr_def)
  then have "env_repr (env_buf ?st) es" unfolding env_repr_def buf by auto
  moreover have "length (env_buf ?st) \<le> CONFIG_ENV_SIZE cfg" unfolding buf using assms by simp
  ultimately have "getenv cfg ?st n = Some (env_lookup es n)"
    using assms(4) by (intro getenv_repr) (auto simp: name_ok_def)
  moreover have "crc_ok cfg ?st" using assms(2)
    by (simp add: crc_ok_def set_default_env_def) (simp add: env_crc_update_def)
  ultimately show ?thesis using data assms(2) by simp
qed

lemma set_default_env_repr_witness:
  "getenv demo_cfg (set_default_env demo_cfg
     (demo_env\<lparr>default_environment := enc [''a=1''] @ [NUL], env_valid := False\<rparr>)) ''a'' = Some (Some ''1'')"
proof -
  let ?st = "demo_env\<lparr>default_environment := enc [''a=1''] @ [NUL], env_valid := False\<rparr>"
  have "env_repr (default_environment ?st) [''a=1'']"
    by (simp add: env_repr_def entry_ok_def)
  moreover have "length (default_environment ?st) \<le> length (env_data ?st)"
    "length (env_data ?st) \<le> CONFIG_ENV_SIZE demo_cfg"
    by (simp_all add: demo_env_def demo_entries_def demo_cfg_def)
  ultimately have "getenv demo_cfg (set_default_env demo_cfg ?st) ''a'' = Some (env_lookup [''a=1''] ''a'')"
    using set_default_env_repr [of ?st "[''a=1'']" demo_cfg "''a''"] by (simp add: name_ok_def)
  then show ?thesis by (simp add: env_lookup_def entry_name_def entry_value_def)
qed

end
