(* ===== verification/LineEdit.thy ===== *)
theory LineEdit
  imports Prelude
begin

text \<open>
  The command line editor of \<open>common/main.c\<close> (\<open>CONFIG_CMDLINE_EDITING\<close>): the history ring
  (\<open>hist_init\<close>, \<open>cread_add_to_hist\<close>, \<open>hist_prev\<close>, \<open>hist_next\<close>) and \<open>cread_line\<close>, which reads keys,
  keeps a line in the caller's buffer and echoes on the terminal.  Two specifications are
  implemented by it: a history is a list of lines, a line is a pair of the text before and after
  the cursor.  A third one says that the terminal shows the line.

  Indices and pointers are kept as the code has them; an access outside \<open>buf\<close> or outside a row of
  \<open>hist_lines\<close> is the fault \<open>None\<close>.  The build without \<open>CONFIG_BOOT_RETRY_TIME\<close> is modelled, and
  \<open>cmd_auto_complete\<close>, which is in another file, is the argument \<open>ac\<close>.
\<close>

section \<open>History\<close>

definition HIST_MAX :: nat where "HIST_MAX = 20"
definition MAX_CMDBUF_SIZE :: nat where "MAX_CMDBUF_SIZE = 256"

text \<open>\<open>hist_list[i]\<close> points to \<open>hist_lines[i]\<close> from \<open>hist_init\<close> on.\<close>

record hist =
  hist_max :: nat
  hist_add_idx :: nat
  hist_cur :: int
  hist_num :: u32
  hist_lines :: "char list list"

definition hist_init :: "hist \<Rightarrow> hist" where
  "hist_init h = h\<lparr>hist_max := 0, hist_add_idx := 0, hist_cur := -1, hist_num := 0,
     hist_lines := map (\<lambda>row. row[0 := NUL]) (hist_lines h)\<rparr>"

definition cread_add_to_hist :: "hist \<Rightarrow> string \<Rightarrow> hist option" where
  "cread_add_to_hist h line =
     do { row \<leftarrow> rd (hist_lines h) (hist_add_idx h);
          (row, _) \<leftarrow> store_str row 0 line;
          let idx = (if hist_add_idx h + 1 \<ge> HIST_MAX then 0 else hist_add_idx h + 1);
          Some (h\<lparr>hist_lines := (hist_lines h)[hist_add_idx h := row], hist_add_idx := idx,
                  hist_max := (if idx > hist_max h then idx else hist_max h),
                  hist_num := hist_num h + 1\<rparr>) }"

text \<open>\<open>hist_prev\<close> and \<open>hist_next\<close> return a pointer to a line, or NULL (\<open>None\<close> in the result).\<close>

definition hist_prev :: "hist \<Rightarrow> (string option \<times> hist) option" where
  "hist_prev h =
     (if hist_cur h < 0 then Some (None, h)
      else let cur = (if hist_cur h - 1 < 0 then int (hist_max h) else hist_cur h - 1) in
        if cur = int (hist_add_idx h) then Some (None, h)
        else do { row \<leftarrow> rd (hist_lines h) (nat cur);
                  line \<leftarrow> cstr_at row 0;
                  Some (Some line, h\<lparr>hist_cur := cur\<rparr>) })"

definition hist_next :: "hist \<Rightarrow> (string option \<times> hist) option" where
  "hist_next h =
     (if hist_cur h < 0 then Some (None, h)
      else if hist_cur h = int (hist_add_idx h) then Some (None, h)
      else let cur = (if hist_cur h + 1 > int (hist_max h) then 0 else hist_cur h + 1) in
        if cur = int (hist_add_idx h) then Some (Some [], h\<lparr>hist_cur := cur\<rparr>)
        else do { row \<leftarrow> rd (hist_lines h) (nat cur);
                  line \<leftarrow> cstr_at row 0;
                  Some (Some line, h\<lparr>hist_cur := cur\<rparr>) })"

section \<open>The line\<close>

abbreviation BS :: char where "BS \<equiv> CHR 0x08"
abbreviation BEL :: char where "BEL \<equiv> CHR 0x07"

text \<open>The locals of \<open>cread_line\<close> with the buffer, and all that was sent to the terminal.\<close>

record cread =
  num :: nat
  eol_num :: nat
  cbuf :: "char list"
  insert_mode :: bool
  esc_len :: nat
  esc_save :: "char list"
  tty :: string

definition getcmd_putch :: "char \<Rightarrow> cread \<Rightarrow> cread" where
  "getcmd_putch c st = st\<lparr>tty := tty st @ [c]\<rparr>"

text \<open>\<open>putnstr (buf + p, n)\<close>: \<open>printf ("%.*s")\<close> stops at a NUL.\<close>

definition putnstr :: "nat \<Rightarrow> nat \<Rightarrow> cread \<Rightarrow> cread" where
  "putnstr p n st = st\<lparr>tty := tty st @ takeWhile (\<lambda>c. c \<noteq> NUL) (take n (drop p (cbuf st)))\<rparr>"

definition putch_n :: "nat \<Rightarrow> char \<Rightarrow> cread \<Rightarrow> cread" where
  "putch_n n c st = st\<lparr>tty := tty st @ replicate n c\<rparr>"

definition memmove :: "char list \<Rightarrow> nat \<Rightarrow> nat \<Rightarrow> nat \<Rightarrow> char list option" where
  "memmove b d s n =
     (if d + n \<le> length b \<and> s + n \<le> length b then Some (put_at b d (take n (drop s b))) else None)"

definition BEGINNING_OF_LINE :: "cread \<Rightarrow> cread" where
  "BEGINNING_OF_LINE st = (putch_n (num st) BS st)\<lparr>num := 0\<rparr>"

definition ERASE_TO_EOL :: "cread \<Rightarrow> cread" where
  "ERASE_TO_EOL st =
     (if num st < eol_num st
      then (putch_n (eol_num st - num st) BS (putch_n (eol_num st - num st) (CHR '' '') st))
             \<lparr>eol_num := num st\<rparr>
      else st)"

definition REFRESH_TO_EOL :: "cread \<Rightarrow> cread" where
  "REFRESH_TO_EOL st =
     (if num st < eol_num st
      then (putnstr (num st) (eol_num st - num st) st)\<lparr>num := eol_num st\<rparr>
      else st)"

definition cread_add_char :: "char \<Rightarrow> nat \<Rightarrow> cread \<Rightarrow> cread option" where
  "cread_add_char ichar len st =
     (if (insert_mode st \<or> num st = eol_num st) \<and> eol_num st > len - 1
      then Some (getcmd_putch BEL st)
      else let st = (if insert_mode st \<or> num st = eol_num st
                     then st\<lparr>eol_num := eol_num st + 1\<rparr> else st) in
        if insert_mode st
        then do { let wlen = eol_num st - num st;
                  b \<leftarrow> (if wlen > 1 then memmove (cbuf st) (num st + 1) (num st) (wlen - 1)
                        else Some (cbuf st));
                  b \<leftarrow> wr b (num st) ichar;
                  Some (putch_n (wlen - 1) BS
                          ((putnstr (num st) wlen (st\<lparr>cbuf := b\<rparr>))\<lparr>num := num st + 1\<rparr>)) }
        else do { b \<leftarrow> wr (cbuf st) (num st) ichar;
                  Some ((putnstr (num st) 1 (st\<lparr>cbuf := b\<rparr>))\<lparr>num := num st + 1\<rparr>) })"

fun cread_add_str :: "string \<Rightarrow> nat \<Rightarrow> cread \<Rightarrow> cread option" where
  "cread_add_str [] len st = Some st"
| "cread_add_str (c # s) len st = do { st \<leftarrow> cread_add_char c len st; cread_add_str s len st }"

text \<open>The keys that take characters out.\<close>

definition key_ctrl_d :: "cread \<Rightarrow> cread option" where
  "key_ctrl_d st =
     (if num st < eol_num st
      then do { let wlen = eol_num st - num st - 1;
                st \<leftarrow> (if wlen > 0
                  then do { b \<leftarrow> memmove (cbuf st) (num st) (num st + 1) wlen;
                            Some (putnstr (num st) wlen (st\<lparr>cbuf := b\<rparr>)) }
                  else Some st);
                Some ((putch_n (wlen + 1) BS (getcmd_putch (CHR '' '') st))
                        \<lparr>eol_num := eol_num st - 1\<rparr>) }
      else Some st)"

definition key_del :: "cread \<Rightarrow> cread option" where
  "key_del st =
     (if num st > 0
      then do { let wlen = eol_num st - num st;
                let st = st\<lparr>num := num st - 1\<rparr>;
                b \<leftarrow> memmove (cbuf st) (num st) (num st + 1) wlen;
                Some ((putch_n (wlen + 1) BS (getcmd_putch (CHR '' '')
                         (putnstr (num st) wlen (getcmd_putch BS (st\<lparr>cbuf := b\<rparr>)))))
                        \<lparr>eol_num := eol_num st - 1\<rparr>) }
      else Some st)"

text \<open>\<open>strcpy (buf, hline)\<close> after the line has been cleared, and the display of it.\<close>

definition cread_set_line :: "string \<Rightarrow> cread \<Rightarrow> cread option" where
  "cread_set_line hline st =
     do { let st = ERASE_TO_EOL (BEGINNING_OF_LINE st);
          (b, _) \<leftarrow> store_str (cbuf st) 0 hline;
          Some (REFRESH_TO_EOL (st\<lparr>cbuf := b, eol_num := length hline\<rparr>)) }"

datatype key_result = Cont | Done | Break

text \<open>\<open>ac prompt buf num col\<close> is \<open>cmd_auto_complete\<close>: whether it completed, the buffer, the new
  index, the new column and what it printed.\<close>

type_synonym completer =
  "string \<Rightarrow> char list \<Rightarrow> nat \<Rightarrow> int \<Rightarrow> (bool \<times> char list \<times> nat \<times> int \<times> string) option"

definition key_tab :: "completer \<Rightarrow> string \<Rightarrow> cread \<Rightarrow> cread option" where
  "key_tab ac prompt st =
     (if num st < eol_num st then Some (getcmd_putch BEL st)
      else do { b \<leftarrow> wr (cbuf st) (num st) NUL;
                (r, b, num2, _, out) \<leftarrow> ac prompt b (num st) (int (length prompt + eol_num st));
                let st = st\<lparr>cbuf := b, tty := tty st @ out\<rparr>;
                Some (if r then st\<lparr>eol_num := nat (int (eol_num st) + (int num2 - int (num st))),
                                   num := num2\<rparr>
                      else st) })"

text \<open>The \<open>switch (ichar)\<close> of \<open>cread_line\<close>.\<close>

definition cread_switch ::
  "completer \<Rightarrow> string \<Rightarrow> nat \<Rightarrow> cread \<Rightarrow> hist \<Rightarrow> char \<Rightarrow> (key_result \<times> cread \<times> hist) option" where
  "cread_switch ac prompt len st h ichar =
     (if ichar = CHR 0x1B
      then if esc_len st = 0
           then do { e \<leftarrow> wr (esc_save st) 0 ichar; Some (Cont, st\<lparr>esc_save := e, esc_len := 1\<rparr>, h) }
           else Some (Cont, st\<lparr>tty := tty st @ ''impossible condition #876'' @ [CHR 0x0A],
                               esc_len := 0\<rparr>, h)
      else if ichar = CHR 0x01 then Some (Cont, BEGINNING_OF_LINE st, h)
      else if ichar = CHR 0x03
      then do { b \<leftarrow> wr (cbuf st) 0 NUL; Some (Break, st\<lparr>cbuf := b\<rparr>, h) }
      else if ichar = CHR 0x06
      then if num st < eol_num st
           then do { c \<leftarrow> rd (cbuf st) (num st);
                     Some (Cont, (getcmd_putch c st)\<lparr>num := num st + 1\<rparr>, h) }
           else Some (Cont, st, h)
      else if ichar = CHR 0x02
      then Some (Cont, if num st > 0 then (getcmd_putch BS st)\<lparr>num := num st - 1\<rparr> else st, h)
      else if ichar = CHR 0x04 then do { st \<leftarrow> key_ctrl_d st; Some (Cont, st, h) }
      else if ichar = CHR 0x0B then Some (Cont, ERASE_TO_EOL st, h)
      else if ichar = CHR 0x05 then Some (Cont, REFRESH_TO_EOL st, h)
      else if ichar = CHR 0x0F then Some (Cont, st\<lparr>insert_mode := \<not> insert_mode st\<rparr>, h)
      else if ichar = CHR 0x18 \<or> ichar = CHR 0x15
      then Some (Cont, ERASE_TO_EOL (BEGINNING_OF_LINE st), h)
      else if ichar = CHR 0xFF \<or> ichar = CHR 0x7F \<or> ichar = BS
      then do { st \<leftarrow> key_del st; Some (Cont, st, h) }
      else if ichar = CHR 0x10 \<or> ichar = CHR 0x0E
      then do { let st = st\<lparr>esc_len := 0\<rparr>;
                (hline, h) \<leftarrow> (if ichar = CHR 0x10 then hist_prev h else hist_next h);
                case hline of
                  None \<Rightarrow> Some (Cont, getcmd_putch BEL st, h)
                | Some line \<Rightarrow> do { st \<leftarrow> cread_set_line line st; Some (Cont, st, h) } }
      else if ichar = CHR 0x09
      then do { st \<leftarrow> key_tab ac prompt st; Some (Cont, st, h) }
      else do { st \<leftarrow> cread_add_char ichar len st; Some (Cont, st, h) })"

text \<open>The third character of an xterm escape sequence stands for a control key.\<close>

definition esc_key :: "char \<Rightarrow> char option" where
  "esc_key c =
     (if c = CHR ''D'' then Some (CHR 0x02) else if c = CHR ''C'' then Some (CHR 0x06)
      else if c = CHR ''H'' then Some (CHR 0x01) else if c = CHR ''A'' then Some (CHR 0x10)
      else if c = CHR ''B'' then Some (CHR 0x0E) else None)"

text \<open>One turn of \<open>while (1)\<close>.\<close>

definition cread_key ::
  "completer \<Rightarrow> string \<Rightarrow> nat \<Rightarrow> cread \<Rightarrow> hist \<Rightarrow> char \<Rightarrow> (key_result \<times> cread \<times> hist) option" where
  "cread_key ac prompt len st h ichar =
     (if ichar = CHR 0x0A \<or> ichar = CHR 0x0D
      then Some (Done, getcmd_putch (CHR 0x0A) st, h)
      else if esc_len st = 1
      then if ichar = CHR ''[''
           then do { e \<leftarrow> wr (esc_save st) 1 ichar; Some (Cont, st\<lparr>esc_save := e, esc_len := 2\<rparr>, h) }
           else do { st \<leftarrow> cread_add_str (take 1 (esc_save st)) len st;
                     Some (Cont, st\<lparr>esc_len := 0\<rparr>, h) }
      else if esc_len st \<noteq> 0
      then case esc_key ichar of
             Some k \<Rightarrow> cread_switch ac prompt len (st\<lparr>esc_len := 0\<rparr>) h k
           | None \<Rightarrow>
               do { e \<leftarrow> wr (esc_save st) (esc_len st) ichar;
                    st \<leftarrow> cread_add_str (take (esc_len st + 1) e) len
                            (st\<lparr>esc_save := e, esc_len := esc_len st + 1\<rparr>);
                    Some (Cont, st\<lparr>esc_len := 0\<rparr>, h) }
      else cread_switch ac prompt len st h ichar)"

text \<open>The loop: it reads from \<open>input\<close> until Enter or \<open>^C\<close>; \<open>Waiting\<close> is the loop that blocks in
  \<open>getc\<close> when the input is used up.\<close>

datatype line_end = Waiting | Returned int

fun cread_loop ::
  "completer \<Rightarrow> string \<Rightarrow> nat \<Rightarrow> cread \<Rightarrow> hist \<Rightarrow> string \<Rightarrow> (line_end \<times> cread \<times> hist \<times> string) option" where
  "cread_loop ac prompt len st h [] = Some (Waiting, st, h, [])"
| "cread_loop ac prompt len st h (c # input) =
     do { (r, st, h) \<leftarrow> cread_key ac prompt len st h c;
          case r of Cont \<Rightarrow> cread_loop ac prompt len st h input
          | Break \<Rightarrow> Some (Returned (-1), st, h, input)
          | Done \<Rightarrow> Some (Returned 0, st, h, input) }"

text \<open>After the loop: the line is ended with a NUL and, unless it is empty or starts with \<open>!\<close>,
  goes into the history.\<close>

definition cread_finish :: "cread \<Rightarrow> hist \<Rightarrow> (cread \<times> hist) option" where
  "cread_finish st h =
     do { b \<leftarrow> wr (cbuf st) (eol_num st) NUL;
          c \<leftarrow> rd b 0;
          h \<leftarrow> (if c \<noteq> NUL \<and> c \<noteq> CHR ''!''
                then do { line \<leftarrow> cstr_at b 0; cread_add_to_hist h line } else Some h);
          Some (st\<lparr>cbuf := b\<rparr>, h\<lparr>hist_cur := int (hist_add_idx h)\<rparr>) }"

definition cread_line ::
  "completer \<Rightarrow> string \<Rightarrow> char list \<Rightarrow> nat \<Rightarrow> hist \<Rightarrow> string \<Rightarrow>
   (line_end \<times> cread \<times> hist \<times> string) option" where
  "cread_line ac prompt buf len h input =
     do { (e, st, h, rest) \<leftarrow> cread_loop ac prompt len
            \<lparr>num = 0, eol_num = 0, cbuf = buf, insert_mode = True, esc_len = 0,
             esc_save = replicate 8 NUL, tty = []\<rparr> h input;
          case e of
            Returned r \<Rightarrow> if r = 0 then do { (st, h) \<leftarrow> cread_finish st h; Some (e, st, h, rest) }
                         else Some (e, st, h, rest)
          | Waiting \<Rightarrow> Some (e, st, h, rest) }"

section \<open>What the terminal shows\<close>

text \<open>The text before and after the cursor, as sent characters change it.\<close>

definition screen_put :: "string \<times> string \<Rightarrow> char \<Rightarrow> string \<times> string" where
  "screen_put s c =
     (if c = BS then (if fst s = [] then s else (butlast (fst s), last (fst s) # snd s))
      else if c = BEL then s else (fst s @ [c], tl (snd s)))"

definition screen :: "string \<times> string \<Rightarrow> string \<Rightarrow> string \<times> string" where
  "screen s out = foldl screen_put s out"

text \<open>A character that takes one column.\<close>

definition cell :: "char \<Rightarrow> bool" where
  "cell c \<longleftrightarrow> c \<noteq> NUL \<and> c \<noteq> BS \<and> c \<noteq> BEL"

lemma screen_append [simp]: "screen s (a @ b) = screen (screen s a) b"
  by (simp add: screen_def)

lemma screen_simps [simp]: "screen s [] = s" "screen s [BEL] = s"
  by (simp_all add: screen_def screen_put_def)

lemma screen_cells: "list_all cell w \<Longrightarrow> screen (l, r) w = (l @ w, drop (length w) r)"
proof (induction w arbitrary: l r)
  case (Cons c w)
  then have "screen (l, r) (c # w) = screen (l @ [c], tl r) w"
    by (simp add: screen_def screen_put_def cell_def)
  then show ?case using Cons by (simp add: drop_Suc)
qed simp

lemma screen_BS: "n \<le> length l \<Longrightarrow>
    screen (l, r) (replicate n BS) = (take (length l - n) l, drop (length l - n) l @ r)"
proof (induction n arbitrary: l r)
  case (Suc n)
  then obtain l' x where l: "l = l' @ [x]" by (cases l rule: rev_cases) auto
  then have "screen (l, r) (replicate (Suc n) BS) = screen (l', x # r) (replicate n BS)"
    by (simp add: screen_def screen_put_def)
  then show ?case using Suc l by simp
qed simp

lemma screen_BS_app: "screen (l @ w, r) (replicate (length w) BS) = (l, w @ r)"
  using screen_BS [of "length w" "l @ w" r] by simp

section \<open>The line as text around a cursor\<close>

text \<open>The buffer holds the text \<open>l\<close> before the cursor and \<open>r\<close> after it, and when \<open>t\<close> is set the
  terminal shows them, with blanks behind.\<close>

definition blanks :: "nat \<Rightarrow> string" where
  "blanks n = replicate n (CHR '' '')"

definition screen_ok :: "string \<Rightarrow> string \<Rightarrow> string \<Rightarrow> bool" where
  "screen_ok out l r \<longleftrightarrow> list_all cell (l @ r) \<and> (\<exists>k. screen ([], []) out = (l, r @ blanks k))"

definition line_rep :: "bool \<Rightarrow> nat \<Rightarrow> cread \<Rightarrow> string \<Rightarrow> string \<Rightarrow> bool \<times> nat \<times> char list \<Rightarrow> bool" where
  "line_rep t len st l r m \<longleftrightarrow>
     (\<exists>rest. cbuf st = l @ r @ rest) \<and> num st = length l \<and> eol_num st = length l + length r \<and>
     length l + length r \<le> len \<and> len < length (cbuf st) \<and>
     m = (insert_mode st, esc_len st, esc_save st) \<and> (t \<longrightarrow> screen_ok (tty st) l r)"

lemma line_repI:
  assumes "cbuf st = l @ r @ rest" "num st = length l" "eol_num st = length l + length r"
    "length l + length r \<le> len" "len < length (cbuf st)"
    "m = (insert_mode st, esc_len st, esc_save st)" "t \<Longrightarrow> screen_ok (tty st) l r"
  shows "line_rep t len st l r m"
  using assms by (auto simp: line_rep_def)

lemma line_repD:
  assumes "line_rep t len st l r m"
  shows "num st = length l" "eol_num st = length l + length r" "length l + length r \<le> len"
    "len < length (cbuf st)" "m = (insert_mode st, esc_len st, esc_save st)"
    "t \<Longrightarrow> screen_ok (tty st) l r" "\<exists>rest. cbuf st = l @ r @ rest"
  using assms unfolding line_rep_def by blast+

lemma screen_okI: "list_all cell l \<Longrightarrow> list_all cell r \<Longrightarrow> screen ([], []) out = (l, r @ blanks k) \<Longrightarrow>
    screen_ok out l r"
  by (auto simp: screen_ok_def)

lemma screen_okE:
  assumes "screen_ok out l r"
  obtains k where "list_all cell l" "list_all cell r" "screen ([], []) out = (l, r @ blanks k)"
  using assms by (auto simp: screen_ok_def)

lemma drop_blanks [simp]: "drop n (blanks k) = blanks (k - n)"
  by (simp add: blanks_def)

lemma blanks_Cons [simp]: "CHR '' '' # blanks k = blanks (Suc k)"
  by (simp add: blanks_def)

lemma blanks_tl [simp]: "tl (blanks k) = blanks (k - 1)"
  by (cases k) (simp_all add: blanks_def)

lemma takeWhile_cells: "list_all cell w \<Longrightarrow> takeWhile (\<lambda>c. c \<noteq> NUL) w = w"
  by (induction w) (auto simp: cell_def)

lemma cell_blank [simp]: "cell (CHR '' '')" "list_all cell (replicate n (CHR '' ''))"
  by (auto simp: cell_def list_all_iff)

text \<open>Inserting a character.\<close>

lemma screen_insert:
  assumes "screen_ok out l r" and "cell c"
  shows "screen_ok (out @ (c # r) @ replicate (length r) BS) (l @ [c]) r"
proof -
  obtain k where k: "list_all cell l" "list_all cell r" "screen ([], []) out = (l, r @ blanks k)"
    using assms(1) by (rule screen_okE)
  have "screen ([], []) (out @ (c # r) @ replicate (length r) BS) =
      screen (screen (l, r @ blanks k) (c # r)) (replicate (length r) BS)"
    by (simp only: screen_append k)
  also have "screen (l, r @ blanks k) (c # r) = (l @ c # r, blanks (k - 1))"
    using k assms(2) screen_cells [of "c # r" l "r @ blanks k"] by (simp add: drop_Suc)
  also have "screen (l @ c # r, blanks (k - 1)) (replicate (length r) BS) = (l @ [c], r @ blanks (k - 1))"
    using screen_BS_app [of "l @ [c]" r] by simp
  finally show ?thesis using k assms(2) by (intro screen_okI) simp_all
qed

lemma screen_overwrite:
  assumes "screen_ok out l r" and "cell c"
  shows "screen_ok (out @ [c]) (l @ [c]) (tl r)"
proof -
  obtain k where k: "list_all cell l" "list_all cell r" "screen ([], []) out = (l, r @ blanks k)"
    using assms(1) by (rule screen_okE)
  have "screen ([], []) (out @ [c]) = screen (l, r @ blanks k) [c]" by (simp only: screen_append k)
  also have "\<dots> = (l @ [c], drop 1 (r @ blanks k))" using screen_cells [of "[c]" l] assms(2) by simp
  also have "drop 1 (r @ blanks k) = tl r @ blanks (if r = [] then k - 1 else k)"
    by (cases r) (simp_all add: drop_Suc)
  finally have "screen ([], []) (out @ [c]) = (l @ [c], tl r @ blanks (if r = [] then k - 1 else k))" .
  moreover have "list_all cell (l @ [c])" "list_all cell (tl r)"
    using k assms(2) by (simp, cases r) simp_all
  ultimately show ?thesis by (rule screen_okI [rotated 2])
qed

lemma screen_bell: "screen_ok out l r \<Longrightarrow> screen_ok (out @ [BEL]) l r"
  by (simp add: screen_ok_def)

lemma screen_home: "screen_ok out l r \<Longrightarrow> screen_ok (out @ replicate (length l) BS) [] (l @ r)"
  using screen_BS_app [of "[]" l] by (auto elim!: screen_okE intro!: screen_okI)

lemma screen_back:
  assumes "screen_ok out (l @ [x]) r"
  shows "screen_ok (out @ [BS]) l (x # r)"
  using assms screen_BS_app [of l "[x]"] by (auto elim!: screen_okE intro!: screen_okI)

lemma screen_forward:
  assumes "screen_ok out l (w @ r)"
  shows "screen_ok (out @ w) (l @ w) r"
  using assms by (auto elim!: screen_okE intro!: screen_okI simp: screen_cells)

text \<open>Rewriting the text after the cursor with \<open>w\<close>, which is shorter, and blanks over the rest.\<close>

lemma screen_rewrite:
  assumes "screen_ok out l r" and "list_all cell w" and "length w + n = length r"
  shows "screen_ok (out @ (w @ replicate n (CHR '' '')) @ replicate (length w + n) BS) l w"
proof -
  obtain k where k: "list_all cell l" "list_all cell r" "screen ([], []) out = (l, r @ blanks k)"
    using assms(1) by (rule screen_okE)
  have "screen ([], []) (out @ (w @ replicate n (CHR '' '')) @ replicate (length w + n) BS) =
      screen (screen (l, r @ blanks k) (w @ replicate n (CHR '' ''))) (replicate (length w + n) BS)"
    by (simp only: screen_append k)
  also have "screen (l, r @ blanks k) (w @ replicate n (CHR '' '')) =
      (l @ (w @ replicate n (CHR '' '')), blanks k)"
    using assms by (subst screen_cells) simp_all
  also have "screen (l @ (w @ replicate n (CHR '' '')), blanks k) (replicate (length w + n) BS) =
      (l, (w @ replicate n (CHR '' '')) @ blanks k)"
    using screen_BS_app [of l "w @ replicate n (CHR '' '')" "blanks k"] by simp
  also have "(w @ replicate n (CHR '' '')) @ blanks k = w @ blanks (n + k)"
    by (simp add: blanks_def replicate_add)
  finally show ?thesis using k assms(2) by (intro screen_okI) simp_all
qed

section \<open>What each operation does to the line\<close>

lemma line_rep_BOL:
  assumes "line_rep t len st l r m"
  shows "line_rep t len (BEGINNING_OF_LINE st) [] (l @ r) m"
proof -
  note d = line_repD [OF assms]
  from d(7) obtain rest where "cbuf st = l @ r @ rest" ..
  with d(1-5) show ?thesis using screen_home [OF d(6)]
    by (intro line_repI [where rest = rest]) (simp_all add: BEGINNING_OF_LINE_def putch_n_def)
qed

lemma line_rep_EOL:
  assumes "line_rep t len st l r m"
  shows "line_rep t len (ERASE_TO_EOL st) l [] m"
proof -
  note d = line_repD [OF assms]
  from d(7) obtain rest where b: "cbuf st = l @ r @ rest" ..
  show ?thesis
  proof (cases r)
    case Nil
    then show ?thesis using assms d by (simp add: ERASE_TO_EOL_def)
  next
    case (Cons x xs)
    then have "ERASE_TO_EOL st = st\<lparr>eol_num := length l,
        tty := tty st @ replicate (length r) (CHR '' '') @ replicate (length r) BS\<rparr>"
      using d(1-5) by (simp add: ERASE_TO_EOL_def putch_n_def)
    then show ?thesis using b d(1-5) screen_rewrite [OF d(6), of "[]" "length r"]
      by (intro line_repI [where rest = "r @ rest"]) simp_all
  qed
qed

lemma line_rep_REFRESH:
  assumes "line_rep t len st l r m"
  shows "line_rep t len (REFRESH_TO_EOL st) (l @ r) [] m"
proof -
  note d = line_repD [OF assms]
  from d(7) obtain rest where b: "cbuf st = l @ r @ rest" ..
  show ?thesis
  proof (cases r)
    case Nil
    then show ?thesis using assms d by (simp add: REFRESH_TO_EOL_def)
  next
    case (Cons x xs)
    then have e: "REFRESH_TO_EOL st = st\<lparr>num := length l + length r,
        tty := tty st @ takeWhile (\<lambda>c. c \<noteq> NUL) r\<rparr>"
      using d(1-5) b by (simp add: REFRESH_TO_EOL_def putnstr_def)
    have "screen_ok (tty st @ takeWhile (\<lambda>c. c \<noteq> NUL) r) (l @ r) []" if t
    proof -
      have "list_all cell r" using d(6) [OF that] by (simp add: screen_ok_def)
      then show ?thesis using screen_forward [of "tty st" l r "[]"] d(6) [OF that]
        by (simp add: takeWhile_cells)
    qed
    then show ?thesis unfolding e using b d(1-5)
      by (intro line_repI [where rest = rest]) simp_all
  qed
qed

text \<open>Adding characters.\<close>

definition ed_insert :: "nat \<Rightarrow> bool \<Rightarrow> char \<Rightarrow> string \<times> string \<Rightarrow> string \<times> string" where
  "ed_insert len ins c s =
     (if (ins \<or> snd s = []) \<and> length (fst s) + length (snd s) \<ge> len then s
      else (fst s @ [c], if ins then snd s else tl (snd s)))"

lemma memmove_up:
  "memmove (l @ r @ y # rest) (length l + 1) (length l) (length r) =
   Some (l @ hd (r @ [y]) # r @ rest)"
  by (cases r) (simp_all add: memmove_def put_at_def)

lemma memmove_down:
  "\<exists>rest'. memmove (l @ x # r @ rest) (length l) (length l + 1) (length r) = Some (l @ r @ rest') \<and>
     length rest' = length rest + 1"
  by (simp add: memmove_def put_at_def)

lemma line_rep_add_char:
  assumes "line_rep t len st l r m" and "t \<longrightarrow> cell c" and "0 < len"
  shows "\<exists>st'. cread_add_char c len st = Some st' \<and>
    line_rep t len st' (fst (ed_insert len (fst m) c (l, r))) (snd (ed_insert len (fst m) c (l, r))) m"
proof -
  note d = line_repD [OF assms(1)]
  from d(7) obtain rest where b: "cbuf st = l @ r @ rest" ..
  have m: "fst m = insert_mode st" using d(5) by simp
  consider (full) "insert_mode st \<or> r = []" "length l + length r \<ge> len"
    | (ins) "insert_mode st" "length l + length r < len"
    | (over) "\<not> insert_mode st" "r = [] \<longrightarrow> length l < len" by force
  then show ?thesis
  proof cases
    case full
    then have "cread_add_char c len st = Some (getcmd_putch BEL st)"
      using d(1,2) assms(3) by (auto simp: cread_add_char_def)
    moreover have "line_rep t len (getcmd_putch BEL st) l r m"
      using d b screen_bell by (intro line_repI [where rest = rest]) (auto simp: getcmd_putch_def)
    ultimately show ?thesis using full m by (simp add: ed_insert_def)
  next
    case ins
    obtain y rest' where rest: "rest = y # rest'" using b d(4) ins(2) by (cases rest) auto
    let ?st = "st\<lparr>eol_num := length l + length r + 1, cbuf := l @ c # r @ rest', num := length l + 1,
        tty := (tty st @ takeWhile (\<lambda>c. c \<noteq> NUL) (c # r)) @ replicate (length r) BS\<rparr>"
    have "cread_add_char c len st = Some ?st"
    proof (cases r)
      case Nil
      then show ?thesis using d(1,2) b rest ins assms(3)
        by (simp add: cread_add_char_def putnstr_def putch_n_def)
    next
      case (Cons x xs)
      have mm: "memmove (cbuf st) (Suc (length l)) (length l) (length r) = Some (l @ hd (r @ [y]) # r @ rest')"
        using memmove_up [of l r y rest'] b rest by simp
      then show ?thesis using d(1,2) ins assms(3) Cons
        by (simp add: cread_add_char_def putnstr_def putch_n_def Let_def)
    qed
    moreover have "screen_ok (tty ?st) (l @ [c]) r" if t
    proof -
      have "list_all cell (c # r)" using d(6) [OF that] assms(2) that by (simp add: screen_ok_def)
      then have "takeWhile (\<lambda>c. c \<noteq> NUL) (c # r) = c # r" "cell c"
        using takeWhile_cells [of "c # r"] by (simp_all only: list.pred_inject)
      then show ?thesis using screen_insert [OF d(6) [OF that], of c] by simp
    qed
    ultimately show ?thesis using d ins m b rest
      by (intro exI [of _ ?st]) (auto simp: ed_insert_def intro!: line_repI [where rest = rest'])
  next
    case over
    obtain y rest' where rest: "r @ rest = y # rest'" using b d(4) over(2) by (cases "r @ rest") auto
    let ?st = "st\<lparr>eol_num := max (length l + 1) (length l + length r), cbuf := l @ c # rest',
        num := length l + 1, tty := tty st @ takeWhile (\<lambda>c. c \<noteq> NUL) [c]\<rparr>"
    have "cread_add_char c len st = Some ?st"
      using d(1,2) b rest over assms(3)
      by (cases r) (auto simp: cread_add_char_def putnstr_def Let_def)
    moreover have "screen_ok (tty ?st) (l @ [c]) (tl r)" if t
      using screen_overwrite [OF d(6) [OF that], of c] assms(2) that by (simp add: cell_def)
    moreover have "\<exists>rest2. l @ c # rest' = (l @ [c]) @ tl r @ rest2"
      using rest by (cases r) auto
    moreover have "length (l @ c # rest') = length (cbuf st)" using b rest by simp
    ultimately show ?thesis using d over m
      by (intro exI [of _ ?st]) (cases r; auto simp: ed_insert_def line_rep_def)
  qed
qed

lemma line_rep_add_str:
  assumes "line_rep t len st l r m" and "t \<longrightarrow> list_all cell s" and "0 < len"
  shows "\<exists>st'. cread_add_str s len st = Some st' \<and>
    line_rep t len st' (fst (fold (ed_insert len (fst m)) s (l, r)))
      (snd (fold (ed_insert len (fst m)) s (l, r))) m"
  using assms
proof (induction s arbitrary: st l r)
  case (Cons c s)
  obtain st1 where st1: "cread_add_char c len st = Some st1"
    "line_rep t len st1 (fst (ed_insert len (fst m) c (l, r))) (snd (ed_insert len (fst m) c (l, r))) m"
    using line_rep_add_char [OF Cons.prems(1) _ Cons.prems(3), of c] Cons.prems(2) by auto
  from Cons.IH [OF st1(2) _ Cons.prems(3)] Cons.prems(2) st1(1) show ?case by simp
qed simp

text \<open>Taking characters out, and replacing the line.\<close>

lemma line_rep_ctrl_d:
  assumes "line_rep t len st l r m"
  shows "\<exists>st'. key_ctrl_d st = Some st' \<and> line_rep t len st' l (tl r) m"
proof -
  note d = line_repD [OF assms]
  from d(7) obtain rest where b: "cbuf st = l @ r @ rest" ..
  show ?thesis
  proof (cases r)
    case Nil
    then show ?thesis using assms d(1,2) by (simp add: key_ctrl_d_def)
  next
    case (Cons x xs)
    obtain rest' where mm: "memmove (cbuf st) (length l) (length l + 1) (length xs) = Some (l @ xs @ rest')"
        "length rest' = length rest + 1"
      using memmove_down [of l x xs rest] b Cons by auto
    let ?st = "st\<lparr>cbuf := (if xs = [] then cbuf st else l @ xs @ rest'),
        tty := tty st @ (takeWhile (\<lambda>c. c \<noteq> NUL) xs @ [CHR '' '']) @ replicate (length xs + 1) BS,
        eol_num := length l + length xs\<rparr>"
    have "key_ctrl_d st = Some ?st"
      using d(1,2) b Cons mm by (cases xs)
        (simp_all add: key_ctrl_d_def putnstr_def getcmd_putch_def putch_n_def Let_def)
    moreover have "screen_ok (tty ?st) l xs" if t
    proof -
      have "list_all cell xs" using d(6) [OF that] Cons by (simp add: screen_ok_def)
      then show ?thesis using screen_rewrite [OF d(6) [OF that], of xs 1] Cons
        by (simp add: takeWhile_cells)
    qed
    moreover have "\<exists>rest2. (if xs = [] then cbuf st else l @ xs @ rest') = l @ xs @ rest2"
      using b Cons by auto
    moreover have "length (if xs = [] then cbuf st else l @ xs @ rest') = length (cbuf st)"
      using b Cons mm by simp
    ultimately show ?thesis using d Cons by (intro exI [of _ ?st]) (simp add: line_rep_def)
  qed
qed

lemma line_rep_del:
  assumes "line_rep t len st l r m"
  shows "\<exists>st'. key_del st = Some st' \<and> line_rep t len st' (butlast l) r m"
proof -
  note d = line_repD [OF assms]
  from d(7) obtain rest where b: "cbuf st = l @ r @ rest" ..
  show ?thesis
  proof (cases l rule: rev_cases)
    case Nil
    then show ?thesis using assms d(1,2) by (simp add: key_del_def)
  next
    case (snoc l' x)
    obtain rest' where mm: "memmove (cbuf st) (length l') (length l' + 1) (length r) = Some (l' @ r @ rest')"
        "length rest' = length rest + 1"
      using memmove_down [of l' x r rest] b snoc by auto
    let ?st = "st\<lparr>cbuf := l' @ r @ rest', num := length l',
        tty := (tty st @ [BS]) @ (takeWhile (\<lambda>c. c \<noteq> NUL) r @ [CHR '' '']) @ replicate (length r + 1) BS,
        eol_num := length l' + length r\<rparr>"
    have "key_del st = Some ?st"
      using d(1,2) b snoc mm by (simp add: key_del_def putnstr_def getcmd_putch_def putch_n_def Let_def)
    moreover have "screen_ok (tty ?st) l' r" if t
    proof -
      have "list_all cell r" using d(6) [OF that] by (simp add: screen_ok_def)
      moreover have "screen_ok (tty st @ [BS]) l' (x # r)" using d(6) [OF that] snoc screen_back by simp
      ultimately show ?thesis using screen_rewrite [of "tty st @ [BS]" l' "x # r" r 1]
        by (simp add: takeWhile_cells)
    qed
    ultimately show ?thesis using d snoc b mm(2)
      by (intro exI [of _ ?st]) (simp add: line_rep_def)
  qed
qed

lemma line_rep_set_line:
  assumes "line_rep t len st l r m" and "length line \<le> len" and "t \<longrightarrow> list_all cell line"
  shows "\<exists>st'. cread_set_line line st = Some st' \<and> line_rep t len st' line [] m"
proof -
  let ?st = "ERASE_TO_EOL (BEGINNING_OF_LINE st)"
  have cl: "line_rep t len ?st [] [] m" using line_rep_EOL [OF line_rep_BOL [OF assms(1)]] .
  note d = line_repD [OF cl]
  let ?b = "line @ NUL # drop (length line + 1) (cbuf ?st)"
  have st: "store_str (cbuf ?st) 0 line = Some (?b, length line)"
    using d(4) assms(2) by (simp add: store_str_eq put_at_def)
  let ?st2 = "REFRESH_TO_EOL (?st\<lparr>cbuf := ?b, eol_num := length line\<rparr>)"
  have "line_rep t len ?st2 line [] m"
  proof (cases line)
    case Nil
    have "?st2 = ?st\<lparr>cbuf := ?b\<rparr>" using d(1,2) Nil by (simp add: REFRESH_TO_EOL_def)
    then show ?thesis using d Nil by (simp add: line_rep_def)
  next
    case (Cons x xs)
    then have e: "?st2 = ?st\<lparr>cbuf := ?b, eol_num := length line, num := length line,
        tty := tty ?st @ takeWhile (\<lambda>c. c \<noteq> NUL) line\<rparr>"
      using d(1,2) by (simp add: REFRESH_TO_EOL_def putnstr_def)
    have "screen_ok (tty ?st @ takeWhile (\<lambda>c. c \<noteq> NUL) line) line []" if tt: t
    proof -
      have "list_all cell line" using assms(3) tt by simp
      moreover obtain k where "screen ([], []) (tty ?st) = ([], [] @ blanks k)"
        using d(6) [OF tt] by (auto simp: screen_ok_def)
      ultimately show ?thesis
        by (intro screen_okI [where k = "k - length line"]) (simp_all add: takeWhile_cells screen_cells)
    qed
    then show ?thesis unfolding e using d assms(2)
      by (intro line_repI [where rest = "NUL # drop (length line + 1) (cbuf ?st)"]) simp_all
  qed
  then show ?thesis using st by (simp add: cread_set_line_def Let_def)
qed

section \<open>The interface of the completion\<close>

text \<open>What the editor relies on when TAB calls \<open>cmd_auto_complete\<close> with a buffer that holds a string:
  text may be added behind the string, and not beyond \<open>cbsize - 2\<close>.\<close>

locale completion =
  fixes ac :: completer and cbsize :: nat
  assumes ac_adds: "cstr_at b 0 = Some s \<Longrightarrow> ac prompt b (length s) col = Some (r, b', n', col', out) \<Longrightarrow>
    length b' = length b \<and> col' = col + int (n' - length s) \<and>
    (\<exists>w rest. b' = s @ w @ rest \<and> n' = length s + length w \<and>
       (w = [] \<or> (r \<and> length s + length w + 2 < cbsize)))"

context completion
begin

lemma key_tab_adds:
  assumes "line_rep False len st l r m" and "NUL \<notin> set l" and "cbsize \<le> len + 2"
    and "key_tab ac prompt st = Some st'"
  shows "\<exists>w. line_rep False len st' (l @ w) r m \<and> (r \<noteq> [] \<longrightarrow> w = [])"
proof (cases r)
  case (Cons x xs)
  then have "st' = getcmd_putch BEL st" using assms(1,4) line_repD(1,2) [OF assms(1)]
    by (simp add: key_tab_def)
  then have "line_rep False len st' l r m" using assms(1) by (simp add: line_rep_def getcmd_putch_def)
  then show ?thesis by (intro exI [of _ "[]"]) simp
next
  case Nil
  note d = line_repD [OF assms(1)]
  from d(7) obtain rest where b: "cbuf st = l @ rest" using Nil by auto
  then obtain x rest' where rest: "rest = x # rest'" using d(3,4) Nil by (cases rest) auto
  let ?b = "l @ NUL # rest'"
  have n: "num st = length l" "eol_num st = length l" using d(1,2) Nil by simp_all
  have "wr (cbuf st) (num st) NUL = Some ?b" using b rest n by simp
  then obtain res b' n' col' out where ac: "ac prompt ?b (length l) (int (length prompt + length l)) =
      Some (res, b', n', col', out)"
    and st': "st' = (let st = st\<lparr>cbuf := b', tty := tty st @ out\<rparr>
      in if res then st\<lparr>eol_num := nat (int (eol_num st) + (int n' - int (num st))), num := n'\<rparr> else st)"
    using assms(4) n by (auto simp: key_tab_def Let_def split: Option.bind_splits)
  have str: "cstr_at ?b 0 = Some l" using cstr_at_append [OF assms(2), of "[]"] by simp
  obtain w rest2 where w: "b' = l @ w @ rest2" "n' = length l + length w"
      "w = [] \<or> (res \<and> length l + length w + 2 < cbsize)" "length b' = length ?b"
    using ac_adds [OF str ac] by blast
  have "line_rep False len st' (l @ w) [] m"
    using w d(3,4,5) n assms(3) b rest Nil
    by (cases res) (auto simp: st' line_rep_def Let_def)
  then show ?thesis using Nil by auto
qed

end

section \<open>The history as a list of lines\<close>

text \<open>\<open>ls\<close> holds the lines that were added, the oldest first: the last twenty are in the rows, the
  row of the newest before \<open>hist_add_idx\<close>.\<close>

definition row_line :: "hist \<Rightarrow> nat \<Rightarrow> string \<Rightarrow> bool" where
  "row_line h i s \<longleftrightarrow> i < length (hist_lines h) \<and> cstr_at (hist_lines h ! i) 0 = Some s"

definition hist_rep :: "hist \<Rightarrow> string list \<Rightarrow> bool" where
  "hist_rep h ls \<longleftrightarrow> length (hist_lines h) = HIST_MAX \<and>
     (\<forall>row\<in>set (hist_lines h). length row = MAX_CMDBUF_SIZE) \<and>
     hist_max h = min (length ls) 19 \<and> hist_add_idx h = length ls mod 20 \<and>
     (\<forall>j<length ls. length ls \<le> j + 20 \<longrightarrow> row_line h (j mod 20) (ls ! j))"

text \<open>\<open>hist_cur\<close> after \<open>k\<close> steps back from the line that is being typed.\<close>

definition hist_at :: "hist \<Rightarrow> string list \<Rightarrow> nat \<Rightarrow> bool" where
  "hist_at h ls k \<longleftrightarrow> k \<le> min (length ls) 19 \<and>
     (hist_cur h = int ((length ls - k) mod 20) \<or> (hist_cur h = -1 \<and> ls = []))"

lemma hist_rep_cur [simp]: "hist_rep (h\<lparr>hist_cur := c\<rparr>) ls = hist_rep h ls"
  by (simp add: hist_rep_def row_line_def)

lemma cstr_at_put: "NUL \<notin> set s \<Longrightarrow> length s < length row \<Longrightarrow> cstr_at (put_at row 0 (s @ [NUL])) 0 = Some s"
  using cstr_at_append [of s "[]"] by (simp add: put_at_def)

lemma hist_init_rep:
  assumes "length (hist_lines h) = HIST_MAX" and "\<forall>row\<in>set (hist_lines h). length row = MAX_CMDBUF_SIZE"
  shows "hist_rep (hist_init h) []"
  using assms by (simp add: hist_rep_def hist_init_def)

lemma pred_mod_20: "0 < m \<Longrightarrow> (m - 1) mod (20 :: nat) = (if m mod 20 = 0 then 19 else m mod 20 - 1)"
  by (cases m) (auto simp: mod_Suc)

lemma mod_20_less: "j < n \<Longrightarrow> n < j + 20 \<Longrightarrow> j mod (20 :: nat) \<noteq> n mod 20"
proof
  assume a: "j < n" "n < j + 20" "j mod 20 = n mod 20"
  then have "20 dvd n - j" using mod_eq_dvd_iff_nat [of j n 20] by simp
  then show False using a by (auto dest: dvd_imp_le)
qed

lemma cread_add_to_hist_rep:
  assumes "hist_rep h ls" and "NUL \<notin> set s"
  shows "if length s < MAX_CMDBUF_SIZE
     then \<exists>h'. cread_add_to_hist h s = Some h' \<and> hist_rep h' (ls @ [s]) \<and> hist_cur h' = hist_cur h
     else cread_add_to_hist h s = None"
proof -
  let ?i = "length ls mod 20"
  have i: "?i < length (hist_lines h)" using assms(1) by (simp add: hist_rep_def HIST_MAX_def)
  then have row: "length (hist_lines h ! ?i) = MAX_CMDBUF_SIZE" using assms(1) by (auto simp: hist_rep_def)
  show ?thesis
  proof (cases "length s < MAX_CMDBUF_SIZE")
    case False
    then show ?thesis using row i assms(1) by (simp add: cread_add_to_hist_def hist_rep_def store_str_eq)
  next
    case True
    let ?row = "put_at (hist_lines h ! ?i) 0 (s @ [NUL])"
    let ?h = "h\<lparr>hist_lines := (hist_lines h)[?i := ?row], hist_add_idx := (length ls + 1) mod 20,
      hist_max := min (length ls + 1) 19, hist_num := hist_num h + 1\<rparr>"
    have idx: "(if ?i + 1 \<ge> HIST_MAX then 0 else ?i + 1) = (length ls + 1) mod 20"
      using mod_less_divisor [of 20 "length ls"] by (auto simp: mod_Suc HIST_MAX_def)
    have mx: "(if (length ls + 1) mod 20 > min (length ls) 19 then (length ls + 1) mod 20
        else min (length ls) 19) = min (length ls + 1) 19"
      by (auto simp: mod_Suc min_def)
    have h: "hist_add_idx h = ?i" "hist_max h = min (length ls) 19"
      using assms(1) by (simp_all add: hist_rep_def)
    have "cread_add_to_hist h s = Some ?h"
      unfolding cread_add_to_hist_def h Let_def idx mx
      using True row i by (simp add: store_str_eq)
    moreover have "hist_rep ?h (ls @ [s])"
      unfolding hist_rep_def
    proof (intro conjI allI impI)
      show "\<forall>row\<in>set (hist_lines ?h). length row = MAX_CMDBUF_SIZE"
        using assms(1) row True i by (auto simp: hist_rep_def dest!: set_update_subset_insert [THEN subsetD])
      fix j assume j: "j < length (ls @ [s])" "length (ls @ [s]) \<le> j + 20"
      show "row_line ?h (j mod 20) ((ls @ [s]) ! j)"
      proof (cases "j = length ls")
        case True
        then show ?thesis using i row \<open>length s < MAX_CMDBUF_SIZE\<close> assms(2)
          by (simp add: row_line_def cstr_at_put)
      next
        case False
        then have "j < length ls" "length ls < j + 20" using j by auto
        then have "j mod 20 \<noteq> ?i" by (rule mod_20_less)
        then show ?thesis using \<open>j < length ls\<close> \<open>length ls < j + 20\<close> assms(1)
          by (simp add: hist_rep_def row_line_def nth_append HIST_MAX_def)
      qed
    qed (use assms(1) in \<open>simp_all add: hist_rep_def\<close>)
    ultimately show ?thesis using True by simp
  qed
qed

lemma hist_prev_rep:
  assumes "hist_rep h ls" and "hist_at h ls k"
  shows "if k < min (length ls) 19
     then \<exists>h'. hist_prev h = Some (Some (rev ls ! k), h') \<and> hist_rep h' ls \<and> hist_at h' ls (k + 1)
     else hist_prev h = Some (None, h)"
proof (cases "hist_cur h < 0")
  case True
  then show ?thesis using assms(2) by (auto simp: hist_at_def hist_prev_def)
next
  case nonneg: False
  let ?n = "length ls"
  have k: "k \<le> min ?n 19" and cur: "hist_cur h = int ((?n - k) mod 20)"
    and mx: "hist_max h = min ?n 19" and idx: "hist_add_idx h = ?n mod 20"
    using assms nonneg by (auto simp: hist_rep_def hist_at_def)
  show ?thesis
  proof (cases "k < min ?n 19")
    case True
    let ?j = "?n - (k + 1)"
    have c1: "(if hist_cur h - 1 < 0 then int (hist_max h) else hist_cur h - 1) = int (?j mod 20)"
    proof -
      have p: "?j mod 20 = (if (?n - k) mod 20 = 0 then 19 else (?n - k) mod 20 - 1)"
        using pred_mod_20 [of "?n - k"] True by simp
      show ?thesis
      proof (cases "(?n - k) mod 20 = 0")
        case 0: True
        then have "?n - k \<ge> 20" using True by (simp add: dvd_imp_le mod_eq_0_iff_dvd)
        then show ?thesis using 0 cur mx p by simp
      next
        case False
        then show ?thesis using p cur by simp
      qed
    qed
    have ne: "?j mod 20 \<noteq> ?n mod 20" using True by (intro mod_20_less) auto
    have "row_line h (?j mod 20) (ls ! ?j)" proof -
      have "\<forall>j<length ls. length ls \<le> j + 20 \<longrightarrow> row_line h (j mod 20) (ls ! j)"
        using assms(1) by (simp add: hist_rep_def)
      then show ?thesis using True by auto
    qed
    then have "hist_prev h = Some (Some (ls ! ?j), h\<lparr>hist_cur := int (?j mod 20)\<rparr>)"
      unfolding hist_prev_def Let_def c1 idx using ne cur
      by (simp add: row_line_def)
    moreover have "ls ! ?j = rev ls ! k" using True by (simp add: rev_nth)
    ultimately show ?thesis using True assms(1) by (simp add: hist_at_def)
  next
    case False
    then have kk: "k = min ?n 19" using k by (metis nat_less_le)
    have "(if hist_cur h - 1 < 0 then int (hist_max h) else hist_cur h - 1) = int (?n mod 20)"
    proof (cases "?n < 20")
      case True
      then have "k = ?n \<or> (k = 19 \<and> ?n = 19)" using kk by auto
      then show ?thesis using True cur mx kk by auto
    next
      case False
      then have k19: "k = 19" using kk by simp
      have "?n mod 20 = (?n - 19 - 1) mod 20" using False by (simp add: le_mod_geq)
      also have "\<dots> = (if (?n - 19) mod 20 = 0 then 19 else (?n - 19) mod 20 - 1)"
        using pred_mod_20 [of "?n - 19"] False by simp
      finally show ?thesis using cur mx k19 False by auto
    qed
    then have "hist_prev h = Some (None, h)" unfolding hist_prev_def Let_def idx using cur by simp
    then show ?thesis using False by simp
  qed
qed

lemma hist_next_rep:
  assumes "hist_rep h ls" and "hist_at h ls k"
  shows "if k = 0 then hist_next h = Some (None, h)
     else \<exists>h'. hist_next h = Some (Some (if k = 1 then [] else rev ls ! (k - 2)), h') \<and>
            hist_rep h' ls \<and> hist_at h' ls (k - 1)"
proof (cases "k = 0 \<or> hist_cur h < 0")
  case True
  then have "hist_cur h < 0 \<or> hist_cur h = int (hist_add_idx h)" "k = 0"
    using assms by (auto simp: hist_at_def hist_rep_def)
  then show ?thesis by (auto simp: hist_next_def)
next
  case False
  let ?n = "length ls" and ?j = "length ls - (k - 1)"
  have k: "0 < k" "k \<le> min ?n 19" and cur: "hist_cur h = int ((?n - k) mod 20)"
    and mx: "hist_max h = min ?n 19" and idx: "hist_add_idx h = ?n mod 20"
    using assms False by (auto simp: hist_rep_def hist_at_def)
  have j: "?j = Suc (?n - k)" using k by auto
  have "(?n - k) mod 20 \<noteq> ?n mod 20" using k by (intro mod_20_less) auto
  moreover have c1: "(if hist_cur h + 1 > int (hist_max h) then 0 else hist_cur h + 1) = int (?j mod 20)"
  proof (cases "?n < 20")
    case True
    then have "(?n - k) mod 20 = ?n - k" "?j mod 20 = ?j" using k by (simp_all add: j)
    then show ?thesis using cur mx k True by auto
  next
    case False
    have "?j mod 20 = (if (?n - k) mod 20 = 19 then 0 else Suc ((?n - k) mod 20))"
      unfolding j by (simp add: mod_Suc)
    then show ?thesis using False cur mx mod_less_divisor [of 20 "?n - k"] by auto
  qed
  ultimately have step: "hist_next h = (if int (?j mod 20) = int (?n mod 20) then Some (Some [], h\<lparr>hist_cur := int (?j mod 20)\<rparr>)
      else do { row \<leftarrow> rd (hist_lines h) (nat (int (?j mod 20))); line \<leftarrow> cstr_at row 0;
                Some (Some line, h\<lparr>hist_cur := int (?j mod 20)\<rparr>) })"
    unfolding hist_next_def Let_def c1 idx using cur by simp
  show ?thesis
  proof (cases "k = 1")
    case True
    then show ?thesis using step assms(1) k by (simp add: hist_at_def)
  next
    case False
    then have ne: "?j mod 20 \<noteq> ?n mod 20" using k by (intro mod_20_less) auto
    have "\<forall>j<length ls. length ls \<le> j + 20 \<longrightarrow> row_line h (j mod 20) (ls ! j)"
      using assms(1) by (simp add: hist_rep_def)
    then have "row_line h (?j mod 20) (ls ! ?j)" using False k by auto
    then have "hist_next h = Some (Some (ls ! ?j), h\<lparr>hist_cur := int (?j mod 20)\<rparr>)"
      using ne by (simp add: step row_line_def)
    moreover have "rev ls ! (k - 2) = ls ! (?n - Suc (k - 2))" using False k by (intro rev_nth) auto
    moreover have "?n - Suc (k - 2) = ?j" using False k by auto
    moreover have "k - 1 \<le> min (length ls) 19" using k(2) by (rule le_trans [OF diff_le_self])
    ultimately show ?thesis using False k assms(1) by (simp add: hist_at_def)
  qed
qed

section \<open>The editor as a specification\<close>

text \<open>The text before and after the cursor, insert or overwrite mode, and the part of an escape
  sequence that was read; beside it the lines of the history and how many steps back it is.\<close>

datatype ed = Ed (before: string) (after: string) (inserting: bool) (pending: string)

definition hist_up :: "string list \<Rightarrow> nat \<Rightarrow> string option \<times> nat" where
  "hist_up ls k = (if k < min (length ls) 19 then (Some (rev ls ! k), k + 1) else (None, k))"

definition hist_down :: "string list \<Rightarrow> nat \<Rightarrow> string option \<times> nat" where
  "hist_down ls k = (if k = 0 then (None, k)
     else (Some (if k = 1 then [] else rev ls ! (k - 2)), k - 1))"

definition ed_recall :: "ed \<Rightarrow> string option \<times> nat \<Rightarrow> ed \<times> nat" where
  "ed_recall e hk = ((case fst hk of None \<Rightarrow> e | Some line \<Rightarrow> Ed line [] (inserting e) (pending e)), snd hk)"

definition ed_type :: "nat \<Rightarrow> string \<Rightarrow> ed \<Rightarrow> ed" where
  "ed_type len s e =
     (let (l, r) = fold (ed_insert len (inserting e)) s (before e, after e)
      in Ed l r (inserting e) (pending e))"

definition ed_switch :: "nat \<Rightarrow> string list \<Rightarrow> ed \<Rightarrow> nat \<Rightarrow> char \<Rightarrow> ed \<times> nat" where
  "ed_switch len ls e k c =
     (case e of Ed l r ins esc \<Rightarrow>
        if c = CHR 0x1B then (Ed l r ins [c], k)
        else if c = CHR 0x01 then (Ed [] (l @ r) ins esc, k)
        else if c = CHR 0x06 then (Ed (l @ take 1 r) (drop 1 r) ins esc, k)
        else if c = CHR 0x02
        then (if l = [] then e else Ed (butlast l) (last l # r) ins esc, k)
        else if c = CHR 0x04 then (Ed l (tl r) ins esc, k)
        else if c = CHR 0x0B then (Ed l [] ins esc, k)
        else if c = CHR 0x05 then (Ed (l @ r) [] ins esc, k)
        else if c = CHR 0x0F then (Ed l r (\<not> ins) esc, k)
        else if c = CHR 0x18 \<or> c = CHR 0x15 then (Ed [] [] ins esc, k)
        else if c = CHR 0xFF \<or> c = CHR 0x7F \<or> c = BS then (Ed (butlast l) r ins esc, k)
        else if c = CHR 0x10 then ed_recall e (hist_up ls k)
        else if c = CHR 0x0E then ed_recall e (hist_down ls k)
        else (ed_type len [c] e, k))"

definition ed_key :: "nat \<Rightarrow> string list \<Rightarrow> ed \<Rightarrow> nat \<Rightarrow> char \<Rightarrow> ed \<times> nat" where
  "ed_key len ls e k c =
     (case e of Ed l r ins esc \<Rightarrow>
        if length esc = 1
        then if c = CHR ''['' then (Ed l r ins (esc @ [c]), k)
             else (ed_type len esc (Ed l r ins []), k)
        else if esc \<noteq> []
        then case esc_key c of
               Some d \<Rightarrow> ed_switch len ls (Ed l r ins []) k d
             | None \<Rightarrow> (ed_type len (esc @ [c]) (Ed l r ins []), k)
        else ed_switch len ls e k c)"

text \<open>The state of \<open>cread_line\<close> that represents it.\<close>

definition ed_rep :: "bool \<Rightarrow> nat \<Rightarrow> cread \<Rightarrow> hist \<Rightarrow> ed \<Rightarrow> string list \<Rightarrow> nat \<Rightarrow> bool" where
  "ed_rep t len st h e ls k \<longleftrightarrow>
     line_rep t len st (before e) (after e) (inserting e, length (pending e), esc_save st) \<and>
     length (esc_save st) = 8 \<and> take (length (pending e)) (esc_save st) = pending e \<and>
     length (pending e) \<le> 2 \<and> (t \<longrightarrow> list_all cell (pending e)) \<and>
     hist_rep h ls \<and> hist_at h ls k \<and> (\<forall>s\<in>set ls. length s \<le> len \<and> (t \<longrightarrow> list_all cell s))"

lemma ed_rep_line:
  assumes "ed_rep t len st h e ls k" and "line_rep t len st' l r (inserting e, length (pending e), esc_save st)"
  shows "ed_rep t len st' h (Ed l r (inserting e) (pending e)) ls k"
  using assms line_repD(5) [OF assms(2)] by (simp add: ed_rep_def)

lemma ed_rep_line_rep: "ed_rep t len st h e ls k \<Longrightarrow>
    line_rep t len st (before e) (after e) (inserting e, length (pending e), esc_save st)"
  by (simp add: ed_rep_def)

lemma line_rep_esc:
  "line_rep t len st l r (i, n, x) \<Longrightarrow> line_rep t len (st\<lparr>esc_save := x', esc_len := n'\<rparr>) l r (i, n', x')"
  by (simp add: line_rep_def)

lemma line_rep_esc0:
  "line_rep t len st l r (i, n, x) \<Longrightarrow> line_rep t len (st\<lparr>esc_len := 0\<rparr>) l r (i, 0, x)"
  by (simp add: line_rep_def)

lemma line_rep_forward:
  assumes "line_rep t len st l r m" 
  shows "(if num st < eol_num st
           then do { c \<leftarrow> rd (cbuf st) (num st); Some (Cont, (getcmd_putch c st)\<lparr>num := num st + 1\<rparr>, h) }
           else Some (Cont, st, h)) = Some (Cont, (if r = [] then st else
             (getcmd_putch (hd r) st)\<lparr>num := num st + 1\<rparr>), h)"
    and "line_rep t len (if r = [] then st else (getcmd_putch (hd r) st)\<lparr>num := num st + 1\<rparr>)
           (l @ take 1 r) (drop 1 r) m"
proof -
  note d = line_repD [OF assms]
  from d(7) obtain rest where b: "cbuf st = l @ r @ rest" ..
  show "(if num st < eol_num st
           then do { c \<leftarrow> rd (cbuf st) (num st); Some (Cont, (getcmd_putch c st)\<lparr>num := num st + 1\<rparr>, h) }
           else Some (Cont, st, h)) = Some (Cont, (if r = [] then st else
             (getcmd_putch (hd r) st)\<lparr>num := num st + 1\<rparr>), h)"
    using d(1,2) b by (cases r) (simp_all add: rd_append_mid)
  show "line_rep t len (if r = [] then st else (getcmd_putch (hd r) st)\<lparr>num := num st + 1\<rparr>)
           (l @ take 1 r) (drop 1 r) m"
  proof (cases r)
    case Nil
    then show ?thesis using assms by simp
  next
    case (Cons x xs)
    have "t \<Longrightarrow> screen_ok (tty st @ [x]) (l @ [x]) xs"
      using screen_forward [of "tty st" l "[x]" xs] d(6) Cons by simp
    then show ?thesis using d(1-5) b Cons
      by (intro line_repI [where rest = rest]) (simp_all add: getcmd_putch_def)
  qed
qed

lemma line_rep_back:
  assumes "line_rep t len st l r m"
  shows "line_rep t len (if num st > 0 then (getcmd_putch BS st)\<lparr>num := num st - 1\<rparr> else st)
           (if l = [] then l else butlast l) (if l = [] then r else last l # r) m"
proof (cases l rule: rev_cases)
  case Nil
  then show ?thesis using assms line_repD(1) [OF assms] by simp
next
  case (snoc l' x)
  note d = line_repD [OF assms]
  from d(7) obtain rest where b: "cbuf st = l @ r @ rest" ..
  have "t \<Longrightarrow> screen_ok (tty st @ [BS]) l' (x # r)" using screen_back d(6) snoc by simp
  then show ?thesis using d(1-5) b snoc
    by (intro line_repI [where rest = rest]) (simp_all add: getcmd_putch_def)
qed

lemma ed_rep_recall:
  assumes "ed_rep t len st h e ls k" and "pending e = []"
    and "c = CHR 0x10 \<or> c = CHR 0x0E"
    and "hk = (if c = CHR 0x10 then hist_up ls k else hist_down ls k)"
  shows "\<exists>st' h'. cread_switch ac prompt len st h c = Some (Cont, st', h') \<and>
    ed_rep t len st' h' (fst (ed_recall e hk)) ls (snd (ed_recall e hk))"
proof -
  note line = ed_rep_line_rep [OF assms(1)]
  have esc: "esc_len st = 0" using line_repD(5) [OF line] assms(2) by simp
  then have same: "st\<lparr>esc_len := 0\<rparr> = st" by (cases st) simp
  have H: "hist_rep h ls" "hist_at h ls k" "\<forall>s\<in>set ls. length s \<le> len \<and> (t \<longrightarrow> list_all cell s)"
    using assms(1) by (simp_all add: ed_rep_def)
  have "\<exists>h'. (if c = CHR 0x10 then hist_prev h else hist_next h) = Some (fst hk, h') \<and> hist_rep h' ls \<and>
      hist_at h' ls (snd hk)"
    using hist_prev_rep [OF H(1,2)] hist_next_rep [OF H(1,2)] H(1,2) assms(4)
    by (auto simp: hist_up_def hist_down_def split: if_splits)
  then obtain h' where h': "(if c = CHR 0x10 then hist_prev h else hist_next h) = Some (fst hk, h')"
    "hist_rep h' ls" "hist_at h' ls (snd hk)" by blast
  have "cread_switch ac prompt len st h c = (case fst hk of
      None \<Rightarrow> Some (Cont, getcmd_putch BEL (st\<lparr>esc_len := 0\<rparr>), h')
    | Some line \<Rightarrow> do { st \<leftarrow> cread_set_line line (st\<lparr>esc_len := 0\<rparr>); Some (Cont, st, h') })"
    using assms(3) h'(1) by (elim disjE) (simp_all add: cread_switch_def Let_def)
  note sw = this [unfolded same]
  show ?thesis
  proof (cases "fst hk")
    case None
    have "line_rep t len (getcmd_putch BEL st) (before e) (after e)
        (inserting e, length (pending e), esc_save st)"
      using line_repD [OF line] screen_bell by (auto simp: line_rep_def getcmd_putch_def)
    then show ?thesis using sw None assms(1) h'(2,3)
      by (auto simp: ed_rep_def ed_recall_def getcmd_putch_def)
  next
    case (Some s)
    have "s = [] \<or> s \<in> set ls"
      using Some assms(4) H(2) by (auto simp: hist_up_def hist_down_def hist_at_def rev_nth split: if_splits)
    then have "length s \<le> len" "t \<longrightarrow> list_all cell s" using H(3) by auto
    from line_rep_set_line [OF line this] obtain st' where st': "cread_set_line s st = Some st'"
      "line_rep t len st' s [] (inserting e, length (pending e), esc_save st)" by blast
    then have "esc_save st' = esc_save st" using line_repD(5) [OF st'(2)] by simp
    then show ?thesis using sw Some st' assms(1) h'(2,3) by (simp add: ed_rep_def ed_recall_def)
  qed
qed

lemma ed_rep_type:
  assumes "ed_rep t len st h e ls k" and "t \<longrightarrow> list_all cell s" and "0 < len"
  shows "\<exists>st'. cread_add_str s len st = Some st' \<and> ed_rep t len st' h (ed_type len s e) ls k"
proof -
  note line = ed_rep_line_rep [OF assms(1)]
  from line_rep_add_str [OF line assms(2,3)] obtain st' where st': "cread_add_str s len st = Some st'"
    "line_rep t len st' (fst (fold (ed_insert len (inserting e)) s (before e, after e)))
      (snd (fold (ed_insert len (inserting e)) s (before e, after e)))
      (inserting e, length (pending e), esc_save st)" by auto
  from ed_rep_line [OF assms(1) st'(2)] st'(1) show ?thesis
    by (auto simp: ed_type_def split: prod.splits)
qed

lemma ed_switch_rep:
  assumes rep: "ed_rep t len st h e ls k" and pend: "pending e = []" and len: "0 < len"
    and c: "c \<noteq> CHR 0x09" "c \<noteq> CHR 0x03" and sh: "t \<longrightarrow> c \<noteq> NUL \<and> c \<noteq> BEL"
  shows "\<exists>st' h'. cread_switch ac prompt len st h c = Some (Cont, st', h') \<and>
    ed_rep t len st' h' (fst (ed_switch len ls e k c)) ls (snd (ed_switch len ls e k c))"
proof -
  obtain l r ins where e: "e = Ed l r ins []" using pend by (cases e) auto
  note line = ed_rep_line_rep [OF rep, unfolded e ed.sel list.size]
  have esc: "esc_len st = 0" "insert_mode st = ins" using line_repD(5) [OF line] by simp_all
  note mk = ed_rep_line [OF rep, unfolded e ed.sel list.size]
  note defs = cread_switch_def ed_switch_def
  let ?ctl = "{CHR 0x1B, CHR 0x01, CHR 0x03, CHR 0x06, CHR 0x02, CHR 0x04, CHR 0x0B, CHR 0x05,
        CHR 0x0F, CHR 0x18, CHR 0x15, CHR 0xFF, CHR 0x7F, BS, CHR 0x10, CHR 0x0E, CHR 0x09}"
  consider "c = CHR 0x1B" | "c = CHR 0x01" | "c = CHR 0x06" | "c = CHR 0x02" | "c = CHR 0x04"
    | "c = CHR 0x0B" | "c = CHR 0x05" | "c = CHR 0x0F" | "c = CHR 0x18 \<or> c = CHR 0x15"
    | "c = CHR 0xFF \<or> c = CHR 0x7F \<or> c = BS" | "c = CHR 0x10 \<or> c = CHR 0x0E"
    | (other) "c \<notin> ?ctl"
    using c by atomize_elim auto
  then show ?thesis
  proof cases
    case 1
    let ?st = "st\<lparr>esc_save := (esc_save st)[0 := c], esc_len := 1\<rparr>"
    have sv: "length (esc_save st) = 8" using rep by (simp add: ed_rep_def)
    then have "cread_switch ac prompt len st h c = Some (Cont, ?st, h)" using 1 esc by (simp add: defs)
    moreover have "take 1 ((esc_save st)[0 := c]) = [c]" using sv by (cases "esc_save st") auto
    then have "ed_rep t len ?st h (Ed l r ins [c]) ls k"
      using rep 1 line_rep_esc [OF line, where n' = 1 and x' = "(esc_save st)[0 := c]"] sv
      by (simp add: ed_rep_def e cell_def)
    ultimately show ?thesis using 1 by (simp add: ed_switch_def e)
  next
    case 2
    then show ?thesis using mk [OF line_rep_BOL [OF line]] by (simp add: defs e)
  next
    case 3
    then show ?thesis using mk [OF line_rep_forward(2) [OF line]] line_rep_forward(1) [OF line, of h]
      by (simp add: defs e)
  next
    case 4
    then show ?thesis using mk [OF line_rep_back [OF line]] by (cases "l = []") (simp_all add: defs e)
  next
    case 5
    then show ?thesis using line_rep_ctrl_d [OF line] mk by (auto simp: defs e)
  next
    case 6
    then show ?thesis using mk [OF line_rep_EOL [OF line]] by (simp add: defs e)
  next
    case 7
    then show ?thesis using mk [OF line_rep_REFRESH [OF line]] by (simp add: defs e)
  next
    case 8
    have "ed_rep t len (st\<lparr>insert_mode := \<not> insert_mode st\<rparr>) h (Ed l r (\<not> ins) []) ls k"
      using rep esc by (simp add: ed_rep_def e line_rep_def)
    then show ?thesis using 8 by (simp add: defs e)
  next
    case 9
    then show ?thesis using mk [OF line_rep_EOL [OF line_rep_BOL [OF line]]] by (auto simp: defs e)
  next
    case 10
    obtain st' where "key_del st = Some st'" "line_rep t len st' (butlast l) r (ins, 0, esc_save st)"
      using line_rep_del [OF line] by blast
    with 10 show ?thesis using mk by (elim disjE) (simp_all add: defs e)
  next
    case 11
    then have "ed_switch len ls e k c = ed_recall e (if c = CHR 0x10 then hist_up ls k else hist_down ls k)"
      by (elim disjE) (simp_all add: ed_switch_def e)
    then show ?thesis using ed_rep_recall [OF rep pend 11 refl] by simp
  next
    case other
    then have "t \<longrightarrow> list_all cell [c]" using sh by (auto simp: cell_def)
    from ed_rep_type [OF rep this len] obtain st' where
      "cread_add_char c len st = Some st'" "ed_rep t len st' h (ed_type len [c] e) ls k"
      by (auto split: Option.bind_splits)
    then show ?thesis using other by (simp add: defs e)
  qed
qed

lemma ed_type_sel:
  "before (ed_type len s (Ed l r ins p)) = fst (fold (ed_insert len ins) s (l, r))"
  "after (ed_type len s (Ed l r ins p)) = snd (fold (ed_insert len ins) s (l, r))"
  "inserting (ed_type len s (Ed l r ins p)) = ins" "pending (ed_type len s (Ed l r ins p)) = p"
  by (simp_all add: ed_type_def case_prod_beta)

lemma ed_type_pending: "ed_type len s (Ed l r ins p) = Ed (before (ed_type len s (Ed l r ins [])))
    (after (ed_type len s (Ed l r ins []))) ins p"
  by (simp add: ed_type_def split: prod.splits)

lemma ed_rep_pending_clear:
  "ed_rep t len st h (Ed l r ins p) ls k \<Longrightarrow> ed_rep t len (st\<lparr>esc_len := 0\<rparr>) h (Ed l r ins []) ls k"
  by (auto simp: ed_rep_def line_rep_def)

lemma ed_key_rep:
  assumes rep: "ed_rep t len st h e ls k" and len: "0 < len"
    and c: "c \<noteq> CHR 0x09" "c \<noteq> CHR 0x0A" "c \<noteq> CHR 0x0D" "\<not> (c = CHR 0x03 \<and> pending e = [])"
    and sh: "t \<longrightarrow> cell c \<or> (c = BS \<and> pending e = [])"
  shows "\<exists>st' h'. cread_key ac prompt len st h c = Some (Cont, st', h') \<and>
    ed_rep t len st' h' (fst (ed_key len ls e k c)) ls (snd (ed_key len ls e k c))"
proof -
  obtain l r ins p where e: "e = Ed l r ins p" by (cases e)
  note line = ed_rep_line_rep [OF rep, unfolded e ed.sel]
  have esc: "esc_len st = length p" "insert_mode st = ins" using line_repD(5) [OF line] by simp_all
  have sv: "length (esc_save st) = 8" "take (length p) (esc_save st) = p" "length p \<le> 2"
      "t \<longrightarrow> list_all cell p"
    using rep by (simp_all add: ed_rep_def e)
  consider (none) "p = []" | (one) "length p = 1" | (two) "length p = 2"
    using sv(3) by (cases p; cases "tl p") auto
  then show ?thesis
  proof cases
    case none
    have "t \<longrightarrow> c \<noteq> NUL \<and> c \<noteq> BEL" using sh by (auto simp: cell_def)
    from ed_switch_rep [OF rep _ len c(1) _ this] none c show ?thesis
      by (simp add: cread_key_def ed_key_def e esc)
  next
    case one
    show ?thesis
    proof (cases "c = CHR ''[''")
      case True
      let ?e = "(esc_save st)[1 := c]"
      have "take 2 ?e = p @ [c]" using one sv(1,2) by (simp add: numeral_2_eq_2 take_Suc_conv_app_nth)
      then have "ed_rep t len (st\<lparr>esc_save := ?e, esc_len := 2\<rparr>) h (Ed l r ins (p @ [c])) ls k"
        using rep True one sv line_rep_esc [OF line, where n' = 2 and x' = ?e]
        by (simp add: ed_rep_def e cell_def numeral_2_eq_2)
      then show ?thesis using True one sv(1) esc by (simp add: cread_key_def ed_key_def e)
    next
      case False
      from ed_rep_type [OF rep, of p] sv(4) len obtain st' where st': "cread_add_str p len st = Some st'"
        "ed_rep t len st' h (ed_type len p (Ed l r ins p)) ls k" by (auto simp: e)
      from ed_rep_pending_clear [OF st'(2) [unfolded ed_type_pending [of _ _ _ _ _ p]]]
      have "ed_rep t len (st'\<lparr>esc_len := 0\<rparr>) h (ed_type len p (Ed l r ins [])) ls k"
        using ed_type_pending [of len p l r ins "[]"] by simp
      then show ?thesis using False one c st'(1) sv(2) esc
        by (simp add: cread_key_def ed_key_def e)
    qed
  next
    case two
    show ?thesis
    proof (cases "esc_key c")
      case (Some d)
      then have d: "d \<noteq> CHR 0x09" "d \<noteq> CHR 0x03" "d \<noteq> NUL" "d \<noteq> BEL"
        by (auto simp: esc_key_def split: if_splits)
      have "ed_rep t len (st\<lparr>esc_len := 0\<rparr>) h (Ed l r ins []) ls k"
        using rep unfolding e by (rule ed_rep_pending_clear)
      from ed_switch_rep [OF this _ len d(1,2)] d show ?thesis using two Some c esc
        by (auto simp: cread_key_def ed_key_def e)
    next
      case None
      let ?e = "(esc_save st)[2 := c]"
      have tk: "take 3 ?e = p @ [c]" using two sv(1,2)
        by (simp add: numeral_3_eq_3 numeral_2_eq_2 take_Suc_conv_app_nth)
      have cc: "t \<longrightarrow> list_all cell (p @ [c])" using sh sv(4) two by (auto simp: e)
      have line': "line_rep t len (st\<lparr>esc_save := ?e, esc_len := 3\<rparr>) l r (ins, 3, ?e)"
        by (rule line_rep_esc [OF line])
      from line_rep_add_str [OF line' cc len] obtain st' where
        st': "cread_add_str (p @ [c]) len (st\<lparr>esc_save := ?e, esc_len := 3\<rparr>) = Some st'"
        "line_rep t len st' (before (ed_type len (p @ [c]) (Ed l r ins [])))
          (after (ed_type len (p @ [c]) (Ed l r ins []))) (ins, 3, ?e)"
        unfolding ed_type_sel fst_conv by blast
      have "ed_rep t len (st'\<lparr>esc_len := 0\<rparr>) h (ed_type len (p @ [c]) (Ed l r ins [])) ls k"
        using line_rep_esc0 [OF st'(2)] line_repD(5) [OF st'(2)] rep sv(1) length_list_update [of "esc_save st" 2 c]
        by (simp add: ed_rep_def e ed_type_sel del: length_list_update)
      moreover have "p \<noteq> []" using two by auto
      ultimately show ?thesis using None two c st'(1) sv(1) esc tk
        by (simp add: cread_key_def ed_key_def e)
    qed
  qed
qed

text \<open>A whole series of keys.\<close>

fun ed_run :: "nat \<Rightarrow> string list \<Rightarrow> ed \<Rightarrow> nat \<Rightarrow> string \<Rightarrow> line_end \<times> ed \<times> nat \<times> string" where
  "ed_run len ls e k [] = (Waiting, e, k, [])"
| "ed_run len ls e k (c # cs) =
     (if c = CHR 0x0A \<or> c = CHR 0x0D then (Returned 0, e, k, cs)
      else if c = CHR 0x03 \<and> pending e = [] then (Returned (-1), e, k, cs)
      else ed_run len ls (fst (ed_key len ls e k c)) (snd (ed_key len ls e k c)) cs)"

definition line_end_state :: "line_end \<Rightarrow> cread \<Rightarrow> cread" where
  "line_end_state r st = (case r of Waiting \<Rightarrow> st
     | Returned n \<Rightarrow> if n = 0 then getcmd_putch (CHR 0x0A) st else st\<lparr>cbuf := (cbuf st)[0 := NUL]\<rparr>)"

lemma cread_loop_rep:
  assumes "ed_rep t len st h e ls k" and "0 < len" and "CHR 0x09 \<notin> set input"
    and "t \<longrightarrow> list_all cell input" and "ed_run len ls e k input = (er, e', k', rest)"
  shows "\<exists>st' h'. cread_loop ac prompt len st h input = Some (er, line_end_state er st', h', rest) \<and>
    ed_rep t len st' h' e' ls k'"
  using assms
proof (induction input arbitrary: st h e k)
  case Nil
  then show ?case by (auto simp: line_end_state_def)
next
  case (Cons c cs)
  show ?case
  proof (cases "c = CHR 0x0A \<or> c = CHR 0x0D")
    case True
    then show ?thesis using Cons.prems by (auto simp: cread_key_def line_end_state_def)
  next
    case nl: False
    show ?thesis
    proof (cases "c = CHR 0x03 \<and> pending e = []")
      case True
      then have esc: "esc_len st = 0"
        using line_repD(5) [OF ed_rep_line_rep [OF Cons.prems(1)]] by simp
      have buf: "0 < length (cbuf st)"
        using line_repD(4) [OF ed_rep_line_rep [OF Cons.prems(1)]] by linarith
      have "cread_key ac prompt len st h c = Some (Break, st\<lparr>cbuf := (cbuf st)[0 := NUL]\<rparr>, h)"
        using True esc buf by (simp add: cread_key_def cread_switch_def)
      then show ?thesis using Cons.prems nl True by (auto simp: line_end_state_def)
    next
      case False
      have "t \<longrightarrow> cell c \<or> (c = BS \<and> pending e = [])" using Cons.prems(4) by simp
      moreover have "c \<noteq> CHR 0x09" "c \<noteq> CHR 0x0A" "c \<noteq> CHR 0x0D" using nl Cons.prems(3) by auto
      ultimately obtain st1 h1 where st1: "cread_key ac prompt len st h c = Some (Cont, st1, h1)"
        "ed_rep t len st1 h1 (fst (ed_key len ls e k c)) ls (snd (ed_key len ls e k c))"
        using ed_key_rep [OF Cons.prems(1,2) _ _ _ False, of ac prompt] by blast
      show ?thesis
        using Cons.IH [OF st1(2) Cons.prems(2)] Cons.prems(3-5) nl False st1(1) by auto
    qed
  qed
qed

section \<open>A whole line\<close>

text \<open>A history and buffer as \<open>readline_into_buffer\<close> gives them to \<open>cread_line\<close>.\<close>

definition hist_ready :: "hist \<Rightarrow> string list \<Rightarrow> bool" where
  "hist_ready h ls \<longleftrightarrow> hist_rep h ls \<and> hist_at h ls 0 \<and> (\<forall>s\<in>set ls. list_all cell s \<and> length s < 256)"

lemma cells_no_NUL: "list_all cell s \<Longrightarrow> NUL \<notin> set s"
  by (auto simp: list_all_iff cell_def)

lemma cread_finish_rep:
  assumes "ed_rep True 256 st h e ls k" and "hist_ready h0 ls"
  defines "line \<equiv> before e @ after e"
  shows "if line = [] \<or> hd line = CHR ''!''
     then \<exists>st' h'. cread_finish st h = Some (st', h') \<and> cstr_at (cbuf st') 0 = Some line \<and> hist_ready h' ls
     else if length line < 256
     then \<exists>st' h'. cread_finish st h = Some (st', h') \<and> cstr_at (cbuf st') 0 = Some line \<and>
            hist_ready h' (ls @ [line])
     else cread_finish st h = None"
proof -
  note d = line_repD [OF ed_rep_line_rep [OF assms(1)]]
  from d(7) obtain rest where b: "cbuf st = line @ rest" by (auto simp: line_def)
  have len: "eol_num st = length line" "length line < length (cbuf st)"
    using d(2,3,4) by (simp_all add: line_def)
  then obtain x rest' where rest: "rest = x # rest'" using b by (cases rest) auto
  have cells: "list_all cell line" using d(6) by (simp add: screen_ok_def line_def)
  then have nonul: "NUL \<notin> set line" by (rule cells_no_NUL)
  let ?b = "line @ NUL # rest'"
  have wr: "wr (cbuf st) (eol_num st) NUL = Some ?b" using len b rest by simp
  have str: "cstr_at ?b 0 = Some line" using cstr_at_append [OF nonul, of "[]"] by simp
  have H: "hist_rep h ls" using assms(1) by (simp add: ed_rep_def)
  note add = cread_add_to_hist_rep [OF H nonul]
  have first: "rd ?b 0 = Some (if line = [] then NUL else hd line)" by (cases line) simp_all
  have at0: "hist_at (g\<lparr>hist_cur := int (hist_add_idx g)\<rparr>) xs 0" if "hist_rep g xs" for g xs
    using that by (simp add: hist_at_def hist_rep_def)
  have hd: "line \<noteq> [] \<Longrightarrow> hd line \<noteq> NUL" using nonul by (cases line) auto
  show ?thesis
  proof (cases "line = [] \<or> hd line = CHR ''!''")
    case True
    then have "cread_finish st h = Some (st\<lparr>cbuf := ?b\<rparr>, h\<lparr>hist_cur := int (hist_add_idx h)\<rparr>)"
      unfolding cread_finish_def wr by (auto simp: first)
    then show ?thesis using True str at0 [OF H] H assms(2) by (simp add: hist_ready_def)
  next
    case False
    then have "cread_finish st h = do { h \<leftarrow> cread_add_to_hist h line;
        Some (st\<lparr>cbuf := ?b\<rparr>, h\<lparr>hist_cur := int (hist_add_idx h)\<rparr>) }"
      unfolding cread_finish_def wr using hd by (simp add: first str)
    then show ?thesis using False str add at0 cells assms(2)
      by (cases "length line < 256") (auto simp: hist_ready_def MAX_CMDBUF_SIZE_def)
  qed
qed

lemma cread_start_rep:
  assumes "hist_ready h ls" and "256 < length buf"
  shows "ed_rep True 256 \<lparr>num = 0, eol_num = 0, cbuf = buf, insert_mode = True, esc_len = 0,
             esc_save = replicate 8 NUL, tty = []\<rparr> h (Ed [] [] True []) ls 0"
proof -
  have "screen_ok [] [] []" using screen_okI [of "[]" "[]" "[]" 0] by (simp add: blanks_def)
  then show ?thesis using assms by (auto simp: ed_rep_def line_rep_def hist_ready_def)
qed

text \<open>C3: each key that \<open>cread_line\<close> reads, other than Enter, \<open>^C\<close> and TAB, does to the buffer, the
  indices and the history what the specification does to the text around the cursor and the list of
  lines, without an access outside the buffers.  When \<open>t\<close> is set (keys and text that take one
  column each) the terminal goes on showing exactly the line, with the cursor where it is.\<close>

theorem cread_key_refines:
  assumes "ed_rep t len st h e ls k" and "0 < len"
    and "c \<notin> {CHR 0x09, CHR 0x0A, CHR 0x0D}" and "\<not> (c = CHR 0x03 \<and> pending e = [])"
    and "t \<longrightarrow> cell c \<or> (c = BS \<and> pending e = [])"
  shows "\<exists>st' h'. cread_key ac prompt len st h c = Some (Cont, st', h') \<and>
    ed_rep t len st' h' (fst (ed_key len ls e k c)) ls (snd (ed_key len ls e k c))"
  using assms by (intro ed_key_rep) auto


text \<open>A history of the size the code has, before the first line.\<close>

definition demo_hist :: hist where
  "demo_hist = hist_init \<lparr>hist_max = 3, hist_add_idx = 2, hist_cur = 0, hist_num = 5,
     hist_lines = replicate 20 (replicate 256 (CHR ''x''))\<rparr>"

lemma demo_hist_ready: "hist_ready demo_hist []"
proof -
  have "hist_rep demo_hist []" unfolding demo_hist_def
    by (rule hist_init_rep) (simp_all add: HIST_MAX_def MAX_CMDBUF_SIZE_def)
  then show ?thesis by (simp add: hist_ready_def hist_at_def demo_hist_def hist_init_def)
qed

theorem cread_key_refines_witness:
  "\<forall>ac prompt. \<exists>st' h'. cread_key ac prompt 256 \<lparr>num = 0, eol_num = 0, cbuf = replicate 300 NUL, insert_mode = True,
      esc_len = 0, esc_save = replicate 8 NUL, tty = []\<rparr> demo_hist (CHR ''a'') = Some (Cont, st', h') \<and>
    ed_rep True 256 st' h' (Ed ''a'' [] True []) [] 0"
proof (intro allI)
  fix ac prompt
  have start: "ed_rep True 256 \<lparr>num = 0, eol_num = 0, cbuf = replicate 300 NUL, insert_mode = True,
      esc_len = 0, esc_save = replicate 8 NUL, tty = []\<rparr> demo_hist (Ed [] [] True []) [] 0"
    by (rule cread_start_rep [OF demo_hist_ready]) simp
  have "fst (ed_key 256 [] (Ed [] [] True []) 0 (CHR ''a'')) = Ed ''a'' [] True []"
    "snd (ed_key 256 [] (Ed [] [] True []) 0 (CHR ''a'')) = 0"
    by (simp_all add: ed_key_def ed_switch_def ed_type_def ed_insert_def)
  with cread_key_refines [OF start, of "CHR ''a''" ac prompt]
  show "\<exists>st' h'. cread_key ac prompt 256 \<lparr>num = 0, eol_num = 0, cbuf = replicate 300 NUL, insert_mode = True,
      esc_len = 0, esc_save = replicate 8 NUL, tty = []\<rparr> demo_hist (CHR ''a'') = Some (Cont, st', h') \<and>
    ed_rep True 256 st' h' (Ed ''a'' [] True []) [] 0"
    by (simp add: cell_def)
qed


text \<open>The history alone: adding lines one after the other, and going back \<open>n\<close> times.\<close>

primrec hist_add_all :: "hist \<Rightarrow> string list \<Rightarrow> hist option" where
  "hist_add_all h [] = Some h"
| "hist_add_all h (s # ss) = do { h \<leftarrow> cread_add_to_hist h s; hist_add_all h ss }"

primrec hist_prevs :: "hist \<Rightarrow> nat \<Rightarrow> (string option \<times> hist) option" where
  "hist_prevs h 0 = hist_prev h"
| "hist_prevs h (Suc n) = do { (_, h) \<leftarrow> hist_prevs h n; hist_prev h }"

lemma hist_add_all_rep:
  assumes "hist_rep h ls" and "\<forall>s\<in>set ss. NUL \<notin> set s \<and> length s < MAX_CMDBUF_SIZE"
  shows "\<exists>h'. hist_add_all h ss = Some h' \<and> hist_rep h' (ls @ ss)"
  using assms
proof (induction ss arbitrary: h ls)
  case (Cons s ss)
  then obtain h1 where h1: "cread_add_to_hist h s = Some h1" "hist_rep h1 (ls @ [s])"
    using cread_add_to_hist_rep [OF Cons.prems(1), of s] by auto
  from Cons.IH [OF this(2)] Cons.prems(2) h1(1) show ?case by simp
qed simp

lemma hist_prevs_rep:
  assumes "hist_rep h ls" and "hist_at h ls 0"
  shows "if n < min (length ls) 19
     then \<exists>h'. hist_prevs h n = Some (Some (rev ls ! n), h') \<and> hist_rep h' ls \<and> hist_at h' ls (n + 1)
     else \<exists>h'. hist_prevs h n = Some (None, h') \<and> hist_rep h' ls \<and> hist_at h' ls (min (length ls) 19)"
proof (induction n)
  case 0
  then show ?case using hist_prev_rep [OF assms] assms by (auto split: if_splits)
next
  case (Suc n)
  show ?case
  proof (cases "n < min (length ls) 19")
    case True
    then obtain h' where h': "hist_prevs h n = Some (Some (rev ls ! n), h')" "hist_rep h' ls"
      "hist_at h' ls (n + 1)" using Suc by auto
    show ?thesis
    proof (cases "Suc n < min (length ls) 19")
      case True
      then show ?thesis using hist_prev_rep [OF h'(2,3)] h'(1) by auto
    next
      case False
      then have "n + 1 = min (length ls) 19" using True by linarith
      moreover have "hist_prevs h (Suc n) = Some (None, h')"
        using hist_prev_rep [OF h'(2,3)] h'(1) False by simp
      ultimately show ?thesis using h'(2,3) False by (simp only: if_False) metis
    qed
  next
    case False
    then obtain h' where h': "hist_prevs h n = Some (None, h')" "hist_rep h' ls"
      "hist_at h' ls (min (length ls) 19)" using Suc by auto
    from hist_prev_rep [OF this(2,3)] h' False show ?thesis by auto
  qed
qed

text \<open>the history ring: after any lines have been added to an initialised history, going back
  from the new line gives them newest first, at most nineteen, and then NULL for good.\<close>

lemma history_newest_first:
  assumes "length (hist_lines h0) = HIST_MAX" and "\<forall>row\<in>set (hist_lines h0). length row = MAX_CMDBUF_SIZE"
    and "\<forall>s\<in>set ls. NUL \<notin> set s \<and> length s < MAX_CMDBUF_SIZE"
  shows "\<exists>h. hist_add_all (hist_init h0) ls = Some h \<and>
    (\<forall>n. map_option fst (hist_prevs (h\<lparr>hist_cur := int (hist_add_idx h)\<rparr>) n) =
       Some (if n < min (length ls) 19 then Some (rev ls ! n) else None))"
proof -
  obtain h where h: "hist_add_all (hist_init h0) ls = Some h" "hist_rep h ls"
    using hist_add_all_rep [OF hist_init_rep [OF assms(1,2)] assms(3)] by auto
  have "hist_rep (h\<lparr>hist_cur := int (hist_add_idx h)\<rparr>) ls" using h(2) by simp
  moreover have "hist_at (h\<lparr>hist_cur := int (hist_add_idx h)\<rparr>) ls 0"
    using h(2) by (simp add: hist_at_def hist_rep_def)
  ultimately have "map_option fst (hist_prevs (h\<lparr>hist_cur := int (hist_add_idx h)\<rparr>) n) =
      Some (if n < min (length ls) 19 then Some (rev ls ! n) else None)" for n
    using hist_prevs_rep [of _ ls n] by (cases "n < min (length ls) 19") fastforce+
  with h(1) show ?thesis by blast
qed

lemma history_newest_first_witness:
  "\<exists>h. hist_add_all demo_hist [''help'', ''boot''] = Some h \<and>
    map_option fst (hist_prevs (h\<lparr>hist_cur := int (hist_add_idx h)\<rparr>) 1) = Some (Some ''help'')"
proof -
  let ?h0 = "\<lparr>hist_max = 3, hist_add_idx = 2, hist_cur = 0, hist_num = 5,
     hist_lines = replicate 20 (replicate 256 (CHR ''x''))\<rparr>"
  have "length (hist_lines ?h0) = HIST_MAX" "\<forall>row\<in>set (hist_lines ?h0). length row = MAX_CMDBUF_SIZE"
    "\<forall>s\<in>set [''help'', ''boot'']. NUL \<notin> set s \<and> length s < MAX_CMDBUF_SIZE"
    by (simp_all add: HIST_MAX_def MAX_CMDBUF_SIZE_def)
  from history_newest_first [OF this] obtain h where
    "hist_add_all demo_hist [''help'', ''boot''] = Some h"
    "map_option fst (hist_prevs (h\<lparr>hist_cur := int (hist_add_idx h)\<rparr>) 1) = Some
      (if 1 < min (length [''help'', ''boot'']) 19 then Some (rev [''help'', ''boot''] ! 1) else None)"
    unfolding demo_hist_def by blast
  then show ?thesis by simp
qed

end
