(* ===== verification/ReadLine.thy ===== *)
theory ReadLine
  imports LineEdit
begin

text \<open>
  \<open>readline_into_buffer\<close> of \<open>common/main.c\<close>: the call of \<open>cread_line\<close> after relocation, and the simple
  editor that runs from flash before it (\<open>delete_char\<close> and the loop over \<open>getc\<close>).  The lemmas
  show that the simple editor keeps the line, its length and the output column together, for a
  terminal whose tab stops are eight columns apart.  The pointer \<open>p\<close> of the code is always
  \<open>p_buf + n\<close> and is the index \<open>n\<close> here.  The build without \<open>CONFIG_BOOT_RETRY_TIME\<close>,
  \<open>CONFIG_CMD_IR\<close>, \<open>SUPPORT_UPG_FLASH_LED\<close>, \<open>CFG_UPG_SUPPORT_JIGMODE\<close> and \<open>CONFIG_SHOW_ACTIVITY\<close> is
  modelled; \<open>cbsize\<close> is \<open>CONFIG_SYS_CBSIZE\<close>, the size of \<open>console_buffer\<close>.
\<close>

section \<open>The simple editor\<close>

record rl =
  rbuf :: "char list"
  rn :: nat
  rcol :: int
  rtty :: string

abbreviation TAB :: char where "TAB \<equiv> CHR 0x09"

definition erase_seq :: string where "erase_seq = [BS, CHR '' '', BS]"
definition tab_seq :: string where "tab_seq = replicate 8 (CHR '' '')"

text \<open>The loop of \<open>delete_char\<close> that types the line again.\<close>

fun retype :: "string \<Rightarrow> int \<Rightarrow> string \<Rightarrow> int \<times> string" where
  "retype [] col out = (col, out)"
| "retype (c # s) col out =
     (if c = TAB then retype s (col + (8 - col mod 8)) (out @ drop (nat (col mod 8)) tab_seq)
      else retype s (col + 1) (out @ [c]))"

definition delete_char :: "nat \<Rightarrow> rl \<Rightarrow> rl option" where
  "delete_char plen st =
     (if rn st = 0 then Some st
      else do { c \<leftarrow> rd (rbuf st) (rn st - 1);
                if c = TAB
                then let erased = rtty st @ concat (replicate (nat (rcol st - int plen)) erase_seq);
                         (col, out) = retype (take (rn st - 1) (rbuf st)) (min (rcol st) (int plen)) erased
                     in Some (st\<lparr>rcol := col, rtty := out, rn := rn st - 1\<rparr>)
                else Some (st\<lparr>rtty := rtty st @ erase_seq, rcol := rcol st - 1, rn := rn st - 1\<rparr>) })"

lemma delete_char_rn: "delete_char plen st = Some st' \<Longrightarrow> rn st' = rn st - 1 \<and> rbuf st' = rbuf st"
  by (auto simp: delete_char_def Let_def split: if_splits Option.bind_splits prod.splits)

text \<open>\<open>while ((n > 0) && (*p != ' ')) p = delete_char (...);\<close>\<close>

function delete_word :: "nat \<Rightarrow> rl \<Rightarrow> rl option" where
  "delete_word plen st =
     (if rn st > 0
      then do { c \<leftarrow> rd (rbuf st) (rn st);
                if c \<noteq> CHR '' ''
                then case delete_char plen st of None \<Rightarrow> None | Some st' \<Rightarrow> delete_word plen st'
                else Some st }
      else Some st)"
  by pat_completeness auto
termination
  by (relation "measure (\<lambda>(plen, st). rn st)") (auto dest: delete_char_rn)

declare delete_word.simps [simp del]

datatype simple_result = More rl | Stop int rl

text \<open>The \<open>switch (c)\<close>.\<close>

definition simple_key ::
  "completer \<Rightarrow> nat \<Rightarrow> string \<Rightarrow> rl \<Rightarrow> char \<Rightarrow> simple_result option" where
  "simple_key ac cbsize prompt st c =
     (let plen = length prompt in
      if c = CHR 0x0D \<or> c = CHR 0x0A
      then do { b \<leftarrow> wr (rbuf st) (rn st) NUL;
                Some (Stop (int (rn st)) (st\<lparr>rbuf := b, rtty := rtty st @ [CHR 0x0D, CHR 0x0A]\<rparr>)) }
      else if c = NUL then Some (More st)
      else if c = CHR 0x03
      then do { b \<leftarrow> wr (rbuf st) 0 NUL; Some (Stop (-1) (st\<lparr>rbuf := b\<rparr>)) }
      else if c = CHR 0x15
      then Some (More (st\<lparr>rtty := rtty st @ concat (replicate (nat (rcol st - int plen)) erase_seq),
                          rcol := min (rcol st) (int plen), rn := 0\<rparr>))
      else if c = CHR 0x17
      then do { st \<leftarrow> delete_char plen st; st \<leftarrow> delete_word plen st; Some (More st) }
      else if c = BS \<or> c = CHR 0x7F
      then do { st \<leftarrow> delete_char plen st; Some (More st) }
      else if int (rn st) < int cbsize - 2
      then do {
        (done, st) \<leftarrow>
          (if c = TAB
           then do { b \<leftarrow> wr (rbuf st) (rn st) NUL;
                     (r, b, n, col, out) \<leftarrow> ac prompt b (rn st) (rcol st);
                     let st = st\<lparr>rbuf := b, rn := n, rcol := col, rtty := rtty st @ out\<rparr>;
                     Some (r, if r then st
                              else st\<lparr>rtty := rtty st @ drop (nat (rcol st mod 8)) tab_seq,
                                      rcol := rcol st + (8 - rcol st mod 8)\<rparr>) }
           else Some (False, st\<lparr>rcol := rcol st + 1, rtty := rtty st @ [c]\<rparr>));
        if done then Some (More st)
        else do { b \<leftarrow> wr (rbuf st) (rn st) c; Some (More (st\<lparr>rbuf := b, rn := rn st + 1\<rparr>)) } }
      else Some (More (st\<lparr>rtty := rtty st @ [BEL]\<rparr>)))"

fun simple_loop ::
  "completer \<Rightarrow> nat \<Rightarrow> string \<Rightarrow> rl \<Rightarrow> string \<Rightarrow> (line_end \<times> rl \<times> string) option" where
  "simple_loop ac cbsize prompt st [] = Some (Waiting, st, [])"
| "simple_loop ac cbsize prompt st (c # input) =
     do { r \<leftarrow> simple_key ac cbsize prompt st c;
          case r of More st \<Rightarrow> simple_loop ac cbsize prompt st input
          | Stop n st \<Rightarrow> Some (Returned n, st, input) }"

text \<open>\<open>readline_into_buffer\<close>: \<open>reloc\<close> is \<open>GD_FLG_RELOC\<close>, \<open>initted\<close> its static variable.  The result
  has what the code returns, the buffer, the history, the rest of the input and the output.\<close>

definition readline_into_buffer ::
  "completer \<Rightarrow> nat \<Rightarrow> bool \<Rightarrow> bool \<Rightarrow> string \<Rightarrow> char list \<Rightarrow> hist \<Rightarrow> string \<Rightarrow>
   (line_end \<times> char list \<times> hist \<times> bool \<times> string \<times> string) option" where
  "readline_into_buffer ac cbsize reloc initted prompt buffer h input =
     (if reloc
      then do { let h = (if \<not> initted then hist_init h else h);
                (e, st, h, rest) \<leftarrow> cread_line ac prompt buffer MAX_CMDBUF_SIZE h input;
                let e = (case e of Returned r \<Rightarrow> Returned (if r < 0 then r else int (eol_num st))
                         | Waiting \<Rightarrow> Waiting);
                Some (e, cbuf st, h, True, rest, prompt @ tty st) }
      else do { (e, st, rest) \<leftarrow> simple_loop ac cbsize prompt
                  \<lparr>rbuf = buffer, rn = 0, rcol = int (length prompt), rtty = prompt\<rparr> input;
                Some (e, rbuf st, h, initted, rest, rtty st) })"

section \<open>The line and its column\<close>

definition col_after :: "nat \<Rightarrow> string \<Rightarrow> int" where
  "col_after plen w = fst (retype w (int plen) [])"

lemma retype_col: "fst (retype w col out) = fst (retype w col [])"
  by (induction w arbitrary: col out rule: list.induct) (simp, metis retype.simps(2))

lemma retype_append: "fst (retype (v @ w) col out) = fst (retype w (fst (retype v col [])) [])"
proof (induction v arbitrary: col out)
  case Nil
  then show ?case by (simp add: retype_col [of w col out])
next
  case (Cons c v)
  then show ?case by simp (metis retype_col)
qed

lemma col_after_simps [simp]:
  "col_after plen [] = int plen"
  "col_after plen (w @ [c]) = (if c = TAB then col_after plen w + (8 - col_after plen w mod 8)
     else col_after plen w + 1)"
  by (simp_all add: col_after_def retype_append)

lemma col_after_ge: "int plen \<le> col_after plen w"
proof (induction w rule: rev_induct)
  case (snoc c w)
  have "X \<le> X + (8 - X mod 8)" for X :: int by presburger
  with snoc show ?case by (simp add: order_trans)
qed simp

text \<open>The state for the line \<open>w\<close>.\<close>

definition rl_rep :: "nat \<Rightarrow> nat \<Rightarrow> rl \<Rightarrow> string \<Rightarrow> bool" where
  "rl_rep cbsize plen st w \<longleftrightarrow> length (rbuf st) = cbsize \<and> rn st = length w \<and> take (length w) (rbuf st) = w \<and>
     length w + 2 \<le> cbsize \<and> rcol st = col_after plen w"

lemma delete_char_rep:
  assumes "rl_rep cbsize plen st w"
  shows "\<exists>st'. delete_char plen st = Some st' \<and> rl_rep cbsize plen st' (butlast w) \<and> rbuf st' = rbuf st"
proof (cases w rule: rev_cases)
  case Nil
  then show ?thesis using assms by (simp add: delete_char_def rl_rep_def)
next
  case (snoc v c)
  have n: "rn st = Suc (length v)" "length v < length (rbuf st)" "take (Suc (length v)) (rbuf st) = v @ [c]"
    using assms snoc by (auto simp: rl_rep_def)
  then have c: "rbuf st ! length v = c" "take (length v) (rbuf st) = v"
    by (simp_all add: take_Suc_conv_app_nth)
  have "min (rcol st) (int plen) = int plen" using assms col_after_ge [of plen w] by (simp add: rl_rep_def)
  moreover have "fst (retype v (int plen) out) = col_after plen v" for out
    by (simp add: col_after_def retype_col [of v _ out])
  ultimately show ?thesis using assms snoc n c
    by (auto simp: delete_char_def rl_rep_def Let_def split: prod.splits)
      (metis fst_conv)+
qed

text \<open>\<open>^W\<close> takes the last word and one blank before it.\<close>

definition drop_word :: "string \<Rightarrow> string" where
  "drop_word w = rev (drop 1 (dropWhile (\<lambda>c. c \<noteq> CHR '' '') (rev w)))"

lemma set_drop_word: "set (drop_word w) \<subseteq> set w"
proof -
  have "set (drop 1 (dropWhile P xs)) \<subseteq> set xs" for P and xs :: string
    by (metis set_drop_subset set_dropWhileD subset_iff)
  then show ?thesis using set_rev unfolding drop_word_def by metis
qed

lemma drop_word_snoc: "drop_word (v @ [c]) = (if c = CHR '' '' then v else drop_word v)"
  by (simp add: drop_word_def)

lemma delete_word_rep:
  assumes "rl_rep cbsize plen st v" and "length v < length (rbuf st)"
  shows "\<exists>st'. delete_word plen st = Some st' \<and>
    rl_rep cbsize plen st' (if rbuf st ! length v = CHR '' '' then v else drop_word v)"
  using assms
proof (induction v arbitrary: st rule: rev_induct)
  case Nil
  then show ?case by (subst delete_word.simps) (simp add: rl_rep_def drop_word_def)
next
  case (snoc c v)
  have n: "rn st = Suc (length v)" "rbuf st ! length v = c" 
    using snoc.prems by (auto simp: rl_rep_def take_Suc_conv_app_nth)
  show ?case
  proof (cases "rbuf st ! Suc (length v) = CHR '' ''")
    case True
    then show ?thesis using snoc.prems n by (subst delete_word.simps) simp
  next
    case False
    obtain st' where st': "delete_char plen st = Some st'" "rl_rep cbsize plen st' v" "rbuf st' = rbuf st"
      using delete_char_rep [OF snoc.prems(1)] by auto
    have "delete_word plen st = delete_word plen st'"
      using snoc.prems(2) n st'(1) False by (subst delete_word.simps) simp
    then show ?thesis using snoc.IH [OF st'(2)] st'(3) snoc.prems(2) n(2) False
      by (simp add: drop_word_snoc)
  qed
qed

text \<open>The specification of one key.\<close>

definition sl_key :: "nat \<Rightarrow> string \<Rightarrow> char \<Rightarrow> string" where
  "sl_key cbsize w c =
     (if c = NUL then w
      else if c = CHR 0x15 then []
      else if c = CHR 0x17 then drop_word w
      else if c = BS \<or> c = CHR 0x7F then butlast w
      else if length w + 2 < cbsize then w @ [c] else w)"

fun sl_run :: "nat \<Rightarrow> string \<Rightarrow> string \<Rightarrow> line_end \<times> string \<times> string" where
  "sl_run cbsize w [] = (Waiting, w, [])"
| "sl_run cbsize w (c # cs) =
     (if c = CHR 0x0D \<or> c = CHR 0x0A then (Returned (int (length w)), w, cs)
      else if c = CHR 0x03 then (Returned (-1), [], cs)
      else sl_run cbsize (sl_key cbsize w c) cs)"

text \<open>A build, or a prompt, for which \<open>cmd_auto_complete\<close> does nothing.\<close>

definition no_completion :: "completer \<Rightarrow> string \<Rightarrow> bool" where
  "no_completion ac prompt \<longleftrightarrow> (\<forall>b n col. ac prompt b n col = Some (False, b, n, col, []))"

lemma simple_key_rep:
  assumes "rl_rep cbsize (length prompt) st w" and "no_completion ac prompt \<or> c \<noteq> TAB"
    and "c \<notin> {CHR 0x0D, CHR 0x0A, CHR 0x03}"
  shows "\<exists>st'. simple_key ac cbsize prompt st c = Some (More st') \<and>
    rl_rep cbsize (length prompt) st' (sl_key cbsize w c)"
proof -
  let ?plen = "length prompt"
  have R: "length (rbuf st) = cbsize" "rn st = length w" "take (length w) (rbuf st) = w"
    "length w + 2 \<le> cbsize" "rcol st = col_after ?plen w" using assms(1) by (simp_all add: rl_rep_def)
  note defs = simple_key_def sl_key_def Let_def
  consider "c = NUL" | "c = CHR 0x15" | "c = CHR 0x17" | "c = BS \<or> c = CHR 0x7F"
    | (full) "c \<notin> {NUL, CHR 0x15, CHR 0x17, BS, CHR 0x7F}" "length w + 2 = cbsize"
    | (add) "c \<notin> {NUL, CHR 0x15, CHR 0x17, BS, CHR 0x7F}" "length w + 2 < cbsize"
    using R(4) by atomize_elim auto
  then show ?thesis
  proof cases
    case 1
    then show ?thesis using assms by (simp add: defs)
  next
    case 2
    have "min (rcol st) (int ?plen) = int ?plen" using R(5) col_after_ge [of ?plen w] by simp
    then show ?thesis using 2 R by (simp add: defs rl_rep_def)
  next
    case 3
    obtain st1 where st1: "delete_char ?plen st = Some st1" "rl_rep cbsize ?plen st1 (butlast w)"
      "rbuf st1 = rbuf st" using delete_char_rep [OF assms(1)] by blast
    obtain st2 where st2: "delete_word ?plen st1 = Some st2" "rl_rep cbsize ?plen st2
        (if rbuf st1 ! length (butlast w) = CHR '' '' then butlast w else drop_word (butlast w))"
    proof -
      have "length (butlast w) < length (rbuf st1)" using st1(3) R(1,4) by simp
      from delete_word_rep [OF st1(2) this] that show ?thesis by blast
    qed
    have "(if rbuf st1 ! length (butlast w) = CHR '' '' then butlast w else drop_word (butlast w)) =
        drop_word w"
    proof (cases w rule: rev_cases)
      case Nil
      then show ?thesis by (simp add: drop_word_def)
    next
      case (snoc v d)
      then have "rbuf st ! length v = d" using R(1,3,4) by (simp add: take_Suc_conv_app_nth)
      then show ?thesis using snoc st1(3) by (simp add: drop_word_snoc)
    qed
    then show ?thesis using 3 st1(1) st2 by (simp add: defs)
  next
    case 4
    then show ?thesis using delete_char_rep [OF assms(1)] by (elim disjE) (auto simp: defs)
  next
    case full
    then show ?thesis using assms R by (auto simp: defs rl_rep_def)
  next
    case add
    have t: "take (Suc (length w)) ((rbuf st)[length w := c]) = w @ [c]"
      "take (Suc (length w)) ((rbuf st)[length w := NUL, length w := c]) = w @ [c]"
      using R by (simp_all add: take_Suc_conv_app_nth)
    have ac: "ac prompt b n col = Some (False, b, n, col, [])" if "c = TAB" for b n col
      using assms(2) that by (simp add: no_completion_def)
    show ?thesis
    proof (cases "c = TAB")
      case True
      then show ?thesis using add assms(3) R t by (simp add: defs ac [OF True] rl_rep_def)
    next
      case False
      then show ?thesis using add assms(3) R t by (simp add: defs rl_rep_def)
    qed
  qed
qed

lemma simple_loop_rep:
  assumes "rl_rep cbsize (length prompt) st w" and "no_completion ac prompt \<or> TAB \<notin> set input"
    and "sl_run cbsize w input = (r, w', rest)" and "NUL \<notin> set w"
  shows "\<exists>st'. simple_loop ac cbsize prompt st input = Some (r, st', rest) \<and>
    (r \<noteq> Waiting \<longrightarrow> cstr_at (rbuf st') 0 = Some w') \<and> length (rbuf st') = cbsize"
  using assms
proof (induction input arbitrary: st w)
  case Nil
  then show ?case by (auto simp: rl_rep_def)
next
  case (Cons c cs)
  have R: "length (rbuf st) = cbsize" "rn st = length w" "take (length w) (rbuf st) = w"
    "length w + 2 \<le> cbsize" using Cons.prems(1) by (simp_all add: rl_rep_def)
  show ?case
  proof (cases "c \<in> {CHR 0x0D, CHR 0x0A, CHR 0x03}")
    case True
    have "(rbuf st)[length w := NUL] = w @ NUL # drop (Suc (length w)) (rbuf st)"
      using R by (simp add: upd_conv_take_nth_drop)
    then have "cstr_at ((rbuf st)[length w := NUL]) 0 = Some w"
      using cstr_at_append [OF Cons.prems(4), of "[]"] by simp
    moreover have "cstr_at ((rbuf st)[0 := NUL]) 0 = Some []"
      using R(1,4) by (subst cstr_at.simps) auto
    moreover have "0 < length (rbuf st)" using R(1,4) by linarith
    ultimately show ?thesis using True Cons.prems(3) R by (elim insertE) (auto simp: simple_key_def)
  next
    case False
    obtain st1 where st1: "simple_key ac cbsize prompt st c = Some (More st1)"
      "rl_rep cbsize (length prompt) st1 (sl_key cbsize w c)"
      using simple_key_rep [OF Cons.prems(1) _ False] Cons.prems(2) by auto
    have "NUL \<notin> set (sl_key cbsize w c)" using Cons.prems(4)
      using set_drop_word [of w] by (auto simp: sl_key_def dest: in_set_butlastD)
    then show ?thesis using Cons.IH [OF st1(2)] Cons.prems(2,3) False st1(1)
      by (auto split: if_splits)
  qed
qed

section \<open>Properties\<close>

text \<open>C24: before relocation, and as long as no TAB key starts a completion (the keys hold no TAB, or
  \<open>cmd_auto_complete\<close> does nothing, as it does for every prompt but \<open>CONFIG_SYS_PROMPT\<close> and without
  \<open>CONFIG_AUTO_COMPLETE\<close>), \<open>readline_into_buffer\<close> never touches a byte outside the buffer of
  \<open>CONFIG_SYS_CBSIZE\<close> bytes; it returns the length of the line that the keys
  describe (typed characters up to the limit, backspace, \<open>^U\<close>, \<open>^W\<close>), with the line as a string in
  the buffer, and -1 with an empty string on \<open>^C\<close>.  What a completion writes is not covered here.\<close>

theorem readline_simple_result:
  assumes "2 \<le> length buffer" and "no_completion ac prompt \<or> TAB \<notin> set input"
    and "sl_run (length buffer) [] input = (r, w, rest)"
  shows "\<exists>b out. readline_into_buffer ac (length buffer) False initted prompt buffer h input =
      Some (r, b, h, initted, rest, out) \<and> (r \<noteq> Waiting \<longrightarrow> cstr_at b 0 = Some w) \<and>
    length b = length buffer"
proof -
  have "rl_rep (length buffer) (length prompt) \<lparr>rbuf = buffer, rn = 0, rcol = int (length prompt),
      rtty = prompt\<rparr> []" using assms(1) by (simp add: rl_rep_def)
  from simple_loop_rep [OF this assms(2,3)] obtain st' where
    "simple_loop ac (length buffer) prompt \<lparr>rbuf = buffer, rn = 0, rcol = int (length prompt),
      rtty = prompt\<rparr> input = Some (r, st', rest)"
    "r \<noteq> Waiting \<longrightarrow> cstr_at (rbuf st') 0 = Some w" "length (rbuf st') = length buffer" by auto
  then show ?thesis by (intro exI [of _ "rbuf st'"] exI [of _ "rtty st'"]) (simp add: readline_into_buffer_def)
qed

theorem readline_simple_result_witness:
  "\<exists>b out. readline_into_buffer (\<lambda>p b n col. None) 16 False False ''> ''
      (replicate 16 NUL) demo_hist (''run xy'' @ [CHR 0x17, CHR ''b'', CHR 0x0D]) =
      Some (Returned 4, b, demo_hist, False, [], out) \<and> cstr_at b 0 = Some ''runb''"
proof -
  have run: "sl_run (length (replicate 16 NUL)) [] (''run xy'' @ [CHR 0x17, CHR ''b'', CHR 0x0D]) =
      (Returned 4, ''runb'', [])"
    by code_simp
  have "TAB \<notin> set (''run xy'' @ [CHR 0x17, CHR ''b'', CHR 0x0D])" by simp
  from readline_simple_result [OF _ disjI2 [OF this] run, where ac = "\<lambda>p b n col. None" and prompt = "''> ''" and initted = False and h = demo_hist]
  have "\<exists>b out. readline_into_buffer (\<lambda>p b n col. None) 16 False False ''> ''
      (replicate 16 NUL) demo_hist (''run xy'' @ [CHR 0x17, CHR ''b'', CHR 0x0D]) =
      Some (Returned 4, b, demo_hist, False, [], out) \<and> cstr_at b 0 = Some ''runb'' \<and> length b = 16"
    by simp
  then show ?thesis by blast
qed

end
