(* ===== verification/CmdTable.thy ===== *)
theory CmdTable
  imports LineEdit EnvStore "HOL-Library.Multiset"
begin

text \<open>
  \<open>common/command.c\<close>: the command table, the search in it with unique abbreviations, the
  commands \<open>echo\<close>, \<open>test\<close>, \<open>exit\<close> and \<open>help\<close>, and the completion of a line (\<open>make_argv\<close>,
  \<open>complete_cmdv\<close>, \<open>find_common_prefix\<close>, \<open>cmd_auto_complete\<close>) with \<open>env_complete\<close> of
  \<open>common/env_common.c\<close>.  The interface \<open>completer\<close> states what the line editor relies on.

  A table entry holds its function as a function on the machine state \<open>'s\<close>; a pointer into the
  table is the entry, and \<open>NULL\<close> is \<open>None\<close>.  \<open>CONFIG_SYS_LONGHELP\<close> is defined.
\<close>

section \<open>The table\<close>

record 's cmd_tbl =
  cmd_name :: string
  maxargs :: int
  repeatable :: int
  is_bootd :: bool
  cmd_fn :: "u32 \<Rightarrow> string list \<Rightarrow> 's \<Rightarrow> (int \<times> 's) option"
  usage :: "string option"
  help_text :: "string option"
  complete :: "(string list \<Rightarrow> char \<Rightarrow> nat \<Rightarrow> 's \<Rightarrow> string list option) option"

fun find_cmd_loop ::
  "string \<Rightarrow> nat \<Rightarrow> 's cmd_tbl list \<Rightarrow> 's cmd_tbl option \<Rightarrow> nat \<Rightarrow> 's cmd_tbl option" where
  "find_cmd_loop cmd len [] temp n_found = (if n_found = 1 then temp else None)"
| "find_cmd_loop cmd len (t # ts) temp n_found =
     (if strncmp_eq len cmd (cmd_name t)
      then if len = length (cmd_name t) then Some t
           else find_cmd_loop cmd len ts (Some t) (n_found + 1)
      else find_cmd_loop cmd len ts temp n_found)"

text \<open>\<open>len\<close> is the length up to the first dot.\<close>

definition name_len :: "string \<Rightarrow> nat" where
  "name_len cmd = (case strchr cmd (CHR ''.'') of None \<Rightarrow> length cmd | Some p \<Rightarrow> length cmd - length p)"

definition find_cmd_tbl :: "string \<Rightarrow> 's cmd_tbl list \<Rightarrow> 's cmd_tbl option" where
  "find_cmd_tbl cmd table = find_cmd_loop cmd (name_len cmd) table None 0"

text \<open>\<open>null\<close> is what \<open>printf\<close> prints for a NULL string.\<close>

definition cmd_usage :: "string \<Rightarrow> 's cmd_tbl \<Rightarrow> int \<times> string" where
  "cmd_usage null t =
     (let nl = [CHR 0x0A]; u = (case usage t of None \<Rightarrow> null | Some u \<Rightarrow> u);
          out = cmd_name t @ '' - '' @ u @ nl @ nl @ ''Usage:'' @ nl @ cmd_name t @ '' ''
      in case help_text t of
           None \<Rightarrow> (1, out @ ''- No additional help available.'' @ nl)
         | Some h \<Rightarrow> (0, out @ h @ nl))"

section \<open>Commands\<close>

text \<open>The characters that \<open>echo\<close> prints of one argument, and whether a newline is still due.\<close>

fun echo_arg :: "string \<Rightarrow> bool \<Rightarrow> string \<times> bool" where
  "echo_arg [] putnl = ([], putnl)"
| "echo_arg [c] putnl = ([c], putnl)"
| "echo_arg (c # d # p) putnl =
     (if c = CHR 0x5C \<and> d = CHR ''c'' then echo_arg p False
      else let (out, nl) = echo_arg (d # p) putnl in (c # out, nl))"

fun echo_args :: "bool \<Rightarrow> string list \<Rightarrow> bool \<Rightarrow> string \<times> bool" where
  "echo_args isfirst [] putnl = ([], putnl)"
| "echo_args isfirst (a # as) putnl =
     (let (o1, nl1) = echo_arg a putnl; (o2, nl2) = echo_args False as nl1
      in ((if isfirst then [] else '' '') @ o1 @ o2, nl2))"

definition do_echo :: "string list \<Rightarrow> int \<times> string" where
  "do_echo argv = (let (out, putnl) = echo_args True (tl argv) True
                   in (0, out @ (if putnl then [CHR 0x0A] else [])))"

definition do_version :: "string \<Rightarrow> int \<times> string" where
  "do_version version_string = (0, [CHR 0x0A] @ version_string @ [CHR 0x0A])"

text \<open>\<open>test\<close>: \<open>expr\<close>, \<open>last_expr\<close> and \<open>last_cmp\<close> are ints with -1 for not set; \<open>strtol\<close> is
  \<open>simple_strtol (s, NULL, 10)\<close>.\<close>

definition c_bool :: "bool \<Rightarrow> int" where
  "c_bool b = (if b then 1 else 0)"

definition test_join :: "int \<Rightarrow> int \<Rightarrow> int \<Rightarrow> int" where
  "test_join last_cmp last_expr expr =
     (if last_cmp = 0 then c_bool (last_expr \<noteq> 0 \<or> expr \<noteq> 0)
      else if last_cmp = 1 then c_bool (last_expr \<noteq> 0 \<and> expr \<noteq> 0) else expr)"

definition test_binary :: "(string \<Rightarrow> int) \<Rightarrow> string \<Rightarrow> string \<Rightarrow> string \<Rightarrow> bool option" where
  "test_binary strtol a oper b =
     (if oper = ''='' then Some (strcmp a b = 0)
      else if oper = ''!='' then Some (strcmp a b \<noteq> 0)
      else if oper = ''>'' then Some (strcmp a b > 0)
      else if oper = ''<'' then Some (strcmp a b < 0)
      else if oper = ''-eq'' then Some (strtol a = strtol b)
      else if oper = ''-ne'' then Some (strtol a \<noteq> strtol b)
      else if oper = ''-lt'' then Some (strtol a < strtol b)
      else if oper = ''-le'' then Some (strtol a \<le> strtol b)
      else if oper = ''-gt'' then Some (strtol a > strtol b)
      else if oper = ''-ge'' then Some (strtol a \<ge> strtol b)
      else None)"

function test_loop :: "(string \<Rightarrow> int) \<Rightarrow> string list \<Rightarrow> int \<Rightarrow> int \<Rightarrow> int \<Rightarrow> int" where
  "test_loop strtol ap expr last_expr last_cmp =
     (case ap of [] \<Rightarrow> expr
      | a # ap1 \<Rightarrow>
          if a = ''-o'' then test_loop strtol ap1 expr expr 0
          else if a = ''-a'' then test_loop strtol ap1 expr expr 1
          else if a = ''-z'' \<or> a = ''-n''
          then case ap1 of [] \<Rightarrow> 1
               | b # ap2 \<Rightarrow>
                   test_loop strtol ap2
                     (test_join last_cmp last_expr (c_bool (if a = ''-z'' then length b = 0 else length b \<noteq> 0)))
                     last_expr (-1)
          else case ap1 of oper # b # ap3 \<Rightarrow>
                   (case test_binary strtol a oper b of
                      None \<Rightarrow> 1
                    | Some r \<Rightarrow> test_loop strtol ap3 (test_join last_cmp last_expr (c_bool r)) last_expr (-1))
               | _ \<Rightarrow> 1)"
  by pat_completeness auto
termination
  by (relation "measure (\<lambda>(strtol, ap, expr, last_expr, last_cmp). length ap)") auto

declare test_loop.simps [simp del]

definition do_test :: "(string \<Rightarrow> int) \<Rightarrow> string list \<Rightarrow> int" where
  "do_test strtol argv =
     (if length argv < 3 then 1
      else let neg = (argv ! 1 = ''!'');
               expr = test_loop strtol (if neg then drop 2 argv else drop 1 argv) (-1) (-1) (-1);
               expr = (if neg then c_bool (expr = 0) else expr)
           in c_bool (expr = 0))"

definition do_exit :: "(string \<Rightarrow> int) \<Rightarrow> string list \<Rightarrow> int" where
  "do_exit strtoul argv = - (if length argv > 1 then strtoul (argv ! 1) else 0) - 2"

text \<open>\<open>help\<close>: one pass of the bubble sort over \<open>cmd_array[0 .. i]\<close>, and the passes.\<close>

fun bubble_pass :: "('a \<Rightarrow> string) \<Rightarrow> nat \<Rightarrow> 'a list \<Rightarrow> 'a list \<times> nat" where
  "bubble_pass key (Suc i) (a # b # xs) =
     (if strcmp (key a) (key b) > 0
      then let (ys, swaps) = bubble_pass key i (a # xs) in (b # ys, swaps + 1)
      else let (ys, swaps) = bubble_pass key i (b # xs) in (a # ys, swaps))"
| "bubble_pass key i xs = (xs, 0)"

fun bubble_sort :: "('a \<Rightarrow> string) \<Rightarrow> nat \<Rightarrow> 'a list \<Rightarrow> 'a list" where
  "bubble_sort key 0 xs = xs"
| "bubble_sort key (Suc i) xs =
     (let (ys, swaps) = bubble_pass key (Suc i) xs in if swaps = 0 then ys else bubble_sort key i ys)"

text \<open>\<open>line t\<close> is what \<open>printf\<close> prints for one entry, \<open>ctrlc i\<close> whether the user stops before the
  \<open>i\<close>-th.\<close>

fun help_list :: "('s cmd_tbl \<Rightarrow> string) \<Rightarrow> (nat \<Rightarrow> bool) \<Rightarrow> nat \<Rightarrow> 's cmd_tbl list \<Rightarrow> int \<times> string" where
  "help_list line ctrlc i [] = (0, [])"
| "help_list line ctrlc i (t # ts) =
     (if ctrlc i then (1, [])
      else let (r, out) = help_list line ctrlc (i + 1) ts
           in (r, (case usage t of None \<Rightarrow> [] | Some _ \<Rightarrow> line t) @ out))"

fun help_names :: "string \<Rightarrow> 's cmd_tbl list \<Rightarrow> string list \<Rightarrow> int \<Rightarrow> int \<times> string" where
  "help_names null table [] rcode = (rcode, [])"
| "help_names null table (a # as) rcode =
     (let (rcode, o1) = (case find_cmd_tbl a table of
            Some t \<Rightarrow> (let (r, out) = cmd_usage null t in (rcode OR r, out))
          | None \<Rightarrow> (1, ''Unknown command '' @ [CHR 0x27] @ a @ [CHR 0x27] @ '' - try '' @ [CHR 0x27] @
                        ''help'' @ [CHR 0x27] @ '' without arguments for list of all known commands'' @
                        [CHR 0x0A, CHR 0x0A]));
          (r, o2) = help_names null table as rcode
      in (r, o1 @ o2))"

definition do_help_internal ::
  "string \<Rightarrow> ('s cmd_tbl \<Rightarrow> string) \<Rightarrow> (nat \<Rightarrow> bool) \<Rightarrow> 's cmd_tbl list \<Rightarrow> string list \<Rightarrow> int \<times> string" where
  "do_help_internal null line ctrlc table argv =
     (if length argv = 1
      then help_list line ctrlc 0 (bubble_sort cmd_name (length table - 1) table)
      else help_names null table (tl argv) 0)"

definition cmd_get_data_size :: "string \<Rightarrow> int \<Rightarrow> int" where
  "cmd_get_data_size arg default_size =
     (if length arg > 2 \<and> arg ! (length arg - 2) = CHR ''.''
      then let c = last arg in
        if c = CHR ''b'' then 1 else if c = CHR ''w'' then 2 else if c = CHR ''l'' then 4
        else if c = CHR ''s'' then -2 else -1
      else default_size)"

section \<open>Completion\<close>

abbreviation blank :: "char \<Rightarrow> bool" where
  "blank c \<equiv> c = CHR '' '' \<or> c = CHR 0x09"

text \<open>\<open>make_argv\<close> with room for \<open>n\<close> arguments: the strings that \<open>argv\<close> points to.\<close>

fun make_argv :: "nat \<Rightarrow> string \<Rightarrow> string list" where
  "make_argv 0 s = []"
| "make_argv (Suc n) s =
     (let s = dropWhile (\<lambda>c. blank c) s in
      if s = [] then []
      else let w = takeWhile (\<lambda>c. \<not> blank c) s; r = dropWhile (\<lambda>c. \<not> blank c) s in
        if r = [] then [w] else w # make_argv n (tl r))"

text \<open>\<open>cmdv\<close> is filled up to \<open>maxv - 2\<close> entries, then \<open>...\<close> closes it.\<close>

fun fill_cmdv :: "nat \<Rightarrow> string list \<Rightarrow> string list \<Rightarrow> string list" where
  "fill_cmdv limit cmdv [] = cmdv"
| "fill_cmdv limit cmdv (x # xs) =
     (if length cmdv \<ge> limit then cmdv @ [''...''] else fill_cmdv limit (cmdv @ [x]) xs)"

definition complete_cmdv ::
  "'s cmd_tbl list \<Rightarrow> string list \<Rightarrow> char \<Rightarrow> nat \<Rightarrow> 's \<Rightarrow> string list option" where
  "complete_cmdv table argv last_char maxv s =
     (case argv of
        [] \<Rightarrow> Some (fill_cmdv (maxv - 2) [] (map cmd_name table))
      | cmd # _ \<Rightarrow>
          if length argv > 1 \<or> last_char = NUL \<or> blank last_char
          then case find_cmd_tbl cmd table of
                 None \<Rightarrow> Some []
               | Some t \<Rightarrow> (case complete t of None \<Rightarrow> Some [] | Some f \<Rightarrow> f argv last_char maxv s)
          else let len = name_len cmd in
            Some (fill_cmdv (maxv - 2) []
              (filter (\<lambda>n. length n \<ge> len \<and> take len n = take len cmd) (map cmd_name table))))"

fun common_len :: "nat \<Rightarrow> string \<Rightarrow> string \<Rightarrow> nat" where
  "common_len (Suc len) (x # s) (y # t) = (if x = y then Suc (common_len len s t) else 0)"
| "common_len len s t = 0"

fun common_prefix_loop :: "nat \<Rightarrow> string \<Rightarrow> string list \<Rightarrow> nat" where
  "common_prefix_loop len anchor [] = len"
| "common_prefix_loop len anchor (t # ts) = common_prefix_loop (common_len len anchor t) anchor ts"

definition find_common_prefix :: "string list \<Rightarrow> nat" where
  "find_common_prefix argv =
     (case argv of [] \<Rightarrow> 0 | anchor # rest \<Rightarrow> common_prefix_loop (length anchor) anchor rest)"

fun print_argv_loop :: "string \<Rightarrow> string \<Rightarrow> int \<Rightarrow> int \<Rightarrow> string list \<Rightarrow> string" where
  "print_argv_loop leader sep linemax i [] = [CHR 0x0A]"
| "print_argv_loop leader sep linemax i (a # argv) =
     (let len = int (length a) + int (length sep);
          (out, i) = (if i + len \<ge> linemax
                      then ([CHR 0x0A] @ leader, int (length leader) - int (length sep))
                      else (sep, i))
      in out @ a @ print_argv_loop leader sep linemax (i + len) argv)"

definition print_argv :: "string \<Rightarrow> string \<Rightarrow> int \<Rightarrow> string list \<Rightarrow> string" where
  "print_argv leader sep linemax argv = print_argv_loop leader sep linemax linemax argv"

text \<open>\<open>env_complete\<close>: the entries of the block are visited as in \<open>getenv\<close>; a name of \<open>cmdv\<close> is the
  copy of \<open>lval\<close> up to its \<open>=\<close>.\<close>

function env_complete_loop ::
  "env_state \<Rightarrow> string \<Rightarrow> nat \<Rightarrow> nat \<Rightarrow> string list \<Rightarrow> nat \<Rightarrow> string list option" where
  "env_complete_loop st var maxv bufsz cmdv i =
     do { c \<leftarrow> env_get_char st i;
          if c = NUL then Some cmdv
          else case str_end (env_buf st) i of
            None \<Rightarrow> None
          | Some nxt \<Rightarrow> do {
              lval \<leftarrow> cstr_at (env_buf st) i;
              let name = takeWhile (\<lambda>c. c \<noteq> CHR ''='') lval;
              let len = length var;
              if len > 0 \<and> (length name < len \<or> take len lval \<noteq> var)
              then env_complete_loop st var maxv bufsz cmdv (nxt + 1)
              else if length cmdv \<ge> maxv - 2 \<or> bufsz < length name + 1
              then Some (cmdv @ [''...''])
              else env_complete_loop st var maxv (bufsz - length name - 1) (cmdv @ [name]) (nxt + 1) } }"
  by pat_completeness auto
termination
  by (relation "measure (\<lambda>(st, var, maxv, bufsz, cmdv, i). length (env_buf st) - i)") (auto dest: str_end_ge)

declare env_complete_loop.simps [simp del]

definition env_complete :: "env_state \<Rightarrow> string \<Rightarrow> nat \<Rightarrow> nat \<Rightarrow> string list option" where
  "env_complete st var maxv bufsz = env_complete_loop st var maxv bufsz [] 0"

definition var_complete :: "string list \<Rightarrow> char \<Rightarrow> nat \<Rightarrow> env_state \<Rightarrow> string list option" where
  "var_complete argv last_char maxv st =
     (let space = (last_char = NUL \<or> blank last_char) in
      if space \<and> length argv = 1 then env_complete st [] maxv 512
      else if \<not> space \<and> length argv = 2 then env_complete st (argv ! 1) maxv 512
      else Some [])"

text \<open>What is added to the line: the rest of the only match and a blank, or of the common prefix.
  \<open>Some None\<close> is \<open>s == NULL\<close>; taking the rest of a name that is shorter than what was typed reads
  past its end.\<close>

definition completion_text :: "string list \<Rightarrow> string list \<Rightarrow> (string \<times> bool) option option" where
  "completion_text argv cmdv =
     (if length cmdv = 1
      then if argv = [] then None
           else if length (last argv) > length (hd cmdv) then None
           else Some (Some (drop (length (last argv)) (hd cmdv) @ '' '', True))
      else let j = find_common_prefix cmdv in
        if j \<noteq> 0
        then if argv = [] then None
             else if j > length (last argv)
             then Some (Some (take (j - length (last argv)) (drop (length (last argv)) (hd cmdv)), False))
             else Some None
        else Some None)"

text \<open>The second half of \<open>cmd_auto_complete\<close>, with the matches in \<open>cmdv\<close>.\<close>

definition complete_add ::
  "nat \<Rightarrow> string \<Rightarrow> string \<Rightarrow> string list \<Rightarrow> string list \<Rightarrow> char list \<Rightarrow> nat \<Rightarrow> int \<Rightarrow>
   (bool \<times> char list \<times> nat \<times> int \<times> string) option" where
  "complete_add cbsize prompt line argv cmdv buf n col =
     do { added \<leftarrow> completion_text argv cmdv;
          case added of
            Some (t, sep) \<Rightarrow>
              if n + length t \<ge> cbsize - 2 then Some (True, buf, n, col, [BEL])
              else do { (buf, _) \<leftarrow> store_str buf (length line) t;
                        Some (True, buf, n + length t, col + int (length t),
                              t @ (if sep then [] else [BEL])) }
          | None \<Rightarrow> Some (True, buf, n, col, print_argv ''  '' '' '' 78 cmdv @ prompt @ line) }"

definition cmd_auto_complete ::
  "string \<Rightarrow> nat \<Rightarrow> nat \<Rightarrow> 's cmd_tbl list \<Rightarrow> 's \<Rightarrow> completer" where
  "cmd_auto_complete sys_prompt cbsize sys_maxargs table s prompt buf n col =
     (if prompt \<noteq> sys_prompt then Some (False, buf, n, col, [])
      else do {
        line \<leftarrow> cstr_at buf 0;
        let last_char = (if line \<noteq> [] then last line else NUL);
        (if length line < cbsize then Some () else None);
        let argv = make_argv sys_maxargs line;
        cmdv \<leftarrow> complete_cmdv table argv last_char 20 s;
        if cmdv = []
        then if length argv > 1 then Some (False, buf, n, col, [])
             else Some (True, buf, n, col, [BEL])
        else complete_add cbsize prompt line argv cmdv buf n col })"

section \<open>Searching the table\<close>

text \<open>The part of a command word that is compared: up to the first dot.\<close>

definition cmd_key :: "string \<Rightarrow> string" where
  "cmd_key cmd = takeWhile (\<lambda>c. c \<noteq> CHR ''.'') cmd"

lemma name_len_key: "name_len cmd = length (cmd_key cmd)"
proof (cases "strchr cmd (CHR ''.'')")
  case None
  then have "takeWhile (\<lambda>c. c \<noteq> CHR ''.'') cmd = cmd"
    by (auto simp: strchr_None_iff takeWhile_eq_all_conv)
  then have "length (takeWhile (\<lambda>c. c \<noteq> CHR ''.'') cmd) = length cmd" by (rule arg_cong)
  with None show ?thesis by (simp only: name_len_def cmd_key_def option.case)
next
  case (Some p)
  then obtain u v where "cmd = u @ CHR ''.'' # v" "CHR ''.'' \<notin> set u" "p = CHR ''.'' # v"
    by (auto simp: strchr_Some_iff)
  then show ?thesis using Some by (auto simp: name_len_def cmd_key_def takeWhile_append)
qed

lemma cmd_key_split: "\<exists>r. cmd = cmd_key cmd @ r"
  unfolding cmd_key_def by (metis takeWhile_dropWhile_id)

text \<open>The rule in words: an entry with exactly that name, the first one; otherwise the only entry
  whose name begins with it.\<close>

definition is_prefix :: "string \<Rightarrow> string \<Rightarrow> bool" where
  "is_prefix k n \<longleftrightarrow> take (length k) n = k"

definition find_cmd_spec :: "string \<Rightarrow> 's cmd_tbl list \<Rightarrow> 's cmd_tbl option" where
  "find_cmd_spec cmd table =
     (case filter (\<lambda>t. cmd_name t = cmd_key cmd) table of
        t # _ \<Rightarrow> Some t
      | [] \<Rightarrow> (case filter (\<lambda>t. is_prefix (cmd_key cmd) (cmd_name t)) table of [t] \<Rightarrow> Some t | _ \<Rightarrow> None))"

lemma strncmp_key: "strncmp_eq (name_len cmd) cmd n \<longleftrightarrow> is_prefix (cmd_key cmd) n"
proof -
  obtain r where "cmd = cmd_key cmd @ r" using cmd_key_split by blast
  then have "strncmp_eq (name_len cmd) cmd n \<longleftrightarrow> (\<exists>z. n = cmd_key cmd @ z)"
    unfolding name_len_key by (metis strncmp_eq_length)
  also have "\<dots> \<longleftrightarrow> is_prefix (cmd_key cmd) n"
    unfolding is_prefix_def by (metis append_eq_conv_conj)
  finally show ?thesis .
qed

lemma is_prefix_length: "is_prefix k n \<Longrightarrow> length k \<le> length n"
  unfolding is_prefix_def by (metis length_take min.cobounded1)

lemma prefix_same_length: "is_prefix k n \<Longrightarrow> length k = length n \<longleftrightarrow> n = k"
  by (auto simp: is_prefix_def)

lemma find_cmd_loop_spec:
  fixes cmd :: string
  defines "k \<equiv> cmd_key cmd"
  shows "find_cmd_loop cmd (name_len cmd) ts temp n =
    (case filter (\<lambda>t. cmd_name t = k) ts of
       t # _ \<Rightarrow> Some t
     | [] \<Rightarrow> (let ps = filter (\<lambda>t. is_prefix k (cmd_name t)) ts in
              if n + length ps = 1 then (if ps = [] then temp else Some (last ps)) else None))"
proof (induction ts arbitrary: temp n)
  case Nil
  then show ?case by simp
next
  case (Cons t ts)
  have self: "is_prefix k k" by (simp add: is_prefix_def)
  note key = strncmp_key [of cmd, unfolded name_len_key, folded k_def]
  show ?case
  proof (cases "is_prefix k (cmd_name t)")
    case False
    then have "cmd_name t \<noteq> k" using self by auto
    with False show ?thesis by (simp add: key Cons.IH [unfolded name_len_key, folded k_def] Let_def name_len_key split: list.split flip: k_def)
  next
    case True
    show ?thesis
    proof (cases "cmd_name t = k")
      case eq: True
      then show ?thesis using True by (simp add: key name_len_key flip: k_def)
    next
      case False
      then have "length k \<noteq> length (cmd_name t)" using prefix_same_length [OF True] by simp
      with True False show ?thesis
        by (simp add: key Cons.IH [unfolded name_len_key, folded k_def] Let_def name_len_key split: list.split flip: k_def)
    qed
  qed
qed

section \<open>The order of \<open>strcmp\<close> and the sort of \<open>help\<close>\<close>

lemma of_char_pos: "c \<noteq> NUL \<Longrightarrow> 0 < (of_char c :: nat)"
proof -
  assume "c \<noteq> NUL"
  then have "(of_char c :: nat) \<noteq> of_char NUL" by (simp only: of_char_eq_iff not_False_eq_True)
  then show ?thesis by simp
qed

lemma strcmp_refl [simp]: "strcmp a a = 0"
  by (induction a) auto

lemma strcmp_swap: "strcmp b a = - strcmp a b"
  by (induction a b rule: strcmp.induct) auto

lemma strcmp_trans:
  assumes "strcmp a b \<le> 0" and "strcmp b c \<le> 0" and "NUL \<notin> set a" and "NUL \<notin> set b"
  shows "strcmp a c \<le> 0"
  using assms
proof (induction a b arbitrary: c rule: strcmp.induct)
  case 1
  then show ?case by simp
next
  case (2 y b)
  then show ?case by (cases c) auto
next
  case (3 x a)
  then show ?case using of_char_pos [of x] by auto
next
  case (4 x a y b)
  show ?case
  proof (cases c)
    case Nil
    then show ?thesis using 4 of_char_pos [of y] by auto
  next
    case (Cons z c')
    then show ?thesis using 4 by (auto split: if_splits)
  qed
qed

definition le_by :: "('a \<Rightarrow> string) \<Rightarrow> 'a \<Rightarrow> 'a \<Rightarrow> bool" where
  "le_by key x y \<longleftrightarrow> strcmp (key x) (key y) \<le> 0"

lemma set_take_Suc: "i < length xs \<Longrightarrow> set (take (Suc i) xs) = insert (xs ! i) (set (take i xs))"
  by (simp add: take_Suc_conv_app_nth)

lemma bubble_pass_facts:
  assumes "i < length xs" and "bubble_pass key i xs = (ys, s)" and "\<forall>x\<in>set xs. NUL \<notin> set (key x)"
  shows "mset ys = mset xs \<and> drop (Suc i) ys = drop (Suc i) xs \<and> (\<forall>x\<in>set (take i ys). le_by key x (ys ! i)) \<and>
    (s = 0 \<longrightarrow> ys = xs \<and> sorted_wrt (le_by key) (take (Suc i) xs))"
  using assms
proof (induction key i xs arbitrary: ys s rule: bubble_pass.induct)
  case (1 key i a b xs)
  show ?case
  proof (cases "strcmp (key a) (key b) > 0")
    case True
    then obtain zs n where z: "bubble_pass key i (a # xs) = (zs, n)" "ys = b # zs" "s = n + 1"
      using "1.prems"(2) by (auto split: prod.splits)
    have ih: "mset zs = mset (a # xs)" "drop (Suc i) zs = drop (Suc i) (a # xs)"
      "\<forall>x\<in>set (take i zs). le_by key x (zs ! i)"
      using "1.IH"(1) [OF True _ z(1)] "1.prems" by auto
    have len: "length zs = length (a # xs)" using ih(1) by (metis size_mset)
    have "set (take (Suc i) zs) = set (take (Suc i) (a # xs))"
      using ih(1,2) by (metis append_take_drop_id mset_append add_right_cancel set_mset_mset)
    then have "a \<in> set (take (Suc i) zs)" by simp
    then have "a = zs ! i \<or> a \<in> set (take i zs)" using len "1.prems"(1) by (simp add: set_take_Suc)
    then have "le_by key a (zs ! i)" using ih(3) by (auto simp: le_by_def)
    moreover have "le_by key b a" using True strcmp_swap [of "key a" "key b"] by (simp add: le_by_def)
    ultimately have "le_by key b (zs ! i)"
      using strcmp_trans [of "key b" "key a" "key (zs ! i)"] "1.prems"(3) by (simp add: le_by_def)
    then show ?thesis unfolding z using ih by simp
  next
    case False
    then obtain zs n where z: "bubble_pass key i (b # xs) = (zs, n)" "ys = a # zs" "s = n"
      using "1.prems"(2) by (auto split: prod.splits)
    have ih: "mset zs = mset (b # xs)" "drop (Suc i) zs = drop (Suc i) (b # xs)"
      "\<forall>x\<in>set (take i zs). le_by key x (zs ! i)"
      "n = 0 \<longrightarrow> zs = b # xs \<and> sorted_wrt (le_by key) (take (Suc i) (b # xs))"
      using "1.IH"(2) [OF False _ z(1)] "1.prems" by auto
    have len: "length zs = length (b # xs)" using ih(1) by (metis size_mset)
    have "set (take (Suc i) zs) = set (take (Suc i) (b # xs))"
      using ih(1,2) by (metis append_take_drop_id mset_append add_right_cancel set_mset_mset)
    then have "b \<in> set (take (Suc i) zs)" by simp
    then have "b = zs ! i \<or> b \<in> set (take i zs)" using len "1.prems"(1) by (simp add: set_take_Suc)
    then have "le_by key b (zs ! i)" using ih(3) by (auto simp: le_by_def)
    moreover have ab: "le_by key a b" using False by (simp add: le_by_def)
    ultimately have "le_by key a (zs ! i)"
      using strcmp_trans [of "key a" "key b" "key (zs ! i)"] "1.prems"(3) by (simp add: le_by_def)
    moreover have "sorted_wrt (le_by key) (take (Suc (Suc i)) (a # b # xs))" if "n = 0"
    proof -
      have srt: "sorted_wrt (le_by key) (b # take i xs)" using ih(4) that by simp
      have "le_by key a x" if "x \<in> set (take i xs)" for x
      proof -
        have "le_by key b x" using srt that by simp
        then show ?thesis using ab strcmp_trans [of "key a" "key b" "key x"] "1.prems"(3)
          by (simp add: le_by_def)
      qed
      then show ?thesis using srt ab by simp
    qed
    ultimately show ?thesis unfolding z using ih by simp
  qed
qed (auto simp: take_Suc)

lemma bubble_sort_facts:
  assumes "xs \<noteq> [] \<longrightarrow> i < length xs" and "\<forall>x\<in>set xs. NUL \<notin> set (key x)"
    and "sorted_wrt (le_by key) (drop (Suc i) xs)"
    and "\<forall>x\<in>set (take (Suc i) xs). \<forall>y\<in>set (drop (Suc i) xs). le_by key x y"
  shows "mset (bubble_sort key i xs) = mset xs \<and> sorted_wrt (le_by key) (bubble_sort key i xs)"
  using assms
proof (induction key i xs rule: bubble_sort.induct)
  case (1 key xs)
  then show ?case by (cases xs) (auto simp: sorted_wrt_append)
next
  case (2 key i xs)
  show ?case
  proof (cases "xs = []")
    case True
    have "bubble_sort key n [] = []" for n by (induction n) simp_all
    then show ?thesis using True by simp
  next
    case False
    obtain ys s where p: "bubble_pass key (Suc i) xs = (ys, s)" by (metis surj_pair)
    have f: "mset ys = mset xs" "drop (Suc (Suc i)) ys = drop (Suc (Suc i)) xs"
      "\<forall>x\<in>set (take (Suc i) ys). le_by key x (ys ! Suc i)"
      "s = 0 \<longrightarrow> ys = xs \<and> sorted_wrt (le_by key) (take (Suc (Suc i)) xs)"
      using bubble_pass_facts [OF _ p] "2.prems" False by auto
    have len: "length ys = length xs" using f(1) by (metis size_mset)
    have st: "set (take (Suc (Suc i)) ys) = set (take (Suc (Suc i)) xs)"
      using f(1,2) by (metis append_take_drop_id mset_append add_right_cancel set_mset_mset)
    show ?thesis
    proof (cases "s = 0")
      case True
      have "sorted_wrt (le_by key) (take (Suc (Suc i)) xs @ drop (Suc (Suc i)) xs)"
        unfolding sorted_wrt_append using True f(4) "2.prems"(3,4) by blast
      then have "sorted_wrt (le_by key) xs" by (simp only: append_take_drop_id)
      then show ?thesis using True f p by simp
    next
      case nz: False
      have d: "drop (Suc i) ys = ys ! Suc i # drop (Suc (Suc i)) ys"
        using len "2.prems"(1) False by (simp add: Cons_nth_drop_Suc)
      have ins: "set (take (Suc (Suc i)) xs) = insert (ys ! Suc i) (set (take (Suc i) ys))"
        unfolding st [symmetric] by (rule set_take_Suc) (use len "2.prems"(1) False in simp)
      have in_take: "ys ! Suc i \<in> set (take (Suc (Suc i)) xs)" unfolding ins by simp
      have sub: "x \<in> set (take (Suc (Suc i)) xs)" if "x \<in> set (take (Suc i) ys)" for x
        unfolding ins using that by simp
      have srt: "sorted_wrt (le_by key) (drop (Suc i) ys)"
        unfolding d using "2.prems"(3,4) f(2) in_take by simp
      have all: "\<forall>x\<in>set (take (Suc i) ys). \<forall>y\<in>set (drop (Suc i) ys). le_by key x y"
        unfolding d using f(2,3) "2.prems"(4) sub by auto
      have "set ys = set xs" using f(1) by (metis set_mset_mset)
      then have "mset (bubble_sort key i ys) = mset ys \<and> sorted_wrt (le_by key) (bubble_sort key i ys)"
        using len False "2.prems"(1,2) nz srt all by (intro "2.IH" [OF p [symmetric] refl nz]) auto
      then show ?thesis using p nz f(1) by simp
    qed
  qed
qed

section \<open>The completion keeps the line\<close>

lemma cstr_at_0_split:
  assumes "cstr_at b 0 = Some s"
  shows "NUL \<notin> set s" and "\<exists>q. b = s @ NUL # q"
  using cstr_at_SomeD [OF assms] by auto

lemma complete_add_cases:
  assumes "complete_add cbsize prompt s argv cmdv b (length s) col = Some (r, b', n', col', out)"
  shows "(b' = b \<and> n' = length s \<and> col' = col) \<or>
    (\<exists>t. store_str b (length s) t = Some (b', length s + length t) \<and> n' = length s + length t \<and>
       col' = col + int (length t) \<and> r \<and> length s + length t + 2 < cbsize)"
proof -
  obtain added where a: "completion_text argv cmdv = Some added"
    using assms by (auto simp: complete_add_def split: Option.bind_splits)
  show ?thesis
  proof (cases added)
    case None
    then show ?thesis using assms a by (simp add: complete_add_def)
  next
    case (Some p)
    obtain t sep where p: "p = (t, sep)" by (cases p)
    show ?thesis
    proof (cases "length s + length t \<ge> cbsize - 2")
      case True
      then show ?thesis using assms a Some p by (simp add: complete_add_def)
    next
      case False
      then have eq: "complete_add cbsize prompt s argv cmdv b (length s) col =
          do { (buf, _) \<leftarrow> store_str b (length s) t;
               Some (True, buf, length s + length t, col + int (length t), t @ (if sep then [] else [BEL])) }"
        using a Some p by (simp add: complete_add_def)
      obtain b2 where b2: "store_str b (length s) t = Some (b2, length s + length t)"
        using assms unfolding eq by (cases "store_str b (length s) t") (auto simp: store_str_eq split: if_splits)
      have "b' = b2" "n' = length s + length t" "col' = col + int (length t)" "r"
        using assms unfolding eq b2 by simp_all
      moreover have "length s + length t + 2 < cbsize" using False by linarith
      ultimately show ?thesis using b2 by blast
    qed
  qed
qed

lemma cmd_auto_complete_cases:
  assumes "cstr_at b 0 = Some s"
    and "cmd_auto_complete sp cbsize ma table st prompt b n col = Some (r, b', n', col', out)"
  shows "(b' = b \<and> n' = n \<and> col' = col) \<or>
    (\<exists>argv cmdv. complete_add cbsize prompt s argv cmdv b n col = Some (r, b', n', col', out))"
proof (cases "prompt = sp \<and> length s < cbsize")
  case True
  let ?argv = "make_argv ma s" and ?last = "if s \<noteq> [] then last s else NUL"
  obtain cmdv where c: "complete_cmdv table ?argv ?last 20 st = Some cmdv"
    using assms True by (cases "complete_cmdv table ?argv ?last 20 st") (simp_all add: cmd_auto_complete_def)
  have eq: "cmd_auto_complete sp cbsize ma table st prompt b n col =
      (if cmdv = []
       then if length ?argv > 1 then Some (False, b, n, col, []) else Some (True, b, n, col, [BEL])
       else complete_add cbsize prompt s ?argv cmdv b n col)"
    unfolding cmd_auto_complete_def assms(1) Option.bind.bind_lunit Let_def c using True by simp
  show ?thesis
  proof (cases "cmdv = []")
    case True
    then show ?thesis using assms(2) unfolding eq by (cases "length ?argv > 1") simp_all
  next
    case False
    then show ?thesis using assms(2) unfolding eq by auto
  qed
next
  case False
  then show ?thesis using assms by (cases "prompt = sp") (simp_all add: cmd_auto_complete_def)
qed

lemma cmd_auto_complete_adds:
  assumes "cstr_at b 0 = Some s"
    and "cmd_auto_complete sp cbsize ma table st prompt b (length s) col = Some (r, b', n', col', out)"
  shows "length b' = length b \<and> col' = col + int (n' - length s) \<and>
    (\<exists>w rest. b' = s @ w @ rest \<and> n' = length s + length w \<and>
       (w = [] \<or> (r \<and> length s + length w + 2 < cbsize)))"
proof -
  obtain q where b: "b = s @ NUL # q" using cstr_at_0_split(2) [OF assms(1)] by blast
  consider (same) "b' = b" "n' = length s" "col' = col"
    | (add) added where "store_str b (length s) added = Some (b', length s + length added)"
        "n' = length s + length added" "col' = col + int (length added)" "r" "length s + length added + 2 < cbsize"
    using cmd_auto_complete_cases [OF assms] complete_add_cases
    by atomize_elim blast
  then show ?thesis
  proof cases
    case same
    then show ?thesis using b by (intro conjI exI [of _ "[]"] exI [of _ "NUL # q"]) simp_all
  next
    case (add added)
    have "length s + length added < length b" "b' = put_at b (length s) (added @ [NUL])"
      using add(1) by (auto simp: store_str_eq split: if_splits)
    then show ?thesis using add b
      by (intro conjI exI [of _ added] exI [of _ "NUL # drop (length s + length added + 1) b"])
        (simp_all add: put_at_def)
  qed
qed

interpretation cac: completion "cmd_auto_complete sp cbsize ma table s" cbsize
  for sp cbsize ma table s
  by unfold_locales (rule cmd_auto_complete_adds)

section \<open>Properties\<close>

lemma find_cmd_tbl_rule: "find_cmd_tbl cmd table = find_cmd_spec cmd table"
  unfolding find_cmd_tbl_def find_cmd_loop_spec find_cmd_spec_def Let_def
  by (auto split: list.split simp: length_Suc_conv)

text \<open>C4: \<open>find_cmd_tbl\<close> finds the first entry whose name is the command word up to its first dot,
  and without one the entry of which the word is an abbreviation when there is exactly one; in all
  other cases NULL.\<close>

theorem find_cmd_tbl_spec: "find_cmd_tbl cmd table = find_cmd_spec cmd table"
  by (rule find_cmd_tbl_rule)

text \<open>the list that \<open>help\<close> prints holds the table's entries, each as often as the table has it,
  in the order of \<open>strcmp\<close> on the names.\<close>

lemma help_sorts:
  assumes "\<forall>t\<in>set table. NUL \<notin> set (cmd_name t)"
  shows "mset (bubble_sort cmd_name (length table - 1) table) = mset table \<and>
    sorted_wrt (\<lambda>t u. strcmp (cmd_name t) (cmd_name u) \<le> 0) (bubble_sort cmd_name (length table - 1) table)"
proof -
  have "drop (Suc (length table - 1)) table = []" by simp
  then show ?thesis using bubble_sort_facts [of table "length table - 1" cmd_name] assms
    unfolding le_by_def by (simp add: Suc_diff_Suc)
qed

text \<open>TAB in the editor with \<open>cmd_auto_complete\<close>: when it returns, the text before the cursor is
  only extended, the text after it is the same, and the line stays inside the editor's limit.\<close>

lemma tab_extends_line:
  assumes "line_rep False len st l r m" and "NUL \<notin> set l" and "cbsize \<le> len + 2"
    and "key_tab (cmd_auto_complete sp cbsize ma table s) prompt st = Some st'"
  shows "\<exists>w. line_rep False len st' (l @ w) r m \<and> (r \<noteq> [] \<longrightarrow> w = [])"
  using assms by (rule cac.key_tab_adds)

text \<open>A small table.\<close>

definition demo_cmd :: "string \<Rightarrow> unit cmd_tbl" where
  "demo_cmd n = \<lparr>cmd_name = n, maxargs = 16, repeatable = 1, is_bootd = False,
     cmd_fn = (\<lambda>f a s. Some (0, s)), usage = Some ''u'', help_text = None, complete = None\<rparr>"

definition demo_table :: "unit cmd_tbl list" where
  "demo_table = map demo_cmd [''help'', ''cp'', ''boot'']"

lemma help_sorts_witness:
  "mset (bubble_sort cmd_name 2 demo_table) = mset demo_table \<and>
   sorted_wrt (\<lambda>t u. strcmp (cmd_name t) (cmd_name u) \<le> 0) (bubble_sort cmd_name 2 demo_table)"
proof -
  have names: "\<forall>t\<in>set demo_table. NUL \<notin> set (cmd_name t)" by (simp add: demo_table_def demo_cmd_def)
  have len: "length demo_table - 1 = 2" by (simp add: demo_table_def)
  show ?thesis using help_sorts [OF names] unfolding len .
qed

definition demo_line :: cread where
  "demo_line = \<lparr>num = 2, eol_num = 2, cbuf = ''he'' @ replicate 14 NUL, insert_mode = True, esc_len = 0,
     esc_save = replicate 8 NUL, tty = []\<rparr>"

lemma tab_extends_line_witness:
  "\<exists>st' w. key_tab (cmd_auto_complete ''> '' 16 16 demo_table ()) ''> '' demo_line = Some st' \<and>
     line_rep False 15 st' (''he'' @ w) [] (True, 0, replicate 8 NUL)"
proof -
  have rep: "line_rep False 15 demo_line ''he'' [] (True, 0, replicate 8 NUL)"
    by (simp add: line_rep_def demo_line_def)
  have "key_tab (cmd_auto_complete ''> '' 16 16 demo_table ()) ''> '' demo_line \<noteq> None"
    by code_simp
  then obtain st' where "key_tab (cmd_auto_complete ''> '' 16 16 demo_table ()) ''> '' demo_line = Some st'"
    by blast
  with tab_extends_line [OF rep _ _ this] show ?thesis by auto
qed

text \<open>Two completions that read behind the end of a name: a word with a length suffix that is longer
  than the only command it matches, and the first argument of a command, whose length is taken from
  the command word.\<close>

lemma complete_dotted_faults:
  "cmd_auto_complete ''> '' 16 16 demo_table () ''> '' (''cp.b'' @ replicate 8 NUL) 4 6 = None"
  by code_simp

lemma complete_first_argument_faults:
  "completion_text (make_argv 16 ''printenv '') [''a''] = None"
  by code_simp

text \<open>The names that \<open>env_complete\<close> offers.\<close>

lemma env_complete_entries:
  assumes "\<forall>e\<in>set es. entry_ok e" and "env_buf st = p @ enc es @ NUL # q"
    and "ms = filter (is_prefix var) (map entry_name es)"
    and "length cmdv + length ms \<le> maxv - 2" and "(\<Sum>n\<leftarrow>ms. length n + 1) \<le> bufsz"
  shows "env_complete_loop st var maxv bufsz cmdv (length p) = Some (cmdv @ ms)"
  using assms
proof (induction es arbitrary: p ms cmdv bufsz)
  case Nil
  then show ?case
    by (subst env_complete_loop.simps) (simp add: env_get_char_buf rd_append_mid)
next
  case (Cons e es)
  have ok: "entry_ok e" and b: "env_buf st = p @ e @ NUL # (enc es @ NUL # q)"
    using Cons.prems by auto
  then have first: "env_get_char st (length p) = Some (hd e)" "hd e \<noteq> NUL"
    by (cases e; auto simp: env_get_char_buf rd_append_mid entry_ok_def)+
  have se: "str_end (env_buf st) (length p) = Some (length p + length e)"
    using b ok str_end_append [of e p] by (simp add: entry_ok_def)
  have lv: "cstr_at (env_buf st) (length p) = Some e"
    using b ok cstr_at_append [of e p] by (simp add: entry_ok_def)
  have next_pos: "length p + length e + 1 = length (p @ e @ [NUL])" by simp
  have b': "env_buf st = (p @ e @ [NUL]) @ enc es @ NUL # q" using b by simp
  have match: "is_prefix var (entry_name e) \<longleftrightarrow>
      \<not> (length var > 0 \<and> (length (entry_name e) < length var \<or> take (length var) e \<noteq> var))"
  proof -
    have "e = entry_name e @ dropWhile (\<lambda>c. c \<noteq> CHR ''='') e" by (simp add: entry_name_def)
    then have "length var \<le> length (entry_name e) \<Longrightarrow> take (length var) e = take (length var) (entry_name e)"
      by (metis take_append diff_is_0_eq take_0 append_Nil2)
    then show ?thesis using is_prefix_length [of var "entry_name e"] by (auto simp: is_prefix_def)
  qed
  let ?ms = "filter (is_prefix var) (map entry_name es)"
  show ?case
  proof (cases "is_prefix var (entry_name e)")
    case False
    have "env_complete_loop st var maxv bufsz cmdv (length p) =
        env_complete_loop st var maxv bufsz cmdv (length (p @ e @ [NUL]))"
      using first se lv False match unfolding next_pos [symmetric]
      by (subst env_complete_loop.simps) (simp add: Let_def entry_name_def)
    also have "\<dots> = Some (cmdv @ ?ms)"
      using Cons.prems False b' by (intro Cons.IH) auto
    finally show ?thesis using Cons.prems(3) False by simp
  next
    case True
    have "env_complete_loop st var maxv bufsz cmdv (length p) =
        env_complete_loop st var maxv (bufsz - length (entry_name e) - 1) (cmdv @ [entry_name e])
          (length (p @ e @ [NUL]))"
    proof -
      have room: "\<not> (maxv - 2 \<le> length cmdv \<or> bufsz < length (entry_name e) + 1)"
        using Cons.prems(3-5) True by auto
      from match True have take_var: "\<not> (length var > 0 \<and>
          (length (entry_name e) < length var \<or> take (length var) e \<noteq> var))" by blast
      show ?thesis using first se lv unfolding next_pos [symmetric]
        by (subst env_complete_loop.simps)
          (simp only: Option.bind.bind_lunit option.case Let_def entry_name_def [symmetric] room
            take_var if_False)
    qed
    also have "\<dots> = Some ((cmdv @ [entry_name e]) @ ?ms)"
      using Cons.prems True b' by (intro Cons.IH) auto
    finally show ?thesis using Cons.prems(3) True by simp
  qed
qed

text \<open>with room for all of them, \<open>env_complete\<close> offers exactly the names in the environment
  that begin with what was typed, in the order of the block.\<close>

lemma env_complete_names:
  assumes "env_repr (env_buf st) es" and "ms = filter (is_prefix var) (map entry_name es)"
    and "length ms + 2 \<le> maxv" and "(\<Sum>n\<leftarrow>ms. length n + 1) \<le> bufsz"
  shows "env_complete st var maxv bufsz = Some ms"
proof -
  obtain q where b: "env_buf st = [] @ enc es @ NUL # q" and ok: "\<forall>e\<in>set es. entry_ok e"
    using assms(1) by (auto simp: env_repr_def)
  from env_complete_entries [OF ok b assms(2) _ assms(4), of "[]" maxv] assms(3)
  show ?thesis by (simp add: env_complete_def)
qed

lemma env_complete_names_witness: "env_complete demo_env ''se'' 20 512 = Some [''serial#'']"
  by (rule env_complete_names [OF demo_repr]) (simp_all add: demo_entries_def is_prefix_def entry_name_def)

end
