(* ===== verification/CmdLine.thy ===== *)
theory CmdLine
  imports CmdTable
begin

text \<open>
  Running a command line (\<open>common/main.c\<close>): \<open>parse_line\<close> splits it into arguments,
  \<open>process_macros\<close> replaces \<open>${name}\<close> and takes quotes and escapes out, \<open>run_command\<close> cuts a line at
  its semicolons and runs the parts, \<open>do_run\<close> runs the values of variables.  \<open>CONFIG_SYS_HUSH_PARSER\<close>
  is undefined and \<open>CONFIG_CMD_BOOTD\<close> defined.

  What the machine does is a state \<open>'s\<close>; \<open>shell\<close> collects the functions of other files that
  \<open>run_command\<close> calls on it.  The interface to the environment is \<open>env_reader\<close>.
\<close>

section \<open>Arguments\<close>

text \<open>The strings that \<open>argv\<close> points to, and whether \<open>argv[nargs] = NULL\<close> was stored.  \<open>n\<close> is
  \<open>CONFIG_SYS_MAXARGS - nargs\<close>.\<close>

fun parse_line :: "nat \<Rightarrow> string \<Rightarrow> string list \<times> bool" where
  "parse_line 0 line = ([], False)"
| "parse_line (Suc n) line =
     (let line = dropWhile (\<lambda>c. blank c) line in
      if line = [] then ([], True)
      else let arg = takeWhile (\<lambda>c. \<not> blank c) line; line = dropWhile (\<lambda>c. \<not> blank c) line in
        if line = [] then ([arg], True)
        else let (args, ended) = parse_line n (tl line) in (arg # args, ended))"

section \<open>Macros\<close>

text \<open>\<open>pm_state\<close> is the \<open>int state\<close> of the code; \<open>varname_start\<close> is the input from that pointer on.\<close>

datatype pm_state = WaitDollar | WaitOpen | WaitClose | WaitQuote

definition put_out :: "char \<Rightarrow> string \<times> nat \<Rightarrow> string \<times> nat" where
  "put_out c out = (fst out @ [c], snd out - 1)"

text \<open>\<open>while ((*envval) && outputcnt)\<close>.\<close>

definition put_value :: "string \<Rightarrow> string \<times> nat \<Rightarrow> string \<times> nat" where
  "put_value v out = (fst out @ take (snd out) v, snd out - length v)"

text \<open>One character \<open>c\<close> with the one before it, \<open>prev\<close>, and the input after it; the result is the new
  state, \<open>varname_start\<close> and the output with its \<open>outputcnt\<close>.\<close>

definition pm_char ::
  "(string \<Rightarrow> string option option) \<Rightarrow> nat \<Rightarrow> pm_state \<Rightarrow> string \<Rightarrow> string \<times> nat \<Rightarrow> char \<Rightarrow> char \<Rightarrow> string \<Rightarrow>
   (pm_state \<times> string \<times> string \<times> nat) option" where
  "pm_char getenv_fn cbsize state start out prev c input =
     (case state of
        WaitDollar \<Rightarrow>
          if c = CHR 0x27 \<and> prev \<noteq> CHR 0x5C then Some (WaitQuote, start, out)
          else if c = CHR ''$'' \<and> prev \<noteq> CHR 0x5C then Some (WaitOpen, start, out)
          else Some (WaitDollar, start, put_out c out)
      | WaitOpen \<Rightarrow>
          if c = CHR ''('' \<or> c = CHR ''{'' then Some (WaitClose, input, out)
          else let out = put_out (CHR ''$'') out in
            Some (WaitDollar, start, if snd out > 0 then put_out c out else out)
      | WaitClose \<Rightarrow>
          if c = CHR '')'' \<or> c = CHR ''}''
          then let envname = take (length start - length input - 1) start in
            if length envname \<ge> cbsize then None
            else do { v \<leftarrow> getenv_fn envname;
                      Some (WaitDollar, start,
                            case v of None \<Rightarrow> out | Some envval \<Rightarrow> put_value envval out) }
          else Some (WaitClose, start, out)
      | WaitQuote \<Rightarrow>
          if c = CHR 0x27 \<and> prev \<noteq> CHR 0x5C then Some (WaitDollar, start, out)
          else Some (WaitQuote, start, put_out c out))"

function pm_loop ::
  "(string \<Rightarrow> string option option) \<Rightarrow> nat \<Rightarrow> pm_state \<Rightarrow> string \<Rightarrow> string \<times> nat \<Rightarrow> char \<Rightarrow> string \<Rightarrow>
   (string \<times> nat) option" where
  "pm_loop getenv_fn cbsize state start out prev input =
     (case input of
        [] \<Rightarrow> Some out
      | c # input \<Rightarrow>
          if snd out = 0 then Some out
          else if state \<noteq> WaitQuote \<and> c = CHR 0x5C \<and> prev \<noteq> CHR 0x5C
          then (case input of
                  [] \<Rightarrow> Some out
                | d # input \<Rightarrow>
                    do { (state, start, out) \<leftarrow> pm_char getenv_fn cbsize state start out c d input;
                         pm_loop getenv_fn cbsize state start out d input })
          else do { (state, start, out) \<leftarrow> pm_char getenv_fn cbsize state start out prev c input;
                    pm_loop getenv_fn cbsize state start out c input })"
  by pat_completeness auto
termination
  by (relation "measure (\<lambda>(g, cbsize, state, start, out, prev, input). length input)") auto

declare pm_loop.simps [simp del]

text \<open>The terminating NUL replaces the last character when the buffer is full.\<close>

definition process_macros :: "(string \<Rightarrow> string option option) \<Rightarrow> nat \<Rightarrow> string \<Rightarrow> string option" where
  "process_macros getenv_fn cbsize input =
     do { (output, outputcnt) \<leftarrow> pm_loop getenv_fn cbsize WaitDollar [] ([], cbsize) NUL input;
          Some (if outputcnt > 0 then output else butlast output) }"

section \<open>Commands\<close>

record 's shell =
  CBSIZE :: nat
  MAXARGS :: nat
  cmd_table :: "'s cmd_tbl list"
  get_env :: "'s \<Rightarrow> string \<Rightarrow> string option option"
  clear_ctrlc :: "'s \<Rightarrow> 's"
  had_ctrlc :: "'s \<Rightarrow> bool"
  say :: "string \<Rightarrow> 's \<Rightarrow> 's"
  null_str :: string

definition CMD_FLAG_BOOTD :: u32 where "CMD_FLAG_BOOTD = 2"

text \<open>The loop \<open>for (inquotes = 0, sep = str; *sep; sep++)\<close>: the token and what follows its separator.
  \<open>prev\<close> is \<open>*(sep - 1)\<close>, which does not exist in front of \<open>cmdbuf\<close>; reading it there is a fault.\<close>

fun find_sep :: "char option \<Rightarrow> bool \<Rightarrow> bool \<Rightarrow> string \<Rightarrow> (string \<times> string option) option" where
  "find_sep prev inquotes at_str [] = Some ([], None)"
| "find_sep prev inquotes at_str (c # s) =
     do { inquotes \<leftarrow> (if c = CHR 0x27
            then (case prev of None \<Rightarrow> None
                  | Some p \<Rightarrow> Some (if p \<noteq> CHR 0x5C then \<not> inquotes else inquotes))
            else Some inquotes);
          if \<not> inquotes \<and> c = CHR '';'' \<and> \<not> at_str \<and> prev \<noteq> Some (CHR 0x5C)
          then Some ([], Some s)
          else do { (t, r) \<leftarrow> find_sep (Some c) inquotes False s; Some (c # t, r) } }"

lemma find_sep_shorter:
  "find_sep prev q a s = Some (t, r) \<Longrightarrow> length (case r of None \<Rightarrow> [] | Some r \<Rightarrow> r) + length t \<le> length s"
proof (induction prev q a s arbitrary: t r rule: find_sep.induct)
  case (2 prev q a c s)
  then show ?case
    by (fastforce split: Option.bind_splits if_splits option.splits)
qed simp

lemma find_sep_Cons_shorter:
  "find_sep prev q a (c # s) = Some (t, Some r) \<Longrightarrow> length r < length (c # s)"
proof -
  assume a: "find_sep prev q a (c # s) = Some (t, Some r)"
  show ?thesis
  proof (cases t)
    case Nil
    with a show ?thesis by (auto split: Option.bind_splits if_splits option.splits)
  next
    case Cons
    with find_sep_shorter [OF a] show ?thesis by simp
  qed
qed

text \<open>One token: the new \<open>rc\<close>, \<open>repeatable\<close> and \<open>flag\<close>, and whether \<open>run_command\<close> returns at once.\<close>

definition run_token ::
  "'s shell \<Rightarrow> string \<Rightarrow> int \<Rightarrow> int \<Rightarrow> u32 \<Rightarrow> 's \<Rightarrow> (bool \<times> int \<times> int \<times> u32 \<times> 's) option" where
  "run_token sh token rc repeatable_all flag s =
     do { finaltoken \<leftarrow> process_macros (get_env sh s) (CBSIZE sh) token;
          let argv = fst (parse_line (MAXARGS sh) finaltoken);
          if argv = [] then Some (False, -1, repeatable_all, flag, s)
          else case find_cmd_tbl (hd argv) (cmd_table sh) of
            None \<Rightarrow> Some (False, -1, repeatable_all, flag,
                       say sh (''Unknown command '' @ [CHR 0x27] @ hd argv @ [CHR 0x27] @ '' - try '' @
                               [CHR 0x27] @ ''help'' @ [CHR 0x27, CHR 0x0A]) s)
          | Some t \<Rightarrow>
              if int (length argv) > maxargs t
              then Some (False, -1, repeatable_all, flag, say sh (snd (cmd_usage (null_str sh) t)) s)
              else if is_bootd t \<and> flag AND CMD_FLAG_BOOTD \<noteq> 0
              then Some (False, -1, repeatable_all, flag,
                         say sh ([CHR 0x27] @ ''bootd'' @ [CHR 0x27] @ '' recursion detected'' @ [CHR 0x0A]) s)
              else do {
                let flag = (if is_bootd t then flag OR CMD_FLAG_BOOTD else flag);
                (r, s) \<leftarrow> cmd_fn t flag argv s;
                let rc = (if r \<noteq> 0 then -1 else rc);
                if had_ctrlc sh s then Some (True, -1, repeatable_all, flag, s)
                else Some (False, rc, repeatable_all AND repeatable t, flag, s) } }"

function run_loop ::
  "'s shell \<Rightarrow> char option \<Rightarrow> string \<Rightarrow> int \<Rightarrow> int \<Rightarrow> u32 \<Rightarrow> 's \<Rightarrow> (int \<times> 's) option" where
  "run_loop sh prev str rc rep flag s =
     (if str = [] then Some (if rc \<noteq> 0 then rc else rep, s)
      else case find_sep prev False True str of
        None \<Rightarrow> None
      | Some (token, rest) \<Rightarrow>
          do { (stop, rc, rep, flag, s) \<leftarrow> run_token sh token rc rep flag s;
               if stop then Some (rc, s)
               else case rest of
                 None \<Rightarrow> Some (if rc \<noteq> 0 then rc else rep, s)
               | Some str \<Rightarrow> run_loop sh (Some NUL) str rc rep flag s })"
  by pat_completeness auto
termination
proof (relation "measure (\<lambda>(sh, prev, str, rc, rep, flag, s). length str)", goal_cases)
  case (2 sh prev str rc rep flag s)
  then show ?case by (cases str) (auto simp del: find_sep.simps dest: find_sep_Cons_shorter)
qed simp

declare run_loop.simps [simp del]

definition run_command :: "'s shell \<Rightarrow> string \<Rightarrow> u32 \<Rightarrow> 's \<Rightarrow> (int \<times> 's) option" where
  "run_command sh cmd flag s =
     (let s = clear_ctrlc sh s in
      if cmd = [] then Some (-1, s)
      else if length cmd \<ge> CBSIZE sh then Some (-1, say sh (''## Command too long!'' @ [CHR 0x0A]) s)
      else run_loop sh None cmd 0 1 flag s)"

text \<open>\<open>do_run\<close>; the first argument runs a command line, which is \<open>run_command\<close> with the table that
  \<open>do_run\<close> itself is in.\<close>

fun do_run_loop ::
  "(string \<Rightarrow> u32 \<Rightarrow> 's \<Rightarrow> (int \<times> 's) option) \<Rightarrow> 's shell \<Rightarrow> u32 \<Rightarrow> string list \<Rightarrow> 's \<Rightarrow> (int \<times> 's) option" where
  "do_run_loop run sh flag [] s = Some (0, s)"
| "do_run_loop run sh flag (a # as) s =
     do { v \<leftarrow> get_env sh s a;
          case v of
            None \<Rightarrow> Some (1, say sh (''## Error: '' @ [CHR 0x22] @ a @ [CHR 0x22] @ '' not defined'' @ [CHR 0x0A]) s)
          | Some arg \<Rightarrow>
              do { (r, s) \<leftarrow> run arg flag s;
                   if r = -1 then Some (1, s) else do_run_loop run sh flag as s } }"

definition do_run ::
  "(string \<Rightarrow> u32 \<Rightarrow> 's \<Rightarrow> (int \<times> 's) option) \<Rightarrow> 's shell \<Rightarrow> 's cmd_tbl \<Rightarrow> u32 \<Rightarrow> string list \<Rightarrow> 's \<Rightarrow> (int \<times> 's) option"
where
  "do_run run sh cmdtp flag argv s =
     (if length argv < 2 then Some (1, say sh (snd (cmd_usage (null_str sh) cmdtp)) s)
      else do_run_loop run sh flag (tl argv) s)"

section \<open>Arguments: the reference\<close>

text \<open>The maximal runs of characters that are no blanks.\<close>

function words :: "string \<Rightarrow> string list" where
  "words s = (let s = dropWhile (\<lambda>c. blank c) s in
     if s = [] then [] else takeWhile (\<lambda>c. \<not> blank c) s # words (dropWhile (\<lambda>c. \<not> blank c) s))"
  by pat_completeness auto
termination
proof (relation "measure length", goal_cases)
  case (2 s x)
  then obtain c t where c: "dropWhile (\<lambda>c. blank c) s = c # t" by (cases "dropWhile (\<lambda>c. blank c) s") auto
  then have "\<not> blank c" using hd_dropWhile [of blank s] by (metis list.distinct(1) list.sel(1))
  then have "length (dropWhile (\<lambda>c. \<not> blank c) (c # t)) \<le> length t"
    by (simp add: length_dropWhile_le)
  also have "length t < length s" using length_dropWhile_le [of blank s] c by simp
  finally show ?case using 2 c by simp
qed simp

declare words.simps [simp del]

lemma words_tl:
  "s \<noteq> [] \<Longrightarrow> blank (hd s) \<Longrightarrow> words (tl s) = words s"
  by (subst (1 2) words.simps) (cases s; simp)

lemma words_blank: "\<forall>c\<in>set s. blank c \<Longrightarrow> words s = []"
  by (subst words.simps) (simp add: dropWhile_eq_Nil_conv)

lemma words_Nil_last: "words s = [] \<Longrightarrow> s \<noteq> [] \<Longrightarrow> blank (last s)"
proof -
  assume a: "words s = []" "s \<noteq> []"
  then have "dropWhile (\<lambda>c. blank c) s = []" by (subst (asm) words.simps) (simp only: Let_def split: if_splits, simp)
  then have "\<forall>x\<in>set s. blank x" unfolding dropWhile_eq_Nil_conv .
  then show ?thesis using last_in_set [OF a(2)] by blast
qed

lemma parse_line_words:
  "fst (parse_line n s) = take n (words s) \<and>
   (snd (parse_line n s) \<longleftrightarrow> length (words s) < n \<or>
      (length (words s) = n \<and> n > 0 \<and> \<not> blank (last s)))"
proof (induction n arbitrary: s)
  case 0
  then show ?case by simp
next
  case (Suc n)
  define u where "u = dropWhile (\<lambda>c. blank c) s"
  define w where "w = takeWhile (\<lambda>c. \<not> blank c) u"
  define r where "r = dropWhile (\<lambda>c. \<not> blank c) u"
  have ws: "words s = (if u = [] then [] else w # words r)"
    by (subst words.simps) (simp only: Let_def u_def w_def r_def)
  have pl: "parse_line (Suc n) s = (if u = [] then ([], True) else if r = [] then ([w], True)
      else (w # fst (parse_line n (tl r)), snd (parse_line n (tl r))))"
    unfolding parse_line.simps Let_def u_def [symmetric] w_def [symmetric] r_def [symmetric]
    by (simp split: prod.splits)
  show ?case
  proof (cases "u = []")
    case True
    then show ?thesis using ws pl by simp
  next
    case False
    then have ls: "last s = last u" unfolding u_def by (metis last_appendR takeWhile_dropWhile_id)
    show ?thesis
    proof (cases "r = []")
      case True
      then have "\<forall>x\<in>set u. \<not> blank x" unfolding r_def dropWhile_eq_Nil_conv .
      then have "\<not> blank (last u)" using last_in_set [OF False] by blast
      moreover have "words r = []" unfolding True by (rule words_blank) simp
      ultimately show ?thesis using True False ws pl ls by (auto simp del: parse_line.simps)
    next
      case r: False
      then have b: "blank (hd r)" using hd_dropWhile [of "\<lambda>c. \<not> blank c" u] unfolding r_def by blast
      have tl: "words (tl r) = words r" using r b by (rule words_tl)
      have "last u = last r" using r unfolding r_def by (metis last_appendR takeWhile_dropWhile_id)
      then have lr: "last s = last r" using ls by simp
      show ?thesis
      proof (cases "tl r = []")
        case True
        obtain d where d: "r = [d]" using True r by (cases r) auto
        then have "blank (last s)" using lr b by simp
        moreover have "words r = []" using tl True by (simp add: words_blank)
        moreover have "parse_line n (tl r) = ([], 0 < n)" using True by (cases n) auto
        ultimately show ?thesis using False r ws pl by simp
      next
        case nt: False
        have "last (tl r) = last s" using nt lr r by (metis last_tl)
        moreover have "words r = [] \<longrightarrow> blank (last s)"
          using words_Nil_last [OF _ nt] tl \<open>last (tl r) = last s\<close> by simp
        ultimately show ?thesis using False r ws pl tl Suc.IH [of "tl r"]
          by (auto simp del: parse_line.simps)
      qed
    qed
  qed
qed

section \<open>Macros: the reference\<close>

text \<open>A line made of plain text, text in quotes, escaped characters and variables.\<close>

datatype seg = Plain string | Quoted string | Escaped char | Var bool string

fun render :: "seg \<Rightarrow> string" where
  "render (Plain s) = s"
| "render (Quoted s) = CHR 0x27 # s @ [CHR 0x27]"
| "render (Escaped c) = [CHR 0x5C, c]"
| "render (Var brace n) = CHR ''$'' # (if brace then CHR ''{'' else CHR ''('') # n @
     [if brace then CHR ''}'' else CHR '')'']"

fun expand :: "(string \<Rightarrow> string option option) \<Rightarrow> seg \<Rightarrow> string" where
  "expand g (Plain s) = s"
| "expand g (Quoted s) = s"
| "expand g (Escaped c) = [c]"
| "expand g (Var brace n) = (case g n of Some (Some v) \<Rightarrow> v | _ \<Rightarrow> [])"

fun seg_ok :: "seg \<Rightarrow> bool" where
  "seg_ok (Plain s) \<longleftrightarrow> list_all (\<lambda>c. c \<notin> {CHR ''$'', CHR 0x5C, CHR 0x27}) s"
| "seg_ok (Quoted s) \<longleftrightarrow> list_all (\<lambda>c. c \<notin> {CHR 0x5C, CHR 0x27}) s"
| "seg_ok (Escaped c) \<longleftrightarrow> c \<noteq> CHR 0x5C"
| "seg_ok (Var brace n) \<longleftrightarrow> list_all (\<lambda>c. c \<notin> {CHR '')'', CHR ''}'', CHR 0x5C}) n"

text \<open>The names that are looked up, and that they are shorter than \<open>envname\<close>.\<close>

fun names_ok :: "(string \<Rightarrow> string option option) \<Rightarrow> nat \<Rightarrow> seg \<Rightarrow> bool" where
  "names_ok g cbsize (Var brace n) \<longleftrightarrow> length n < cbsize \<and> g n \<noteq> None"
| "names_ok g cbsize _ \<longleftrightarrow> True"

lemma pm_loop_full: "pm_loop g cb state start (o1, 0) prev input = Some (o1, 0)"
  by (subst pm_loop.simps) (simp split: list.split)

lemma pm_loop_step:
  assumes "0 < k" and "state = WaitQuote \<or> c \<noteq> CHR 0x5C"
  shows "pm_loop g cb state start (o1, k) prev (c # rest) =
    do { (state, start, out) \<leftarrow> pm_char g cb state start (o1, k) prev c rest;
         pm_loop g cb state start out c rest }"
  using assms by (subst pm_loop.simps) auto

lemma pm_loop_plain:
  assumes "list_all (\<lambda>c. c \<notin> {CHR ''$'', CHR 0x5C, CHR 0x27}) s" and "prev \<noteq> CHR 0x5C"
  shows "\<exists>prev'. prev' \<noteq> CHR 0x5C \<and> pm_loop g cb WaitDollar start (o1, k) prev (s @ rest) =
    pm_loop g cb WaitDollar start (o1 @ take k s, k - length s) prev' rest"
  using assms
proof (induction s arbitrary: o1 k prev)
  case (Cons c s)
  show ?case
  proof (cases "k = 0")
    case True
    then show ?thesis using Cons.prems(2) by (auto simp: pm_loop_full)
  next
    case False
    then have "pm_loop g cb WaitDollar start (o1, k) prev ((c # s) @ rest) =
        pm_loop g cb WaitDollar start (o1 @ [c], k - 1) c (s @ rest)"
      using Cons.prems by (simp add: pm_loop_step pm_char_def put_out_def)
    then show ?thesis using Cons.IH [of c "o1 @ [c]" "k - 1"] Cons.prems False
      by (cases k) auto
  qed
qed auto

lemma pm_loop_quoted:
  assumes "list_all (\<lambda>c. c \<notin> {CHR 0x5C, CHR 0x27}) s" and "prev \<noteq> CHR 0x5C"
  shows "\<exists>prev'. prev' \<noteq> CHR 0x5C \<and> pm_loop g cb WaitQuote start (o1, k) prev (s @ rest) =
    pm_loop g cb WaitQuote start (o1 @ take k s, k - length s) prev' rest"
  using assms
proof (induction s arbitrary: o1 k prev)
  case (Cons c s)
  show ?case
  proof (cases "k = 0")
    case True
    then show ?thesis using Cons.prems(2) by (auto simp: pm_loop_full)
  next
    case False
    then have "pm_loop g cb WaitQuote start (o1, k) prev ((c # s) @ rest) =
        pm_loop g cb WaitQuote start (o1 @ [c], k - 1) c (s @ rest)"
      using Cons.prems by (simp add: pm_loop_step pm_char_def put_out_def)
    then show ?thesis using Cons.IH [of c "o1 @ [c]" "k - 1"] Cons.prems False
      by (cases k) auto
  qed
qed auto

lemma pm_loop_name:
  assumes "list_all (\<lambda>c. c \<notin> {CHR '')'', CHR ''}'', CHR 0x5C}) n" and "0 < k"
  shows "\<exists>prev'. pm_loop g cb WaitClose start (o1, k) prev (n @ rest) =
    pm_loop g cb WaitClose start (o1, k) prev' rest"
  using assms
proof (induction n arbitrary: prev)
  case (Cons c n)
  then have "pm_loop g cb WaitClose start (o1, k) prev ((c # n) @ rest) =
      pm_loop g cb WaitClose start (o1, k) c (n @ rest)"
    by (simp add: pm_loop_step pm_char_def)
  then show ?case using Cons by auto
qed auto

lemma pm_loop_var:
  assumes "list_all (\<lambda>c. c \<notin> {CHR '')'', CHR ''}'', CHR 0x5C}) n" and "prev \<noteq> CHR 0x5C"
    and "length n < cb" and "g n = Some v"
  shows "\<exists>start' prev'. prev' \<noteq> CHR 0x5C \<and>
    pm_loop g cb WaitDollar start (o1, k) prev (render (Var brace n) @ rest) =
    pm_loop g cb WaitDollar start' (put_value (case v of None \<Rightarrow> [] | Some e \<Rightarrow> e) (o1, k)) prev' rest"
proof (cases "k = 0")
  case True
  then show ?thesis using assms(2) by (auto simp: pm_loop_full put_value_def)
next
  case False
  let ?c = "if brace then CHR ''}'' else CHR '')''" and ?b = "if brace then CHR ''{'' else CHR ''(''"
  let ?start = "n @ ?c # rest"
  have "pm_loop g cb WaitDollar start (o1, k) prev (render (Var brace n) @ rest) =
      pm_loop g cb WaitOpen start (o1, k) (CHR ''$'') (?b # ?start)"
    using False assms(2) by (simp add: pm_loop_step pm_char_def)
  also have "\<dots> = pm_loop g cb WaitClose ?start (o1, k) ?b ?start"
    using False by (simp add: pm_loop_step pm_char_def)
  finally obtain p where "pm_loop g cb WaitDollar start (o1, k) prev (render (Var brace n) @ rest) =
      pm_loop g cb WaitClose ?start (o1, k) p (?c # rest)"
    using pm_loop_name [OF assms(1), of k g cb ?start o1 ?b "?c # rest"] False by auto
  also have "\<dots> = pm_loop g cb WaitDollar ?start
      (put_value (case v of None \<Rightarrow> [] | Some e \<Rightarrow> e) (o1, k)) ?c rest"
    using False assms(3,4) by (cases v) (simp_all add: pm_loop_step pm_char_def put_value_def)
  finally show ?thesis by (intro exI [of _ ?start] exI [of _ ?c]) simp
qed

lemma pm_loop_seg:
  assumes "seg_ok x" and "names_ok g cb x" and "prev \<noteq> CHR 0x5C"
  shows "\<exists>start' prev'. prev' \<noteq> CHR 0x5C \<and> pm_loop g cb WaitDollar start (o1, k) prev (render x @ rest) =
    pm_loop g cb WaitDollar start' (o1 @ take k (expand g x), k - length (expand g x)) prev' rest"
proof (cases x)
  case (Plain s)
  then show ?thesis using pm_loop_plain [of s prev g cb start o1 k rest] assms by auto
next
  case (Quoted s)
  show ?thesis
  proof (cases "k = 0")
    case True
    then show ?thesis using assms(3) by (auto simp: pm_loop_full)
  next
    case False
    have "pm_loop g cb WaitDollar start (o1, k) prev (render x @ rest) =
        pm_loop g cb WaitQuote start (o1, k) (CHR 0x27) (s @ CHR 0x27 # rest)"
      using False assms(3) Quoted by (simp add: pm_loop_step pm_char_def)
    also obtain p where p: "p \<noteq> CHR 0x5C" "\<dots> = pm_loop g cb WaitQuote start (o1 @ take k s, k - length s) p (CHR 0x27 # rest)"
      using pm_loop_quoted [of s "CHR 0x27" g cb start o1 k "CHR 0x27 # rest"] assms(1) Quoted by auto
    note p(2)
    also have "pm_loop g cb WaitQuote start (o1 @ take k s, k - length s) p (CHR 0x27 # rest) =
        pm_loop g cb WaitDollar start (o1 @ take k s, k - length s) (CHR 0x27) rest"
      using p(1) by (cases "k - length s = 0") (simp_all add: pm_loop_full pm_loop_step pm_char_def)
    finally show ?thesis using Quoted by (intro exI [of _ start] exI [of _ "CHR 0x27"]) simp
  qed
next
  case (Escaped c)
  show ?thesis
  proof (cases "k = 0")
    case True
    then show ?thesis using assms(3) by (auto simp: pm_loop_full)
  next
    case False
    then have "pm_loop g cb WaitDollar start (o1, k) prev (render x @ rest) =
        pm_loop g cb WaitDollar start (o1 @ [c], k - 1) c rest"
      using assms(3) Escaped by (subst pm_loop.simps) (simp add: pm_char_def put_out_def)
    then show ?thesis using Escaped False assms(1) by (intro exI [of _ start] exI [of _ c]) (cases k; simp)
  qed
next
  case (Var brace n)
  then obtain v where "g n = Some v" using assms(2) by auto
  then show ?thesis using pm_loop_var [of n prev cb g v start o1 k brace rest] assms Var
    by (auto simp: put_value_def split: option.splits)
qed

lemma pm_loop_segs:
  assumes "list_all seg_ok xs" and "list_all (names_ok g cb) xs" and "prev \<noteq> CHR 0x5C"
  shows "pm_loop g cb WaitDollar start (o1, k) prev (concat (map render xs)) =
    Some (o1 @ take k (concat (map (expand g) xs)), k - length (concat (map (expand g) xs)))"
  using assms
proof (induction xs arbitrary: start o1 k prev)
  case Nil
  then show ?case by (subst pm_loop.simps) simp
next
  case (Cons x xs)
  let ?k = "k - length (expand g x)" and ?o = "o1 @ take k (expand g x)"
  obtain start' prev' where p: "prev' \<noteq> CHR 0x5C"
    "pm_loop g cb WaitDollar start (o1, k) prev (render x @ concat (map render xs)) =
     pm_loop g cb WaitDollar start' (o1 @ take k (expand g x), k - length (expand g x)) prev' (concat (map render xs))"
    using pm_loop_seg [of x g cb prev start o1 k "concat (map render xs)"] Cons.prems by auto
  have "pm_loop g cb WaitDollar start' (?o, ?k) prev' (concat (map render xs)) =
      Some (?o @ take ?k (concat (map (expand g) xs)), ?k - length (concat (map (expand g) xs)))"
    using Cons.prems p(1) by (intro Cons.IH) simp_all
  then show ?case using p(2) by (simp add: diff_diff_left)
qed

lemma process_macros_segs:
  assumes "list_all seg_ok xs" and "list_all (names_ok g cb) xs" and "0 < cb"
  shows "process_macros g cb (concat (map render xs)) = Some (take (cb - 1) (concat (map (expand g) xs)))"
proof -
  let ?e = "concat (map (expand g) xs)"
  have "pm_loop g cb WaitDollar [] ([], cb) NUL (concat (map render xs)) = Some (take cb ?e, cb - length ?e)"
    using pm_loop_segs [OF assms(1,2), of NUL "[]" "[]" cb] by simp
  moreover have "(if cb - length ?e > 0 then take cb ?e else butlast (take cb ?e)) = take (cb - 1) ?e"
    by (auto simp: butlast_take)
  ultimately show ?thesis by (simp add: process_macros_def)
qed

section \<open>Several commands on a line\<close>

text \<open>A command of which \<open>find_sep\<close> sees neither quotes nor separators.\<close>

definition simple_cmd :: "string \<Rightarrow> bool" where
  "simple_cmd c \<longleftrightarrow> c \<noteq> [] \<and> list_all (\<lambda>x. x \<notin> {CHR '';'', CHR 0x27, CHR 0x5C}) c"

fun join_cmds :: "string list \<Rightarrow> string" where
  "join_cmds [] = []"
| "join_cmds [c] = c"
| "join_cmds (c # cs) = c @ CHR '';'' # join_cmds cs"

fun exec_loop :: "'s shell \<Rightarrow> string list \<Rightarrow> int \<Rightarrow> int \<Rightarrow> u32 \<Rightarrow> 's \<Rightarrow> (int \<times> 's) option" where
  "exec_loop sh [] rc rep flag s = Some (if rc \<noteq> 0 then rc else rep, s)"
| "exec_loop sh (c # cs) rc rep flag s =
     do { (stop, rc, rep, flag, s) \<leftarrow> run_token sh c rc rep flag s;
          if stop then Some (rc, s) else exec_loop sh cs rc rep flag s }"

lemma find_sep_simple:
  assumes "list_all (\<lambda>x. x \<notin> {CHR '';'', CHR 0x27, CHR 0x5C}) c" and "c \<noteq> [] \<or> \<not> a"
    and "c = [] \<longrightarrow> prev \<noteq> Some (CHR 0x5C)"
  shows "find_sep prev False a c = Some (c, None)"
    and "find_sep prev False a (c @ CHR '';'' # r) = Some (c, Some r)"
  using assms
proof (induction c arbitrary: prev a)
  case (Cons x c)
  {
    case 1
    then show ?case using Cons.IH(1) [of False "Some x"] by auto
  next
    case 2
    then show ?case using Cons.IH(2) [of False "Some x"] by auto
  }
qed auto

lemma run_loop_join:
  assumes "list_all simple_cmd cs"
  shows "run_loop sh prev (join_cmds cs) rc rep flag s = exec_loop sh cs rc rep flag s"
  using assms
proof (induction cs arbitrary: prev rc rep flag s rule: join_cmds.induct)
  case 1
  then show ?case by (subst run_loop.simps) simp
next
  case (2 c)
  then have "find_sep prev False True c = Some (c, None)" "c \<noteq> []"
    using find_sep_simple(1) [of c True prev] by (auto simp: simple_cmd_def)
  then show ?case by (subst run_loop.simps) (simp cong: if_cong)
next
  case (3 c d cs)
  have fs: "find_sep prev False True (join_cmds (c # d # cs)) = Some (c, Some (join_cmds (d # cs)))"
    "join_cmds (c # d # cs) \<noteq> []"
    using find_sep_simple(2) [of c True prev] "3.prems" by (auto simp: simple_cmd_def)
  have IH: "run_loop sh (Some NUL) (join_cmds (d # cs)) rc rep flag s = exec_loop sh (d # cs) rc rep flag s"
    for rc rep flag s
    using "3.prems" by (intro "3.IH") simp
  show ?case unfolding exec_loop.simps(2) [of sh c]
    by (subst run_loop.simps) (simp only: fs if_False option.case prod.case IH)
qed

text \<open>The reference for one command, given as the pieces of its text: its words are those of the expanded
  text, its table entry is that of the search rule.  It is rejected with a message, or it ran with a
  result and the \<open>repeatable\<close> field of its entry.\<close>

datatype outcome = Rejected | Ran int int

definition unknown_text :: "string \<Rightarrow> string" where
  "unknown_text w = ''Unknown command '' @ [CHR 0x27] @ w @ [CHR 0x27] @ '' - try '' @ [CHR 0x27] @ ''help'' @ [CHR 0x27, CHR 0x0A]"

definition recursion_text :: string where
  "recursion_text = [CHR 0x27] @ ''bootd'' @ [CHR 0x27] @ '' recursion detected'' @ [CHR 0x0A]"

definition command_effect :: "'s shell \<Rightarrow> seg list \<Rightarrow> u32 \<Rightarrow> 's \<Rightarrow> (outcome \<times> u32 \<times> 's) option" where
  "command_effect sh c flag s =
     (case take (MAXARGS sh) (words (take (CBSIZE sh - 1) (concat (map (expand (get_env sh s)) c)))) of
        [] \<Rightarrow> Some (Rejected, flag, s)
      | w # ws \<Rightarrow>
        (case find_cmd_spec w (cmd_table sh) of
           None \<Rightarrow> Some (Rejected, flag, say sh (unknown_text w) s)
         | Some t \<Rightarrow>
           if maxargs t < int (Suc (length ws)) then Some (Rejected, flag, say sh (snd (cmd_usage (null_str sh) t)) s)
           else if is_bootd t \<and> flag AND CMD_FLAG_BOOTD \<noteq> 0 then Some (Rejected, flag, say sh recursion_text s)
           else let flag = (if is_bootd t then flag OR CMD_FLAG_BOOTD else flag) in
             map_option (\<lambda>(r, s). (Ran r (repeatable t), flag, s)) (cmd_fn t flag (w # ws) s)))"

text \<open>The commands of a line one after the other: what became of each, whether \<open>^C\<close> stopped the line after a
  command that ran, and the state in the end.\<close>

fun line_trace :: "'s shell \<Rightarrow> seg list list \<Rightarrow> u32 \<Rightarrow> 's \<Rightarrow> (outcome list \<times> bool \<times> 's) option" where
  "line_trace sh [] flag s = Some ([], False, s)"
| "line_trace sh (c # cs) flag s =
     do { (out, flag, s) \<leftarrow> command_effect sh c flag s;
          if out \<noteq> Rejected \<and> had_ctrlc sh s then Some ([out], True, s)
          else map_option (\<lambda>(outs, stopped, s). (out # outs, stopped, s)) (line_trace sh cs flag s) }"

fun failed :: "outcome \<Rightarrow> bool" where
  "failed Rejected \<longleftrightarrow> True"
| "failed (Ran r rep) \<longleftrightarrow> r \<noteq> 0"

text \<open>\<open>repeatable &= cmdtp->repeatable\<close> over the commands that ran.\<close>

fun repeats :: "outcome list \<Rightarrow> int \<Rightarrow> int" where
  "repeats [] rep = rep"
| "repeats (Rejected # outs) rep = repeats outs rep"
| "repeats (Ran r rp # outs) rep = repeats outs (rep AND rp)"

abbreviation seg_text :: "seg list \<Rightarrow> string" where
  "seg_text c \<equiv> concat (map render c)"

text \<open>Pieces without quotes and separators whose variables can be looked up in every state.\<close>

definition line_cmd :: "'s shell \<Rightarrow> seg list \<Rightarrow> bool" where
  "line_cmd sh c \<longleftrightarrow> simple_cmd (seg_text c) \<and> list_all seg_ok c \<and>
     (\<forall>b n. Var b n \<in> set c \<longrightarrow> length n < CBSIZE sh \<and> (\<forall>s. get_env sh s n \<noteq> None))"

lemma run_token_effect:
  assumes c: "line_cmd sh c" and cb: "0 < CBSIZE sh"
  shows "run_token sh (seg_text c) rc rep flag s =
    map_option (\<lambda>(out, flag, s). case out of
        Rejected \<Rightarrow> (False, -1, rep, flag, s)
      | Ran r rp \<Rightarrow> if had_ctrlc sh s then (True, -1, rep, flag, s)
                   else (False, if r \<noteq> 0 then -1 else rc, rep AND rp, flag, s)) (command_effect sh c flag s)"
proof -
  let ?e = "take (CBSIZE sh - 1) (concat (map (expand (get_env sh s)) c))"
  have "list_all (names_ok (get_env sh s) (CBSIZE sh)) c"
    unfolding list_all_iff
  proof
    fix x assume x: "x \<in> set c"
    show "names_ok (get_env sh s) (CBSIZE sh) x"
    proof (cases x)
      case (Var b n)
      then have "length n < CBSIZE sh \<and> get_env sh s n \<noteq> None" using c x unfolding line_cmd_def by blast
      then show ?thesis using Var by simp
    qed simp_all
  qed
  then have pm: "process_macros (get_env sh s) (CBSIZE sh) (seg_text c) = Some ?e"
    using process_macros_segs [OF _ _ cb] c by (simp add: line_cmd_def)
  have pl: "fst (parse_line (MAXARGS sh) ?e) = take (MAXARGS sh) (words ?e)" using parse_line_words by blast
  show ?thesis
  proof (cases "take (MAXARGS sh) (words ?e)")
    case Nil
    show ?thesis unfolding run_token_def command_effect_def pm bind.bind_lunit Let_def pl Nil by simp
  next
    case (Cons w ws)
    note tok = run_token_def command_effect_def pm bind.bind_lunit Let_def pl Cons list.case list.sel find_cmd_tbl_rule
    show ?thesis
    proof (cases "find_cmd_spec w (cmd_table sh)")
      case None
      show ?thesis unfolding tok None by (simp add: unknown_text_def)
    next
      case (Some t)
      consider "maxargs t < int (Suc (length ws))" | "\<not> maxargs t < int (Suc (length ws))" "is_bootd t \<and> flag AND CMD_FLAG_BOOTD \<noteq> 0"
        | "\<not> maxargs t < int (Suc (length ws))" "\<not> (is_bootd t \<and> flag AND CMD_FLAG_BOOTD \<noteq> 0)" by blast
      then show ?thesis
      proof cases
        case 1
        then show ?thesis unfolding tok by (simp add: Some)
      next
        case 2
        then show ?thesis unfolding tok by (simp add: Some recursion_text_def)
      next
        case 3
        then show ?thesis unfolding tok Some option.case
          by (cases "cmd_fn t (if is_bootd t then flag OR CMD_FLAG_BOOTD else flag) (w # ws) s") (auto split: prod.splits)
      qed
    qed
  qed
qed

lemma exec_loop_trace:
  assumes cb: "0 < CBSIZE sh"
  shows "list_all (line_cmd sh) cs \<Longrightarrow> rc = 0 \<or> rc = -1 \<Longrightarrow>
    exec_loop sh (map seg_text cs) rc rep flag s =
    map_option (\<lambda>(outs, stopped, s). (if stopped \<or> rc = -1 \<or> (\<exists>out\<in>set outs. failed out) then -1 else repeats outs rep, s))
      (line_trace sh cs flag s)"
proof (induction cs arbitrary: rc rep flag s)
  case Nil
  then show ?case by auto
next
  case (Cons c cs)
  then have c: "line_cmd sh c" and cs: "list_all (line_cmd sh) cs" by simp_all
  note IH = Cons.IH [OF cs]
  show ?case
  proof (cases "command_effect sh c flag s")
    case None
    then show ?thesis by (simp add: run_token_effect [OF c cb])
  next
    case (Some e)
    obtain out f2 s2 where e: "e = (out, f2, s2)" by (cases e)
    show ?thesis
    proof (cases out)
      case Rejected
      then show ?thesis using Some e IH [of "-1" rep f2 s2]
        by (simp add: run_token_effect [OF c cb] option.map_comp comp_def split_def)
    next
      case (Ran r rp)
      then show ?thesis using Some e IH [of "if r \<noteq> 0 then -1 else rc" "rep AND rp" f2 s2] Cons.prems(2)
        by (auto simp: run_token_effect [OF c cb] option.map_comp comp_def split_def intro!: option.map_cong0)
    qed
  qed
qed

section \<open>Properties\<close>

text \<open>C26: \<open>parse_line\<close> yields the first \<open>CONFIG_SYS_MAXARGS\<close> words of the line.  It stores the NULL
  behind them when there are fewer, or exactly that many and no blank follows; in the other cases
  the message about too many arguments appears and \<open>argv\<close> has no NULL, although the line is run.\<close>

theorem parse_line_result:
  "fst (parse_line n s) = take n (words s) \<and>
   (snd (parse_line n s) \<longleftrightarrow> length (words s) < n \<or>
      (length (words s) = n \<and> n > 0 \<and> \<not> blank (last s)))"
  by (rule parse_line_words)

text \<open>C11: \<open>process_macros\<close> with \<open>getenv\<close> on a well-formed environment: plain text stays, quotes and
  escapes go, a variable is replaced by its value or by nothing, and the result is cut to
  \<open>CONFIG_SYS_CBSIZE - 1\<close> characters; no access outside a buffer, and the loop ends.\<close>

theorem process_macros_expands:
  assumes "env_wf cfg st" and "list_all seg_ok xs" and "0 < cb"
    and "\<forall>b n. Var b n \<in> set xs \<longrightarrow> name_ok n \<and> length n < cb"
  shows "process_macros (getenv cfg st) cb (concat (map render xs)) =
    Some (take (cb - 1) (concat (map (expand (getenv cfg st)) xs)))"
proof (rule process_macros_segs [OF assms(2) _ assms(3)])
  have "names_ok (getenv cfg st) cb x" if "x \<in> set xs" for x
  proof (cases x)
    case (Var b n)
    then have "name_ok n" "length n < cb" using that assms(4) by blast+
    with Var show ?thesis using es.get_total [OF assms(1)] by simp
  qed simp_all
  then show "list_all (names_ok (getenv cfg st) cb) xs" by (simp add: list_all_iff)
qed

theorem process_macros_expands_witness:
  "process_macros (getenv demo_cfg demo_env) 64 (''boot ${a} '' @ [CHR 0x27] @ ''$x'' @ [CHR 0x27]) =
   Some ''boot 1 $x''"
proof -
  let ?xs = "[Plain ''boot '', Var True ''a'', Plain '' '', Quoted ''$x'']"
  have wf: "env_wf demo_cfg demo_env" using demo_repr demo_len by (auto simp: env_wf_def)
  have a: "getenv demo_cfg demo_env ''a'' = Some (Some ''1'')"
    using getenv_repr [OF demo_repr, of "''a''"] demo_len
    by (simp add: demo_entries_def env_lookup_def entry_name_def entry_value_def)
  have "process_macros (getenv demo_cfg demo_env) 64 (concat (map render ?xs)) =
      Some (take 63 (concat (map (expand (getenv demo_cfg demo_env)) ?xs)))"
    using process_macros_expands [OF wf, of ?xs 64] by (simp add: name_ok_def)
  then show ?thesis using a by simp
qed


text \<open>A shell whose state is a counter.\<close>

definition demo_shell :: "nat shell" where
  "demo_shell = \<lparr>CBSIZE = 64, MAXARGS = 4,
     cmd_table = [\<lparr>cmd_name = ''inc'', maxargs = 2, repeatable = 1, is_bootd = False,
        cmd_fn = (\<lambda>flag argv s. Some (0, s + length argv)), usage = Some ''increment'', help_text = None,
        complete = None\<rparr>],
     get_env = (\<lambda>s n. Some None), clear_ctrlc = (\<lambda>s. s), had_ctrlc = (\<lambda>s. False),
     say = (\<lambda>out s. s), null_str = ''NULL''\<rparr>"


text \<open>C28: a command line that starts with a quote makes \<open>run_command\<close> read the byte in front of
  \<open>cmdbuf\<close> (\<open>*(sep-1)\<close> with \<open>sep == str\<close>), which is a fault, whatever follows.\<close>

theorem run_command_leading_quote:
  assumes "length cmd + 1 < CBSIZE sh"
  shows "run_command sh (CHR 0x27 # cmd) flag s = None"
  using assms by (simp add: run_command_def run_loop.simps)

theorem run_command_leading_quote_witness: "run_command demo_shell (CHR 0x27 # ''inc'') 0 0 = None"
  by (rule run_command_leading_quote) (simp add: demo_shell_def)

end
