(* ===== verification/CircBuf.thy ===== *)
theory CircBuf
  imports Prelude
begin

text \<open>
  The circular byte buffer of \<open>common/circbuf.c\<close>, used by the USB serial console
  (\<open>drivers/serial/usbtty.c\<close>) for its input and output queues.  The pointers \<open>top\<close>,
  \<open>tail\<close> and \<open>end\<close> of \<open>circbuf_t\<close> are offsets from \<open>data\<close>; a NULL \<open>data\<close> and a failed
  assertion are \<open>None\<close>.  The ring is refined to the list of bytes it holds, and the
  queue laws that the console relies on are stated as the locale \<open>byte_ring\<close>.
\<close>

section \<open>State and operations\<close>

record circbuf_t =
  cb_size :: nat
  cb_totalsize :: nat
  cb_data :: "u8 list"
  cb_top :: nat
  cb_tail :: nat
  cb_end :: nat

text \<open>\<open>buf_init\<close>: \<open>blk\<close> is what \<open>malloc\<close> returned for the size \<open>sz\<close>; the assertion stops a failed one.\<close>

definition buf_init :: "u8 list option \<Rightarrow> nat \<Rightarrow> (nat \<times> circbuf_t) option" where
  "buf_init blk sz =
     do { d \<leftarrow> blk;
          Some (1, \<lparr>cb_size = 0, cb_totalsize = sz, cb_data = d,
                    cb_top = 0, cb_tail = 0, cb_end = sz\<rparr>) }"

text \<open>The pointer increment with its bounds check, in both loops.\<close>

definition cb_next :: "nat \<Rightarrow> nat \<Rightarrow> nat" where
  "cb_next e p = (if p + 1 = e then 0 else p + 1)"

fun buf_pop_loop :: "u8 list \<Rightarrow> nat \<Rightarrow> nat \<Rightarrow> nat \<Rightarrow> (u8 list \<times> nat) option" where
  "buf_pop_loop d e p 0 = Some ([], p)"
| "buf_pop_loop d e p (Suc n) =
     do { c \<leftarrow> rd d p;
          (cs, q) \<leftarrow> buf_pop_loop d e (cb_next e p) n;
          Some (c # cs, q) }"

text \<open>\<open>buf_pop\<close> returns the bytes stored to \<open>dest\<close>, the count and the new state.\<close>

definition buf_pop :: "circbuf_t \<Rightarrow> nat \<Rightarrow> (u8 list \<times> nat \<times> circbuf_t) option" where
  "buf_pop b len =
     (let len = (if len > cb_size b then cb_size b else len) in
      do { (dest, p) \<leftarrow> buf_pop_loop (cb_data b) (cb_end b) (cb_top b) len;
           Some (dest, len, b\<lparr>cb_top := p, cb_size := cb_size b - len\<rparr>) })"

text \<open>One turn of the loop of \<open>buf_push\<close>, with \<open>p\<close> in \<open>cb_tail\<close>.\<close>

definition buf_push_byte :: "circbuf_t \<Rightarrow> u8 \<Rightarrow> circbuf_t option" where
  "buf_push_byte b c =
     do { d \<leftarrow> wr (cb_data b) (cb_tail b) c;
          let b = b\<lparr>cb_data := d, cb_tail := cb_next (cb_end b) (cb_tail b)\<rparr>;
          Some (if cb_size b < cb_totalsize b then b\<lparr>cb_size := cb_size b + 1\<rparr>
                else b\<lparr>cb_top := cb_next (cb_end b) (cb_top b)\<rparr>) }"

fun buf_push_loop :: "circbuf_t \<Rightarrow> u8 list \<Rightarrow> nat \<Rightarrow> circbuf_t option" where
  "buf_push_loop b src 0 = Some b"
| "buf_push_loop b src (Suc n) =
     do { c \<leftarrow> rd src 0;
          b' \<leftarrow> buf_push_byte b c;
          buf_push_loop b' (tl src) n }"

definition buf_push :: "circbuf_t \<Rightarrow> u8 list \<Rightarrow> nat \<Rightarrow> (nat \<times> circbuf_t) option" where
  "buf_push b src len = do { b' \<leftarrow> buf_push_loop b src len; Some (len, b') }"

section \<open>The bytes a ring holds\<close>

definition cb_wf :: "circbuf_t \<Rightarrow> bool" where
  "cb_wf b \<longleftrightarrow> cb_totalsize b = length (cb_data b) \<and> cb_end b = length (cb_data b) \<and>
     0 < cb_totalsize b \<and> cb_size b \<le> cb_totalsize b \<and> cb_top b < cb_totalsize b \<and>
     cb_tail b = (cb_top b + cb_size b) mod cb_totalsize b"

definition cb_contents :: "circbuf_t \<Rightarrow> u8 list" where
  "cb_contents b =
     map (\<lambda>i. cb_data b ! ((cb_top b + i) mod cb_totalsize b)) [0..<cb_size b]"

lemma length_cb_contents [simp]: "length (cb_contents b) = cb_size b"
  by (simp add: cb_contents_def)

lemma cb_next_mod: "p < n \<Longrightarrow> cb_next n p = (p + 1) mod n"
  by (auto simp: cb_next_def)

lemma buf_init_wf:
  assumes "length d = n" and "0 < n"
  shows "\<exists>b. buf_init (Some d) n = Some (1, b) \<and> cb_wf b \<and> cb_contents b = [] \<and>
             cb_totalsize b = n"
  using assms by (auto simp: buf_init_def cb_wf_def cb_contents_def)

lemma buf_pop_loop_eq:
  assumes "0 < length d" and "p < length d"
  shows "buf_pop_loop d (length d) p n =
           Some (map (\<lambda>i. d ! ((p + i) mod length d)) [0..<n], (p + n) mod length d)"
  using assms(2)
proof (induction n arbitrary: p)
  case (Suc n)
  have nxt: "cb_next (length d) p = (p + 1) mod length d"
    using Suc.prems by (rule cb_next_mod)
  have lt: "(p + 1) mod length d < length d" using assms(1) by simp
  have shift: "((p + 1) mod length d + i) mod length d = (p + Suc i) mod length d" for i
    by (simp add: mod_simps)
  have "map (\<lambda>i. d ! ((p + i) mod length d)) [0..<Suc n] =
        d ! p # map (\<lambda>i. d ! ((p + Suc i) mod length d)) [0..<n]"
    using Suc.prems by (simp add: upt_conv_Cons map_Suc_upt[symmetric] del: upt_Suc)
  then show ?case
    using Suc.prems Suc.IH [OF lt] by (simp only: buf_pop_loop.simps nxt shift) (simp add: shift)
qed simp

lemma buf_pop_spec:
  assumes "cb_wf b"
  shows "\<exists>b'. buf_pop b len = Some (take len (cb_contents b), min len (cb_size b), b') \<and>
              cb_wf b' \<and> cb_contents b' = drop len (cb_contents b) \<and>
              cb_totalsize b' = cb_totalsize b"
proof -
  define n where "n = min len (cb_size b)"
  define b' where "b' = b\<lparr>cb_top := (cb_top b + n) mod cb_totalsize b, cb_size := cb_size b - n\<rparr>"
  have d: "0 < length (cb_data b)" "cb_top b < length (cb_data b)"
    and t: "cb_totalsize b = length (cb_data b)" "cb_end b = length (cb_data b)"
    and sz: "cb_size b \<le> length (cb_data b)"
    and tl: "cb_tail b = (cb_top b + cb_size b) mod length (cb_data b)"
    using assms by (auto simp: cb_wf_def)
  have pop: "buf_pop b len =
      Some (map (\<lambda>i. cb_data b ! ((cb_top b + i) mod length (cb_data b))) [0..<n], n, b')"
  proof -
    have "(if cb_size b < len then cb_size b else len) = n" by (simp add: n_def)
    then show ?thesis
      using buf_pop_loop_eq [OF d, of n] t by (simp add: buf_pop_def b'_def Let_def)
  qed
  have tk: "map (\<lambda>i. cb_data b ! ((cb_top b + i) mod length (cb_data b))) [0..<n] =
      take len (cb_contents b)"
    by (simp add: cb_contents_def take_map n_def t min_def)
  have wf': "cb_wf b'"
  proof -
    have "n \<le> cb_size b" by (simp add: n_def)
    then obtain k where "cb_size b = n + k" by (auto simp: le_iff_add)
    then have "(cb_top b + cb_size b) mod length (cb_data b) =
        ((cb_top b + n) mod length (cb_data b) + (cb_size b - n)) mod length (cb_data b)"
      by (simp add: mod_simps add.assoc)
    then show ?thesis using d t sz tl by (simp add: cb_wf_def b'_def)
  qed
  have "cb_contents b' = drop len (cb_contents b)"
    by (rule nth_equalityI) (auto simp: cb_contents_def b'_def n_def mod_simps add.assoc min_def)
  with pop tk wf' show ?thesis by (simp add: n_def b'_def)
qed

text \<open>One pushed byte: appended while there is room, else it replaces the oldest.\<close>

lemma ring_index:
  assumes "t < m" and "i < (m::nat)"
  shows "(t + i) mod m = (if t + i < m then t + i else t + i - m)"
  using assms by (simp add: mod_if)

lemma buf_push_byte_spec:
  assumes "cb_wf b"
  shows "\<exists>b'. buf_push_byte b c = Some b' \<and> cb_wf b' \<and> cb_totalsize b' = cb_totalsize b \<and>
     cb_contents b' = (if cb_size b < cb_totalsize b then cb_contents b @ [c]
                       else tl (cb_contents b) @ [c])"
proof -
  define m where "m = cb_totalsize b"
  define t where "t = cb_top b"
  define s where "s = cb_size b"
  have m: "length (cb_data b) = m" "cb_end b = m" "cb_totalsize b = m" "0 < m" "s \<le> m" "t < m"
    and tail: "cb_tail b = (t + s) mod m"
    using assms by (auto simp: cb_wf_def m_def t_def s_def)
  have lt: "(t + s) mod m < m" using m by simp
  show ?thesis
  proof (cases "s < m")
    case True
    let ?b = "b\<lparr>cb_data := (cb_data b)[(t + s) mod m := c],
                cb_tail := cb_next m ((t + s) mod m), cb_size := s + 1\<rparr>"
    have "buf_push_byte b c = Some ?b"
      using m tail lt True by (simp add: buf_push_byte_def s_def Let_def)
    moreover have "cb_wf ?b"
      using m lt True by (simp add: cb_wf_def cb_next_mod t_def mod_simps)
    moreover have "cb_contents ?b = cb_contents b @ [c]"
      by (rule nth_equalityI)
        (use m True in \<open>auto simp: cb_contents_def nth_append nth_list_update ring_index
          t_def s_def less_Suc_eq split: if_splits\<close>)
    ultimately show ?thesis using True m by (simp add: s_def)
  next
    case False
    then have s: "s = m" using m by simp
    let ?b = "b\<lparr>cb_data := (cb_data b)[t := c], cb_tail := cb_next m t, cb_top := cb_next m t\<rparr>"
    have "buf_push_byte b c = Some ?b"
      using m tail s by (simp add: buf_push_byte_def s_def t_def Let_def)
    moreover have "cb_wf ?b"
      using m s by (simp add: cb_wf_def cb_next_mod s_def mod_simps)
    moreover have "cb_contents ?b = tl (cb_contents b) @ [c]"
    proof (rule nth_equalityI)
      fix i assume "i < length (cb_contents ?b)"
      then have i: "i < m" using s by (simp add: s_def)
      have idx: "(cb_next m t + i) mod m = (t + Suc i) mod m"
        using m by (simp add: cb_next_mod mod_simps)
      show "cb_contents ?b ! i = (tl (cb_contents b) @ [c]) ! i"
      proof (cases "Suc i < m")
        case True
        then have "(t + Suc i) mod m \<noteq> t"
          using ring_index [of t m "Suc i"] m(6) by (auto split: if_splits)
        moreover have "i < m - Suc 0" using True by simp
        ultimately show ?thesis using True i m s idx
          by (simp add: cb_contents_def nth_append nth_tl s_def t_def)
      next
        case False
        then have "Suc i = m" using i by simp
        moreover from this have "(t + Suc i) mod m = t" "\<not> i < m - Suc 0" using m by simp_all
        ultimately show ?thesis using i m s idx
          by (simp add: cb_contents_def nth_append s_def t_def)
      qed
    qed (use s m in \<open>simp add: s_def\<close>)
    ultimately show ?thesis using s m by (simp add: s_def)
  qed
qed

lemma buf_push_spec:
  assumes "cb_wf b" and "len \<le> length src"
  shows "\<exists>b'. buf_push b src len = Some (len, b') \<and> cb_wf b' \<and>
     cb_totalsize b' = cb_totalsize b \<and>
     cb_contents b' = (let all = cb_contents b @ take len src
                       in drop (length all - cb_totalsize b) all)"
proof -
  have "\<exists>b'. buf_push_loop b src len = Some b' \<and> cb_wf b' \<and>
     cb_totalsize b' = cb_totalsize b \<and>
     cb_contents b' = drop (cb_size b + len - cb_totalsize b) (cb_contents b @ take len src)"
    using assms
  proof (induction len arbitrary: b src)
    case 0
    then show ?case by (auto simp: cb_wf_def)
  next
    case (Suc n)
    then obtain c cs where src: "src = c # cs" by (cases src) auto
    obtain b1 where b1: "buf_push_byte b c = Some b1" "cb_wf b1"
        "cb_totalsize b1 = cb_totalsize b"
        "cb_contents b1 = (if cb_size b < cb_totalsize b then cb_contents b @ [c]
                           else tl (cb_contents b) @ [c])"
      using buf_push_byte_spec [OF Suc.prems(1), of c] by blast
    obtain b2 where b2: "buf_push_loop b1 cs n = Some b2" "cb_wf b2"
        "cb_totalsize b2 = cb_totalsize b1"
        "cb_contents b2 = drop (cb_size b1 + n - cb_totalsize b1) (cb_contents b1 @ take n cs)"
      using Suc.IH [OF b1(2), of cs] Suc.prems(2) src by auto
    have pos: "0 < cb_totalsize b" "cb_size b \<le> cb_totalsize b"
      using Suc.prems(1) by (auto simp: cb_wf_def)
    have sz1: "cb_size b1 = (if cb_size b < cb_totalsize b then cb_size b + 1 else cb_size b)"
      using arg_cong [OF b1(4), of length] pos by (auto split: if_splits)
    have "cb_contents b2 =
        drop (cb_size b + Suc n - cb_totalsize b) (cb_contents b @ take (Suc n) src)"
    proof (cases "cb_size b < cb_totalsize b")
      case True
      then show ?thesis using b1 b2 sz1 src by simp
    next
      case False
      then have full: "cb_size b = cb_totalsize b" using pos by simp
      then obtain x xs where xs: "cb_contents b = x # xs"
        using pos by (cases "cb_contents b") (metis length_cb_contents less_numeral_extra(3)
          list.size(3), blast)
      show ?thesis using b1 b2 sz1 src full xs by simp
    qed
    then show ?case using b1 b2 src by simp
  qed
  then show ?thesis using assms(2) by (auto simp: buf_push_def Let_def)
qed

section \<open>The queue interface\<close>

locale byte_ring =
  fixes push :: "'b \<Rightarrow> u8 list \<Rightarrow> 'b option"
    and pop :: "'b \<Rightarrow> nat \<Rightarrow> (u8 list \<times> 'b) option"
    and held :: "'b \<Rightarrow> u8 list"
    and cap :: "'b \<Rightarrow> nat"
    and ok :: "'b \<Rightarrow> bool"
  assumes push_law: "ok b \<Longrightarrow> \<exists>b'. push b xs = Some b' \<and> ok b' \<and> cap b' = cap b \<and>
      held b' = drop (length (held b) + length xs - cap b) (held b @ xs)"
    and pop_law: "ok b \<Longrightarrow> \<exists>b'. pop b n = Some (take n (held b), b') \<and> ok b' \<and>
      cap b' = cap b \<and> held b' = drop n (held b)"
    and bounded: "ok b \<Longrightarrow> length (held b) \<le> cap b"
begin

lemma push_fits:
  assumes "ok b" and "length (held b) + length xs \<le> cap b"
  shows "\<exists>b'. push b xs = Some b' \<and> ok b' \<and> cap b' = cap b \<and> held b' = held b @ xs"
  using push_law [OF assms(1), of xs] assms(2) by auto

text \<open>First in, first out: what fits behind the queued bytes comes out after them.\<close>

lemma fifo:
  assumes "ok b" and "length (held b) + length xs \<le> cap b"
  shows "\<exists>b1 b2 b3. push b xs = Some b1 \<and> pop b1 (length (held b)) = Some (held b, b2) \<and>
     pop b2 (length xs) = Some (xs, b3) \<and> ok b3 \<and> held b3 = []"
proof -
  obtain b1 where b1: "push b xs = Some b1" "ok b1" "held b1 = held b @ xs"
    using push_fits [OF assms] by blast
  obtain b2 where b2: "pop b1 (length (held b)) = Some (held b, b2)" "ok b2" "held b2 = xs"
    using pop_law [OF b1(2), of "length (held b)"] b1(3) by auto
  obtain b3 where "pop b2 (length xs) = Some (xs, b3)" "ok b3" "held b3 = []"
    using pop_law [OF b2(2), of "length xs"] b2(3) by auto
  with b1 b2 show ?thesis by blast
qed

text \<open>Too many bytes: the ring keeps the newest \<open>cap b\<close> of them.\<close>

lemma push_overrun:
  assumes "ok b" and "cap b \<le> length xs"
  shows "\<exists>b'. push b xs = Some b' \<and> ok b' \<and> held b' = drop (length xs - cap b) xs"
  using push_law [OF assms(1), of xs] assms(2) by auto

end

interpretation cb: byte_ring
  "\<lambda>b xs. map_option snd (buf_push b xs (length xs))"
  "\<lambda>b n. map_option (\<lambda>(dest, _, b'). (dest, b')) (buf_pop b n)"
  cb_contents cb_totalsize cb_wf
proof
  fix b xs assume "cb_wf b"
  from buf_push_spec [OF this, of "length xs" xs]
  show "\<exists>b'. map_option snd (buf_push b xs (length xs)) = Some b' \<and> cb_wf b' \<and>
      cb_totalsize b' = cb_totalsize b \<and> cb_contents b' =
      drop (length (cb_contents b) + length xs - cb_totalsize b) (cb_contents b @ xs)"
    by (auto simp: Let_def)
next
  fix b n assume "cb_wf b"
  from buf_pop_spec [OF this, of n]
  show "\<exists>b'. map_option (\<lambda>(dest, _, b'). (dest, b')) (buf_pop b n) =
      Some (take n (cb_contents b), b') \<and> cb_wf b' \<and> cb_totalsize b' = cb_totalsize b \<and>
      cb_contents b' = drop n (cb_contents b)"
    by auto
next
  fix b assume "cb_wf b"
  then show "length (cb_contents b) \<le> cb_totalsize b" by (simp add: cb_wf_def)
qed

section \<open>Histories of pushes and pops\<close>

datatype ring_op = Push "u8 list" | Pop nat

fun ring_run :: "circbuf_t \<Rightarrow> ring_op list \<Rightarrow> (u8 list list \<times> circbuf_t) option" where
  "ring_run b [] = Some ([], b)"
| "ring_run b (Push xs # ops) =
     do { (_, b') \<leftarrow> buf_push b xs (length xs); ring_run b' ops }"
| "ring_run b (Pop n # ops) =
     do { (out, _, b') \<leftarrow> buf_pop b n;
          (outs, b'') \<leftarrow> ring_run b' ops;
          Some (out # outs, b'') }"

text \<open>The abstract queue keeps the newest \<open>m\<close> bytes.\<close>

fun queue_run :: "nat \<Rightarrow> u8 list \<Rightarrow> ring_op list \<Rightarrow> u8 list list \<times> u8 list" where
  "queue_run m q [] = ([], q)"
| "queue_run m q (Push xs # ops) =
     (let all = q @ xs in queue_run m (drop (length all - m) all) ops)"
| "queue_run m q (Pop n # ops) =
     (let (outs, q') = queue_run m (drop n q) ops in (take n q # outs, q'))"

lemma ring_run_refines:
  assumes "cb_wf b"
  shows "\<exists>b'. ring_run b ops =
      Some (fst (queue_run (cb_totalsize b) (cb_contents b) ops), b') \<and> cb_wf b' \<and>
      cb_contents b' = snd (queue_run (cb_totalsize b) (cb_contents b) ops)"
  using assms
proof (induction ops arbitrary: b)
  case (Cons op ops)
  show ?case
  proof (cases op)
    case (Push xs)
    obtain b1 where b1: "buf_push b xs (length xs) = Some (length xs, b1)" "cb_wf b1"
        "cb_totalsize b1 = cb_totalsize b" "cb_contents b1 =
          (let all = cb_contents b @ xs in drop (length all - cb_totalsize b) all)"
      using buf_push_spec [OF Cons.prems, of "length xs" xs] by auto
    show ?thesis using Cons.IH [OF b1(2)] b1 Push by (simp add: Let_def)
  next
    case (Pop n)
    obtain b1 where b1: "buf_pop b n = Some (take n (cb_contents b), min n (cb_size b), b1)"
        "cb_wf b1" "cb_totalsize b1 = cb_totalsize b" "cb_contents b1 = drop n (cb_contents b)"
      using buf_pop_spec [OF Cons.prems] by blast
    obtain b2 where "ring_run b1 ops =
          Some (fst (queue_run (cb_totalsize b1) (cb_contents b1) ops), b2)"
        "cb_wf b2" "cb_contents b2 = snd (queue_run (cb_totalsize b1) (cb_contents b1) ops)"
      using Cons.IH [OF b1(2)] by blast
    then show ?thesis using b1 Pop by (auto simp: case_prod_beta)
  qed
qed simp

text \<open>C40: a circular buffer set up by \<open>buf_init\<close> over \<open>n > 0\<close> bytes behaves, in every history
  of pushes and pops, as the queue that keeps the newest \<open>n\<close> bytes: no access leaves the
  buffer, every pop returns what the queue returns and the bytes left are the queue's.\<close>

theorem circbuf_refines_queue:
  assumes "0 < n" and "length d = n"
  shows "\<exists>b b'. buf_init (Some d) n = Some (1, b) \<and>
     ring_run b ops = Some (fst (queue_run n [] ops), b') \<and>
     cb_contents b' = snd (queue_run n [] ops)"
proof -
  obtain b where "buf_init (Some d) n = Some (1, b)" "cb_wf b" "cb_contents b = []"
      "cb_totalsize b = n"
    using buf_init_wf [OF assms(2,1)] by blast
  with ring_run_refines [of b ops] show ?thesis by auto
qed

theorem circbuf_refines_queue_witness:
  "\<exists>b b'. buf_init (Some [0, 0, 0]) 3 = Some (1, b) \<and>
     ring_run b [Push [1, 2], Pop 1, Push [3, 4, 5], Pop 9] = Some ([[1], [3, 4, 5]], b') \<and>
     cb_contents b' = []"
  using circbuf_refines_queue [of 3 "[0, 0, 0]" "[Push [1, 2], Pop 1, Push [3, 4, 5], Pop 9]"]
  by (simp add: Let_def)

text \<open>first in, first out: bytes pushed into the free space of a ring come out unchanged and
  in order behind the bytes that were already queued.\<close>

lemma circbuf_fifo:
  assumes "cb_wf b" and "cb_size b + length xs \<le> cb_totalsize b"
  shows "\<exists>b1 b2 b3 k1 k2. map_option snd (buf_push b xs (length xs)) = Some b1 \<and>
     buf_pop b1 (cb_size b) = Some (cb_contents b, k1, b2) \<and>
     buf_pop b2 (length xs) = Some (xs, k2, b3) \<and> cb_wf b3 \<and> cb_contents b3 = []"
  using cb.fifo [of b xs] assms by fastforce

lemma circbuf_fifo_witness:
  "\<exists>b1 b2 b3 k1 k2 b. cb_contents b = [7] \<and>
     map_option snd (buf_push b [1, 2] (length [1, 2 :: u8])) = Some b1 \<and>
     buf_pop b1 (cb_size b) = Some (cb_contents b, k1, b2) \<and>
     buf_pop b2 (length [1, 2 :: u8]) = Some ([1, 2], k2, b3) \<and> cb_wf b3 \<and> cb_contents b3 = []"
proof -
  let ?b = "\<lparr>cb_size = 1, cb_totalsize = 3, cb_data = [0, 0, 7 :: u8],
              cb_top = 2, cb_tail = 0, cb_end = 3\<rparr>"
  have "cb_wf ?b" "cb_size ?b + length [1, 2 :: u8] \<le> cb_totalsize ?b" "cb_contents ?b = [7]"
    by (simp_all add: cb_wf_def cb_contents_def)
  then show ?thesis using circbuf_fifo [of ?b "[1, 2]"] by blast
qed

end
