(* ===== verification/NandEcc.thy ===== *)
theory NandEcc
  imports Prelude
begin

unbundle bit_operations_syntax

text \<open>
  The Hamming code of \<open>drivers/mtd/nand/nand_ecc.c\<close>: three bytes of ECC for a block of 256
  bytes, correction of one flipped bit and detection of two.  \<open>smc\<close> is the build option
  \<open>CONFIG_MTD_NAND_ECC_SMC\<close> that swaps the first two ECC bytes; the error return
  \<open>-EBADMSG\<close> is \<open>Inl EBADMSG\<close>.
\<close>

section \<open>The code\<close>

definition nand_ecc_precalc_table :: "u8 list" where
  "nand_ecc_precalc_table = [
   0x00, 0x55, 0x56, 0x03, 0x59, 0x0c, 0x0f, 0x5a, 0x5a, 0x0f, 0x0c, 0x59, 0x03, 0x56, 0x55, 0x00,
   0x65, 0x30, 0x33, 0x66, 0x3c, 0x69, 0x6a, 0x3f, 0x3f, 0x6a, 0x69, 0x3c, 0x66, 0x33, 0x30, 0x65,
   0x66, 0x33, 0x30, 0x65, 0x3f, 0x6a, 0x69, 0x3c, 0x3c, 0x69, 0x6a, 0x3f, 0x65, 0x30, 0x33, 0x66,
   0x03, 0x56, 0x55, 0x00, 0x5a, 0x0f, 0x0c, 0x59, 0x59, 0x0c, 0x0f, 0x5a, 0x00, 0x55, 0x56, 0x03,
   0x69, 0x3c, 0x3f, 0x6a, 0x30, 0x65, 0x66, 0x33, 0x33, 0x66, 0x65, 0x30, 0x6a, 0x3f, 0x3c, 0x69,
   0x0c, 0x59, 0x5a, 0x0f, 0x55, 0x00, 0x03, 0x56, 0x56, 0x03, 0x00, 0x55, 0x0f, 0x5a, 0x59, 0x0c,
   0x0f, 0x5a, 0x59, 0x0c, 0x56, 0x03, 0x00, 0x55, 0x55, 0x00, 0x03, 0x56, 0x0c, 0x59, 0x5a, 0x0f,
   0x6a, 0x3f, 0x3c, 0x69, 0x33, 0x66, 0x65, 0x30, 0x30, 0x65, 0x66, 0x33, 0x69, 0x3c, 0x3f, 0x6a,
   0x6a, 0x3f, 0x3c, 0x69, 0x33, 0x66, 0x65, 0x30, 0x30, 0x65, 0x66, 0x33, 0x69, 0x3c, 0x3f, 0x6a,
   0x0f, 0x5a, 0x59, 0x0c, 0x56, 0x03, 0x00, 0x55, 0x55, 0x00, 0x03, 0x56, 0x0c, 0x59, 0x5a, 0x0f,
   0x0c, 0x59, 0x5a, 0x0f, 0x55, 0x00, 0x03, 0x56, 0x56, 0x03, 0x00, 0x55, 0x0f, 0x5a, 0x59, 0x0c,
   0x69, 0x3c, 0x3f, 0x6a, 0x30, 0x65, 0x66, 0x33, 0x33, 0x66, 0x65, 0x30, 0x6a, 0x3f, 0x3c, 0x69,
   0x03, 0x56, 0x55, 0x00, 0x5a, 0x0f, 0x0c, 0x59, 0x59, 0x0c, 0x0f, 0x5a, 0x00, 0x55, 0x56, 0x03,
   0x66, 0x33, 0x30, 0x65, 0x3f, 0x6a, 0x69, 0x3c, 0x3c, 0x69, 0x6a, 0x3f, 0x65, 0x30, 0x33, 0x66,
   0x65, 0x30, 0x33, 0x66, 0x3c, 0x69, 0x6a, 0x3f, 0x3f, 0x6a, 0x69, 0x3c, 0x66, 0x33, 0x30, 0x65,
   0x00, 0x55, 0x56, 0x03, 0x59, 0x0c, 0x0f, 0x5a, 0x5a, 0x0f, 0x0c, 0x59, 0x03, 0x56, 0x55, 0x00]"

text \<open>The loop over the 256 bytes: column parity in \<open>reg1\<close>, line parity in \<open>reg3\<close> and
  \<open>reg2\<close>; \<open>n\<close> counts the turns left and \<open>i\<close> is the loop index.\<close>

definition ecc_step :: "nat \<Rightarrow> u8 \<Rightarrow> u8 \<times> u8 \<times> u8 \<Rightarrow> u8 \<times> u8 \<times> u8" where
  "ecc_step i x = (\<lambda>(reg1, reg2, reg3).
     let idx = nand_ecc_precalc_table ! unat x;
         reg1 = reg1 XOR (idx AND 0x3f)
     in if idx AND 0x40 \<noteq> 0
        then (reg1, reg2 XOR NOT (of_nat i), reg3 XOR of_nat i)
        else (reg1, reg2, reg3))"

fun ecc_loop :: "nat \<Rightarrow> nat \<Rightarrow> u8 list \<Rightarrow> u8 \<times> u8 \<times> u8 \<Rightarrow> (u8 \<times> u8 \<times> u8) option" where
  "ecc_loop 0 i dat r = Some r"
| "ecc_loop (Suc n) i dat r = do { x \<leftarrow> rd dat i; ecc_loop n (Suc i) dat (ecc_step i x r) }"

definition ecc_tmp1 :: "u8 \<Rightarrow> u8 \<Rightarrow> u8" where
  "ecc_tmp1 reg2 reg3 =
     drop_bit 0 (reg3 AND 0x80) OR drop_bit 1 (reg2 AND 0x80) OR
     drop_bit 1 (reg3 AND 0x40) OR drop_bit 2 (reg2 AND 0x40) OR
     drop_bit 2 (reg3 AND 0x20) OR drop_bit 3 (reg2 AND 0x20) OR
     drop_bit 3 (reg3 AND 0x10) OR drop_bit 4 (reg2 AND 0x10)"

definition ecc_tmp2 :: "u8 \<Rightarrow> u8 \<Rightarrow> u8" where
  "ecc_tmp2 reg2 reg3 =
     push_bit 4 (reg3 AND 0x08) OR push_bit 3 (reg2 AND 0x08) OR
     push_bit 3 (reg3 AND 0x04) OR push_bit 2 (reg2 AND 0x04) OR
     push_bit 2 (reg3 AND 0x02) OR push_bit 1 (reg2 AND 0x02) OR
     push_bit 1 (reg3 AND 0x01) OR push_bit 0 (reg2 AND 0x01)"

definition nand_calculate_ecc :: "bool \<Rightarrow> u8 list \<Rightarrow> (u8 \<times> u8 \<times> u8) option" where
  "nand_calculate_ecc smc dat =
     do { (reg1, reg2, reg3) \<leftarrow> ecc_loop 256 0 dat (0, 0, 0);
          let tmp1 = ecc_tmp1 reg2 reg3;
          let tmp2 = ecc_tmp2 reg2 reg3;
          let ecc2 = push_bit 2 (NOT reg1) OR 0x03;
          Some (if smc then (NOT tmp2, NOT tmp1, ecc2) else (NOT tmp1, NOT tmp2, ecc2)) }"

text \<open>\<open>countbits\<close> loops while the word is not zero; 32 shifts are enough.\<close>

function countbits :: "u32 \<Rightarrow> nat" where
  "countbits byte = (if byte = 0 then 0 else unat (byte AND 0x01) + countbits (drop_bit 1 byte))"
  by pat_completeness auto
termination
proof (relation "measure unat")
  fix byte :: u32
  assume "byte \<noteq> 0"
  then show "(drop_bit 1 byte, byte) \<in> measure unat"
    by (simp add: drop_bit_eq_div unat_div unat_gt_0)
qed simp

declare countbits.simps [simp del]

datatype ecc_error = EBADMSG

definition byteoffs :: "u8 \<Rightarrow> u8 \<Rightarrow> u32" where
  "byteoffs s0 s1 = (let s0 = ucast s0; s1 = ucast s1 in
     (push_bit 0 s1 AND 0x80) OR (push_bit 1 s1 AND 0x40) OR
     (push_bit 2 s1 AND 0x20) OR (push_bit 3 s1 AND 0x10) OR
     (drop_bit 4 s0 AND 0x08) OR (drop_bit 3 s0 AND 0x04) OR
     (drop_bit 2 s0 AND 0x02) OR (drop_bit 1 s0 AND 0x01))"

definition bitnum :: "u8 \<Rightarrow> u32" where
  "bitnum s2 = (let s2 = ucast s2 in
     (drop_bit 5 s2 AND 0x04) OR (drop_bit 4 s2 AND 0x02) OR (drop_bit 3 s2 AND 0x01))"

text \<open>\<open>nand_correct_data\<close> returns its result code and the data block after the call;
  \<open>ecc_apply_syndrome\<close> is its part after the three syndrome bytes are computed.\<close>

definition ecc_apply_syndrome ::
  "u8 list \<Rightarrow> u8 \<Rightarrow> u8 \<Rightarrow> u8 \<Rightarrow> ((ecc_error + nat) \<times> u8 list) option" where
  "ecc_apply_syndrome dat s0 s1 s2 =
     (if s0 OR s1 OR s2 = 0 then Some (Inr 0, dat)
      else if (s0 XOR drop_bit 1 s0) AND 0x55 = 0x55 \<and>
              (s1 XOR drop_bit 1 s1) AND 0x55 = 0x55 \<and>
              (s2 XOR drop_bit 1 s2) AND 0x54 = 0x54
      then do { x \<leftarrow> rd dat (unat (byteoffs s0 s1));
                dat' \<leftarrow> wr dat (unat (byteoffs s0 s1))
                         (x XOR ucast (push_bit (unat (bitnum s2)) (1 :: u32)));
                Some (Inr 1, dat') }
      else if countbits (ucast s0 OR push_bit 8 (ucast s1) OR push_bit 16 (ucast s2)) = 1
      then Some (Inr 1, dat)
      else Some (Inl EBADMSG, dat))"

definition nand_correct_data ::
  "bool \<Rightarrow> u8 list \<Rightarrow> u8 \<times> u8 \<times> u8 \<Rightarrow> u8 \<times> u8 \<times> u8 \<Rightarrow> ((ecc_error + nat) \<times> u8 list) option" where
  "nand_correct_data smc dat read_ecc calc_ecc =
     (let (r0, r1, r2) = read_ecc; (c0, c1, c2) = calc_ecc;
          (s0, s1) = (if smc then (c0 XOR r0, c1 XOR r1) else (c1 XOR r1, c0 XOR r0));
          s2 = c2 XOR r2
      in ecc_apply_syndrome dat s0 s1 s2)"

section \<open>Linearity\<close>

text \<open>The table is the linear map that sends bit \<open>b\<close> of the index to \<open>column_code ! b\<close>.\<close>

definition column_code :: "u8 list" where
  "column_code = [0x55, 0x56, 0x59, 0x5a, 0x65, 0x66, 0x69, 0x6a]"

fun lin_table :: "u8 list \<Rightarrow> u8 list" where
  "lin_table [] = [0]"
| "lin_table (c # cs) = concat (map (\<lambda>v. [v, v XOR c]) (lin_table cs))"

fun lin :: "u8 list \<Rightarrow> nat \<Rightarrow> u8" where
  "lin [] x = 0"
| "lin (c # cs) x = lin cs (x div 2) XOR (if odd x then c else 0)"

lemma table_is_linear: "nand_ecc_precalc_table = lin_table column_code"
  by (simp add: nand_ecc_precalc_table_def column_code_def)

lemma length_concat_pairs: "length (concat (map (\<lambda>v. [f v, g v]) xs)) = 2 * length xs"
  by (induction xs) auto

lemma nth_concat_pairs:
  "i < 2 * length xs \<Longrightarrow>
   concat (map (\<lambda>v. [f v, g v]) xs) ! i = (if odd i then g (xs ! (i div 2)) else f (xs ! (i div 2)))"
proof (induction xs arbitrary: i)
  case (Cons x xs)
  show ?case
  proof (cases "i < 2")
    case True
    then show ?thesis by (cases i) (auto simp: less_Suc_eq)
  next
    case False
    then obtain j where "i = Suc (Suc j)" by (metis add_2_eq_Suc le_add_diff_inverse not_less)
    with Cons show ?thesis by simp
  qed
qed simp

lemma length_lin_table: "length (lin_table cs) = 2 ^ length cs"
  by (induction cs) (auto simp: length_concat_pairs)

lemma nth_lin_table: "x < 2 ^ length cs \<Longrightarrow> lin_table cs ! x = lin cs x"
proof (induction cs arbitrary: x)
  case (Cons c cs)
  then have "x div 2 < 2 ^ length cs" by (simp add: less_mult_imp_div_less mult.commute)
  with Cons show ?case by (simp add: nth_concat_pairs length_lin_table)
qed simp

lemma table_lin: "nand_ecc_precalc_table ! unat (x :: u8) = lin column_code (unat x)"
proof -
  have "unat x < 2 ^ length column_code"
    using unsigned_less [of x] by (simp add: column_code_def)
  then show ?thesis by (simp add: table_is_linear nth_lin_table)
qed

lemma lin_flip:
  "b < length cs \<Longrightarrow> lin cs (x XOR 2 ^ b) = lin cs x XOR cs ! b"
proof (induction cs arbitrary: x b)
  case (Cons c cs)
  show ?case
  proof (cases b)
    case 0
    have "(x XOR 1) div 2 = x div 2" by (subst xor_rec) simp
    with 0 show ?thesis by (simp add: even_xor_iff ac_simps)
  next
    case (Suc b')
    have "(x XOR 2 ^ b) div 2 = (x div 2) XOR 2 ^ b'"
      using Suc by (subst xor_rec) simp
    moreover have "lin cs ((x div 2) XOR 2 ^ b') = lin cs (x div 2) XOR cs ! b'"
      using Cons Suc by simp
    ultimately show ?thesis using Suc by (simp add: even_xor_iff ac_simps)
  qed
qed simp

lemma table_flip:
  assumes "b < 8"
  shows "nand_ecc_precalc_table ! unat ((x :: u8) XOR 2 ^ b) =
         nand_ecc_precalc_table ! unat x XOR column_code ! b"
proof -
  have "unat ((2 :: u8) ^ b) = 2 ^ b"
    using assms by (auto simp: less_8_iff)
  then have "unat (x XOR 2 ^ b) = unat x XOR 2 ^ b" by (simp add: unsigned_xor_eq)
  moreover have "b < length column_code" using assms by (simp add: column_code_def)
  ultimately have "lin column_code (unat (x XOR 2 ^ b)) =
      lin column_code (unat x) XOR column_code ! b"
    by (simp add: lin_flip)
  then show ?thesis by (simp only: table_lin)
qed

lemma column_code_parity: "b < 8 \<Longrightarrow> column_code ! b AND 0x40 = 0x40"
  by (auto simp: column_code_def less_8_iff)

text \<open>The registers after a loop whose byte \<open>k\<close> has bit \<open>b\<close> flipped.\<close>

definition xor3 :: "u8 \<times> u8 \<times> u8 \<Rightarrow> u8 \<times> u8 \<times> u8 \<Rightarrow> u8 \<times> u8 \<times> u8" where
  "xor3 r s = (case r of (a, b, c) \<Rightarrow> case s of (x, y, z) \<Rightarrow> (a XOR x, b XOR y, c XOR z))"

lemma ecc_step_xor3: "ecc_step i x (xor3 r s) = xor3 (ecc_step i x r) s"
  by (cases r; cases s) (simp add: ecc_step_def xor3_def Let_def ac_simps)

lemma ecc_loop_xor3: "ecc_loop n i dat (xor3 r s) = map_option (\<lambda>q. xor3 q s) (ecc_loop n i dat r)"
  by (induction n arbitrary: i r) (auto simp: ecc_step_xor3 rd_def)

definition flip_syndrome :: "nat \<Rightarrow> nat \<Rightarrow> u8 \<times> u8 \<times> u8" where
  "flip_syndrome k b = (column_code ! b AND 0x3f, NOT (of_nat k), of_nat k)"

lemma and_0x40: "(v :: u8) AND 0x40 = 0 \<longleftrightarrow> \<not> bit v 6"
  using and_exp_eq_0_iff_not_bit [of v 6] by simp

lemma parity_bit_flip:
  assumes "(c :: u8) AND 0x40 = 0x40"
  shows "((v XOR c) AND 0x40 \<noteq> 0) \<longleftrightarrow> (v AND 0x40 = 0)"
proof -
  have "c AND 0x40 \<noteq> 0" using assms by simp
  then show ?thesis by (simp add: and_0x40 bit_xor_iff)
qed

lemma ecc_step_flip:
  assumes "b < 8"
  shows "ecc_step k (x XOR 2 ^ b) r = xor3 (ecc_step k x r) (flip_syndrome k b)"
proof -
  let ?v = "nand_ecc_precalc_table ! unat x"
  have "(?v XOR column_code ! b) AND 0x3f = (?v AND 0x3f) XOR (column_code ! b AND 0x3f)"
    by (simp add: bit.conj_xor_distrib2)
  then show ?thesis
    using table_flip [OF assms, of x] parity_bit_flip [OF column_code_parity [OF assms], of ?v]
    by (cases r) (simp add: ecc_step_def xor3_def flip_syndrome_def Let_def ac_simps)
qed

lemma ecc_loop_skip: "k < i \<Longrightarrow> ecc_loop n i (dat[k := x]) r = ecc_loop n i dat r"
  by (induction n arbitrary: i r) (auto simp: rd_def)

lemma ecc_loop_flip:
  assumes "b < 8" and "i \<le> k" and "k < i + n" and "i + n \<le> length dat"
  shows "ecc_loop n i (dat[k := dat ! k XOR 2 ^ b]) r =
         map_option (\<lambda>q. xor3 q (flip_syndrome k b)) (ecc_loop n i dat r)"
  using assms(2-4)
proof (induction n arbitrary: i r)
  case (Suc n)
  show ?case
  proof (cases "i = k")
    case True
    with Suc.prems show ?thesis
      by (simp add: ecc_loop_skip ecc_step_flip [OF assms(1)] ecc_loop_xor3)
  next
    case False
    with Suc show ?thesis by simp
  qed
qed simp

lemma ecc_loop_total: "i + n \<le> length dat \<Longrightarrow> \<exists>q. ecc_loop n i dat r = Some q"
  by (induction n arbitrary: i r) auto

section \<open>The syndrome, bit by bit\<close>

text \<open>Bits \<open>2n\<close> and \<open>2n + 1\<close> of a syndrome byte are one pair: the parity of the lines whose
  index bit is 0 and of those whose index bit is 1.\<close>

lemma bit_ecc_tmp1:
  "n < 8 \<Longrightarrow> bit (ecc_tmp1 a b) n = (if odd n then bit b (4 + n div 2) else bit a (4 + n div 2))"
  by (simp only: less_8_iff, elim insertE emptyE; simp only:; simp add: ecc_tmp1_def bit_ops)

lemma bit_ecc_tmp2:
  "n < 8 \<Longrightarrow> bit (ecc_tmp2 a b) n = (if odd n then bit b (n div 2) else bit a (n div 2))"
  by (simp only: less_8_iff, elim insertE emptyE; simp only:; simp add: ecc_tmp2_def bit_ops)

lemma bit_ecc2:
  "n < 8 \<Longrightarrow> bit (push_bit 2 (NOT reg1) OR 0x03 :: u8) n = (n < 2 \<or> \<not> bit reg1 (n - 2))"
  by (simp only: less_8_iff, elim insertE emptyE; simp only:; simp add: bit_ops)

lemma bit_byteoffs:
  "n < 32 \<Longrightarrow> bit (byteoffs a b) n \<longleftrightarrow>
     n < 8 \<and> (if n < 4 then bit a (2 * n + 1) else bit b (2 * n - 7))"
  by (simp only: less_32_iff less_8_iff, elim insertE emptyE disjE; simp only:;
      simp add: byteoffs_def Let_def bit_ops)

lemma bit_bitnum: "n < 32 \<Longrightarrow> bit (bitnum a) n \<longleftrightarrow> n < 3 \<and> bit a (2 * n + 3)"
  by (simp only: less_32_iff less_8_iff, elim insertE emptyE disjE; simp only:;
      simp add: bitnum_def Let_def bit_ops)

definition pair_differs :: "u8 \<Rightarrow> nat \<Rightarrow> bool" where
  "pair_differs s n \<longleftrightarrow> bit s (2 * n) \<noteq> bit s (2 * n + 1)"

lemma check55:
  "((s :: u8) XOR drop_bit 1 s) AND 0x55 = 0x55 \<longleftrightarrow> (\<forall>n<4. pair_differs s n)" (is "?l \<longleftrightarrow> ?r")
proof
  assume ?l
  from arg_cong [OF this, of "\<lambda>x. (bit x 0, bit x 2, bit x 4, bit x 6)"]
  have "bit s 0 \<noteq> bit s 1" "bit s 2 \<noteq> bit s 3" "bit s 4 \<noteq> bit s 5" "bit s 6 \<noteq> bit s 7"
    by (simp_all add: bit_ops flip: numeral_3_eq_3)
  then show ?r by (simp only: less_4_iff pair_differs_def) (auto simp flip: numeral_3_eq_3)
next
  assume r: ?r
  have "bit s 0 \<noteq> bit s 1" "bit s 2 \<noteq> bit s 3" "bit s 4 \<noteq> bit s 5" "bit s 6 \<noteq> bit s 7"
    using r [rule_format, of 0] r [rule_format, of 1] r [rule_format, of 2] r [rule_format, of 3]
    by (simp_all add: pair_differs_def)
  then have "n < 8 \<Longrightarrow> bit ((s XOR drop_bit 1 s) AND 0x55) n = bit (0x55 :: u8) n" for n
    by (simp only: less_8_iff, elim insertE emptyE) (simp_all add: bit_ops numeral_3_eq_3)
  then show ?l by (intro bit_word_eqI) simp
qed

lemma check54:
  "((s :: u8) XOR drop_bit 1 s) AND 0x54 = 0x54 \<longleftrightarrow> (\<forall>n\<in>{1, 2, 3}. pair_differs s n)" (is "?l \<longleftrightarrow> ?r")
proof
  assume ?l
  from arg_cong [OF this, of "\<lambda>x. (bit x 2, bit x 4, bit x 6)"]
  have "bit s 2 \<noteq> bit s 3" "bit s 4 \<noteq> bit s 5" "bit s 6 \<noteq> bit s 7"
    by (simp_all add: bit_ops flip: numeral_3_eq_3)
  then show ?r by (auto simp: pair_differs_def simp flip: numeral_3_eq_3)
next
  assume r: ?r
  have "bit s 2 \<noteq> bit s 3" "bit s 4 \<noteq> bit s 5" "bit s 6 \<noteq> bit s 7"
    using r by (simp_all add: pair_differs_def)
  then have "n < 8 \<Longrightarrow> bit ((s XOR drop_bit 1 s) AND 0x54) n = bit (0x54 :: u8) n" for n
    by (simp only: less_8_iff, elim insertE emptyE) (simp_all add: bit_ops numeral_3_eq_3)
  then show ?l by (intro bit_word_eqI) simp
qed

text \<open>The ECC bytes of two register triples differ by the ECC pattern of their difference.\<close>

definition ecc_of_regs :: "bool \<Rightarrow> u8 \<times> u8 \<times> u8 \<Rightarrow> u8 \<times> u8 \<times> u8" where
  "ecc_of_regs smc r = (case r of (reg1, reg2, reg3) \<Rightarrow>
     let tmp1 = ecc_tmp1 reg2 reg3; tmp2 = ecc_tmp2 reg2 reg3;
         ecc2 = push_bit 2 (NOT reg1) OR 0x03
     in if smc then (NOT tmp2, NOT tmp1, ecc2) else (NOT tmp1, NOT tmp2, ecc2))"

lemma nand_calculate_ecc_regs:
  "nand_calculate_ecc smc dat = map_option (ecc_of_regs smc) (ecc_loop 256 0 dat (0, 0, 0))"
  by (cases "ecc_loop 256 0 dat (0, 0, 0)")
    (auto simp: nand_calculate_ecc_def ecc_of_regs_def Let_def)

lemma ecc_tmp1_diff: "ecc_tmp1 (a XOR x) (b XOR y) XOR ecc_tmp1 a b = ecc_tmp1 x y"
  by (rule bit_word_eqI) (auto simp: bit_ecc_tmp1 bit_xor_iff bit_not_iff)

lemma ecc_tmp2_diff: "ecc_tmp2 (a XOR x) (b XOR y) XOR ecc_tmp2 a b = ecc_tmp2 x y"
  by (rule bit_word_eqI) (auto simp: bit_ecc_tmp2 bit_xor_iff bit_not_iff)

lemma ecc2_diff:
  "(push_bit 2 (NOT (a XOR x)) OR 0x03 :: u8) XOR (push_bit 2 (NOT a) OR 0x03) = push_bit 2 x"
  by (rule bit_word_eqI) (auto simp: bit_ecc2 bit_xor_iff bit_push_bit_iff)

lemma nand_correct_regs:
  "nand_correct_data smc dat (ecc_of_regs smc r) (ecc_of_regs smc (xor3 r (d1, d2, d3))) =
     ecc_apply_syndrome dat (ecc_tmp2 d2 d3) (ecc_tmp1 d2 d3) (push_bit 2 d1)"
  by (cases r) (simp add: nand_correct_data_def ecc_of_regs_def xor3_def Let_def
      ecc_tmp1_diff ecc_tmp2_diff ecc2_diff)

lemma bit_column_code:
  assumes "b < 8" and "n < 8"
  shows "bit (push_bit 2 (column_code ! b AND 0x3f)) n \<longleftrightarrow>
     2 \<le> n \<and> (if odd n then bit b ((n - 2) div 2) else \<not> bit b ((n - 2) div 2))"
proof -
  have "list_all (\<lambda>b. list_all (\<lambda>n. bit (push_bit 2 (column_code ! b AND 0x3f)) n =
     (2 \<le> n \<and> (if odd n then bit b ((n - 2) div 2) else \<not> bit b ((n - 2) div 2)))) [0..<8]) [0..<8]"
    by code_simp
  then show ?thesis using assms by (simp add: list_all_iff)
qed

section \<open>One flipped bit\<close>

lemma unat_byteoffs_single:
  assumes "k < 256"
  shows "unat (byteoffs (ecc_tmp2 (NOT (of_nat k)) (of_nat k)) (ecc_tmp1 (NOT (of_nat k)) (of_nat k))) = k"
proof -
  have "byteoffs (ecc_tmp2 (NOT (of_nat k)) (of_nat k)) (ecc_tmp1 (NOT (of_nat k)) (of_nat k)) =
      ucast (of_nat k :: u8)"
  proof (rule bit_word_eqI)
    fix n assume "n < LENGTH(32)"
    then have n: "n < 32" by simp
    have "bit (ecc_tmp1 (NOT (of_nat k)) (of_nat k)) (2 * n - 7) = bit (of_nat k :: u8) n"
      if "\<not> n < 4" "n < 8"
      using that by (simp only: less_8_iff, elim insertE emptyE) (simp_all add: bit_ecc_tmp1)
    moreover have "\<not> bit (of_nat k :: u8) n" if "\<not> n < 8"
      using that by (auto dest: bit_imp_le_length)
    ultimately show "bit (byteoffs (ecc_tmp2 (NOT (of_nat k)) (of_nat k))
        (ecc_tmp1 (NOT (of_nat k)) (of_nat k))) n = bit (ucast (of_nat k :: u8) :: u32) n"
      using n by (cases "n < 8") (auto simp: bit_byteoffs bit_ecc_tmp2 bit_unsigned_iff)
  qed
  then show ?thesis using assms by (simp add: unsigned_ucast_eq unsigned_of_nat take_bit_nat_eq_self)
qed

lemma unat_bitnum_single:
  assumes "b < 8"
  shows "unat (bitnum (push_bit 2 (column_code ! b AND 0x3f))) = b"
proof -
  have "list_all (\<lambda>b. unat (bitnum (push_bit 2 (column_code ! b AND 0x3f))) = b) [0..<8]"
    by code_simp
  then show ?thesis using assms by (simp add: list_all_iff)
qed

lemma single_passes_checks:
  shows "\<forall>n<4. pair_differs (ecc_tmp2 (NOT x) x) n"
    and "\<forall>n<4. pair_differs (ecc_tmp1 (NOT x) x) n"
    and "b < 8 \<Longrightarrow> \<forall>n\<in>{1, 2, 3}. pair_differs (push_bit 2 (column_code ! b AND 0x3f)) n"
proof -
  show "\<forall>n<4. pair_differs (ecc_tmp2 (NOT x) x) n"
    by (simp add: pair_differs_def bit_ecc_tmp2 bit_not_iff)
  show "\<forall>n<4. pair_differs (ecc_tmp1 (NOT x) x) n"
    by (simp add: pair_differs_def bit_ecc_tmp1 bit_not_iff)
  assume b: "b < 8"
  have "pair_differs (push_bit 2 (column_code ! b AND 0x3f)) n" if "n \<in> {1, 2, 3}" for n
    using that bit_column_code [OF b, of "2 * n"] bit_column_code [OF b, of "2 * n + 1"]
    unfolding pair_differs_def by (elim insertE emptyE) (simp_all only:, simp_all)
  then show "\<forall>n\<in>{1, 2, 3}. pair_differs (push_bit 2 (column_code ! b AND 0x3f)) n" by blast
qed

lemma flip_nonzero: "\<forall>n<4. pair_differs s n \<Longrightarrow> s \<noteq> 0"
  by (drule spec [of _ 0]) (auto simp: pair_differs_def)

text \<open>The syndrome of one flipped data bit points at that bit.\<close>

lemma apply_syndrome_single:
  assumes "b < 8" and "k < 256" and "k < length dat"
  shows "ecc_apply_syndrome dat (ecc_tmp2 (NOT (of_nat k)) (of_nat k))
      (ecc_tmp1 (NOT (of_nat k)) (of_nat k)) (push_bit 2 (column_code ! b AND 0x3f)) =
    Some (Inr 1, dat[k := dat ! k XOR 2 ^ b])"
proof -
  define s0 where "s0 = ecc_tmp2 (NOT (of_nat k)) (of_nat k)"
  define s1 where "s1 = ecc_tmp1 (NOT (of_nat k)) (of_nat k)"
  define s2 where "s2 = push_bit 2 (column_code ! b AND 0x3f)"
  have "s0 \<noteq> 0" unfolding s0_def by (rule flip_nonzero [OF single_passes_checks(1)])
  moreover have "(s0 XOR drop_bit 1 s0) AND 0x55 = 0x55" "(s1 XOR drop_bit 1 s1) AND 0x55 = 0x55"
      "(s2 XOR drop_bit 1 s2) AND 0x54 = 0x54"
    unfolding check55 check54 s0_def s1_def s2_def using single_passes_checks assms(1) by blast+
  moreover have "unat (byteoffs s0 s1) = k" "unat (bitnum s2) = b"
    using assms by (simp_all only: s0_def s1_def s2_def unat_byteoffs_single unat_bitnum_single)
  moreover have "ucast (push_bit b (1 :: u32)) = (2 ^ b :: u8)"
    using assms(1) by (auto simp: less_8_iff)
  ultimately have "ecc_apply_syndrome dat s0 s1 s2 = Some (Inr 1, dat[k := dat ! k XOR 2 ^ b])"
    using assms(3) by (simp only: ecc_apply_syndrome_def or_eq_0_iff) simp
  then show ?thesis by (simp only: s0_def s1_def s2_def)
qed

text \<open>C32: the ECC corrects every single-bit error: when one bit of a 256-byte block changed after
  its ECC was computed, \<open>nand_correct_data\<close> restores the block and reports one correction,
  in both ECC byte orders.\<close>

theorem nand_ecc_corrects_single_bit:
  assumes "length dat = 256" and "k < 256" and "b < 8"
    and "nand_calculate_ecc smc dat = Some stored"
    and "read = dat[k := dat ! k XOR 2 ^ b]"
  shows "\<exists>calc. nand_calculate_ecc smc read = Some calc \<and>
     nand_correct_data smc read stored calc = Some (Inr 1, dat)"
proof -
  obtain r where r: "ecc_loop 256 0 dat (0, 0, 0) = Some r" "stored = ecc_of_regs smc r"
    using assms(4) by (auto simp: nand_calculate_ecc_regs)
  have "ecc_loop 256 0 read (0, 0, 0) = Some (xor3 r (flip_syndrome k b))"
    using ecc_loop_flip [of b 0 k 256 dat "(0, 0, 0)"] assms r by simp
  then have "nand_calculate_ecc smc read = Some (ecc_of_regs smc (xor3 r (flip_syndrome k b)))"
    by (simp add: nand_calculate_ecc_regs)
  moreover have "nand_correct_data smc read stored (ecc_of_regs smc (xor3 r (flip_syndrome k b))) =
      Some (Inr 1, read[k := read ! k XOR 2 ^ b])"
    using apply_syndrome_single [of b k read] assms
    by (simp only: flip_syndrome_def nand_correct_regs r(2) length_list_update)
  moreover have "read[k := read ! k XOR 2 ^ b] = dat"
    using assms by (simp add: xor.assoc)
  ultimately show ?thesis by metis
qed

theorem nand_ecc_corrects_single_bit_witness:
  "\<exists>stored calc. nand_calculate_ecc False (replicate 256 0) = Some stored \<and>
     nand_calculate_ecc False ((replicate 256 0)[200 := 8]) = Some calc \<and>
     nand_correct_data False ((replicate 256 0)[200 := 8]) stored calc =
       Some (Inr 1, replicate 256 0)"
proof -
  obtain q where "ecc_loop 256 0 (replicate 256 0) (0, 0, 0) = Some q"
    using ecc_loop_total [of 0 256 "replicate 256 0" "(0, 0, 0)"] by auto
  then have st: "nand_calculate_ecc False (replicate 256 0) = Some (ecc_of_regs False q)"
    by (simp add: nand_calculate_ecc_regs)
  have "(replicate 256 (0 :: u8))[200 := 8] =
      (replicate 256 0)[200 := replicate 256 0 ! 200 XOR 2 ^ 3]"
    by simp
  from nand_ecc_corrects_single_bit [OF _ _ _ st this] st show ?thesis by auto
qed

section \<open>Two flipped bits\<close>

lemma countbits_card: "countbits w = card {n. bit w n}"
proof (induction w rule: countbits.induct)
  case (1 w)
  show ?case
  proof (cases "w = 0")
    case False
    have fin: "finite {n. bit w n}"
      by (rule finite_subset [of _ "{..<32}"]) (auto dest: bit_imp_le_length)
    have inj: "card {n. bit (drop_bit 1 w) n} = card ({n. bit w n} - {0})"
      by (rule bij_betw_same_card [of Suc])
        (auto simp: bij_betw_def inj_on_def image_def bit_drop_bit_eq gr0_conv_Suc)
    have one: "unat (w AND 1) = of_bool (bit w 0)"
      by (simp add: and_one_eq odd_iff_mod_2_eq_one bit_0 mod2_eq_if)
    have "card {n. bit w n} = of_bool (bit w 0) + card ({n. bit w n} - {0})"
      using card.remove [OF fin, of 0] by (cases "bit w 0") auto
    then show ?thesis
      using 1 [OF False] False inj one by (subst countbits.simps) simp
  qed (simp add: countbits.simps)
qed

lemma bit_syndrome_word:
  "bit (ucast s0 OR push_bit 8 (ucast s1) OR push_bit 16 (ucast s2) :: u32) n \<longleftrightarrow>
     (if n < 8 then bit s0 n else if n < 16 then bit s1 (n - 8) else bit (s2 :: u8) (n - 16))"
  for s0 s1 :: u8
  by (auto simp: bit_ops dest: bit_imp_le_length)

text \<open>When every pair of the syndrome has two equal bits, no single error is seen.\<close>

lemma apply_syndrome_pairs:
  assumes "\<forall>n<4. \<not> pair_differs s0 n \<and> \<not> pair_differs s1 n \<and> \<not> pair_differs s2 n"
    and "s0 OR s1 OR s2 \<noteq> 0"
  shows "ecc_apply_syndrome dat s0 s1 s2 = Some (Inl EBADMSG, dat)"
proof -
  let ?w = "ucast s0 OR push_bit 8 (ucast s1) OR push_bit 16 (ucast s2) :: u32"
  have pair: "bit ?w n = bit ?w (if even n then n + 1 else n - 1)" for n
  proof (cases "n < 24")
    case True
    then consider "n div 2 < 4" | "4 \<le> n div 2" "n div 2 - 4 < 4" | "8 \<le> n div 2" "n div 2 - 8 < 4"
      by linarith
    then show ?thesis
    proof cases
      case 1
      then have "bit s0 (2 * (n div 2)) = bit s0 (2 * (n div 2) + 1)"
        using assms(1) by (simp add: pair_differs_def)
      then show ?thesis using 1 by (cases "even n") (auto simp: bit_syndrome_word elim: oddE)
    next
      case 2
      then have "bit s1 (2 * (n div 2 - 4)) = bit s1 (2 * (n div 2 - 4) + 1)"
        using assms(1) by (simp add: pair_differs_def)
      moreover have "2 * (n div 2 - 4) = (if even n then n else n - 1) - 8" "8 \<le> n" "n < 16"
        using 2 by (auto elim!: evenE oddE)
      moreover have "Suc (m - 8) = m - 7" if "8 \<le> m" for m :: nat using that by simp
      ultimately show ?thesis by (auto simp: bit_syndrome_word Suc_diff_le elim!: evenE oddE)
    next
      case 3
      then have "bit s2 (2 * (n div 2 - 8)) = bit s2 (2 * (n div 2 - 8) + 1)"
        using assms(1) by (simp add: pair_differs_def)
      moreover have "2 * (n div 2 - 8) = (if even n then n else n - 1) - 16" "16 \<le> n"
        using 3 by (auto elim!: evenE oddE)
      moreover have "Suc (m - 16) = m - 15" if "16 \<le> m" for m :: nat using that by simp
      ultimately show ?thesis by (auto simp: bit_syndrome_word Suc_diff_le elim!: evenE oddE)
    qed
  next
    case False
    have "\<not> bit ?w m" if "24 \<le> m" for m
      using that by (auto simp: bit_syndrome_word dest!: bit_imp_le_length)
    moreover have "24 \<le> (if even n then n + 1 else n - 1)" using False by presburger
    ultimately show ?thesis using False by simp
  qed
  have "countbits ?w \<noteq> 1"
  proof
    assume "countbits ?w = 1"
    then obtain m where m: "{n. bit ?w n} = {m}"
      by (auto simp: countbits_card card_1_singleton_iff)
    then have "bit ?w m" by blast
    then have "(if even m then m + 1 else m - 1) \<in> {n. bit ?w n}" using pair [of m] by blast
    then show False using m by (cases "even m") (auto elim: oddE)
  qed
  moreover have "\<not> (s0 XOR drop_bit 1 s0) AND 0x55 = 0x55"
    unfolding check55 using assms(1) by (meson zero_less_numeral)
  ultimately show ?thesis using assms(2) by (simp only: ecc_apply_syndrome_def) simp
qed

lemma column_codes_differ:
  assumes "b < 8" and "b' < 8" and "b \<noteq> b'"
  shows "push_bit 2 ((column_code ! b AND 0x3f) XOR (column_code ! b' AND 0x3f)) \<noteq> 0"
proof -
  have "list_all (\<lambda>b. list_all (\<lambda>b'. b = b' \<or>
      push_bit 2 ((column_code ! b AND 0x3f) XOR (column_code ! b' AND 0x3f)) \<noteq> 0) [0..<8]) [0..<8]"
    by code_simp
  then show ?thesis using assms unfolding list_all_iff
    by (metis atLeastLessThan_iff le0 set_upt)
qed

lemma pairs_of_two_flips:
  shows "n < 4 \<Longrightarrow> \<not> pair_differs (ecc_tmp1 x x) n"
    and "n < 4 \<Longrightarrow> \<not> pair_differs (ecc_tmp2 x x) n"
    and "n < 4 \<Longrightarrow> b < 8 \<Longrightarrow> b' < 8 \<Longrightarrow>
      \<not> pair_differs (push_bit 2 ((column_code ! b AND 0x3f) XOR (column_code ! b' AND 0x3f))) n"
proof -
  show "n < 4 \<Longrightarrow> \<not> pair_differs (ecc_tmp1 x x) n"
    by (simp add: pair_differs_def bit_ecc_tmp1)
  show "n < 4 \<Longrightarrow> \<not> pair_differs (ecc_tmp2 x x) n"
    by (simp add: pair_differs_def bit_ecc_tmp2)
  assume "n < 4" "b < 8" "b' < 8"
  then have "2 * n < 8" "2 * n + 1 < 8" by auto
  note bits = bit_column_code [OF \<open>b < 8\<close> this(1)] bit_column_code [OF \<open>b < 8\<close> this(2)]
    bit_column_code [OF \<open>b' < 8\<close> this(1)] bit_column_code [OF \<open>b' < 8\<close> this(2)]
  show "\<not> pair_differs (push_bit 2 ((column_code ! b AND 0x3f) XOR (column_code ! b' AND 0x3f))) n"
    unfolding pair_differs_def push_bit_xor bit_xor_iff bits by (cases n) auto
qed

lemma ecc_tmp_zero:
  assumes "ecc_tmp1 x x = 0" and "ecc_tmp2 x x = 0"
  shows "x = 0"
proof (rule bit_word_eqI)
  fix n assume "n < LENGTH(8)"
  then have n: "n < 8" by simp
  have "bit (ecc_tmp1 x x) (2 * (n - 4)) = bit x n" if "4 \<le> n"
    using n that by (simp add: bit_ecc_tmp1)
  moreover have "bit (ecc_tmp2 x x) (2 * n) = bit x n" if "n < 4"
    using that by (simp add: bit_ecc_tmp2)
  ultimately show "bit x n = bit 0 n" using assms by (cases "n < 4") auto
qed

text \<open>C33: the ECC detects every double-bit error: when two different bits of a block changed, the
  result is \<open>-EBADMSG\<close> and the block is left as read, never a wrong correction.\<close>

theorem nand_ecc_detects_double_bit:
  assumes "length dat = 256" and "k < 256" and "b < 8" and "k' < 256" and "b' < 8"
    and "(k, b) \<noteq> (k', b')"
    and "nand_calculate_ecc smc dat = Some stored"
    and "one = dat[k := dat ! k XOR 2 ^ b]" and "read = one[k' := one ! k' XOR 2 ^ b']"
  shows "\<exists>calc. nand_calculate_ecc smc read = Some calc \<and>
     nand_correct_data smc read stored calc = Some (Inl EBADMSG, read)"
proof -
  obtain r where r: "ecc_loop 256 0 dat (0, 0, 0) = Some r" "stored = ecc_of_regs smc r"
    using assms(7) by (auto simp: nand_calculate_ecc_regs)
  define x where "x = (of_nat k XOR of_nat k' :: u8)"
  define c where "c = (column_code ! b AND 0x3f) XOR (column_code ! b' AND 0x3f)"
  have "ecc_loop 256 0 one (0, 0, 0) = Some (xor3 r (flip_syndrome k b))"
    using ecc_loop_flip [of b 0 k 256 dat "(0, 0, 0)"] assms r by simp
  then have "ecc_loop 256 0 read (0, 0, 0) =
      Some (xor3 (xor3 r (flip_syndrome k b)) (flip_syndrome k' b'))"
    using ecc_loop_flip [of b' 0 k' 256 one "(0, 0, 0)"] assms by simp
  moreover have "xor3 (xor3 r (flip_syndrome k b)) (flip_syndrome k' b') = xor3 r (c, x, x)"
    by (cases r) (simp add: xor3_def flip_syndrome_def c_def x_def ac_simps)
  ultimately have calc: "nand_calculate_ecc smc read = Some (ecc_of_regs smc (xor3 r (c, x, x)))"
    by (simp add: nand_calculate_ecc_regs)
  have "ecc_tmp2 x x OR ecc_tmp1 x x OR push_bit 2 c \<noteq> 0"
  proof
    assume "ecc_tmp2 x x OR ecc_tmp1 x x OR push_bit 2 c = 0"
    then have z: "ecc_tmp2 x x = 0" "ecc_tmp1 x x = 0" and c0: "push_bit 2 c = 0"
      by (simp_all only: or_eq_0_iff)
    have "x = 0" by (rule ecc_tmp_zero [OF z(2,1)])
    then have "(of_nat k :: u8) = of_nat k'"
      by (metis x_def xor.assoc xor_self_eq xor.left_neutral xor.right_neutral)
    then have "unat (of_nat k :: u8) = unat (of_nat k' :: u8)" by simp
    then have "k = k'" using assms(2,4) by (simp add: unsigned_of_nat take_bit_nat_eq_self)
    then have "b \<noteq> b'" using assms(6) by simp
    from column_codes_differ [OF assms(3,5) this] c0 show False by (simp only: c_def)
  qed
  then have "ecc_apply_syndrome read (ecc_tmp2 x x) (ecc_tmp1 x x) (push_bit 2 c) =
      Some (Inl EBADMSG, read)"
    using apply_syndrome_pairs pairs_of_two_flips assms(3,5) unfolding c_def by blast
  then show ?thesis using calc r(2) nand_correct_regs by simp
qed

theorem nand_ecc_detects_double_bit_witness:
  "\<exists>stored calc. nand_calculate_ecc True (replicate 256 0) = Some stored \<and>
     nand_calculate_ecc True ((replicate 256 0)[7 := 1, 9 := 128]) = Some calc \<and>
     nand_correct_data True ((replicate 256 0)[7 := 1, 9 := 128]) stored calc =
       Some (Inl EBADMSG, (replicate 256 0)[7 := 1, 9 := 128])"
proof -
  obtain q where "ecc_loop 256 0 (replicate 256 0) (0, 0, 0) = Some q"
    using ecc_loop_total [of 0 256 "replicate 256 0" "(0, 0, 0)"] by auto
  then have st: "nand_calculate_ecc True (replicate 256 0) = Some (ecc_of_regs True q)"
    by (simp add: nand_calculate_ecc_regs)
  let ?one = "(replicate 256 (0 :: u8))[7 := 1]"
  have one: "?one = (replicate 256 0)[7 := replicate 256 0 ! 7 XOR 2 ^ 0]" by simp
  have two: "?one[9 := 128] = ?one[9 := ?one ! 9 XOR 2 ^ 7]" by simp
  have "\<exists>calc. nand_calculate_ecc True (?one[9 := 128]) = Some calc \<and>
      nand_correct_data True (?one[9 := 128]) (ecc_of_regs True q) calc =
        Some (Inl EBADMSG, ?one[9 := 128])"
    by (rule nand_ecc_detects_double_bit [OF _ _ _ _ _ _ st one two]) simp_all
  with st show ?thesis by blast
qed

end
