(* ===== verification/MtdCore.thy ===== *)
theory MtdCore
  imports Prelude "HOL-Library.Multiset"
begin

text \<open>
  The registry of MTD devices, \<open>drivers/mtd/mtdcore.c\<close>: \<open>mtd_table\<close> holds pointers to
  \<open>struct mtd_info\<close> objects, which drivers allocate and the users of the table count their use of.

  Pointers are natural numbers (\<open>addr\<close>), a null pointer is \<open>None\<close>, and \<open>mtd_objs\<close> is the part of
  the memory that holds \<open>mtd_info\<close> objects; a dereference outside it is the fault \<open>None\<close>, and so is
  a failing \<open>BUG_ON\<close>.  The fields of \<open>mtd_info\<close> are those that the modelled code uses.  The use count
  is a C \<open>int\<close>, kept as its 32 bits: after \<open>INT_MAX\<close> it becomes negative and in the end 0 again.
\<close>

section \<open>State\<close>

type_synonym u64 = "64 word"
type_synonym addr = nat

record erase_region =
  er_offset :: u64
  er_erasesize :: u32
  er_numblocks :: u32

record mtd_info =
  mtd_type :: u8
  mtd_flags :: u32
  mtd_size :: u64
  erasesize :: u32
  writesize :: u32
  oobsize :: u32
  oobavail :: u32
  subpage_sft :: int
  mtd_name :: string
  mtd_index :: nat
  usecount :: u32
  eraseregions :: "erase_region list"
  ecc_corrected :: u32
  ecc_failed :: u32
  ecc_badblocks :: u32

text \<open>\<open>numeraseregions\<close> is the length of the array \<open>eraseregions\<close>.\<close>

abbreviation numeraseregions :: "mtd_info \<Rightarrow> nat" where
  "numeraseregions m \<equiv> length (eraseregions m)"

record mtd_core =
  mtd_table :: "addr option list"
  mtd_objs :: "addr \<Rightarrow> mtd_info option"

abbreviation (input) mtd_at :: "mtd_core \<Rightarrow> addr \<Rightarrow> mtd_info option" where
  "mtd_at c a \<equiv> mtd_objs c a"

definition mtd_set :: "mtd_core \<Rightarrow> addr \<Rightarrow> mtd_info \<Rightarrow> mtd_core" where
  "mtd_set c a m = c\<lparr>mtd_objs := (mtd_objs c)(a \<mapsto> m)\<rparr>"

definition ENODEV :: int where "ENODEV = -19"
definition EBUSY :: int where "EBUSY = -16"

section \<open>Operations\<close>

text \<open>\<open>for (i = 0; i < MAX_MTD_DEVICES; i++) if (!mtd_table[i])\<close>\<close>

fun free_slot :: "addr option list \<Rightarrow> nat \<Rightarrow> nat option" where
  "free_slot [] i = None"
| "free_slot (None # t) i = Some i"
| "free_slot (Some _ # t) i = free_slot t (i + 1)"

definition add_mtd_device :: "mtd_core \<Rightarrow> addr \<Rightarrow> (int \<times> mtd_core) option" where
  "add_mtd_device c a =
     do { m \<leftarrow> mtd_at c a;
          if writesize m = 0 then None
          else case free_slot (mtd_table c) 0 of
            None \<Rightarrow> Some (1, c)
          | Some i \<Rightarrow>
              Some (0, mtd_set (c\<lparr>mtd_table := (mtd_table c)[i := Some a]\<rparr>) a
                (m\<lparr>mtd_index := i, usecount := 0\<rparr>)) }"

definition del_mtd_device :: "mtd_core \<Rightarrow> addr \<Rightarrow> (int \<times> mtd_core) option" where
  "del_mtd_device c a =
     do { m \<leftarrow> mtd_at c a;
          t \<leftarrow> rd (mtd_table c) (mtd_index m);
          if t \<noteq> Some a then Some (ENODEV, c)
          else if usecount m \<noteq> 0 then Some (EBUSY, c)
          else Some (0, c\<lparr>mtd_table := (mtd_table c)[mtd_index m := None]\<rparr>) }"

text \<open>\<open>get_mtd_device\<close>: \<open>Inl\<close> is \<open>ERR_PTR\<close>.  The search for an address keeps the last match; with a
  null address it finds a null entry, which is no device.\<close>

definition get_mtd_device ::
  "mtd_core \<Rightarrow> addr option \<Rightarrow> int \<Rightarrow> ((int + addr) \<times> mtd_core) option" where
  "get_mtd_device c mtd n =
     do { ret \<leftarrow> (if n = -1 then Some (if mtd \<in> set (mtd_table c) then mtd else None)
            else if n < int (length (mtd_table c))
            then if n < 0 then None
              else do { r \<leftarrow> rd (mtd_table c) (nat n); Some (if mtd \<noteq> None \<and> mtd \<noteq> r then None else r) }
            else Some None);
          case ret of None \<Rightarrow> Some (Inl ENODEV, c)
          | Some a \<Rightarrow> do { m \<leftarrow> mtd_at c a;
                          Some (Inr a, mtd_set c a (m\<lparr>usecount := usecount m + 1\<rparr>)) } }"

fun find_nm :: "mtd_core \<Rightarrow> string \<Rightarrow> addr option list \<Rightarrow> addr option option" where
  "find_nm c name [] = Some None"
| "find_nm c name (None # t) = find_nm c name t"
| "find_nm c name (Some a # t) =
     do { m \<leftarrow> mtd_at c a; if mtd_name m = name then Some (Some a) else find_nm c name t }"

definition get_mtd_device_nm :: "mtd_core \<Rightarrow> string \<Rightarrow> ((int + addr) \<times> mtd_core) option" where
  "get_mtd_device_nm c name =
     do { ret \<leftarrow> find_nm c name (mtd_table c);
          case ret of None \<Rightarrow> Some (Inl ENODEV, c)
          | Some a \<Rightarrow> do { m \<leftarrow> mtd_at c a;
                          Some (Inr a, mtd_set c a (m\<lparr>usecount := usecount m + 1\<rparr>)) } }"

definition put_mtd_device :: "mtd_core \<Rightarrow> addr \<Rightarrow> mtd_core option" where
  "put_mtd_device c a =
     do { m \<leftarrow> mtd_at c a;
          if sint (usecount m - 1) < 0 then None
          else Some (mtd_set c a (m\<lparr>usecount := usecount m - 1\<rparr>)) }"

section \<open>The registry as a state machine\<close>

text \<open>The state is the registry together with the references that its users hold.  A device is
  registered when it is not yet in the table; \<open>put_mtd_device\<close> gives a held reference back.\<close>

inductive core_step :: "mtd_core \<times> addr multiset \<Rightarrow> mtd_core \<times> addr multiset \<Rightarrow> bool" where
  step_add: "Some a \<notin> set (mtd_table c) \<Longrightarrow> add_mtd_device c a = Some (rc, c') \<Longrightarrow>
    core_step (c, refs) (c', refs)"
| step_del: "del_mtd_device c a = Some (rc, c') \<Longrightarrow> core_step (c, refs) (c', refs)"
| step_get: "get_mtd_device c mtd n = Some (Inr a, c') \<Longrightarrow> core_step (c, refs) (c', add_mset a refs)"
| step_get_fail: "get_mtd_device c mtd n = Some (Inl e, c') \<Longrightarrow> core_step (c, refs) (c', refs)"
| step_get_nm: "get_mtd_device_nm c name = Some (Inr a, c') \<Longrightarrow>
    core_step (c, refs) (c', add_mset a refs)"
| step_get_nm_fail: "get_mtd_device_nm c name = Some (Inl e, c') \<Longrightarrow> core_step (c, refs) (c', refs)"
| step_put: "a \<in># refs \<Longrightarrow> put_mtd_device c a = Some c' \<Longrightarrow> core_step (c, refs) (c', refs - {#a#})"

text \<open>Histories in which no device is ever held more than \<open>INT_MAX\<close> times, so that no use count overflows.\<close>

definition few_refs :: "addr multiset \<Rightarrow> bool" where
  "few_refs refs \<longleftrightarrow> (\<forall>a\<in>#refs. count refs a < 2 ^ 31)"

inductive core_reach :: "mtd_core \<Rightarrow> mtd_core \<times> addr multiset \<Rightarrow> bool" for c0 where
  reach_start: "core_reach c0 (c0, {#})"
| reach_step: "core_reach c0 s \<Longrightarrow> core_step s s' \<Longrightarrow> few_refs (snd s') \<Longrightarrow> core_reach c0 s'"

inductive_cases core_stepE: "core_step (c, refs) s'"

text \<open>Every pointer of the table leads to an object that knows its slot, and the use count of a
  registered device is the number of references to it; others have none.\<close>

definition core_ok :: "mtd_core \<Rightarrow> addr multiset \<Rightarrow> bool" where
  "core_ok c refs \<longleftrightarrow>
     (\<forall>i a. i < length (mtd_table c) \<longrightarrow> mtd_table c ! i = Some a \<longrightarrow>
        (\<exists>m. mtd_objs c a = Some m \<and> mtd_index m = i \<and> usecount m = of_nat (count refs a))) \<and>
     (\<forall>a. a \<in># refs \<longrightarrow> Some a \<in> set (mtd_table c))"

lemma free_slot_Some: "free_slot t i = Some j \<Longrightarrow> i \<le> j \<and> j - i < length t \<and> t ! (j - i) = None"
proof (induction t i rule: free_slot.induct)
  case (3 a t i)
  then have "i + 1 \<le> j" "j - (i + 1) < length t" "t ! (j - (i + 1)) = None" by auto
  moreover from this(1) have "j - i = Suc (j - (i + 1))" by simp
  ultimately show ?case by simp
qed auto

lemma free_slot_None: "free_slot t i = None \<longleftrightarrow> None \<notin> set t"
  by (induction t i rule: free_slot.induct) auto

lemma find_nm_Some: "find_nm c name t = Some (Some a) \<Longrightarrow>
    Some a \<in> set t \<and> (\<exists>m. mtd_objs c a = Some m \<and> mtd_name m = name)"
  by (induction c name t rule: find_nm.induct) (auto split: Option.bind_splits if_splits)

lemma core_okD:
  assumes "core_ok c refs" and "Some a \<in> set (mtd_table c)"
  obtains m where "mtd_objs c a = Some m" "mtd_index m < length (mtd_table c)"
    "mtd_table c ! mtd_index m = Some a" "usecount m = of_nat (count refs a)"
proof -
  from assms(2) obtain i where "i < length (mtd_table c)" "mtd_table c ! i = Some a"
    by (auto simp: in_set_conv_nth)
  moreover from this assms(1) obtain m where "mtd_objs c a = Some m" "mtd_index m = i"
    "usecount m = of_nat (count refs a)" by (auto simp: core_ok_def)
  ultimately show ?thesis by (intro that) simp_all
qed

lemma core_ok_nth:
  assumes "core_ok c refs" and "i < length (mtd_table c)" and "mtd_table c ! i = Some a"
  shows "\<exists>m. mtd_objs c a = Some m \<and> mtd_index m = i \<and> usecount m = of_nat (count refs a)"
  using assms by (auto simp: core_ok_def)

lemma core_ok_refs: "core_ok c refs \<Longrightarrow> a \<in># refs \<Longrightarrow> Some a \<in> set (mtd_table c)"
  by (auto simp: core_ok_def)

lemma core_ok_get:
  assumes ok: "core_ok c refs" and a: "Some a \<in> set (mtd_table c)" "mtd_objs c a = Some m"
  shows "core_ok (mtd_set c a (m\<lparr>usecount := usecount m + 1\<rparr>)) (add_mset a refs)"
  unfolding core_ok_def
proof (intro conjI allI impI)
  fix i b
  assume "i < length (mtd_table (mtd_set c a (m\<lparr>usecount := usecount m + 1\<rparr>)))"
    and "mtd_table (mtd_set c a (m\<lparr>usecount := usecount m + 1\<rparr>)) ! i = Some b"
  then have "i < length (mtd_table c)" "mtd_table c ! i = Some b" by (simp_all add: mtd_set_def)
  from core_ok_nth [OF ok this] a(2)
  show "\<exists>m'. mtd_objs (mtd_set c a (m\<lparr>usecount := usecount m + 1\<rparr>)) b = Some m' \<and> mtd_index m' = i \<and>
      usecount m' = of_nat (count (add_mset a refs) b)"
    by (auto simp: mtd_set_def)
next
  fix b assume "b \<in># add_mset a refs"
  then show "Some b \<in> set (mtd_table (mtd_set c a (m\<lparr>usecount := usecount m + 1\<rparr>)))"
    using a core_ok_refs [OF ok, of b] by (auto simp: mtd_set_def)
qed

lemma core_ok_put:
  assumes ok: "core_ok c refs" and a: "a \<in># refs" "mtd_objs c a = Some m"
  shows "core_ok (mtd_set c a (m\<lparr>usecount := usecount m - 1\<rparr>)) (refs - {#a#})"
  unfolding core_ok_def
proof (intro conjI allI impI)
  fix i b
  assume "i < length (mtd_table (mtd_set c a (m\<lparr>usecount := usecount m - 1\<rparr>)))"
    and "mtd_table (mtd_set c a (m\<lparr>usecount := usecount m - 1\<rparr>)) ! i = Some b"
  then have "i < length (mtd_table c)" "mtd_table c ! i = Some b" by (simp_all add: mtd_set_def)
  from core_ok_nth [OF ok this] a
  show "\<exists>m'. mtd_objs (mtd_set c a (m\<lparr>usecount := usecount m - 1\<rparr>)) b = Some m' \<and> mtd_index m' = i \<and>
      usecount m' = of_nat (count (refs - {#a#}) b)"
    by (auto simp: mtd_set_def of_nat_diff)
next
  fix b assume "b \<in># refs - {#a#}"
  then show "Some b \<in> set (mtd_table (mtd_set c a (m\<lparr>usecount := usecount m - 1\<rparr>)))"
    using core_ok_refs [OF ok, of b] by (auto simp: mtd_set_def dest: in_diffD)
qed

lemma core_ok_add:
  assumes ok: "core_ok c refs" and new: "Some a \<notin> set (mtd_table c)" and i: "free_slot (mtd_table c) 0 = Some i"
  shows "core_ok (mtd_set (c\<lparr>mtd_table := (mtd_table c)[i := Some a]\<rparr>) a (m\<lparr>mtd_index := i, usecount := 0\<rparr>)) refs"
    (is "core_ok ?c refs")
  unfolding core_ok_def
proof (intro conjI allI impI)
  from free_slot_Some [OF i] have i': "i < length (mtd_table c)" "mtd_table c ! i = None" by auto
  have no: "a \<notin># refs" using core_ok_refs [OF ok] new by auto
  fix j b assume j: "j < length (mtd_table ?c)" "mtd_table ?c ! j = Some b"
  show "\<exists>m'. mtd_objs ?c b = Some m' \<and> mtd_index m' = j \<and> usecount m' = of_nat (count refs b)"
  proof (cases "j = i")
    case True
    with j i' no show ?thesis by (auto simp: mtd_set_def not_in_iff)
  next
    case False
    with j have "j < length (mtd_table c)" "mtd_table c ! j = Some b" by (simp_all add: mtd_set_def)
    moreover from this new have "b \<noteq> a" by (metis nth_mem)
    ultimately show ?thesis using core_ok_nth [OF ok] by (auto simp: mtd_set_def)
  qed
next
  fix b assume "b \<in># refs"
  from core_ok_refs [OF ok this] obtain j where "j < length (mtd_table c)" "mtd_table c ! j = Some b"
    by (auto simp: in_set_conv_nth)
  moreover from this free_slot_Some [OF i] have "j \<noteq> i" by auto
  ultimately show "Some b \<in> set (mtd_table ?c)"
    by (auto simp: mtd_set_def in_set_conv_nth intro!: exI [of _ j])
qed

text \<open>Counts below \<open>2 ^ 31\<close> are not 0 and do not become negative.\<close>

lemma held_count: "0 < n \<Longrightarrow> n < 2 ^ 31 \<Longrightarrow> (of_nat n :: u32) \<noteq> 0"
  by (simp add: word_unat_eq_iff unsigned_of_nat take_bit_nat_eq_self)

lemma released_count: "0 < n \<Longrightarrow> n < 2 ^ 31 \<Longrightarrow> 0 \<le> sint (of_nat n - 1 :: u32)"
proof -
  assume n: "0 < n" "n < 2 ^ 31"
  then obtain k where k: "n = Suc k" "k < 2 ^ 31" by (cases n) simp_all
  have "of_nat n - 1 = (of_nat k :: u32)" by (simp add: k(1))
  moreover have "unat (of_nat k :: u32) < 2 ^ 31" using k(2) by (simp add: unsigned_of_nat take_bit_nat_eq_self)
  ultimately show ?thesis using sint_small by simp
qed

lemma core_ok_del:
  assumes ok: "core_ok c refs" and few: "few_refs refs" and a: "mtd_objs c a = Some m" "mtd_index m < length (mtd_table c)"
    "mtd_table c ! mtd_index m = Some a" "usecount m = 0"
  shows "core_ok (c\<lparr>mtd_table := (mtd_table c)[mtd_index m := None]\<rparr>) refs"
  unfolding core_ok_def
proof (intro conjI allI impI)
  fix j b
  assume "j < length (mtd_table (c\<lparr>mtd_table := (mtd_table c)[mtd_index m := None]\<rparr>))"
    and "mtd_table (c\<lparr>mtd_table := (mtd_table c)[mtd_index m := None]\<rparr>) ! j = Some b"
  then have "j < length (mtd_table c)" "mtd_table c ! j = Some b"
    by (auto simp: nth_list_update) (metis option.distinct(1) nth_list_update_eq nth_list_update_neq)
  from core_ok_nth [OF ok this]
  show "\<exists>m'. mtd_objs (c\<lparr>mtd_table := (mtd_table c)[mtd_index m := None]\<rparr>) b = Some m' \<and> mtd_index m' = j \<and>
      usecount m' = of_nat (count refs b)" by simp
next
  fix b assume b: "b \<in># refs"
  from core_okD [OF ok core_ok_refs [OF ok b]] obtain mb where
    mb: "mtd_objs c b = Some mb" "mtd_index mb < length (mtd_table c)" "mtd_table c ! mtd_index mb = Some b"
      "usecount mb = of_nat (count refs b)" .
  from b few have "0 < count refs b" "count refs b < 2 ^ 31" by (simp_all add: few_refs_def)
  then have "usecount mb \<noteq> 0" unfolding mb(4) by (rule held_count)
  with mb a have "mtd_index mb \<noteq> mtd_index m" by (metis option.inject)
  with mb show "Some b \<in> set (mtd_table (c\<lparr>mtd_table := (mtd_table c)[mtd_index m := None]\<rparr>))"
    by (auto simp: in_set_conv_nth intro!: exI [of _ "mtd_index mb"])
qed

lemma nth_mem_Some: "xs ! i = Some x \<Longrightarrow> i < length xs \<Longrightarrow> Some x \<in> set xs"
  by (metis nth_mem)

lemma get_mtd_device_cases:
  assumes "get_mtd_device c mtd n = Some (r, c')"
  shows "(\<exists>e. r = Inl e \<and> c' = c) \<or>
    (\<exists>a m. r = Inr a \<and> Some a \<in> set (mtd_table c) \<and> mtd_objs c a = Some m \<and>
      c' = mtd_set c a (m\<lparr>usecount := usecount m + 1\<rparr>))"
  using assms unfolding get_mtd_device_def
  by (auto simp: mem_simps nth_mem_Some split: Option.bind_splits if_splits option.splits)

lemma get_mtd_device_nm_cases:
  assumes "get_mtd_device_nm c name = Some (r, c')"
  shows "(\<exists>e. r = Inl e \<and> c' = c) \<or>
    (\<exists>a m. r = Inr a \<and> Some a \<in> set (mtd_table c) \<and> mtd_objs c a = Some m \<and> mtd_name m = name \<and>
      c' = mtd_set c a (m\<lparr>usecount := usecount m + 1\<rparr>))"
  using assms unfolding get_mtd_device_nm_def
  by (auto split: Option.bind_splits if_splits option.splits dest!: find_nm_Some)

lemma core_step_ok: "core_step s s' \<Longrightarrow> few_refs (snd s) \<Longrightarrow> core_ok (fst s) (snd s) \<Longrightarrow> core_ok (fst s') (snd s')"
proof (induction rule: core_step.induct)
  case (step_add a c rc c' refs)
  then show ?case
    by (auto simp: add_mtd_device_def core_ok_add split: Option.bind_splits if_splits option.splits)
next
  case (step_del c a rc c' refs)
  then show ?case
    by (auto simp: del_mtd_device_def core_ok_del mem_simps split: Option.bind_splits if_splits)
next
  case (step_get c mtd n a c' refs)
  from get_mtd_device_cases [OF step_get.hyps] step_get.prems show ?case by (auto simp: core_ok_get)
next
  case (step_get_fail c mtd n e c' refs)
  from get_mtd_device_cases [OF step_get_fail.hyps] step_get_fail.prems show ?case by auto
next
  case (step_get_nm c name a c' refs)
  from get_mtd_device_nm_cases [OF step_get_nm.hyps] step_get_nm.prems show ?case by (auto simp: core_ok_get)
next
  case (step_get_nm_fail c name e c' refs)
  from get_mtd_device_nm_cases [OF step_get_nm_fail.hyps] step_get_nm_fail.prems show ?case by auto
next
  case (step_put a refs c c')
  then show ?case by (auto simp: put_mtd_device_def core_ok_put split: Option.bind_splits if_splits)
qed

lemma core_reach_ok:
  assumes "core_reach c0 s" and "set (mtd_table c0) \<subseteq> {None}"
  shows "core_ok (fst s) (snd s) \<and> few_refs (snd s)"
  using assms
proof (induction rule: core_reach.induct)
  case reach_start
  then show ?case by (fastforce simp: core_ok_def few_refs_def dest: nth_mem)
qed (auto intro: core_step_ok)

text \<open>C34: in every history of registrations, look-ups and releases that starts with an empty table and in which no
  device is held more than \<open>INT_MAX\<close> times at once (so that no use count overflows), a
  device to which a reference is held is in the table, \<open>put_mtd_device\<close> of it does not hit its
  \<open>BUG_ON\<close>, and \<open>del_mtd_device\<close> refuses it with \<open>-EBUSY\<close> and changes nothing.\<close>

theorem held_device_stays:
  assumes "core_reach c0 (c, refs)" and "set (mtd_table c0) \<subseteq> {None}" and "a \<in># refs"
  shows "Some a \<in> set (mtd_table c) \<and> del_mtd_device c a = Some (EBUSY, c) \<and> put_mtd_device c a \<noteq> None"
proof -
  have ok: "core_ok c refs" and few: "few_refs refs" using core_reach_ok [OF assms(1,2)] by simp_all
  from core_ok_refs [OF ok assms(3)] have tab: "Some a \<in> set (mtd_table c)" .
  obtain m where m: "mtd_objs c a = Some m" "mtd_index m < length (mtd_table c)"
      "mtd_table c ! mtd_index m = Some a" "usecount m = of_nat (count refs a)"
    by (rule core_okD [OF ok tab])
  have n: "0 < count refs a" "count refs a < 2 ^ 31" using assms(3) few by (simp_all add: few_refs_def)
  have "usecount m \<noteq> 0" "\<not> sint (usecount m - 1) < 0"
    unfolding m(4) using held_count [OF n] released_count [OF n] by simp_all
  with m(1-3) show ?thesis using tab by (simp add: del_mtd_device_def put_mtd_device_def)
qed

definition demo_mtd :: "string \<Rightarrow> mtd_info" where
  "demo_mtd name = \<lparr>mtd_type = 4, mtd_flags = 0x400, mtd_size = 0x100000, erasesize = 0x10000, writesize = 512,
     oobsize = 16, oobavail = 8, subpage_sft = 0, mtd_name = name, mtd_index = 0, usecount = 0,
     eraseregions = [], ecc_corrected = 0, ecc_failed = 0, ecc_badblocks = 0\<rparr>"

definition demo_core :: mtd_core where
  "demo_core = \<lparr>mtd_table = [None, None], mtd_objs = [5 \<mapsto> demo_mtd ''nand0'']\<rparr>"

theorem held_device_stays_witness:
  "\<exists>c1 c2. add_mtd_device demo_core 5 = Some (0, c1) \<and> get_mtd_device_nm c1 ''nand0'' = Some (Inr 5, c2) \<and>
    del_mtd_device c2 5 = Some (EBUSY, c2)"
proof -
  obtain c1 where c1: "add_mtd_device demo_core 5 = Some (0, c1)" "c1 = mtd_set
      (demo_core\<lparr>mtd_table := [Some 5, None]\<rparr>) 5 (demo_mtd ''nand0'')"
    by (simp add: add_mtd_device_def demo_core_def demo_mtd_def)
  obtain c2 where c2: "get_mtd_device_nm c1 ''nand0'' = Some (Inr 5, c2)"
    unfolding c1(2) by (simp add: get_mtd_device_nm_def mtd_set_def demo_core_def demo_mtd_def)
  have few: "few_refs (snd (c1, {#}))" "few_refs (snd (c2, {#5#}))" by (simp_all add: few_refs_def)
  have "core_step (demo_core, {#}) (c1, {#})"
    by (rule step_add [OF _ c1(1)]) (simp add: demo_core_def)
  moreover have "core_step (c1, {#}) (c2, {#5#})" by (rule step_get_nm [OF c2])
  ultimately have "core_reach demo_core (c2, {#5#})" by (blast intro: core_reach.intros few)
  from held_device_stays [OF this, of 5] c1(1) c2 show ?thesis by (simp add: demo_core_def)
qed

end
