(* ===== verification/MtdOps.thy ===== *)
theory MtdOps
  imports MtdCore
begin

text \<open>
  The interface of MTD devices that \<open>drivers/mtd/mtdpart.c\<close> and \<open>drivers/mtd/mtdconcat.c\<close> both use
  and provide: the function pointers of \<open>struct mtd_info\<close>, the requests that travel through them,
  and the memory that they share.

  A device function gets the device, here already applied, the request and the state, and returns
  its C result with the new state, or \<open>None\<close> when it faults.  Pointers to data are addresses into
  \<open>mem\<close>, so that \<open>buf += size\<close> is addition.  \<open>loff_t\<close>, which the code compares with and adds to 64-bit
  unsigned sizes, is its 64-bit pattern.
\<close>

unbundle bit_operations_syntax

section \<open>Requests\<close>

datatype erase_cb = Concat_erase_callback | Client_callback nat

record erase_info =
  ei_mtd :: addr
  ei_addr :: u64
  ei_len :: u64
  ei_fail_addr :: u64
  ei_state :: u8
  ei_callback :: "erase_cb option"

record oob_ops =
  oo_len :: u32
  oo_retlen :: u32
  oo_ooblen :: u32
  oo_oobretlen :: u32
  oo_datbuf :: "addr option"
  oo_oobbuf :: "addr option"

section \<open>State\<close>

record mtd_part =
  pt_master :: addr
  pt_offset :: u64
  pt_index :: nat
  pt_registered :: bool

text \<open>\<open>flash\<close> is whatever the drivers of the chips act on.  A \<open>struct mtd_part\<close> starts with its
  \<open>struct mtd_info\<close>, so both are found at the same address; the object at an address of \<open>part_objs\<close>
  is one whose \<open>erase\<close> pointer is \<open>part_erase\<close>.\<close>

record 'f mtd_world =
  mtdc :: mtd_core
  mem :: "addr \<Rightarrow> u8"
  mtd_partitions :: "addr list"
  part_objs :: "addr \<Rightarrow> mtd_part option"
  mtdp_cells :: "addr \<Rightarrow> addr option"
  flash :: 'f

abbreviation info :: "'f mtd_world \<Rightarrow> addr \<Rightarrow> mtd_info option" where
  "info w a \<equiv> mtd_objs (mtdc w) a"

definition set_info :: "addr \<Rightarrow> mtd_info \<Rightarrow> 'f mtd_world \<Rightarrow> 'f mtd_world" where
  "set_info a m w = w\<lparr>mtdc := mtd_set (mtdc w) a m\<rparr>"

lemma info_set_info [simp]: "info (set_info a m w) b = (if b = a then Some m else info w b)"
  by (simp add: set_info_def mtd_set_def)

lemma set_info_fields [simp]:
  "mem (set_info a m w) = mem w" "mtd_partitions (set_info a m w) = mtd_partitions w"
  "part_objs (set_info a m w) = part_objs w" "mtdp_cells (set_info a m w) = mtdp_cells w"
  "flash (set_info a m w) = flash w" "mtd_table (mtdc (set_info a m w)) = mtd_table (mtdc w)"
  by (simp_all add: set_info_def mtd_set_def)

section \<open>Device functions\<close>

type_synonym 'f rw_fn = "u64 \<Rightarrow> u32 \<Rightarrow> addr \<Rightarrow> 'f mtd_world \<Rightarrow> (int \<times> u32 \<times> 'f mtd_world) option"
type_synonym 'f oob_fn = "u64 \<Rightarrow> oob_ops \<Rightarrow> 'f mtd_world \<Rightarrow> (int \<times> oob_ops \<times> 'f mtd_world) option"
type_synonym 'f range_fn = "u64 \<Rightarrow> u64 \<Rightarrow> 'f mtd_world \<Rightarrow> (int \<times> 'f mtd_world) option"
type_synonym 'f block_fn = "u64 \<Rightarrow> 'f mtd_world \<Rightarrow> (int \<times> 'f mtd_world) option"

text \<open>\<open>None\<close> in a field is a null function pointer.\<close>

record 'f mtd_ops =
  op_read :: "'f rw_fn"
  op_write :: "'f rw_fn"
  op_panic_write :: "'f rw_fn option"
  op_read_oob :: "'f oob_fn option"
  op_write_oob :: "'f oob_fn option"
  op_read_user_prot_reg :: "'f rw_fn option"
  op_read_fact_prot_reg :: "'f rw_fn option"
  op_write_user_prot_reg :: "'f rw_fn option"
  op_lock_user_prot_reg :: "(u64 \<Rightarrow> u32 \<Rightarrow> 'f mtd_world \<Rightarrow> (int \<times> 'f mtd_world) option) option"
  op_get_user_prot_info :: "(addr \<Rightarrow> u32 \<Rightarrow> 'f mtd_world \<Rightarrow> (int \<times> 'f mtd_world) option) option"
  op_get_fact_prot_info :: "(addr \<Rightarrow> u32 \<Rightarrow> 'f mtd_world \<Rightarrow> (int \<times> 'f mtd_world) option) option"
  op_erase :: "erase_info \<Rightarrow> 'f mtd_world \<Rightarrow> (int \<times> erase_info \<times> 'f mtd_world) option"
  op_sync :: "('f mtd_world \<Rightarrow> 'f mtd_world option) option"
  op_suspend :: "('f mtd_world \<Rightarrow> (int \<times> 'f mtd_world) option) option"
  op_resume :: "('f mtd_world \<Rightarrow> 'f mtd_world option) option"
  op_lock :: "'f range_fn option"
  op_unlock :: "'f range_fn option"
  op_block_isbad :: "'f block_fn option"
  op_block_markbad :: "'f block_fn option"

text \<open>What the code takes from headers and from its environment: the failure address that stands for
  ``unknown'', the division of a 64-bit size by a 32-bit one (\<open>do_div\<close>) and the two functions that
  divide by the erase size of a device, which fault on zero, the allocator, and the functions that
  clients leave in \<open>callback\<close>.\<close>

record 'f mtd_lib =
  MTD_FAIL_ADDR_UNKNOWN :: u64
  do_div :: "u64 \<Rightarrow> u32 \<Rightarrow> u64 option"
  mtd_div_by_eb :: "u64 \<Rightarrow> mtd_info \<Rightarrow> u32 option"
  mtd_mod_by_eb :: "u64 \<Rightarrow> mtd_info \<Rightarrow> u32 option"
  kzalloc :: "'f mtd_world \<Rightarrow> addr option"
  client_cb :: "nat \<Rightarrow> erase_info \<Rightarrow> 'f mtd_world \<Rightarrow> (erase_info \<times> 'f mtd_world) option"

definition div_fns_ok :: "'f mtd_lib \<Rightarrow> bool" where
  "div_fns_ok lib \<longleftrightarrow>
     (\<forall>n b. do_div lib n b = (if b = 0 then None else Some (n div ucast b))) \<and>
     (\<forall>n m. mtd_div_by_eb lib n m = (if erasesize m = 0 then None else Some (ucast (n div ucast (erasesize m))))) \<and>
     (\<forall>n m. mtd_mod_by_eb lib n m = (if erasesize m = 0 then None else Some (ucast (n mod ucast (erasesize m)))))"

definition MTD_WRITEABLE :: u32 where "MTD_WRITEABLE = 0x400"
definition MTD_ERASE_DONE :: u8 where "MTD_ERASE_DONE = 8"
definition MTD_ERASE_FAILED :: u8 where "MTD_ERASE_FAILED = 16"
definition EIO :: int where "EIO = -5"
definition ENOMEM :: int where "ENOMEM = -12"
definition EINVAL :: int where "EINVAL = -22"
definition EROFS :: int where "EROFS = -30"
definition EBADMSG :: int where "EBADMSG = -74"
definition EUCLEAN :: int where "EUCLEAN = -117"

lemmas err_defs = EIO_def ENOMEM_def EINVAL_def EROFS_def EBADMSG_def EUCLEAN_def ENODEV_def EBUSY_def

abbreviation (input) writeable :: "mtd_info \<Rightarrow> bool" where
  "writeable m \<equiv> mtd_flags m AND MTD_WRITEABLE \<noteq> 0"

text \<open>\<open>if (instr->callback) instr->callback(instr);\<close>\<close>

definition call_callback :: "'f mtd_lib \<Rightarrow> erase_info \<Rightarrow> 'f mtd_world \<Rightarrow> (erase_info \<times> 'f mtd_world) option" where
  "call_callback lib instr w =
     (case ei_callback instr of None \<Rightarrow> Some (instr, w)
      | Some Concat_erase_callback \<Rightarrow> Some (instr, w)
      | Some (Client_callback f) \<Rightarrow> client_cb lib f instr w)"

section \<open>Memory\<close>

definition load :: "(addr \<Rightarrow> u8) \<Rightarrow> addr \<Rightarrow> nat \<Rightarrow> u8 list" where
  "load h p n = map h [p..<p + n]"

definition store :: "(addr \<Rightarrow> u8) \<Rightarrow> addr \<Rightarrow> u8 list \<Rightarrow> (addr \<Rightarrow> u8)" where
  "store h p xs = (\<lambda>a. if p \<le> a \<and> a < p + length xs then xs ! (a - p) else h a)"

lemma length_load [simp]: "length (load h p n) = n"
  by (simp add: load_def)

lemma load_0 [simp]: "load h p 0 = []"
  by (simp add: load_def)

lemma load_add: "load h p (m + n) = load h p m @ load h (p + m) n"
  using upt_add_eq_append [of p "p + m" n] by (simp add: load_def add.assoc)

lemma store_Nil [simp]: "store h p [] = h"
  by (rule ext) (auto simp: store_def)

lemma store_append: "store (store h p xs) (p + length xs) ys = store h p (xs @ ys)"
  by (auto simp: store_def nth_append fun_eq_iff)

lemma load_store: "load (store h p xs) p (length xs) = xs"
  by (auto simp: load_def store_def intro!: nth_equalityI)

end
