(* ===== verification/MtdSlave.thy ===== *)
theory MtdSlave
  imports MtdOps
begin

text \<open>
  The partition layer, \<open>drivers/mtd/mtdpart.c\<close>: devices whose functions move an offset and pass the
  request on to a master device, and the functions that create and destroy them.

  \<open>dev a\<close> are the function pointers of the device at address \<open>a\<close>, used for the calls
  \<open>part->master->f(...)\<close>.
\<close>

unbundle bit_operations_syntax

section \<open>Passing requests on\<close>

text \<open>The result of a master's function pointer that is null is a fault.\<close>

definition part_read :: "(addr \<Rightarrow> 'f mtd_ops) \<Rightarrow> addr \<Rightarrow> 'f rw_fn" where
  "part_read dev a from len buf w =
     do { mtd \<leftarrow> info w a;
          part \<leftarrow> part_objs w a;
          master \<leftarrow> info w (pt_master part);
          let len = (if mtd_size mtd \<le> from then 0
                     else if mtd_size mtd < from + ucast len then ucast (mtd_size mtd - from)
                     else len);
          (res, retlen, w) \<leftarrow> op_read (dev (pt_master part)) (from + pt_offset part) len buf w;
          if res \<noteq> 0 then
            do { mtd \<leftarrow> info w a;
                 now \<leftarrow> info w (pt_master part);
                 let mtd = (if res = EUCLEAN
                   then mtd\<lparr>ecc_corrected := ecc_corrected mtd + (ecc_corrected now - ecc_corrected master)\<rparr>
                   else mtd);
                 let mtd = (if res = EBADMSG
                   then mtd\<lparr>ecc_failed := ecc_failed mtd + (ecc_failed now - ecc_failed master)\<rparr>
                   else mtd);
                 Some (res, retlen, set_info a mtd w) }
          else Some (res, retlen, w) }"

definition part_read_oob :: "(addr \<Rightarrow> 'f mtd_ops) \<Rightarrow> addr \<Rightarrow> 'f oob_fn" where
  "part_read_oob dev a from ops w =
     do { mtd \<leftarrow> info w a;
          part \<leftarrow> part_objs w a;
          if mtd_size mtd \<le> from then Some (EINVAL, ops, w)
          else if oo_datbuf ops \<noteq> None \<and> mtd_size mtd < from + ucast (oo_len ops) then Some (EINVAL, ops, w)
          else do {
            f \<leftarrow> op_read_oob (dev (pt_master part));
            (res, ops, w) \<leftarrow> f (from + pt_offset part) ops w;
            if res \<noteq> 0 then
              do { mtd \<leftarrow> info w a;
                   let mtd = (if res = EUCLEAN then mtd\<lparr>ecc_corrected := ecc_corrected mtd + 1\<rparr> else mtd);
                   let mtd = (if res = EBADMSG then mtd\<lparr>ecc_failed := ecc_failed mtd + 1\<rparr> else mtd);
                   Some (res, ops, set_info a mtd w) }
            else Some (res, ops, w) } }"

definition part_read_user_prot_reg :: "(addr \<Rightarrow> 'f mtd_ops) \<Rightarrow> addr \<Rightarrow> 'f rw_fn" where
  "part_read_user_prot_reg dev a from len buf w =
     do { part \<leftarrow> part_objs w a;
          f \<leftarrow> op_read_user_prot_reg (dev (pt_master part));
          f from len buf w }"

definition part_get_user_prot_info ::
  "(addr \<Rightarrow> 'f mtd_ops) \<Rightarrow> addr \<Rightarrow> addr \<Rightarrow> u32 \<Rightarrow> 'f mtd_world \<Rightarrow> (int \<times> 'f mtd_world) option" where
  "part_get_user_prot_info dev a buf len w =
     do { part \<leftarrow> part_objs w a;
          f \<leftarrow> op_get_user_prot_info (dev (pt_master part));
          f buf len w }"

definition part_read_fact_prot_reg :: "(addr \<Rightarrow> 'f mtd_ops) \<Rightarrow> addr \<Rightarrow> 'f rw_fn" where
  "part_read_fact_prot_reg dev a from len buf w =
     do { part \<leftarrow> part_objs w a;
          f \<leftarrow> op_read_fact_prot_reg (dev (pt_master part));
          f from len buf w }"

definition part_get_fact_prot_info ::
  "(addr \<Rightarrow> 'f mtd_ops) \<Rightarrow> addr \<Rightarrow> addr \<Rightarrow> u32 \<Rightarrow> 'f mtd_world \<Rightarrow> (int \<times> 'f mtd_world) option" where
  "part_get_fact_prot_info dev a buf len w =
     do { part \<leftarrow> part_objs w a;
          f \<leftarrow> op_get_fact_prot_info (dev (pt_master part));
          f buf len w }"

text \<open>The clipping of \<open>part_write\<close> and \<open>part_panic_write\<close>; on \<open>-EROFS\<close> they leave \<open>*retlen\<close> as the
  caller set it, which is not modelled: the value is 0.\<close>

definition part_write :: "(addr \<Rightarrow> 'f mtd_ops) \<Rightarrow> addr \<Rightarrow> 'f rw_fn" where
  "part_write dev a to len buf w =
     do { mtd \<leftarrow> info w a;
          part \<leftarrow> part_objs w a;
          if \<not> writeable mtd then Some (EROFS, 0, w)
          else do {
            let len = (if mtd_size mtd \<le> to then 0
                       else if mtd_size mtd < to + ucast len then ucast (mtd_size mtd - to)
                       else len);
            op_write (dev (pt_master part)) (to + pt_offset part) len buf w } }"

definition part_panic_write :: "(addr \<Rightarrow> 'f mtd_ops) \<Rightarrow> addr \<Rightarrow> 'f rw_fn" where
  "part_panic_write dev a to len buf w =
     do { mtd \<leftarrow> info w a;
          part \<leftarrow> part_objs w a;
          if \<not> writeable mtd then Some (EROFS, 0, w)
          else do {
            let len = (if mtd_size mtd \<le> to then 0
                       else if mtd_size mtd < to + ucast len then ucast (mtd_size mtd - to)
                       else len);
            f \<leftarrow> op_panic_write (dev (pt_master part));
            f (to + pt_offset part) len buf w } }"

definition part_write_oob :: "(addr \<Rightarrow> 'f mtd_ops) \<Rightarrow> addr \<Rightarrow> 'f oob_fn" where
  "part_write_oob dev a to ops w =
     do { mtd \<leftarrow> info w a;
          part \<leftarrow> part_objs w a;
          if \<not> writeable mtd then Some (EROFS, ops, w)
          else if mtd_size mtd \<le> to then Some (EINVAL, ops, w)
          else if oo_datbuf ops \<noteq> None \<and> mtd_size mtd < to + ucast (oo_len ops) then Some (EINVAL, ops, w)
          else do {
            f \<leftarrow> op_write_oob (dev (pt_master part));
            f (to + pt_offset part) ops w } }"

definition part_write_user_prot_reg :: "(addr \<Rightarrow> 'f mtd_ops) \<Rightarrow> addr \<Rightarrow> 'f rw_fn" where
  "part_write_user_prot_reg dev a from len buf w =
     do { part \<leftarrow> part_objs w a;
          f \<leftarrow> op_write_user_prot_reg (dev (pt_master part));
          f from len buf w }"

definition part_lock_user_prot_reg ::
  "(addr \<Rightarrow> 'f mtd_ops) \<Rightarrow> addr \<Rightarrow> u64 \<Rightarrow> u32 \<Rightarrow> 'f mtd_world \<Rightarrow> (int \<times> 'f mtd_world) option" where
  "part_lock_user_prot_reg dev a from len w =
     do { part \<leftarrow> part_objs w a;
          f \<leftarrow> op_lock_user_prot_reg (dev (pt_master part));
          f from len w }"

definition part_erase ::
  "'f mtd_lib \<Rightarrow> (addr \<Rightarrow> 'f mtd_ops) \<Rightarrow> addr \<Rightarrow> erase_info \<Rightarrow> 'f mtd_world
    \<Rightarrow> (int \<times> erase_info \<times> 'f mtd_world) option" where
  "part_erase lib dev a instr w =
     do { mtd \<leftarrow> info w a;
          part \<leftarrow> part_objs w a;
          if \<not> writeable mtd then Some (EROFS, instr, w)
          else if mtd_size mtd \<le> ei_addr instr then Some (EINVAL, instr, w)
          else do {
            let instr = instr\<lparr>ei_addr := ei_addr instr + pt_offset part\<rparr>;
            (ret, instr, w) \<leftarrow> op_erase (dev (pt_master part)) instr w;
            if ret \<noteq> 0 then
              do { let instr = (if ei_fail_addr instr \<noteq> MTD_FAIL_ADDR_UNKNOWN lib
                     then instr\<lparr>ei_fail_addr := ei_fail_addr instr - pt_offset part\<rparr> else instr);
                   Some (ret, instr\<lparr>ei_addr := ei_addr instr - pt_offset part\<rparr>, w) }
            else Some (ret, instr, w) } }"

text \<open>The test \<open>instr->mtd->erase == part_erase\<close> holds of the objects of \<open>part_objs\<close>.\<close>

definition mtd_erase_callback ::
  "'f mtd_lib \<Rightarrow> erase_info \<Rightarrow> 'f mtd_world \<Rightarrow> (erase_info \<times> 'f mtd_world) option" where
  "mtd_erase_callback lib instr w =
     do { _ \<leftarrow> info w (ei_mtd instr);
          let instr = (case part_objs w (ei_mtd instr) of
              None \<Rightarrow> instr
            | Some part \<Rightarrow>
                let instr = (if ei_fail_addr instr \<noteq> MTD_FAIL_ADDR_UNKNOWN lib
                      then instr\<lparr>ei_fail_addr := ei_fail_addr instr - pt_offset part\<rparr> else instr)
                in instr\<lparr>ei_addr := ei_addr instr - pt_offset part\<rparr>);
          call_callback lib instr w }"

definition part_lock :: "(addr \<Rightarrow> 'f mtd_ops) \<Rightarrow> addr \<Rightarrow> 'f range_fn" where
  "part_lock dev a ofs len w =
     do { mtd \<leftarrow> info w a;
          part \<leftarrow> part_objs w a;
          if mtd_size mtd < len + ofs then Some (EINVAL, w)
          else do { f \<leftarrow> op_lock (dev (pt_master part)); f (ofs + pt_offset part) len w } }"

definition part_unlock :: "(addr \<Rightarrow> 'f mtd_ops) \<Rightarrow> addr \<Rightarrow> 'f range_fn" where
  "part_unlock dev a ofs len w =
     do { mtd \<leftarrow> info w a;
          part \<leftarrow> part_objs w a;
          if mtd_size mtd < len + ofs then Some (EINVAL, w)
          else do { f \<leftarrow> op_unlock (dev (pt_master part)); f (ofs + pt_offset part) len w } }"

definition part_sync :: "(addr \<Rightarrow> 'f mtd_ops) \<Rightarrow> addr \<Rightarrow> 'f mtd_world \<Rightarrow> 'f mtd_world option" where
  "part_sync dev a w =
     do { part \<leftarrow> part_objs w a; f \<leftarrow> op_sync (dev (pt_master part)); f w }"

definition part_suspend :: "(addr \<Rightarrow> 'f mtd_ops) \<Rightarrow> addr \<Rightarrow> 'f mtd_world \<Rightarrow> (int \<times> 'f mtd_world) option" where
  "part_suspend dev a w =
     do { part \<leftarrow> part_objs w a; f \<leftarrow> op_suspend (dev (pt_master part)); f w }"

definition part_resume :: "(addr \<Rightarrow> 'f mtd_ops) \<Rightarrow> addr \<Rightarrow> 'f mtd_world \<Rightarrow> 'f mtd_world option" where
  "part_resume dev a w =
     do { part \<leftarrow> part_objs w a; f \<leftarrow> op_resume (dev (pt_master part)); f w }"

definition part_block_isbad :: "(addr \<Rightarrow> 'f mtd_ops) \<Rightarrow> addr \<Rightarrow> 'f block_fn" where
  "part_block_isbad dev a ofs w =
     do { mtd \<leftarrow> info w a;
          part \<leftarrow> part_objs w a;
          if mtd_size mtd \<le> ofs then Some (EINVAL, w)
          else do { f \<leftarrow> op_block_isbad (dev (pt_master part)); f (ofs + pt_offset part) w } }"

definition part_block_markbad :: "(addr \<Rightarrow> 'f mtd_ops) \<Rightarrow> addr \<Rightarrow> 'f block_fn" where
  "part_block_markbad dev a ofs w =
     do { mtd \<leftarrow> info w a;
          part \<leftarrow> part_objs w a;
          if \<not> writeable mtd then Some (EROFS, w)
          else if mtd_size mtd \<le> ofs then Some (EINVAL, w)
          else do {
            f \<leftarrow> op_block_markbad (dev (pt_master part));
            (res, w) \<leftarrow> f (ofs + pt_offset part) w;
            if res = 0
            then do { mtd \<leftarrow> info w a;
                      Some (res, set_info a (mtd\<lparr>ecc_badblocks := ecc_badblocks mtd + 1\<rparr>) w) }
            else Some (res, w) } }"

section \<open>Destroying partitions\<close>

text \<open>\<open>list_for_each_entry_safe\<close> over the list as it was on entry.  \<open>kfree\<close> ends the life of the slave
  and of the \<open>mtd_info\<close> inside it; the result of \<open>del_mtd_device\<close> is ignored.\<close>

definition kfree_slave :: "addr \<Rightarrow> 'f mtd_world \<Rightarrow> 'f mtd_world" where
  "kfree_slave a w = w\<lparr>mtdc := (mtdc w)\<lparr>mtd_objs := (mtd_objs (mtdc w))(a := None)\<rparr>,
     part_objs := (part_objs w)(a := None)\<rparr>"

fun del_slaves :: "addr list \<Rightarrow> addr \<Rightarrow> 'f mtd_world \<Rightarrow> 'f mtd_world option" where
  "del_slaves [] master w = Some w"
| "del_slaves (a # t) master w =
     do { slave \<leftarrow> part_objs w a;
          if pt_master slave = master then
            do { let w = w\<lparr>mtd_partitions := remove1 a (mtd_partitions w)\<rparr>;
                 w \<leftarrow> (if pt_registered slave
                   then do { (rc, c) \<leftarrow> del_mtd_device (mtdc w) a; Some (w\<lparr>mtdc := c\<rparr>) }
                   else Some w);
                 del_slaves t master (kfree_slave a w) }
          else del_slaves t master w }"

definition del_mtd_partitions :: "addr \<Rightarrow> 'f mtd_world \<Rightarrow> (int \<times> 'f mtd_world) option" where
  "del_mtd_partitions master w =
     do { w \<leftarrow> del_slaves (mtd_partitions w) master w; Some (0, w) }"

section \<open>Creating partitions\<close>

record mtd_partition =
  mp_name :: string
  mp_size :: u64
  mp_offset :: u64
  mp_mask_flags :: u32
  mp_mtdp :: "addr option"

definition MTDPART_OFS_APPEND :: u64 where "MTDPART_OFS_APPEND = -1"
definition MTDPART_OFS_NXTBLK :: u64 where "MTDPART_OFS_NXTBLK = -2"
definition MTDPART_SIZ_FULL :: u64 where "MTDPART_SIZ_FULL = 0"

text \<open>The fields that are copied from the master and the definition, over a zeroed object.\<close>

definition slave_init :: "mtd_info \<Rightarrow> mtd_partition \<Rightarrow> mtd_info" where
  "slave_init master part =
     \<lparr>mtd_type = mtd_type master, mtd_flags = mtd_flags master AND NOT (mp_mask_flags part),
      mtd_size = mp_size part, erasesize = 0, writesize = writesize master, oobsize = oobsize master,
      oobavail = oobavail master, subpage_sft = subpage_sft master, mtd_name = mp_name part,
      mtd_index = 0, usecount = 0, eraseregions = [],
      ecc_corrected = 0, ecc_failed = 0, ecc_badblocks = 0\<rparr>"

text \<open>The function pointers of the slave.\<close>

definition slave_ops ::
  "'f mtd_lib \<Rightarrow> (addr \<Rightarrow> 'f mtd_ops) \<Rightarrow> 'f mtd_ops \<Rightarrow> nat \<Rightarrow> addr \<Rightarrow> 'f mtd_ops" where
  "slave_ops lib dev master partno a =
     (let opt = (\<lambda>present f. if present then Some f else None);
          susp = partno = 0 \<and> op_suspend master \<noteq> None \<and> op_resume master \<noteq> None in
      \<lparr>op_read = part_read dev a,
       op_write = part_write dev a,
       op_panic_write = opt (op_panic_write master \<noteq> None) (part_panic_write dev a),
       op_read_oob = (if op_read_oob master \<noteq> None then Some (part_read_oob dev a) else None),
       op_write_oob = (if op_write_oob master \<noteq> None then Some (part_write_oob dev a) else None),
       op_read_user_prot_reg = opt (op_read_user_prot_reg master \<noteq> None) (part_read_user_prot_reg dev a),
       op_read_fact_prot_reg = opt (op_read_fact_prot_reg master \<noteq> None) (part_read_fact_prot_reg dev a),
       op_write_user_prot_reg = opt (op_write_user_prot_reg master \<noteq> None) (part_write_user_prot_reg dev a),
       op_lock_user_prot_reg = (if op_lock_user_prot_reg master \<noteq> None
         then Some (part_lock_user_prot_reg dev a) else None),
       op_get_user_prot_info = (if op_get_user_prot_info master \<noteq> None
         then Some (part_get_user_prot_info dev a) else None),
       op_get_fact_prot_info = (if op_get_fact_prot_info master \<noteq> None
         then Some (part_get_fact_prot_info dev a) else None),
       op_erase = part_erase lib dev a,
       op_sync = (if op_sync master \<noteq> None then Some (part_sync dev a) else None),
       op_suspend = (if susp then Some (part_suspend dev a) else None),
       op_resume = (if susp then Some (part_resume dev a) else None),
       op_lock = (if op_lock master \<noteq> None then Some (part_lock dev a) else None),
       op_unlock = (if op_unlock master \<noteq> None then Some (part_unlock dev a) else None),
       op_block_isbad = (if op_block_isbad master \<noteq> None then Some (part_block_isbad dev a) else None),
       op_block_markbad = (if op_block_markbad master \<noteq> None then Some (part_block_markbad dev a) else None)\<rparr>)"

text \<open>The quotient is a 32-bit number and so is its product with the erase size.\<close>

definition slave_offset :: "'f mtd_lib \<Rightarrow> mtd_info \<Rightarrow> mtd_partition \<Rightarrow> u64 \<Rightarrow> u64 option" where
  "slave_offset lib master part cur_offset =
     (let offset = (if mp_offset part = MTDPART_OFS_APPEND then cur_offset else mp_offset part) in
      if offset = MTDPART_OFS_NXTBLK then
        do { r \<leftarrow> mtd_mod_by_eb lib cur_offset master;
             if r \<noteq> 0
             then do { q \<leftarrow> mtd_div_by_eb lib cur_offset master; Some (ucast ((q + 1) * erasesize master)) }
             else Some cur_offset }
      else Some offset)"

text \<open>The two loops over the erase regions: the number of regions that start at or before the slave,
  and the biggest erase size of those that it meets; region -1 is outside the array.\<close>

fun first_region :: "erase_region list \<Rightarrow> u64 \<Rightarrow> nat" where
  "first_region [] ofs = 0"
| "first_region (r # rs) ofs = (if er_offset r \<le> ofs then Suc (first_region rs ofs) else 0)"

fun biggest_erasesize :: "erase_region list \<Rightarrow> u64 \<Rightarrow> u32 \<Rightarrow> u32" where
  "biggest_erasesize [] fin e = e"
| "biggest_erasesize (r # rs) fin e =
     (if er_offset r < fin then biggest_erasesize rs fin (if e < er_erasesize r then er_erasesize r else e)
      else e)"

definition slave_erasesize :: "mtd_info \<Rightarrow> u64 \<Rightarrow> u64 \<Rightarrow> u32 option" where
  "slave_erasesize master offset sz =
     (if 1 < numeraseregions master then
        (case first_region (eraseregions master) offset of
           0 \<Rightarrow> None
         | Suc i \<Rightarrow>
             let e = biggest_erasesize (drop i (eraseregions master)) (offset + sz) 0
             in if e = 0 then None else Some e)
      else Some (erasesize master))"

text \<open>A slave that does not start or end on an erase block is made read-only.\<close>

definition slave_readonly :: "'f mtd_lib \<Rightarrow> mtd_info \<Rightarrow> u64 \<Rightarrow> mtd_info option" where
  "slave_readonly lib mtd offset =
     do { mtd \<leftarrow> (if writeable mtd
            then do { r \<leftarrow> mtd_mod_by_eb lib offset mtd;
                      Some (if r \<noteq> 0 then mtd\<lparr>mtd_flags := mtd_flags mtd AND NOT MTD_WRITEABLE\<rparr> else mtd) }
            else Some mtd);
          if writeable mtd
          then do { r \<leftarrow> mtd_mod_by_eb lib (mtd_size mtd) mtd;
                    Some (if r \<noteq> 0 then mtd\<lparr>mtd_flags := mtd_flags mtd AND NOT MTD_WRITEABLE\<rparr> else mtd) }
          else Some mtd }"

partial_function (option) count_badblocks ::
  "'f block_fn \<Rightarrow> addr \<Rightarrow> u64 \<Rightarrow> u64 \<Rightarrow> 'f mtd_world \<Rightarrow> 'f mtd_world option" where
  "count_badblocks isbad a offset offs w =
     do { mtd \<leftarrow> info w a;
          if offs < mtd_size mtd then
            do { (bad, w) \<leftarrow> isbad (offs + offset) w;
                 mtd \<leftarrow> info w a;
                 let w = (if bad \<noteq> 0 then set_info a (mtd\<lparr>ecc_badblocks := ecc_badblocks mtd + 1\<rparr>) w else w);
                 count_badblocks isbad a offset (offs + ucast (erasesize mtd)) w }
          else Some w }"

declare count_badblocks.simps [code]

text \<open>\<open>out_register\<close>\<close>

definition slave_register :: "mtd_partition \<Rightarrow> addr \<Rightarrow> 'f mtd_world \<Rightarrow> 'f mtd_world option" where
  "slave_register part a w =
     do { slave \<leftarrow> part_objs w a;
          case mp_mtdp part of
            Some cell \<Rightarrow> Some (w\<lparr>mtdp_cells := (mtdp_cells w)(cell \<mapsto> a),
                              part_objs := (part_objs w)(a \<mapsto> slave\<lparr>pt_registered := False\<rparr>)\<rparr>)
          | None \<Rightarrow>
              do { (rc, c) \<leftarrow> add_mtd_device (mtdc w) a;
                   Some (w\<lparr>mtdc := c, part_objs := (part_objs w)(a \<mapsto> slave\<lparr>pt_registered := True\<rparr>)\<rparr>) } }"

definition put_slave :: "addr \<Rightarrow> mtd_info \<Rightarrow> mtd_part \<Rightarrow> 'f mtd_world \<Rightarrow> 'f mtd_world" where
  "put_slave a mtd slave w = (set_info a mtd w)\<lparr>part_objs := (part_objs w)(a \<mapsto> slave)\<rparr>"

text \<open>\<open>NULL\<close> is \<open>Some (None, w)\<close>.\<close>

definition add_one_partition ::
  "'f mtd_lib \<Rightarrow> (addr \<Rightarrow> 'f mtd_ops) \<Rightarrow> addr \<Rightarrow> mtd_partition \<Rightarrow> nat \<Rightarrow> u64 \<Rightarrow> 'f mtd_world
    \<Rightarrow> (addr option \<times> 'f mtd_world) option" where
  "add_one_partition lib dev master part partno cur_offset w =
     (case kzalloc lib w of
        None \<Rightarrow> do { (_, w) \<leftarrow> del_mtd_partitions master w; Some (None, w) }
      | Some a \<Rightarrow>
          do { m \<leftarrow> info w master;
               let w = w\<lparr>mtd_partitions := a # mtd_partitions w\<rparr>;
               let mtd = slave_init m part;
               offset \<leftarrow> slave_offset lib m part cur_offset;
               let slave = \<lparr>pt_master = master, pt_offset = offset, pt_index = partno, pt_registered = False\<rparr>;
               let mtd = (if mtd_size mtd = MTDPART_SIZ_FULL
                 then mtd\<lparr>mtd_size := mtd_size m - offset\<rparr> else mtd);
               if mtd_size m \<le> offset
               then do { w \<leftarrow> slave_register part a
                           (put_slave a (mtd\<lparr>mtd_size := 0\<rparr>) (slave\<lparr>pt_offset := 0\<rparr>) w);
                         Some (Some a, w) }
               else do {
                 let mtd = (if mtd_size m < offset + mtd_size mtd
                   then mtd\<lparr>mtd_size := mtd_size m - offset\<rparr> else mtd);
                 e \<leftarrow> slave_erasesize m offset (mtd_size mtd);
                 mtd \<leftarrow> slave_readonly lib (mtd\<lparr>erasesize := e\<rparr>) offset;
                 let w = put_slave a mtd slave w;
                 w \<leftarrow> (case op_block_isbad (dev master) of None \<Rightarrow> Some w
                       | Some isbad \<Rightarrow> count_badblocks isbad a offset 0 w);
                 w \<leftarrow> slave_register part a w;
                 Some (Some a, w) } })"

fun add_slaves ::
  "'f mtd_lib \<Rightarrow> (addr \<Rightarrow> 'f mtd_ops) \<Rightarrow> addr \<Rightarrow> mtd_partition list \<Rightarrow> nat \<Rightarrow> u64 \<Rightarrow> 'f mtd_world
    \<Rightarrow> (int \<times> 'f mtd_world) option" where
  "add_slaves lib dev master [] i cur_offset w = Some (0, w)"
| "add_slaves lib dev master (part # parts) i cur_offset w =
     do { (r, w) \<leftarrow> add_one_partition lib dev master part i cur_offset w;
          case r of None \<Rightarrow> Some (ENOMEM, w)
          | Some a \<Rightarrow>
              do { slave \<leftarrow> part_objs w a;
                   mtd \<leftarrow> info w a;
                   add_slaves lib dev master parts (i + 1) (pt_offset slave + mtd_size mtd) w } }"

text \<open>The table has \<open>nbparts\<close> entries.  An all-zero list head, which is made an empty list here, is the
  empty list.\<close>

definition add_mtd_partitions ::
  "'f mtd_lib \<Rightarrow> (addr \<Rightarrow> 'f mtd_ops) \<Rightarrow> addr \<Rightarrow> mtd_partition list \<Rightarrow> 'f mtd_world
    \<Rightarrow> (int \<times> 'f mtd_world) option" where
  "add_mtd_partitions lib dev master parts w = add_slaves lib dev master parts 0 0 w"

end
