(* ===== verification/MtdConcat.thy ===== *)
theory MtdConcat
  imports MtdOps
begin

text \<open>
  The concatenation layer, \<open>drivers/mtd/mtdconcat.c\<close>: a device whose address space is that of its
  subdevices, one after the other.

  \<open>dev a\<close> are the function pointers of the device at address \<open>a\<close>, \<open>c\<close> is the concatenated device,
  and \<open>subs\<close> is the array \<open>concat->subdev\<close>, of length \<open>num_subdev\<close>.
\<close>

unbundle bit_operations_syntax

section \<open>Reading and writing\<close>

text \<open>Bit flips are counted and remembered, and only other errors end the loop.\<close>

definition note_bitflips ::
  "addr \<Rightarrow> int \<Rightarrow> int \<Rightarrow> 'f mtd_world \<Rightarrow> (int option \<times> 'f mtd_world) option" where
  "note_bitflips c err ret w =
     (if err = 0 then Some (Some ret, w)
      else if err = EBADMSG then
        do { mtd \<leftarrow> info w c; Some (Some err, set_info c (mtd\<lparr>ecc_failed := ecc_failed mtd + 1\<rparr>) w) }
      else if err = EUCLEAN then
        do { mtd \<leftarrow> info w c;
             Some (Some (if ret = 0 then err else ret),
                   set_info c (mtd\<lparr>ecc_corrected := ecc_corrected mtd + 1\<rparr>) w) }
      else Some (None, w))"

fun concat_read_loop ::
  "(addr \<Rightarrow> 'f mtd_ops) \<Rightarrow> addr \<Rightarrow> addr list \<Rightarrow> u64 \<Rightarrow> u32 \<Rightarrow> addr \<Rightarrow> int \<Rightarrow> u32 \<Rightarrow> 'f mtd_world
    \<Rightarrow> (int \<times> u32 \<times> 'f mtd_world) option" where
  "concat_read_loop dev c [] from len buf ret retlen w = Some (EINVAL, retlen, w)"
| "concat_read_loop dev c (s # subs) from len buf ret retlen w =
     do { subdev \<leftarrow> info w s;
          if mtd_size subdev \<le> from
          then concat_read_loop dev c subs (from - mtd_size subdev) len buf ret retlen w
          else do {
            let sz = (if mtd_size subdev < from + ucast len then ucast (mtd_size subdev - from) else len);
            (err, retsize, w) \<leftarrow> op_read (dev s) from sz buf w;
            (r, w) \<leftarrow> note_bitflips c err ret w;
            case r of None \<Rightarrow> Some (err, retlen, w)
            | Some ret \<Rightarrow>
                if len - sz = 0 then Some (ret, retlen + retsize, w)
                else concat_read_loop dev c subs 0 (len - sz) (buf + unat sz) ret (retlen + retsize) w } }"

definition concat_read :: "(addr \<Rightarrow> 'f mtd_ops) \<Rightarrow> addr \<Rightarrow> addr list \<Rightarrow> 'f rw_fn" where
  "concat_read dev c subs from len buf w = concat_read_loop dev c subs from len buf 0 0 w"

fun concat_write_loop ::
  "(addr \<Rightarrow> 'f mtd_ops) \<Rightarrow> addr list \<Rightarrow> u64 \<Rightarrow> u32 \<Rightarrow> addr \<Rightarrow> u32 \<Rightarrow> 'f mtd_world
    \<Rightarrow> (int \<times> u32 \<times> 'f mtd_world) option" where
  "concat_write_loop dev [] to len buf retlen w = Some (EINVAL, retlen, w)"
| "concat_write_loop dev (s # subs) to len buf retlen w =
     do { subdev \<leftarrow> info w s;
          if mtd_size subdev \<le> to
          then concat_write_loop dev subs (to - mtd_size subdev) len buf retlen w
          else do {
            let sz = (if mtd_size subdev < to + ucast len then ucast (mtd_size subdev - to) else len);
            if \<not> writeable subdev then Some (EROFS, retlen, w)
            else do {
              (err, retsize, w) \<leftarrow> op_write (dev s) to sz buf w;
              if err \<noteq> 0 then Some (err, retlen, w)
              else if len - sz = 0 then Some (0, retlen + retsize, w)
              else concat_write_loop dev subs 0 (len - sz) (buf + unat sz) (retlen + retsize) w } } }"

text \<open>On \<open>-EROFS\<close> at the start, \<open>*retlen\<close> stays as the caller set it, which is not modelled: the value
  is 0.\<close>

definition concat_write :: "(addr \<Rightarrow> 'f mtd_ops) \<Rightarrow> addr \<Rightarrow> addr list \<Rightarrow> 'f rw_fn" where
  "concat_write dev c subs to len buf w =
     do { mtd \<leftarrow> info w c;
          if \<not> writeable mtd then Some (EROFS, 0, w)
          else concat_write_loop dev subs to len buf 0 w }"

section \<open>Reading and writing with out-of-band data\<close>

text \<open>\<open>ops\<close> is the request of the caller, \<open>devops\<close> the local copy for the subdevices.  The result of
  a subdevice's function pointer that is null is a fault.\<close>

fun concat_read_oob_loop ::
  "(addr \<Rightarrow> 'f mtd_ops) \<Rightarrow> addr \<Rightarrow> addr list \<Rightarrow> u64 \<Rightarrow> oob_ops \<Rightarrow> oob_ops \<Rightarrow> int \<Rightarrow> 'f mtd_world
    \<Rightarrow> (int \<times> oob_ops \<times> 'f mtd_world) option" where
  "concat_read_oob_loop dev c [] from ops devops ret w = Some (EINVAL, ops, w)"
| "concat_read_oob_loop dev c (s # subs) from ops devops ret w =
     do { subdev \<leftarrow> info w s;
          if mtd_size subdev \<le> from
          then concat_read_oob_loop dev c subs (from - mtd_size subdev) ops devops ret w
          else do {
            let devops = (if mtd_size subdev < from + ucast (oo_len devops)
              then devops\<lparr>oo_len := ucast (mtd_size subdev - from)\<rparr> else devops);
            f \<leftarrow> op_read_oob (dev s);
            (err, devops, w) \<leftarrow> f from devops w;
            let ops = ops\<lparr>oo_retlen := oo_retlen ops + oo_retlen devops,
                          oo_oobretlen := oo_oobretlen ops + oo_oobretlen devops\<rparr>;
            (r, w) \<leftarrow> note_bitflips c err ret w;
            case r of None \<Rightarrow> Some (err, ops, w)
            | Some ret \<Rightarrow>
                let dat = oo_datbuf devops \<noteq> None;
                    devops = (if dat then devops\<lparr>oo_len := oo_len ops - oo_retlen ops\<rparr> else devops)
                in if dat \<and> oo_len devops = 0 then Some (ret, ops, w)
                else let
                    devops = devops\<lparr>oo_datbuf := map_option (\<lambda>p. p + unat (oo_retlen devops)) (oo_datbuf devops)\<rparr>;
                    oob = oo_oobbuf devops \<noteq> None;
                    devops = (if oob then devops\<lparr>oo_ooblen := oo_ooblen ops - oo_oobretlen ops\<rparr> else devops)
                in if oob \<and> oo_ooblen devops = 0 then Some (ret, ops, w)
                else let
                    devops = devops\<lparr>oo_oobbuf := map_option (\<lambda>p. p + unat (oo_oobretlen ops)) (oo_oobbuf devops)\<rparr>
                in concat_read_oob_loop dev c subs 0 ops devops ret w } }"

definition concat_read_oob :: "(addr \<Rightarrow> 'f mtd_ops) \<Rightarrow> addr \<Rightarrow> addr list \<Rightarrow> 'f oob_fn" where
  "concat_read_oob dev c subs from ops w =
     concat_read_oob_loop dev c subs from (ops\<lparr>oo_retlen := 0, oo_oobretlen := 0\<rparr>) ops 0 w"

fun concat_write_oob_loop ::
  "(addr \<Rightarrow> 'f mtd_ops) \<Rightarrow> addr list \<Rightarrow> u64 \<Rightarrow> oob_ops \<Rightarrow> oob_ops \<Rightarrow> 'f mtd_world
    \<Rightarrow> (int \<times> oob_ops \<times> 'f mtd_world) option" where
  "concat_write_oob_loop dev [] to ops devops w = Some (EINVAL, ops, w)"
| "concat_write_oob_loop dev (s # subs) to ops devops w =
     do { subdev \<leftarrow> info w s;
          if mtd_size subdev \<le> to
          then concat_write_oob_loop dev subs (to - mtd_size subdev) ops devops w
          else do {
            let devops = (if mtd_size subdev < to + ucast (oo_len devops)
              then devops\<lparr>oo_len := ucast (mtd_size subdev - to)\<rparr> else devops);
            f \<leftarrow> op_write_oob (dev s);
            (err, devops, w) \<leftarrow> f to devops w;
            let ops = ops\<lparr>oo_retlen := oo_retlen ops + oo_retlen devops\<rparr>;
            if err \<noteq> 0 then Some (err, ops, w)
            else let dat = oo_datbuf devops \<noteq> None;
                     devops = (if dat then devops\<lparr>oo_len := oo_len ops - oo_retlen ops\<rparr> else devops)
            in if dat \<and> oo_len devops = 0 then Some (0, ops, w)
            else let
                devops = devops\<lparr>oo_datbuf := map_option (\<lambda>p. p + unat (oo_retlen devops)) (oo_datbuf devops)\<rparr>;
                oob = oo_oobbuf devops \<noteq> None;
                devops = (if oob then devops\<lparr>oo_ooblen := oo_ooblen ops - oo_oobretlen ops\<rparr> else devops)
            in if oob \<and> oo_ooblen devops = 0 then Some (0, ops, w)
            else let
                devops = devops\<lparr>oo_oobbuf := map_option (\<lambda>p. p + unat (oo_oobretlen devops)) (oo_oobbuf devops)\<rparr>
            in concat_write_oob_loop dev subs 0 ops devops w } }"

definition concat_write_oob :: "(addr \<Rightarrow> 'f mtd_ops) \<Rightarrow> addr \<Rightarrow> addr list \<Rightarrow> 'f oob_fn" where
  "concat_write_oob dev c subs to ops w =
     do { mtd \<leftarrow> info w c;
          if \<not> writeable mtd then Some (EROFS, ops, w)
          else concat_write_oob_loop dev subs to (ops\<lparr>oo_retlen := 0\<rparr>) ops w }"

section \<open>Erasing\<close>

text \<open>Waiting for the end of the erase is empty in the boot loader.\<close>

definition concat_dev_erase ::
  "(addr \<Rightarrow> 'f mtd_ops) \<Rightarrow> addr \<Rightarrow> erase_info \<Rightarrow> 'f mtd_world \<Rightarrow> (int \<times> erase_info \<times> 'f mtd_world) option" where
  "concat_dev_erase dev s erase w =
     do { let erase = erase\<lparr>ei_mtd := s, ei_callback := Some Concat_erase_callback\<rparr>;
          (err, erase, w) \<leftarrow> op_erase (dev s) erase w;
          Some (if err = 0 then (if ei_state erase = MTD_ERASE_FAILED then EIO else 0) else err, erase, w) }"

text \<open>The number of regions from index \<open>i\<close> on that start at or before \<open>pos\<close>, without a gap.\<close>

fun regions_upto :: "erase_region list \<Rightarrow> u64 \<Rightarrow> nat" where
  "regions_upto [] pos = 0"
| "regions_upto (r # rs) pos = (if er_offset r \<le> pos then Suc (regions_upto rs pos) else 0)"

text \<open>The test of the erase block alignment; region -1 is outside the array.\<close>

definition erase_aligned :: "mtd_info \<Rightarrow> u64 \<Rightarrow> u64 \<Rightarrow> bool option" where
  "erase_aligned mtd pos len =
     (if numeraseregions mtd = 0 then
        Some (pos AND ucast (erasesize mtd - 1) = 0 \<and> len AND ucast (erasesize mtd - 1) = 0)
      else case regions_upto (eraseregions mtd) pos of
        0 \<Rightarrow> None
      | Suc i \<Rightarrow>
          if pos AND ucast (er_erasesize (eraseregions mtd ! i) - 1) \<noteq> 0 then Some False
          else case i + regions_upto (drop i (eraseregions mtd)) (pos + len) of
            0 \<Rightarrow> None
          | Suc j \<Rightarrow> Some ((pos + len) AND ucast (er_erasesize (eraseregions mtd ! j) - 1) = 0))"

text \<open>The subdevice where the area begins, with the address in it and its offset in the whole.\<close>

fun find_subdev :: "addr list \<Rightarrow> u64 \<Rightarrow> u64 \<Rightarrow> 'f mtd_world \<Rightarrow> (addr list \<times> u64 \<times> u64) option" where
  "find_subdev [] pos offset w = Some ([], pos, offset)"
| "find_subdev (s # subs) pos offset w =
     do { subdev \<leftarrow> info w s;
          if mtd_size subdev \<le> pos
          then find_subdev subs (pos - mtd_size subdev) (offset + mtd_size subdev) w
          else Some (s # subs, pos, offset) }"

text \<open>The erase loop over \<open>subdev[i], subdev[i + 1], ...\<close>: results are \<open>err\<close>, the local request, and
  the failure address that the loop has stored in the caller's request.\<close>

fun concat_erase_loop ::
  "'f mtd_lib \<Rightarrow> (addr \<Rightarrow> 'f mtd_ops) \<Rightarrow> addr list \<Rightarrow> erase_info \<Rightarrow> u64 \<Rightarrow> u64 \<Rightarrow> u64 \<Rightarrow> 'f mtd_world
    \<Rightarrow> (int \<times> erase_info \<times> u64 \<times> 'f mtd_world) option" where
  "concat_erase_loop lib dev [] erase left offset fail_addr w =
     (if left = 0 then Some (0, erase, fail_addr, w) else None)"
| "concat_erase_loop lib dev (s # subs) erase left offset fail_addr w =
     (if left = 0 then Some (0, erase, fail_addr, w)
      else do {
        subdev \<leftarrow> info w s;
        let erase = erase\<lparr>ei_len := (if mtd_size subdev < ei_addr erase + left
                                    then mtd_size subdev - ei_addr erase else left)\<rparr>;
        if \<not> writeable subdev then Some (EROFS, erase, fail_addr, w)
        else do {
          let left = left - ei_len erase;
          (err, erase, w) \<leftarrow> concat_dev_erase dev s erase w;
          if err \<noteq> 0 then
            if err = EINVAL then None
            else Some (err, erase, if ei_fail_addr erase \<noteq> MTD_FAIL_ADDR_UNKNOWN lib
                                   then ei_fail_addr erase + offset else fail_addr, w)
          else concat_erase_loop lib dev subs (erase\<lparr>ei_addr := 0\<rparr>) left (offset + mtd_size subdev)
                 fail_addr w } })"

definition concat_erase ::
  "'f mtd_lib \<Rightarrow> (addr \<Rightarrow> 'f mtd_ops) \<Rightarrow> addr \<Rightarrow> addr list \<Rightarrow> erase_info \<Rightarrow> 'f mtd_world
    \<Rightarrow> (int \<times> erase_info \<times> 'f mtd_world) option" where
  "concat_erase lib dev c subs instr w =
     do { mtd \<leftarrow> info w c;
          if \<not> writeable mtd then Some (EROFS, instr, w)
          else if mtd_size mtd < ei_addr instr then Some (EINVAL, instr, w)
          else if mtd_size mtd < ei_len instr + ei_addr instr then Some (EINVAL, instr, w)
          else do {
            al \<leftarrow> erase_aligned mtd (ei_addr instr) (ei_len instr);
            if \<not> al then Some (EINVAL, instr, w)
            else do {
              let instr = instr\<lparr>ei_fail_addr := MTD_FAIL_ADDR_UNKNOWN lib\<rparr>;
              case kzalloc lib w of None \<Rightarrow> Some (ENOMEM, instr, w)
              | Some _ \<Rightarrow>
                  do { (rest, pos, offset) \<leftarrow> find_subdev subs (ei_addr instr) 0 w;
                       if rest = [] then None
                       else do {
                         (err, erase, fail_addr, w) \<leftarrow> concat_erase_loop lib dev rest
                            (instr\<lparr>ei_addr := pos\<rparr>) (ei_len instr) offset (ei_fail_addr instr) w;
                         let instr = instr\<lparr>ei_fail_addr := fail_addr, ei_state := ei_state erase\<rparr>;
                         if err \<noteq> 0 then Some (err, instr, w)
                         else do { (instr, w) \<leftarrow> call_callback lib instr w; Some (0, instr, w) } } } } } }"

section \<open>Locking, bad blocks\<close>

text \<open>\<open>concat_lock\<close> and \<open>concat_unlock\<close> differ in the function they call and in the result when no
  subdevice is reached.\<close>

fun concat_range_loop ::
  "('f mtd_ops \<Rightarrow> 'f range_fn option) \<Rightarrow> (addr \<Rightarrow> 'f mtd_ops) \<Rightarrow> addr list \<Rightarrow> u64 \<Rightarrow> u64 \<Rightarrow> int \<Rightarrow> 'f mtd_world
    \<Rightarrow> (int \<times> 'f mtd_world) option" where
  "concat_range_loop op dev [] ofs len err w = Some (err, w)"
| "concat_range_loop op dev (s # subs) ofs len err w =
     do { subdev \<leftarrow> info w s;
          if mtd_size subdev \<le> ofs
          then concat_range_loop op dev subs (ofs - mtd_size subdev) len err w
          else do {
            let sz = (if mtd_size subdev < ofs + len then mtd_size subdev - ofs else len);
            f \<leftarrow> op (dev s);
            (err, w) \<leftarrow> f ofs sz w;
            if err \<noteq> 0 then Some (err, w)
            else if len - sz = 0 then Some (0, w)
            else concat_range_loop op dev subs 0 (len - sz) EINVAL w } }"

definition concat_lock :: "(addr \<Rightarrow> 'f mtd_ops) \<Rightarrow> addr \<Rightarrow> addr list \<Rightarrow> 'f range_fn" where
  "concat_lock dev c subs ofs len w =
     do { mtd \<leftarrow> info w c;
          if mtd_size mtd < len + ofs then Some (EINVAL, w)
          else concat_range_loop op_lock dev subs ofs len EINVAL w }"

definition concat_unlock :: "(addr \<Rightarrow> 'f mtd_ops) \<Rightarrow> addr \<Rightarrow> addr list \<Rightarrow> 'f range_fn" where
  "concat_unlock dev c subs ofs len w =
     do { mtd \<leftarrow> info w c;
          if mtd_size mtd < len + ofs then Some (EINVAL, w)
          else concat_range_loop op_unlock dev subs ofs len 0 w }"

fun concat_sync :: "(addr \<Rightarrow> 'f mtd_ops) \<Rightarrow> addr list \<Rightarrow> 'f mtd_world \<Rightarrow> 'f mtd_world option" where
  "concat_sync dev [] w = Some w"
| "concat_sync dev (s # subs) w = do { f \<leftarrow> op_sync (dev s); w \<leftarrow> f w; concat_sync dev subs w }"

fun concat_isbad_loop ::
  "(addr \<Rightarrow> 'f mtd_ops) \<Rightarrow> addr list \<Rightarrow> u64 \<Rightarrow> 'f mtd_world \<Rightarrow> (int \<times> 'f mtd_world) option" where
  "concat_isbad_loop dev [] ofs w = Some (0, w)"
| "concat_isbad_loop dev (s # subs) ofs w =
     do { subdev \<leftarrow> info w s;
          if mtd_size subdev \<le> ofs then concat_isbad_loop dev subs (ofs - mtd_size subdev) w
          else do { f \<leftarrow> op_block_isbad (dev s); f ofs w } }"

definition concat_block_isbad :: "(addr \<Rightarrow> 'f mtd_ops) \<Rightarrow> addr \<Rightarrow> addr list \<Rightarrow> 'f block_fn" where
  "concat_block_isbad dev c subs ofs w =
     do { s0 \<leftarrow> rd subs 0;
          if op_block_isbad (dev s0) = None then Some (0, w)
          else do { mtd \<leftarrow> info w c;
                    if mtd_size mtd < ofs then Some (EINVAL, w)
                    else concat_isbad_loop dev subs ofs w } }"

fun concat_markbad_loop ::
  "(addr \<Rightarrow> 'f mtd_ops) \<Rightarrow> addr \<Rightarrow> addr list \<Rightarrow> u64 \<Rightarrow> 'f mtd_world \<Rightarrow> (int \<times> 'f mtd_world) option" where
  "concat_markbad_loop dev c [] ofs w = Some (EINVAL, w)"
| "concat_markbad_loop dev c (s # subs) ofs w =
     do { subdev \<leftarrow> info w s;
          if mtd_size subdev \<le> ofs then concat_markbad_loop dev c subs (ofs - mtd_size subdev) w
          else do {
            f \<leftarrow> op_block_markbad (dev s);
            (err, w) \<leftarrow> f ofs w;
            if err = 0
            then do { mtd \<leftarrow> info w c;
                      Some (err, set_info c (mtd\<lparr>ecc_badblocks := ecc_badblocks mtd + 1\<rparr>) w) }
            else Some (err, w) } }"

definition concat_block_markbad :: "(addr \<Rightarrow> 'f mtd_ops) \<Rightarrow> addr \<Rightarrow> addr list \<Rightarrow> 'f block_fn" where
  "concat_block_markbad dev c subs ofs w =
     do { s0 \<leftarrow> rd subs 0;
          if op_block_markbad (dev s0) = None then Some (0, w)
          else do { mtd \<leftarrow> info w c;
                    if mtd_size mtd < ofs then Some (EINVAL, w)
                    else concat_markbad_loop dev c subs ofs w } }"

section \<open>Creating a concatenated device\<close>

definition concat_init :: "mtd_info \<Rightarrow> string \<Rightarrow> mtd_info" where
  "concat_init s0 name =
     \<lparr>mtd_type = mtd_type s0, mtd_flags = mtd_flags s0, mtd_size = mtd_size s0, erasesize = erasesize s0,
      writesize = writesize s0, oobsize = oobsize s0, oobavail = oobavail s0, subpage_sft = subpage_sft s0,
      mtd_name = name, mtd_index = 0, usecount = 0, eraseregions = [], ecc_corrected = 0, ecc_failed = 0,
      ecc_badblocks = ecc_badblocks s0\<rparr>"

text \<open>The function pointers of the concatenated device; \<open>s0\<close> are those of the first subdevice.\<close>

definition concat_ops ::
  "'f mtd_lib \<Rightarrow> (addr \<Rightarrow> 'f mtd_ops) \<Rightarrow> 'f mtd_ops \<Rightarrow> addr \<Rightarrow> addr list \<Rightarrow> 'f mtd_ops" where
  "concat_ops lib dev s0 c subs =
     \<lparr>op_read = concat_read dev c subs, op_write = concat_write dev c subs, op_panic_write = None,
      op_read_oob = (if op_read_oob s0 \<noteq> None then Some (concat_read_oob dev c subs) else None),
      op_write_oob = (if op_write_oob s0 \<noteq> None then Some (concat_write_oob dev c subs) else None),
      op_read_user_prot_reg = None, op_read_fact_prot_reg = None, op_write_user_prot_reg = None,
      op_lock_user_prot_reg = None, op_get_user_prot_info = None, op_get_fact_prot_info = None,
      op_erase = concat_erase lib dev c subs, op_sync = Some (concat_sync dev subs),
      op_suspend = None, op_resume = None,
      op_lock = Some (concat_lock dev c subs), op_unlock = Some (concat_unlock dev c subs),
      op_block_isbad = (if op_block_isbad s0 \<noteq> None then Some (concat_block_isbad dev c subs) else None),
      op_block_markbad = (if op_block_markbad s0 \<noteq> None then Some (concat_block_markbad dev c subs) else None)\<rparr>"

text \<open>The loop over the other subdevices; \<open>None\<close> when one is incompatible.  \<open>s0\<close> decides which function
  pointers the new device has.\<close>

fun concat_join ::
  "'f mtd_ops \<Rightarrow> (mtd_info \<times> 'f mtd_ops) list \<Rightarrow> mtd_info \<Rightarrow> mtd_info option" where
  "concat_join s0 [] mtd = Some mtd"
| "concat_join s0 ((sub, ops) # t) mtd =
     (if mtd_type mtd \<noteq> mtd_type sub then None
      else if mtd_flags mtd \<noteq> mtd_flags sub \<and> (mtd_flags mtd XOR mtd_flags sub) AND NOT MTD_WRITEABLE \<noteq> 0
      then None
      else let
        mtd = (if mtd_flags mtd \<noteq> mtd_flags sub
          then mtd\<lparr>mtd_flags := mtd_flags mtd OR (mtd_flags sub AND MTD_WRITEABLE)\<rparr> else mtd);
        mtd = mtd\<lparr>mtd_size := mtd_size mtd + mtd_size sub,
                  ecc_badblocks := ecc_badblocks mtd + ecc_badblocks sub\<rparr>
      in if writesize mtd \<noteq> writesize sub \<or> subpage_sft mtd \<noteq> subpage_sft sub \<or> oobsize mtd \<noteq> oobsize sub \<or>
            (op_read_oob s0 = None) \<noteq> (op_read_oob ops = None) \<or>
            (op_write_oob s0 = None) \<noteq> (op_write_oob ops = None)
         then None
         else concat_join s0 t mtd)"

text \<open>The first walk over the erase sizes: number of regions, current and biggest erase size.\<close>

definition count_change :: "u32 \<Rightarrow> nat \<times> u32 \<times> u32 \<Rightarrow> nat \<times> u32 \<times> u32" where
  "count_change es = (\<lambda>(n, cur, big). if es \<noteq> cur then (n + 1, es, if big < es then es else big) else (n, cur, big))"

fun count_sub_regions :: "erase_region list \<Rightarrow> nat \<times> u32 \<times> u32 \<Rightarrow> nat \<times> u32 \<times> u32" where
  "count_sub_regions [] acc = acc"
| "count_sub_regions (r # rs) acc = count_sub_regions rs (count_change (er_erasesize r) acc)"

fun count_regions :: "mtd_info list \<Rightarrow> nat \<times> u32 \<times> u32 \<Rightarrow> nat \<times> u32 \<times> u32" where
  "count_regions [] acc = acc"
| "count_regions (sub # subs) acc =
     count_regions subs (if numeraseregions sub = 0 then count_change (erasesize sub) acc
                         else count_sub_regions (eraseregions sub) acc)"

text \<open>The second walk fills an array of \<open>n\<close> entries, \<open>regs\<close> being those written so far; a write behind
  its end is a fault.\<close>

definition put_region :: "'f mtd_lib \<Rightarrow> nat \<Rightarrow> erase_region list \<Rightarrow> u64 \<Rightarrow> u64 \<Rightarrow> u32 \<Rightarrow> erase_region list option" where
  "put_region lib n regs start position cur =
     (if length regs < n
      then do { q \<leftarrow> do_div lib (position - start) cur;
                Some (regs @ [\<lparr>er_offset = start, er_erasesize = cur, er_numblocks = ucast q\<rparr>]) }
      else None)"

type_synonym fill_state = "erase_region list \<times> u64 \<times> u64 \<times> u32"

definition fill_change :: "'f mtd_lib \<Rightarrow> nat \<Rightarrow> u32 \<Rightarrow> fill_state \<Rightarrow> fill_state option" where
  "fill_change lib n es = (\<lambda>(regs, start, position, cur).
     if es \<noteq> cur then do { regs \<leftarrow> put_region lib n regs start position cur; Some (regs, position, position, es) }
     else Some (regs, start, position, cur))"

definition advance :: "u64 \<Rightarrow> fill_state \<Rightarrow> fill_state" where
  "advance d = (\<lambda>(regs, start, position, cur). (regs, start, position + d, cur))"

fun fill_sub_regions :: "'f mtd_lib \<Rightarrow> nat \<Rightarrow> erase_region list \<Rightarrow> fill_state \<Rightarrow> fill_state option" where
  "fill_sub_regions lib n [] st = Some st"
| "fill_sub_regions lib n (r # rs) st =
     do { st \<leftarrow> fill_change lib n (er_erasesize r) st;
          fill_sub_regions lib n rs (advance (ucast (er_numblocks r) * ucast (snd (snd (snd st)))) st) }"

fun fill_regions :: "'f mtd_lib \<Rightarrow> nat \<Rightarrow> mtd_info list \<Rightarrow> fill_state \<Rightarrow> fill_state option" where
  "fill_regions lib n [] st = Some st"
| "fill_regions lib n (sub # subs) st =
     do { st \<leftarrow> (if numeraseregions sub = 0
            then do { st \<leftarrow> fill_change lib n (erasesize sub) st; Some (advance (mtd_size sub) st) }
            else fill_sub_regions lib n (eraseregions sub) st);
          fill_regions lib n subs st }"

fun infos :: "'f mtd_world \<Rightarrow> addr list \<Rightarrow> mtd_info list option" where
  "infos w [] = Some []"
| "infos w (a # as) = do { m \<leftarrow> info w a; ms \<leftarrow> infos w as; Some (m # ms) }"

text \<open>The erase regions of the new device; \<open>Some None\<close> when their array cannot be allocated.\<close>

definition concat_regions ::
  "'f mtd_lib \<Rightarrow> bool \<Rightarrow> mtd_info list \<Rightarrow> mtd_info \<Rightarrow> mtd_info option option" where
  "concat_regions lib alloc subs mtd =
     do { s0 \<leftarrow> rd subs 0;
          let (n, cur, big) = count_regions subs (1, erasesize s0, erasesize s0);
          if n = 1 then Some (Some (mtd\<lparr>erasesize := cur, eraseregions := []\<rparr>))
          else if \<not> alloc then Some None
          else do {
            (regs, start, position, cur) \<leftarrow> fill_regions lib n subs ([], 0, 0, erasesize s0);
            regs \<leftarrow> put_region lib n regs start position cur;
            Some (Some (mtd\<lparr>erasesize := big, eraseregions := regs\<rparr>)) } }"

text \<open>\<open>NULL\<close> is \<open>Some (None, w)\<close>.  \<open>regions_alloc\<close> tells whether the second allocation succeeds.\<close>

definition mtd_concat_create ::
  "'f mtd_lib \<Rightarrow> bool \<Rightarrow> (addr \<Rightarrow> 'f mtd_ops) \<Rightarrow> addr list \<Rightarrow> string \<Rightarrow> 'f mtd_world
    \<Rightarrow> (addr option \<times> 'f mtd_world) option" where
  "mtd_concat_create lib regions_alloc dev subs name w =
     do { ms \<leftarrow> infos w subs;
          case kzalloc lib w of None \<Rightarrow> Some (None, w)
          | Some c \<Rightarrow>
              do { m0 \<leftarrow> rd ms 0;
                   s0 \<leftarrow> rd subs 0;
                   case concat_join (dev s0) (tl (zip ms (map dev subs))) (concat_init m0 name) of
                     None \<Rightarrow> Some (None, w)
                   | Some mtd \<Rightarrow>
                       do { r \<leftarrow> concat_regions lib regions_alloc ms mtd;
                            case r of None \<Rightarrow> Some (None, w)
                            | Some mtd \<Rightarrow> Some (Some c, set_info c mtd w) } } }"

end
