(* ===== verification/MtdFlat.thy ===== *)
theory MtdFlat
  imports MtdSlave MtdConcat
begin

text \<open>
  What users of an MTD device rely on: it is a flat array of bytes that can be read, programmed and
  erased, and nothing else changes.  Partitions (\<open>mtdpart.c\<close>) and concatenated devices
  (\<open>mtdconcat.c\<close>) are shown to keep this contract when the devices under them keep it.
\<close>

section \<open>The contract\<close>

definition slice :: "'a list \<Rightarrow> nat \<Rightarrow> nat \<Rightarrow> 'a list" where
  "slice xs p n = take n (drop p xs)"

text \<open>\<open>pg old new\<close> is what a cell holds after programming, for example \<open>old AND new\<close>.\<close>

definition program :: "(u8 \<Rightarrow> u8 \<Rightarrow> u8) \<Rightarrow> u8 list \<Rightarrow> nat \<Rightarrow> u8 list \<Rightarrow> u8 list" where
  "program pg c p xs = put_at c p (map2 pg (slice c p (length xs)) xs)"

text \<open>\<open>keeps\<close>: the state \<open>w'\<close> satisfies the invariant \<open>I\<close>, the device (with content \<open>C\<close>) holds \<open>c\<close>, the
  memory is \<open>h\<close>, and all that \<open>R\<close> sees is as it was in \<open>w\<close>.\<close>

definition keeps ::
  "('f mtd_world \<Rightarrow> bool) \<Rightarrow> ('f mtd_world \<Rightarrow> u8 list) \<Rightarrow> ('f mtd_world \<Rightarrow> 'r) \<Rightarrow> 'f mtd_world
    \<Rightarrow> u8 list \<Rightarrow> (addr \<Rightarrow> u8) \<Rightarrow> 'f mtd_world \<Rightarrow> bool" where
  "keeps I C R w c h w' \<longleftrightarrow> I w' \<and> C w' = c \<and> mem w' = h \<and> R w' = R w"

definition flat_read ::
  "('f mtd_world \<Rightarrow> bool) \<Rightarrow> ('f mtd_world \<Rightarrow> u8 list) \<Rightarrow> ('f mtd_world \<Rightarrow> 'r) \<Rightarrow> 'f rw_fn \<Rightarrow> bool" where
  "flat_read I C R f \<longleftrightarrow> (\<forall>w from len buf. I w \<longrightarrow> unat from < length (C w) \<longrightarrow>
     unat from + unat len \<le> length (C w) \<longrightarrow>
     (\<exists>w'. f from len buf w = Some (0, len, w') \<and>
        keeps I C R w (C w) (store (mem w) buf (slice (C w) (unat from) (unat len))) w'))"

definition flat_write ::
  "('f mtd_world \<Rightarrow> bool) \<Rightarrow> ('f mtd_world \<Rightarrow> u8 list) \<Rightarrow> ('f mtd_world \<Rightarrow> 'r) \<Rightarrow> (u8 \<Rightarrow> u8 \<Rightarrow> u8) \<Rightarrow> 'f rw_fn
    \<Rightarrow> bool" where
  "flat_write I C R pg f \<longleftrightarrow> (\<forall>w to len buf. I w \<longrightarrow> unat to < length (C w) \<longrightarrow>
     unat to + unat len \<le> length (C w) \<longrightarrow>
     (\<exists>w'. f to len buf w = Some (0, len, w') \<and>
        keeps I C R w (program pg (C w) (unat to) (load (mem w) buf (unat len))) (mem w) w'))"

text \<open>A request to erase whole blocks of \<open>es\<close> bytes, whose callback does nothing.\<close>

definition erase_request :: "nat \<Rightarrow> nat \<Rightarrow> erase_info \<Rightarrow> bool" where
  "erase_request es n e \<longleftrightarrow> 0 < unat (ei_len e) \<and> unat (ei_addr e) + unat (ei_len e) \<le> n \<and>
     es dvd unat (ei_addr e) \<and> es dvd unat (ei_len e) \<and> ei_callback e \<in> {None, Some Concat_erase_callback}"

abbreviation erased :: "u8 list \<Rightarrow> erase_info \<Rightarrow> u8 list" where
  "erased c e \<equiv> put_at c (unat (ei_addr e)) (replicate (unat (ei_len e)) 0xFF)"

definition flat_erase ::
  "('f mtd_world \<Rightarrow> bool) \<Rightarrow> addr \<Rightarrow> ('f mtd_world \<Rightarrow> u8 list) \<Rightarrow> ('f mtd_world \<Rightarrow> 'r) \<Rightarrow> nat
    \<Rightarrow> (erase_info \<Rightarrow> 'f mtd_world \<Rightarrow> (int \<times> erase_info \<times> 'f mtd_world) option) \<Rightarrow> bool" where
  "flat_erase I a C R es f \<longleftrightarrow> (\<forall>w e. I w \<longrightarrow> ei_mtd e = a \<longrightarrow> erase_request es (length (C w)) e \<longrightarrow>
     (\<exists>w' e'. f e w = Some (0, e', w') \<and> ei_state e' = MTD_ERASE_DONE \<and> ei_addr e' = ei_addr e \<and>
        keeps I C R w (erased (C w) e) (mem w) w'))"

text \<open>A driver reports a finished erase with \<open>mtd_erase_callback\<close>; the request may come from any device
  of \<open>users\<close>.\<close>

definition driver_erase ::
  "'f mtd_lib \<Rightarrow> ('f mtd_world \<Rightarrow> bool) \<Rightarrow> addr set \<Rightarrow> ('f mtd_world \<Rightarrow> u8 list) \<Rightarrow> ('f mtd_world \<Rightarrow> 'r) \<Rightarrow> nat
    \<Rightarrow> (erase_info \<Rightarrow> 'f mtd_world \<Rightarrow> (int \<times> erase_info \<times> 'f mtd_world) option) \<Rightarrow> bool" where
  "driver_erase lib I users C R es f \<longleftrightarrow>
     (\<forall>w e. I w \<longrightarrow> ei_mtd e \<in> users \<longrightarrow> erase_request es (length (C w)) e \<longrightarrow>
       (\<exists>w' e'. f e w = Some (0, e', w') \<and> keeps I C R w (erased (C w) e) (mem w) w' \<and>
          mtd_erase_callback lib (e\<lparr>ei_state := MTD_ERASE_DONE\<rparr>) w' = Some (e', w')))"

definition flat_dev ::
  "('f mtd_world \<Rightarrow> bool) \<Rightarrow> addr \<Rightarrow> ('f mtd_world \<Rightarrow> u8 list) \<Rightarrow> ('f mtd_world \<Rightarrow> 'r) \<Rightarrow> (u8 \<Rightarrow> u8 \<Rightarrow> u8) \<Rightarrow> nat
    \<Rightarrow> 'f mtd_ops \<Rightarrow> bool" where
  "flat_dev I a C R pg es ops \<longleftrightarrow>
     flat_read I C R (op_read ops) \<and> flat_write I C R pg (op_write ops) \<and> flat_erase I a C R es (op_erase ops)"

definition flat_driver ::
  "'f mtd_lib \<Rightarrow> ('f mtd_world \<Rightarrow> bool) \<Rightarrow> addr set \<Rightarrow> ('f mtd_world \<Rightarrow> u8 list) \<Rightarrow> ('f mtd_world \<Rightarrow> 'r)
    \<Rightarrow> (u8 \<Rightarrow> u8 \<Rightarrow> u8) \<Rightarrow> nat \<Rightarrow> 'f mtd_ops \<Rightarrow> bool" where
  "flat_driver lib I users C R pg es ops \<longleftrightarrow>
     flat_read I C R (op_read ops) \<and> flat_write I C R pg (op_write ops) \<and>
     driver_erase lib I users C R es (op_erase ops)"

text \<open>What the functions of a partition do with requests that start inside the device: reads and writes that
  would go over its end are cut there.\<close>

definition clips_read ::
  "('f mtd_world \<Rightarrow> bool) \<Rightarrow> ('f mtd_world \<Rightarrow> u8 list) \<Rightarrow> ('f mtd_world \<Rightarrow> 'r) \<Rightarrow> 'f rw_fn \<Rightarrow> bool" where
  "clips_read I C R f \<longleftrightarrow> (\<forall>w from len buf. I w \<longrightarrow> unat from < length (C w) \<longrightarrow>
     (\<exists>k w'. f from len buf w = Some (0, k, w') \<and> unat k = min (unat len) (length (C w) - unat from) \<and>
        keeps I C R w (C w) (store (mem w) buf (slice (C w) (unat from) (unat k))) w'))"

definition clips_write ::
  "('f mtd_world \<Rightarrow> bool) \<Rightarrow> ('f mtd_world \<Rightarrow> u8 list) \<Rightarrow> ('f mtd_world \<Rightarrow> 'r) \<Rightarrow> (u8 \<Rightarrow> u8 \<Rightarrow> u8) \<Rightarrow> 'f rw_fn
    \<Rightarrow> bool" where
  "clips_write I C R pg f \<longleftrightarrow> (\<forall>w to len buf. I w \<longrightarrow> unat to < length (C w) \<longrightarrow>
     (\<exists>k w'. f to len buf w = Some (0, k, w') \<and> unat k = min (unat len) (length (C w) - unat to) \<and>
        keeps I C R w (program pg (C w) (unat to) (load (mem w) buf (unat k))) (mem w) w'))"

text \<open>An erase that starts behind the \<open>n\<close> bytes of the partition is refused; one that starts inside
  is passed on whole, so it erases the master (whose content is \<open>C\<close>) also behind the partition.\<close>

definition erases_master ::
  "('f mtd_world \<Rightarrow> bool) \<Rightarrow> addr \<Rightarrow> ('f mtd_world \<Rightarrow> u8 list) \<Rightarrow> ('f mtd_world \<Rightarrow> 'r) \<Rightarrow> nat \<Rightarrow> nat \<Rightarrow> nat
    \<Rightarrow> (erase_info \<Rightarrow> 'f mtd_world \<Rightarrow> (int \<times> erase_info \<times> 'f mtd_world) option) \<Rightarrow> bool" where
  "erases_master I a C R off n es f \<longleftrightarrow> (\<forall>w e. I w \<longrightarrow> ei_mtd e = a \<longrightarrow>
     (n \<le> unat (ei_addr e) \<longrightarrow> f e w = Some (EINVAL, e, w)) \<and>
     (unat (ei_addr e) < n \<longrightarrow> erase_request es (length (C w) - off) e \<longrightarrow>
       (\<exists>w' e'. f e w = Some (0, e', w') \<and> ei_state e' = MTD_ERASE_DONE \<and> ei_addr e' = ei_addr e \<and>
          keeps I C R w (put_at (C w) (off + unat (ei_addr e)) (replicate (unat (ei_len e)) 0xFF)) (mem w) w')))"

section \<open>Lists\<close>

named_theorems slice_simps \<open>slices and replaced parts of a list\<close>

lemma length_slice [simp]: "length (slice xs p n) = min n (length xs - p)"
  by (simp add: slice_def)

lemma slice_0 [simp]: "slice xs p 0 = []"
  by (simp add: slice_def)

lemma slice_eq_Nil: "slice xs p n = [] \<longleftrightarrow> n = 0 \<or> length xs \<le> p"
  by (simp add: slice_def)

lemma slice_slice: "q + m \<le> n \<Longrightarrow> slice (slice xs p n) q m = slice xs (p + q) m"
  by (simp add: slice_def drop_take take_take min_absorb1 add.commute)

lemma slice_append_left: "p + n \<le> length xs \<Longrightarrow> slice (xs @ ys) p n = slice xs p n"
  by (simp add: slice_def)

lemma slice_append_right: "length xs \<le> p \<Longrightarrow> slice (xs @ ys) p n = slice ys (p - length xs) n"
  by (simp add: slice_def)

lemma slice_append_both:
  "p \<le> length xs \<Longrightarrow> length xs \<le> p + n \<Longrightarrow>
   slice (xs @ ys) p n = slice xs p (length xs - p) @ slice ys 0 (n - (length xs - p))"
  by (simp add: slice_def)

lemma length_program [simp]: "p + length xs \<le> length c \<Longrightarrow> length (program pg c p xs) = length c"
  by (simp add: program_def)

lemma put_at_inside:
  assumes "q + length xs \<le> n" and "p + n \<le> length c"
  shows "slice (put_at c (p + q) xs) p n = put_at (slice c p n) q xs"
    and "take p (put_at c (p + q) xs) = take p c"
    and "drop (p + n) (put_at c (p + q) xs) = drop (p + n) c"
  using assms by (simp_all add: slice_def put_at_def drop_take min_absorb1 min_absorb2 add.commute add.left_commute)

lemma put_at_append_left: "p + length xs \<le> length c \<Longrightarrow> put_at (c @ d) p xs = put_at c p xs @ d"
  by (simp add: put_at_def)

lemma put_at_append_right: "length c \<le> p \<Longrightarrow> put_at (c @ d) p xs = c @ put_at d (p - length c) xs"
  by (simp add: put_at_def)

lemma put_at_append_both:
  "length c = p + length xs \<Longrightarrow> put_at (c @ d) p (xs @ ys) = put_at c p xs @ put_at d 0 ys"
  by (simp add: put_at_def)

lemma length_map2 [simp]: "length (map2 f xs ys) = min (length xs) (length ys)"
  by simp

lemma program_inside:
  assumes "q + length xs \<le> n" and "p + n \<le> length c"
  shows "slice (program pg c (p + q) xs) p n = program pg (slice c p n) q xs"
    and "take p (program pg c (p + q) xs) = take p c"
    and "drop (p + n) (program pg c (p + q) xs) = drop (p + n) c"
  using assms by (simp_all add: program_def put_at_inside slice_slice)

lemma program_append_left: "p + length xs \<le> length c \<Longrightarrow> program pg (c @ d) p xs = program pg c p xs @ d"
  by (simp add: program_def put_at_append_left slice_append_left)

lemma program_append_right:
  "length c \<le> p \<Longrightarrow> program pg (c @ d) p xs = c @ program pg d (p - length c) xs"
  by (simp add: program_def put_at_append_right slice_append_right)

lemma program_append_both:
  "length c = p + length xs \<Longrightarrow>
   program pg (c @ d) p (xs @ ys) = program pg c p xs @ program pg d 0 ys"
  by (simp add: program_def slice_append_both put_at_append_both zip_append)

section \<open>Addresses and lengths\<close>

lemma u32_lt: "unat (x :: u32) < 2 ^ 32"
  by (rule order.strict_trans2 [OF unsigned_less]) simp

lemma u64_lt: "unat (x :: u64) < 2 ^ 64"
  by (rule order.strict_trans2 [OF unsigned_less]) simp

lemma unat_ucast_up: "unat (ucast (x :: u32) :: u64) = unat x"
  by transfer (simp add: take_bit_int_def)

lemma unat_ucast_down: "unat (x :: u64) < 2 ^ 32 \<Longrightarrow> unat (ucast x :: u32) = unat x"
  by transfer (simp add: take_bit_int_def nat_mod_distrib nat_less_iff)

lemma unat_add_len:
  "unat from + unat len < 2 ^ 64 \<Longrightarrow> unat (from + ucast (len :: u32) :: u64) = unat from + unat len"
  by (subst unat_word_ariths) (simp add: unat_ucast_up)

lemma unat_add_64: "unat a + unat b < 2 ^ 64 \<Longrightarrow> unat (a + b :: u64) = unat a + unat b"
  by (simp add: unat_word_ariths)

lemma unat_sub_64: "unat b \<le> unat a \<Longrightarrow> unat (a - b :: u64) = unat a - unat b"
  by (simp add: unat_sub word_le_nat_alt)

text \<open>The length that the code passes on: what lies inside a device of size \<open>sz\<close>.\<close>

definition clip :: "u64 \<Rightarrow> u64 \<Rightarrow> u32 \<Rightarrow> u32" where
  "clip sz from len = (if sz < from + ucast len then ucast (sz - from) else len)"

lemma unat_clip:
  assumes "unat from < unat sz" and "unat from + unat len < 2 ^ 64"
  shows "unat (clip sz from len) = min (unat len) (unat sz - unat from)"
proof (cases "sz < from + ucast len")
  case True
  then have "unat sz < unat from + unat len" using unat_add_len [OF assms(2)] by (simp add: word_less_nat_alt)
  moreover from this have "unat (sz - from) < 2 ^ 32"
    using assms(1) u32_lt [of len] by (simp add: unat_sub_64)
  then have "unat (ucast (sz - from) :: u32) = unat sz - unat from"
    using assms(1) by (simp add: unat_ucast_down unat_sub_64)
  ultimately show ?thesis using True by (simp add: clip_def)
next
  case False
  then have "unat from + unat len \<le> unat sz"
    using unat_add_len [OF assms(2)] by (simp add: word_less_nat_alt)
  with False show ?thesis by (simp add: clip_def)
qed

lemma clip_all: "unat from + unat len \<le> unat sz \<Longrightarrow> clip sz from len = len"
proof -
  assume a: "unat from + unat len \<le> unat sz"
  have "unat sz < 2 ^ 64" by (rule u64_lt)
  with a have "unat (from + ucast len) = unat from + unat len" by (intro unat_add_len) simp
  with a show ?thesis by (simp add: clip_def word_less_nat_alt)
qed

section \<open>Partitions\<close>

text \<open>The state that a partition needs: its object, that of its master, and a place inside the master's
  content, more than 4 GiB before the end of the 64-bit offsets.\<close>

definition slave_state ::
  "('f mtd_world \<Rightarrow> bool) \<Rightarrow> ('f mtd_world \<Rightarrow> u8 list) \<Rightarrow> addr \<Rightarrow> addr \<Rightarrow> nat \<Rightarrow> nat \<Rightarrow> bool" where
  "slave_state I C a mst off n \<longleftrightarrow> off + n + 2 ^ 32 \<le> 2 ^ 64 \<and> (\<forall>w. I w \<longrightarrow> off + n \<le> length (C w) \<and> length (C w) < 2 ^ 64 \<and>
     info w mst \<noteq> None \<and>
     (\<exists>m. info w a = Some m \<and> unat (mtd_size m) = n \<and> writeable m) \<and>
     (\<exists>p. part_objs w a = Some p \<and> pt_master p = mst \<and> unat (pt_offset p) = off))"

text \<open>The content of a partition, and what it must leave alone: the rest of the master.\<close>

abbreviation part_content :: "('f mtd_world \<Rightarrow> u8 list) \<Rightarrow> nat \<Rightarrow> nat \<Rightarrow> 'f mtd_world \<Rightarrow> u8 list" where
  "part_content C off n \<equiv> \<lambda>w. slice (C w) off n"

abbreviation part_rest ::
  "('f mtd_world \<Rightarrow> u8 list) \<Rightarrow> ('f mtd_world \<Rightarrow> 'r) \<Rightarrow> nat \<Rightarrow> nat \<Rightarrow> 'f mtd_world \<Rightarrow> 'r \<times> u8 list \<times> u8 list" where
  "part_rest C R off n \<equiv> \<lambda>w. (R w, take off (C w), drop (off + n) (C w))"

lemma slave_stateE:
  assumes "slave_state I C a mst off n" and "I w"
  obtains m p mm where "info w a = Some m" "unat (mtd_size m) = n" "writeable m"
    "part_objs w a = Some p" "pt_master p = mst" "unat (pt_offset p) = off" "info w mst = Some mm"
    "off + n \<le> length (C w)" "length (C w) < 2 ^ 64"
  using assms unfolding slave_state_def by (metis not_None_eq)

lemma slave_clip:
  fixes pos :: u64 and len :: u32
  assumes st: "slave_state I C a mst off n" and m: "unat (mtd_size m) = n" and p: "unat (pt_offset p) = off" and pos: "unat pos < n"
  shows "\<not> mtd_size m \<le> pos" "unat (pos + pt_offset p) = off + unat pos"
    "unat (if mtd_size m < pos + ucast len then ucast (mtd_size m - pos) else len) = min (unat len) (n - unat pos)"
proof -
  have b: "off + n + 2 ^ 32 \<le> 2 ^ 64" using st by (simp add: slave_state_def)
  show "\<not> mtd_size m \<le> pos" using m pos by (simp add: word_le_nat_alt)
  show "unat (pos + pt_offset p) = off + unat pos" using p pos b by (subst unat_add_64) simp_all
  have "unat pos + unat len < 2 ^ 64" using b pos u32_lt [of len] by linarith
  with unat_clip [of pos "mtd_size m" len] m pos
  show "unat (if mtd_size m < pos + ucast len then ucast (mtd_size m - pos) else len) = min (unat len) (n - unat pos)"
    by (simp add: clip_def)
qed

lemma part_read_clips:
  assumes st: "slave_state I C a mst off n" and rd: "flat_read I C R (op_read (dev mst))"
  shows "clips_read I (part_content C off n) (part_rest C R off n) (part_read dev a)"
  unfolding clips_read_def
proof (intro allI impI)
  fix w and pos :: u64 and len :: u32 and buf
  assume w: "I w" and lt: "unat pos < length (slice (C w) off n)"
  from st w obtain m p mm where *: "info w a = Some m" "unat (mtd_size m) = n" "writeable m"
    "part_objs w a = Some p" "pt_master p = mst" "unat (pt_offset p) = off" "info w mst = Some mm"
    "off + n \<le> length (C w)" "length (C w) < 2 ^ 64" by (rule slave_stateE)
  from lt * have in_n: "unat pos < n" by simp
  define k where "k = (if mtd_size m < pos + ucast len then ucast (mtd_size m - pos) else len)"
  note cl = slave_clip(1,2) [OF st *(2) *(6) in_n] slave_clip(3) [OF st *(2) *(6) in_n, of len, folded k_def]
  have "unat (pos + pt_offset p) < length (C w)" "unat (pos + pt_offset p) + unat k \<le> length (C w)"
    unfolding cl(2) cl(3) using in_n * by simp_all
  from rd [unfolded flat_read_def, rule_format, OF w this] obtain w' where w':
    "op_read (dev mst) (pos + pt_offset p) k buf w = Some (0, k, w')"
    "keeps I C R w (C w) (store (mem w) buf (slice (C w) (off + unat pos) (unat k))) w'"
    unfolding cl(2) by blast
  have "part_read dev a pos len buf w = Some (0, k, w')"
    unfolding part_read_def using * cl(1) w'(1) by (simp add: k_def [symmetric])
  moreover from w'(2) in_n cl(3) have "keeps I (part_content C off n) (part_rest C R off n) w (slice (C w) off n)
      (store (mem w) buf (slice (slice (C w) off n) (unat pos) (unat k))) w'"
    by (simp add: keeps_def slice_slice)
  ultimately show "\<exists>k w'. part_read dev a pos len buf w = Some (0, k, w') \<and>
      unat k = min (unat len) (length (slice (C w) off n) - unat pos) \<and>
      keeps I (part_content C off n) (part_rest C R off n) w (slice (C w) off n)
        (store (mem w) buf (slice (slice (C w) off n) (unat pos) (unat k))) w'" using cl(3) * by auto
qed

lemma part_write_clips:
  assumes st: "slave_state I C a mst off n" and wr: "flat_write I C R pg (op_write (dev mst))"
  shows "clips_write I (part_content C off n) (part_rest C R off n) pg (part_write dev a)"
  unfolding clips_write_def
proof (intro allI impI)
  fix w and pos :: u64 and len :: u32 and buf
  assume w: "I w" and lt: "unat pos < length (slice (C w) off n)"
  from st w obtain m p mm where *: "info w a = Some m" "unat (mtd_size m) = n" "writeable m"
    "part_objs w a = Some p" "pt_master p = mst" "unat (pt_offset p) = off" "info w mst = Some mm"
    "off + n \<le> length (C w)" "length (C w) < 2 ^ 64" by (rule slave_stateE)
  from lt * have in_n: "unat pos < n" by simp
  define k where "k = (if mtd_size m < pos + ucast len then ucast (mtd_size m - pos) else len)"
  note cl = slave_clip(1,2) [OF st *(2) *(6) in_n] slave_clip(3) [OF st *(2) *(6) in_n, of len, folded k_def]
  have "unat (pos + pt_offset p) < length (C w)" "unat (pos + pt_offset p) + unat k \<le> length (C w)"
    unfolding cl(2) cl(3) using in_n * by simp_all
  from wr [unfolded flat_write_def, rule_format, OF w this] obtain w' where w':
    "op_write (dev mst) (pos + pt_offset p) k buf w = Some (0, k, w')"
    "keeps I C R w (program pg (C w) (off + unat pos) (load (mem w) buf (unat k))) (mem w) w'"
    unfolding cl(2) by blast
  have "part_write dev a pos len buf w = Some (0, k, w')"
    unfolding part_write_def using * cl(1) w'(1) by (simp add: k_def [symmetric])
  moreover have "unat pos + unat k \<le> n" using cl(3) in_n by simp
  with w'(2) * have "keeps I (part_content C off n) (part_rest C R off n) w
      (program pg (slice (C w) off n) (unat pos) (load (mem w) buf (unat k))) (mem w) w'"
    by (simp add: keeps_def program_inside)
  ultimately show "\<exists>k w'. part_write dev a pos len buf w = Some (0, k, w') \<and>
      unat k = min (unat len) (length (slice (C w) off n) - unat pos) \<and>
      keeps I (part_content C off n) (part_rest C R off n) w
        (program pg (slice (C w) off n) (unat pos) (load (mem w) buf (unat k))) (mem w) w'" using cl(3) * by auto
qed

lemma clips_flat:
  "clips_read I C R f \<Longrightarrow> flat_read I C R f" "clips_write I C R pg g \<Longrightarrow> flat_write I C R pg g"
proof -
  assume f: "clips_read I C R f"
  show "flat_read I C R f"
    unfolding flat_read_def
  proof (intro allI impI)
    fix w buf and pos :: u64 and len :: u32 assume w: "I w" "unat pos < length (C w)" and le: "unat pos + unat len \<le> length (C w)"
    from f [unfolded clips_read_def, rule_format, OF w, of len buf]
    obtain k w' where k: "f pos len buf w = Some (0, k, w')" "unat k = min (unat len) (length (C w) - unat pos)"
      "keeps I C R w (C w) (store (mem w) buf (slice (C w) (unat pos) (unat k))) w'" by blast
    from k(2) le have "k = len" by (intro unsigned_word_eqI) simp
    with k show "\<exists>w'. f pos len buf w = Some (0, len, w') \<and>
      keeps I C R w (C w) (store (mem w) buf (slice (C w) (unat pos) (unat len))) w'" by blast
  qed
next
  assume g: "clips_write I C R pg g"
  show "flat_write I C R pg g"
    unfolding flat_write_def
  proof (intro allI impI)
    fix w buf and to :: u64 and len :: u32 assume w: "I w" "unat to < length (C w)" and le: "unat to + unat len \<le> length (C w)"
    from g [unfolded clips_write_def, rule_format, OF w, of len buf]
    obtain k w' where k: "g to len buf w = Some (0, k, w')" "unat k = min (unat len) (length (C w) - unat to)"
      "keeps I C R w (program pg (C w) (unat to) (load (mem w) buf (unat k))) (mem w) w'" by blast
    from k(2) le have "k = len" by (intro unsigned_word_eqI) simp
    with k show "\<exists>w'. g to len buf w = Some (0, len, w') \<and>
      keeps I C R w (program pg (C w) (unat to) (load (mem w) buf (unat len))) (mem w) w'" by blast
  qed
qed

text \<open>The callback of the partition layer undoes the offset before the client sees the request.\<close>

lemma erase_callback_slave:
  assumes "info w (ei_mtd e) = Some m" and "part_objs w (ei_mtd e) = Some p"
    and "ei_callback e \<in> {None, Some Concat_erase_callback}"
    and "mtd_erase_callback lib e w = Some (e', w')"
  shows "w' = w \<and> ei_state e' = ei_state e \<and> ei_addr e' = ei_addr e - pt_offset p"
  using assms by (auto simp: mtd_erase_callback_def call_callback_def Let_def split: if_splits)

lemma part_erase_master:
  assumes st: "slave_state I C a mst off n" and er: "driver_erase lib I users C R es (op_erase (dev mst))"
    and a: "a \<in> users" and al: "es dvd off"
  shows "erases_master I a C R off n es (part_erase lib dev a)"
  unfolding erases_master_def
proof (intro allI impI conjI)
  fix w and e :: erase_info
  assume w: "I w" and ea: "ei_mtd e = a"
  from st w obtain m p mm where *: "info w a = Some m" "unat (mtd_size m) = n" "writeable m"
    "part_objs w a = Some p" "pt_master p = mst" "unat (pt_offset p) = off" "info w mst = Some mm"
    "off + n \<le> length (C w)" "length (C w) < 2 ^ 64" by (rule slave_stateE)
  show "part_erase lib dev a e w = Some (EINVAL, e, w)" if "n \<le> unat (ei_addr e)"
    unfolding part_erase_def using * that by (simp add: word_le_nat_alt)
  assume in_n: "unat (ei_addr e) < n" and rq: "erase_request es (length (C w) - off) e"
  have addr: "unat (ei_addr e + pt_offset p) = off + unat (ei_addr e)" by (rule slave_clip(2) [OF st *(2) *(6) in_n])
  define e1 where "e1 = e\<lparr>ei_addr := ei_addr e + pt_offset p\<rparr>"
  have "unat (ei_addr e) + unat (ei_len e) \<le> length (C w) - off" using rq by (simp add: erase_request_def)
  then have "off + unat (ei_addr e) + unat (ei_len e) \<le> length (C w)" using *(8) by linarith
  then have "ei_mtd e1 \<in> users" "erase_request es (length (C w)) e1"
    using rq al a ea addr by (simp_all add: e1_def erase_request_def)
  from er [unfolded driver_erase_def, rule_format, OF w this] obtain w' e' where w':
    "op_erase (dev mst) e1 w = Some (0, e', w')"
    "keeps I C R w (put_at (C w) (off + unat (ei_addr e)) (replicate (unat (ei_len e)) 0xFF)) (mem w) w'"
    "mtd_erase_callback lib (e1\<lparr>ei_state := MTD_ERASE_DONE\<rparr>) w' = Some (e', w')"
    by (auto simp: e1_def addr)
  have "I w'" using w'(2) by (simp add: keeps_def)
  from st this obtain m' p' mm' where 2: "info w' a = Some m'" "unat (mtd_size m') = n" "writeable m'"
    "part_objs w' a = Some p'" "pt_master p' = mst" "unat (pt_offset p') = off" "info w' mst = Some mm'"
    "off + n \<le> length (C w')" "length (C w') < 2 ^ 64" by (rule slave_stateE)
  have p': "pt_offset p' = pt_offset p" using * 2 by (metis unsigned_word_eqI)
  have "ei_state e' = MTD_ERASE_DONE \<and> ei_addr e' = ei_addr e"
    using erase_callback_slave [OF _ _ _ w'(3)] 2 rq ea p' by (simp add: e1_def erase_request_def)
  moreover have "part_erase lib dev a e w = Some (0, e', w')"
    unfolding part_erase_def using * in_n w'(1)
    by (simp add: e1_def [symmetric] word_le_nat_alt)
  ultimately show "\<exists>w' e'. part_erase lib dev a e w = Some (0, e', w') \<and> ei_state e' = MTD_ERASE_DONE \<and>
      ei_addr e' = ei_addr e \<and>
      keeps I C R w (put_at (C w) (off + unat (ei_addr e)) (replicate (unat (ei_len e)) 0xFF)) (mem w) w'" using w'(2) by blast
qed

lemma erases_master_flat:
  assumes st: "slave_state I C a mst off n" and f: "erases_master I a C R off n es f"
  shows "flat_erase I a (part_content C off n) (part_rest C R off n) es f"
  unfolding flat_erase_def
proof (intro allI impI)
  fix w and e :: erase_info
  assume w: "I w" and ea: "ei_mtd e = a" and rq: "erase_request es (length (slice (C w) off n)) e"
  have le: "off + n \<le> length (C w)" using st w by (simp add: slave_state_def)
  from rq le have in_n: "unat (ei_addr e) + unat (ei_len e) \<le> n" "unat (ei_addr e) < n" "erase_request es (length (C w) - off) e"
    by (auto simp: erase_request_def)
  with f w ea obtain w' e' where w': "f e w = Some (0, e', w')" "ei_state e' = MTD_ERASE_DONE" "ei_addr e' = ei_addr e"
    "keeps I C R w (put_at (C w) (off + unat (ei_addr e)) (replicate (unat (ei_len e)) 0xFF)) (mem w) w'"
    unfolding erases_master_def by blast
  moreover from w'(4) in_n le have "keeps I (part_content C off n) (part_rest C R off n) w
      (erased (slice (C w) off n) e) (mem w) w'"
    by (simp add: keeps_def put_at_inside)
  ultimately show "\<exists>w' e'. f e w = Some (0, e', w') \<and> ei_state e' = MTD_ERASE_DONE \<and> ei_addr e' = ei_addr e \<and>
      keeps I (part_content C off n) (part_rest C R off n) w (erased (slice (C w) off n) e) (mem w) w'" by blast
qed

lemma slave_requests:
  assumes "flat_driver lib I users C R pg es (dev mst)" and "slave_state I C a mst off n"
    and "a \<in> users" and "es dvd off"
  shows "clips_read I (part_content C off n) (part_rest C R off n) (op_read (slave_ops lib dev (dev mst) partno a))"
    "clips_write I (part_content C off n) (part_rest C R off n) pg (op_write (slave_ops lib dev (dev mst) partno a))"
    "erases_master I a C R off n es (op_erase (slave_ops lib dev (dev mst) partno a))"
  using assms part_read_clips [of I C a mst off n R dev] part_write_clips [of I C a mst off n R pg dev]
    part_erase_master [of I C a mst off n lib users R es dev]
  by (simp_all add: flat_driver_def slave_ops_def Let_def)

lemma slave_flat:
  assumes "flat_driver lib I users C R pg es (dev mst)" and "slave_state I C a mst off n"
    and "a \<in> users" and "es dvd off"
  shows "flat_dev I a (part_content C off n) (part_rest C R off n) pg es (slave_ops lib dev (dev mst) partno a)"
  using slave_requests [where dev = dev and partno = partno, OF assms] erases_master_flat [OF assms(2)] unfolding flat_dev_def by (blast intro: clips_flat)

section \<open>Concatenated devices\<close>

text \<open>The content of subdevices in a row, and what each of them must leave alone: the others.\<close>

definition cat :: "(addr \<Rightarrow> 'f mtd_world \<Rightarrow> u8 list) \<Rightarrow> addr list \<Rightarrow> 'f mtd_world \<Rightarrow> u8 list" where
  "cat C subs w = concat (map (\<lambda>s. C s w) subs)"

definition others ::
  "(addr \<Rightarrow> 'f mtd_world \<Rightarrow> u8 list) \<Rightarrow> ('f mtd_world \<Rightarrow> 'r) \<Rightarrow> addr \<Rightarrow> 'f mtd_world \<Rightarrow> 'r \<times> (addr \<Rightarrow> u8 list)" where
  "others C R s w = (R w, \<lambda>t. if t = s then [] else C t w)"

lemma cat_simps [simp]: "cat C [] w = []" "cat C (s # subs) w = C s w @ cat C subs w"
  by (simp_all add: cat_def)

lemma others_eqD:
  assumes "others C R s w' = others C R s w"
  shows "R w' = R w" and "t \<noteq> s \<Longrightarrow> C t w' = C t w" and "s \<notin> set subs \<Longrightarrow> cat C subs w' = cat C subs w"
proof -
  show "R w' = R w" using assms by (simp add: others_def)
  have eq: "t \<noteq> s \<Longrightarrow> C t w' = C t w" for t using assms by (simp add: others_def) (metis (full_types))
  then show "t \<noteq> s \<Longrightarrow> C t w' = C t w" .
  show "s \<notin> set subs \<Longrightarrow> cat C subs w' = cat C subs w"
    unfolding cat_def by (metis (mono_tags, lifting) eq map_eq_conv)
qed

end
