(* ===== verification/MtdConcatFlat.thy ===== *)
theory MtdConcatFlat
  imports MtdFlat
begin

text \<open>
  A concatenated device (\<open>mtdconcat.c\<close>) keeps the contract of \<open>MtdFlat\<close> for the content of its
  subdevices in a row.
\<close>

definition subs_state ::
  "('f mtd_world \<Rightarrow> bool) \<Rightarrow> (addr \<Rightarrow> 'f mtd_world \<Rightarrow> u8 list) \<Rightarrow> addr list \<Rightarrow> bool" where
  "subs_state I C subs \<longleftrightarrow> distinct subs \<and> (\<forall>w. I w \<longrightarrow> length (cat C subs w) < 2 ^ 64 \<and>
     (\<forall>s\<in>set subs. \<exists>m. info w s = Some m \<and> unat (mtd_size m) = length (C s w) \<and> writeable m))"

lemma subs_state_Cons:
  assumes "subs_state I C (s # subs)" and "I w"
  obtains m where "info w s = Some m" "unat (mtd_size m) = length (C s w)" "writeable m"
    "length (C s w) + length (cat C subs w) < 2 ^ 64" "s \<notin> set subs"
  using assms unfolding subs_state_def by auto

lemma subs_state_tl: "subs_state I C (s # subs) \<Longrightarrow> subs_state I C subs"
  by (auto simp: subs_state_def)

text \<open>The length that goes to the first subdevice, and whether something is left for the next.\<close>

lemma clip_split:
  assumes "unat pos < unat sz" and "unat pos + unat len < 2 ^ 64" and k: "k = clip sz pos len"
  shows "unat pos + unat len \<le> unat sz \<Longrightarrow> k = len"
    and "unat sz < unat pos + unat len \<Longrightarrow> unat k = unat sz - unat pos \<and>
      unat (len - k) = unat len - (unat sz - unat pos) \<and> len - k \<noteq> 0"
proof -
  note u = unat_clip [OF assms(1,2)]
  show "unat pos + unat len \<le> unat sz \<Longrightarrow> k = len" using k by (simp add: clip_all)
  assume lt: "unat sz < unat pos + unat len"
  then have uk: "unat k = unat sz - unat pos" using k u assms(1) by simp
  moreover have "unat k \<le> unat len" using uk lt assms(1) by simp
  then have "unat (len - k) = unat len - unat k" by (simp add: unat_sub word_le_nat_alt)
  moreover from this uk lt assms(1) have "unat (len - k) \<noteq> 0" by simp
  then have "len - k \<noteq> 0" by auto
  ultimately show "unat k = unat sz - unat pos \<and> unat (len - k) = unat len - (unat sz - unat pos) \<and> len - k \<noteq> 0"
    by simp
qed

section \<open>Reading\<close>

lemma concat_read_loop_flat:
  assumes "\<forall>s\<in>set subs. flat_read I (C s) (others C R s) (op_read (dev s))" and "subs_state I C subs"
    and "I w" and "unat pos < length (cat C subs w)" and "unat pos + unat len \<le> length (cat C subs w)"
  shows "\<exists>w'. concat_read_loop dev c subs pos len buf 0 retlen w = Some (0, retlen + len, w') \<and> I w' \<and>
    (\<forall>t. C t w' = C t w) \<and> R w' = R w \<and>
    mem w' = store (mem w) buf (slice (cat C subs w) (unat pos) (unat len))"
  using assms
proof (induction subs arbitrary: w pos len buf retlen)
  case (Cons s subs)
  obtain m where m: "info w s = Some m" "unat (mtd_size m) = length (C s w)"
    "length (C s w) + length (cat C subs w) < 2 ^ 64" "s \<notin> set subs"
    using subs_state_Cons [OF Cons.prems(2,3)] by blast
  have rds: "flat_read I (C s) (others C R s) (op_read (dev s))"
    and rdt: "\<forall>t\<in>set subs. flat_read I (C t) (others C R t) (op_read (dev t))"
    using Cons.prems(1) by simp_all
  note st = subs_state_tl [OF Cons.prems(2)]
  show ?case
  proof (cases "mtd_size m \<le> pos")
    case True
    then have u: "unat (pos - mtd_size m) = unat pos - length (C s w)" "length (C s w) \<le> unat pos"
      using m by (simp_all add: unat_sub_64 word_le_nat_alt)
    have "unat (pos - mtd_size m) < length (cat C subs w)"
      "unat (pos - mtd_size m) + unat len \<le> length (cat C subs w)"
      using u Cons.prems(4,5) by simp_all
    from Cons.IH [OF rdt st Cons.prems(3) this, of buf retlen] u m(1) True show ?thesis
      by (simp add: slice_append_right)
  next
    case False
    define k where "k = clip (mtd_size m) pos len"
    from False have lt: "unat pos < unat (mtd_size m)" by (simp add: word_le_nat_alt)
    have b64: "unat pos + unat len < 2 ^ 64" using Cons.prems(5) m(3) by simp
    note sp = clip_split [OF lt b64 k_def]
    have step: "\<exists>w1. op_read (dev s) pos k buf w = Some (0, k, w1) \<and> I w1 \<and> (\<forall>t. C t w1 = C t w) \<and> R w1 = R w \<and>
        mem w1 = store (mem w) buf (slice (C s w) (unat pos) (unat k))"
    proof -
      have "unat pos < length (C s w)" "unat pos + unat k \<le> length (C s w)"
        using lt m(2) unat_clip [OF lt b64] by (simp_all add: k_def)
      from rds [unfolded flat_read_def, rule_format, OF Cons.prems(3) this] obtain w1 where
        w1: "op_read (dev s) pos k buf w = Some (0, k, w1)"
          "keeps I (C s) (others C R s) w (C s w) (store (mem w) buf (slice (C s w) (unat pos) (unat k))) w1"
        by blast
      from w1(2) have "C t w1 = C t w" for t
        by (cases "t = s") (auto simp: keeps_def dest: others_eqD(2))
      with w1 show ?thesis by (auto simp: keeps_def dest: others_eqD(1))
    qed
    then obtain w1 where w1: "op_read (dev s) pos k buf w = Some (0, k, w1)" "I w1" "\<forall>t. C t w1 = C t w"
      "R w1 = R w" "mem w1 = store (mem w) buf (slice (C s w) (unat pos) (unat k))" by blast
    have unf: "concat_read_loop dev c (s # subs) pos len buf 0 retlen w =
        (if len - k = 0 then Some (0, retlen + k, w1)
         else concat_read_loop dev c subs 0 (len - k) (buf + unat k) 0 (retlen + k) w1)"
      using m(1) False w1(1) by (simp add: k_def clip_def note_bitflips_def Let_def)
    show ?thesis
    proof (cases "unat pos + unat len \<le> unat (mtd_size m)")
      case True
      with sp(1) have "k = len" by simp
      with unf w1 True m(2) show ?thesis by (simp add: slice_append_left)
    next
      case f: False
      with sp(2) have k: "unat k = length (C s w) - unat pos" "unat (len - k) = unat len - (length (C s w) - unat pos)"
        "len - k \<noteq> 0" using m(2) by auto
      have cw: "cat C subs w1 = cat C subs w" using w1(3) by (simp add: cat_def)
      have "unat (0 :: u64) < length (cat C subs w1)" "unat (0 :: u64) + unat (len - k) \<le> length (cat C subs w1)"
        using k f lt m(2) Cons.prems(5) by (auto simp: cw)
      from Cons.IH [OF rdt st w1(2) this, of "buf + unat k" "retlen + k"] obtain w' where
        w': "concat_read_loop dev c subs 0 (len - k) (buf + unat k) 0 (retlen + k) w1 = Some (0, retlen + len, w')"
          "I w'" "\<forall>t. C t w' = C t w1" "R w' = R w1"
          "mem w' = store (mem w1) (buf + unat k) (slice (cat C subs w) 0 (unat (len - k)))"
        by (auto simp: cw)
      have "mem w' = store (mem w) buf (slice (C s w @ cat C subs w) (unat pos) (unat len))"
        using w'(5) w1(5) k f lt m(2)
          store_append [of "mem w" buf "slice (C s w) (unat pos) (unat k)" "slice (cat C subs w) 0 (unat (len - k))"]
        by (simp add: slice_append_both)
      with unf k(3) w' w1 show ?thesis by simp
    qed
  qed
qed simp

section \<open>Writing\<close>

lemma concat_write_loop_flat:
  assumes "\<forall>s\<in>set subs. flat_write I (C s) (others C R s) pg (op_write (dev s))" and "subs_state I C subs"
    and "I w" and "unat pos < length (cat C subs w)" and "unat pos + unat len \<le> length (cat C subs w)"
  shows "\<exists>w'. concat_write_loop dev subs pos len buf retlen w = Some (0, retlen + len, w') \<and> I w' \<and>
    cat C subs w' = program pg (cat C subs w) (unat pos) (load (mem w) buf (unat len)) \<and>
    (\<forall>t. t \<notin> set subs \<longrightarrow> C t w' = C t w) \<and> R w' = R w \<and> mem w' = mem w"
  using assms
proof (induction subs arbitrary: w pos len buf retlen)
  case (Cons s subs)
  obtain m where m: "info w s = Some m" "unat (mtd_size m) = length (C s w)" "writeable m"
    "length (C s w) + length (cat C subs w) < 2 ^ 64" "s \<notin> set subs"
    using subs_state_Cons [OF Cons.prems(2,3)] by blast
  have wrs: "flat_write I (C s) (others C R s) pg (op_write (dev s))"
    and wrt: "\<forall>t\<in>set subs. flat_write I (C t) (others C R t) pg (op_write (dev t))"
    using Cons.prems(1) by simp_all
  note st = subs_state_tl [OF Cons.prems(2)]
  show ?case
  proof (cases "mtd_size m \<le> pos")
    case True
    then have u: "unat (pos - mtd_size m) = unat pos - length (C s w)" "length (C s w) \<le> unat pos"
      using m by (simp_all add: unat_sub_64 word_le_nat_alt)
    have "unat (pos - mtd_size m) < length (cat C subs w)"
      "unat (pos - mtd_size m) + unat len \<le> length (cat C subs w)"
      using u Cons.prems(4,5) by simp_all
    from Cons.IH [OF wrt st Cons.prems(3) this, of buf retlen] u m True show ?thesis
      by (auto simp: program_append_right)
  next
    case False
    define k where "k = clip (mtd_size m) pos len"
    from False have lt: "unat pos < unat (mtd_size m)" by (simp add: word_le_nat_alt)
    have b64: "unat pos + unat len < 2 ^ 64" using Cons.prems(5) m(4) by simp
    note sp = clip_split [OF lt b64 k_def]
    have in_s: "unat pos < length (C s w)" "unat pos + unat k \<le> length (C s w)"
      using lt m(2) unat_clip [OF lt b64] by (simp_all add: k_def)
    from wrs [unfolded flat_write_def, rule_format, OF Cons.prems(3) this] obtain w1 where
      op: "op_write (dev s) pos k buf w = Some (0, k, w1)" and
      kp: "keeps I (C s) (others C R s) w (program pg (C s w) (unat pos) (load (mem w) buf (unat k))) (mem w) w1"
      by blast
    from kp have w1: "I w1" "C s w1 = program pg (C s w) (unat pos) (load (mem w) buf (unat k))"
      "mem w1 = mem w" and ot: "others C R s w1 = others C R s w" by (simp_all add: keeps_def)
    note fr = others_eqD [OF ot]
    have unf: "concat_write_loop dev (s # subs) pos len buf retlen w =
        (if len - k = 0 then Some (0, retlen + k, w1)
         else concat_write_loop dev subs 0 (len - k) (buf + unat k) (retlen + k) w1)"
      using m(1,3) False op by (simp add: k_def clip_def Let_def)
    show ?thesis
    proof (cases "unat pos + unat len \<le> unat (mtd_size m)")
      case True
      with sp(1) have "k = len" by simp
      with unf w1 fr m in_s show ?thesis by (auto simp: program_append_left)
    next
      case f: False
      with sp(2) have k: "unat k = length (C s w) - unat pos" "unat (len - k) = unat len - (length (C s w) - unat pos)"
        "len - k \<noteq> 0" using m(2) by auto
      note cw = fr(3) [OF m(5)]
      have "unat (0 :: u64) < length (cat C subs w1)" "unat (0 :: u64) + unat (len - k) \<le> length (cat C subs w1)"
        using k f lt m(2) Cons.prems(5) by (auto simp: cw)
      from Cons.IH [OF wrt st w1(1) this, of "buf + unat k" "retlen + k"] obtain w' where
        w': "concat_write_loop dev subs 0 (len - k) (buf + unat k) (retlen + k) w1 = Some (0, retlen + len, w')"
          "I w'" "cat C subs w' = program pg (cat C subs w) 0 (load (mem w) (buf + unat k) (unat (len - k)))"
          "\<forall>t. t \<notin> set subs \<longrightarrow> C t w' = C t w1" "R w' = R w" "mem w' = mem w"
        by (auto simp: cw w1(3) fr(1))
      have "unat len = unat k + unat (len - k)" using k f in_s m(2) by simp
      then have "load (mem w) buf (unat len) = load (mem w) buf (unat k) @ load (mem w) (buf + unat k) (unat (len - k))"
        by (simp only: load_add)
      then have "cat C (s # subs) w' = program pg (cat C (s # subs) w) (unat pos) (load (mem w) buf (unat len))"
        using w'(3,4) w1(2) m(5) k(1) in_s by (simp add: program_append_both)
      with unf k(3) w' fr(2) show ?thesis by auto
    qed
  qed
qed simp

section \<open>Erasing\<close>

lemma concat_dev_erase_flat:
  assumes "flat_erase I s (C s) (others C R s) es (op_erase (dev s))" and "I w"
    and "erase_request es (length (C s w)) (e\<lparr>ei_mtd := s, ei_callback := Some Concat_erase_callback\<rparr>)"
  shows "\<exists>w' e'. concat_dev_erase dev s e w = Some (0, e', w') \<and> ei_state e' = MTD_ERASE_DONE \<and>
     keeps I (C s) (others C R s) w (erased (C s w) e) (mem w) w'"
  using assms(1) [unfolded flat_erase_def, rule_format, OF assms(2) _ assms(3)]
  by (auto simp: concat_dev_erase_def MTD_ERASE_DONE_def MTD_ERASE_FAILED_def)

lemma concat_erase_loop_0: "concat_erase_loop lib dev subs e 0 offset fa w = Some (0, e, fa, w)"
  by (cases subs) auto

text \<open>The loop starts inside the first subdevice; the request it carries has no callback of a client.\<close>

lemma concat_erase_loop_flat:
  assumes "\<forall>s\<in>set subs. flat_erase I s (C s) (others C R s) es (op_erase (dev s)) \<and> (\<forall>w. I w \<longrightarrow> C s w \<noteq> [] \<and> es dvd length (C s w))"
    and "subs_state I C subs" and "I w" and "subs \<noteq> [] \<longrightarrow> unat (ei_addr e) < length (C (hd subs) w)"
    and "unat (ei_addr e) + unat left \<le> length (cat C subs w)" and "0 < unat left"
    and "es dvd unat (ei_addr e)" and "es dvd unat left"
  shows "\<exists>w' e'. concat_erase_loop lib dev subs e left offset fa w = Some (0, e', fa, w') \<and>
    ei_state e' = MTD_ERASE_DONE \<and> I w' \<and>
    cat C subs w' = put_at (cat C subs w) (unat (ei_addr e)) (replicate (unat left) 0xFF) \<and>
    (\<forall>t. t \<notin> set subs \<longrightarrow> C t w' = C t w) \<and> R w' = R w \<and> mem w' = mem w"
  using assms
proof (induction subs arbitrary: w e left offset)
  case (Cons s subs)
  obtain m where m: "info w s = Some m" "unat (mtd_size m) = length (C s w)" "writeable m"
    "length (C s w) + length (cat C subs w) < 2 ^ 64" "s \<notin> set subs"
    using subs_state_Cons [OF Cons.prems(2,3)] by blast
  have ers: "flat_erase I s (C s) (others C R s) es (op_erase (dev s))" "es dvd length (C s w)"
    and ert: "\<forall>t\<in>set subs. flat_erase I t (C t) (others C R t) es (op_erase (dev t)) \<and> (\<forall>w. I w \<longrightarrow> C t w \<noteq> [] \<and> es dvd length (C t w))"
    using Cons.prems(1,3) by simp_all
  note st = subs_state_tl [OF Cons.prems(2)]
  have lt: "unat (ei_addr e) < length (C s w)" using Cons.prems(4) by simp
  have sum: "unat (ei_addr e + left) = unat (ei_addr e) + unat left"
    using Cons.prems(5) m(4) by (intro unat_add_64) simp
  define n where "n = (if mtd_size m < ei_addr e + left then mtd_size m - ei_addr e else left)"
  have n: "unat n = min (unat left) (length (C s w) - unat (ei_addr e))"
    using lt m(2) by (auto simp: n_def word_less_nat_alt sum unat_sub_64)
  then have left': "unat (left - n) = unat left - unat n" by (simp add: unat_sub_64)
  define e1 where "e1 = e\<lparr>ei_len := n\<rparr>"
  have "erase_request es (length (C s w)) (e1\<lparr>ei_mtd := s, ei_callback := Some Concat_erase_callback\<rparr>)"
    using lt n Cons.prems(6-8) ers(2) by (auto simp: erase_request_def e1_def min_def dvd_diff_nat)
  from concat_dev_erase_flat [where e = e1 and C = C and s = s and I = I and w = w and dev = dev, OF ers(1) Cons.prems(3) this] obtain w1 e' where
    op: "concat_dev_erase dev s e1 w = Some (0, e', w1)" and "ei_state e' = MTD_ERASE_DONE" and
    kp: "keeps I (C s) (others C R s) w (erased (C s w) e1) (mem w) w1" by blast
  from kp have w1: "I w1" "C s w1 = put_at (C s w) (unat (ei_addr e)) (replicate (unat n) 0xFF)"
    "mem w1 = mem w" and ot: "others C R s w1 = others C R s w" by (simp_all add: keeps_def e1_def)
  note fr = others_eqD [OF ot]
  note cw = fr(3) [OF m(5)]
  have "left \<noteq> 0" using Cons.prems(6) by auto
  then have unf: "concat_erase_loop lib dev (s # subs) e left offset fa w =
      concat_erase_loop lib dev subs (e'\<lparr>ei_addr := 0\<rparr>) (left - n) (offset + mtd_size m) fa w1"
    using m(1,3) op by (simp add: e1_def n_def Let_def)
  show ?case
  proof (cases "unat left \<le> length (C s w) - unat (ei_addr e)")
    case True
    then have "n = left" using n by (simp add: unsigned_word_eqI)
    with unf w1 fr m(5) lt True \<open>ei_state e' = MTD_ERASE_DONE\<close> show ?thesis
      by (auto simp: concat_erase_loop_0 put_at_append_left)
  next
    case f: False
    have ne: "subs \<noteq> []" using f Cons.prems(5) lt by auto
    have "0 < unat (left - n)" "unat (ei_addr (e'\<lparr>ei_addr := 0\<rparr>)) + unat (left - n) \<le> length (cat C subs w1)"
      "subs \<noteq> [] \<longrightarrow> unat (ei_addr (e'\<lparr>ei_addr := 0\<rparr>)) < length (C (hd subs) w1)"
      "es dvd unat (ei_addr (e'\<lparr>ei_addr := 0\<rparr>))" "es dvd unat (left - n)"
      using f n left' lt Cons.prems(5,7,8) ers(2) ert w1(1) by (auto simp: cw dvd_diff_nat min_def)
    from Cons.IH [OF ert st w1(1) this(3,2,1,4,5), of "offset + mtd_size m"] obtain w' e'' where
      w': "concat_erase_loop lib dev subs (e'\<lparr>ei_addr := 0\<rparr>) (left - n) (offset + mtd_size m) fa w1 = Some (0, e'', fa, w')"
        "ei_state e'' = MTD_ERASE_DONE" "I w'"
        "cat C subs w' = put_at (cat C subs w) 0 (replicate (unat (left - n)) 0xFF)"
        "\<forall>t. t \<notin> set subs \<longrightarrow> C t w' = C t w1" "R w' = R w" "mem w' = mem w"
      by (auto simp: cw w1(3) fr(1))
    have "unat left = unat n + unat (left - n)" using n left' by simp
    then have rep: "replicate (unat left) (0xFF :: u8) = replicate (unat n) 0xFF @ replicate (unat (left - n)) 0xFF"
      by (simp only: replicate_add)
    have "unat n = length (C s w) - unat (ei_addr e)" using n f by simp
    then have "cat C (s # subs) w' = put_at (cat C (s # subs) w) (unat (ei_addr e)) (replicate (unat left) 0xFF)"
      unfolding rep using w'(4,5) w1(2) m(5) lt by (simp add: put_at_append_both)
    with unf w' fr(2) show ?thesis by auto
  qed
qed simp

text \<open>The search for the first subdevice.\<close>

lemma find_subdev_flat:
  assumes "subs_state I C subs" and "I w" and "unat pos < length (cat C subs w)"
  shows "\<exists>pre s rest pos' offset'. find_subdev subs pos offset w = Some (s # rest, pos', offset') \<and>
    subs = pre @ s # rest \<and> unat pos = length (cat C pre w) + unat pos' \<and> unat pos' < length (C s w)"
  using assms
proof (induction subs arbitrary: pos offset)
  case (Cons s subs)
  obtain m where m: "info w s = Some m" "unat (mtd_size m) = length (C s w)"
    using subs_state_Cons [OF Cons.prems(1,2)] by blast
  show ?case
  proof (cases "mtd_size m \<le> pos")
    case True
    then have u: "unat (pos - mtd_size m) = unat pos - length (C s w)" "length (C s w) \<le> unat pos"
      using m by (simp_all add: unat_sub_64 word_le_nat_alt)
    then have "unat (pos - mtd_size m) < length (cat C subs w)" using Cons.prems(3) by simp
    from Cons.IH [OF subs_state_tl [OF Cons.prems(1)] Cons.prems(2) this, of "offset + mtd_size m"]
    obtain pre t rest pos' offset' where
      "find_subdev subs (pos - mtd_size m) (offset + mtd_size m) w = Some (t # rest, pos', offset')"
      "subs = pre @ t # rest" "unat (pos - mtd_size m) = length (cat C pre w) + unat pos'"
      "unat pos' < length (C t w)" by blast
    moreover from this u have "unat pos = length (cat C (s # pre) w) + unat pos'" by simp
    ultimately show ?thesis using m(1) True
      by (intro exI [of _ "s # pre"] exI [of _ t] exI [of _ rest]) simp
  next
    case False
    then show ?thesis using m by (intro exI [of _ "[]"] exI [of _ s] exI [of _ subs]) (simp add: word_le_nat_alt)
  qed
qed simp

lemma aligned_mask:
  assumes "unat (e :: u32) = 2 ^ k" and "2 ^ k dvd unat (x :: u64)"
  shows "and x (ucast (e - 1)) = 0"
proof -
  have "(2 :: nat) ^ k < 2 ^ 32" using u32_lt [of e] by (simp add: assms(1))
  then have k: "k < 32" by (rule power_less_imp_less_exp [rotated]) simp
  have "e = of_nat (unat e)" by simp
  also have "\<dots> = 2 ^ k" by (simp only: assms(1) of_nat_power of_nat_numeral)
  finally have "e - 1 = mask k" by (simp add: mask_eq_exp_minus_1)
  moreover have "ucast (mask k :: u32) = (mask k :: u64)" using k by transfer (simp add: min_def)
  moreover have "take_bit k x = 0"
    using assms(2) by (metis take_bit_eq_0_iff unsigned_0 unsigned_take_bit_eq unsigned_word_eqI)
  ultimately show ?thesis by (simp add: take_bit_eq_mask)
qed

text \<open>The object of the concatenated device; its subdevices have one uniform erase size.\<close>

definition concat_state ::
  "'f mtd_lib \<Rightarrow> ('f mtd_world \<Rightarrow> bool) \<Rightarrow> (addr \<Rightarrow> 'f mtd_world \<Rightarrow> u8 list) \<Rightarrow> addr \<Rightarrow> addr list \<Rightarrow> nat \<Rightarrow> bool" where
  "concat_state lib I C c subs es \<longleftrightarrow> (\<forall>w. I w \<longrightarrow> kzalloc lib w \<noteq> None \<and>
     (\<exists>m. info w c = Some m \<and> unat (mtd_size m) = length (cat C subs w) \<and> writeable m \<and>
        eraseregions m = [] \<and> unat (erasesize m) = es) \<and>
     (\<forall>s\<in>set subs. C s w \<noteq> [] \<and> es dvd length (C s w)))"

lemma cat_append [simp]: "cat C (xs @ ys) w = cat C xs w @ cat C ys w"
  by (simp add: cat_def)

lemma concat_erase_flat:
  assumes er: "\<forall>s\<in>set subs. flat_erase I s (C s) (others C R s) es (op_erase (dev s))"
    and st: "subs_state I C subs" and cs: "concat_state lib I C c subs es" and es: "es = 2 ^ k"
  shows "flat_erase I c (cat C subs) R es (concat_erase lib dev c subs)"
  unfolding flat_erase_def
proof (intro allI impI)
  fix w and e :: erase_info
  assume w: "I w" and "ei_mtd e = c" and rq: "erase_request es (length (cat C subs w)) e"
  from cs w obtain m where m: "info w c = Some m" "unat (mtd_size m) = length (cat C subs w)" "writeable m"
    "eraseregions m = []" "unat (erasesize m) = es" and alloc: "kzalloc lib w \<noteq> None"
    unfolding concat_state_def by blast
  from rq have r: "0 < unat (ei_len e)" "unat (ei_addr e) + unat (ei_len e) \<le> length (cat C subs w)"
    "es dvd unat (ei_addr e)" "es dvd unat (ei_len e)" "ei_callback e \<in> {None, Some Concat_erase_callback}"
    by (simp_all add: erase_request_def)
  have al: "erase_aligned m (ei_addr e) (ei_len e) = Some True"
    using m(4,5) r(3,4) es by (simp add: erase_aligned_def aligned_mask)
  have "unat (ei_len e + ei_addr e) = unat (ei_len e) + unat (ei_addr e)"
    using r(2) m(2) u64_lt [of "mtd_size m"] by (intro unat_add_64) simp
  then have le: "\<not> mtd_size m < ei_addr e" "\<not> mtd_size m < ei_len e + ei_addr e"
    using r(2) m(2) by (simp_all add: word_less_nat_alt)
  have "unat (ei_addr e) < length (cat C subs w)" using r by simp
  from find_subdev_flat [OF st w this, of 0] obtain pre s rest pos' offset' where
    fs: "find_subdev subs (ei_addr e) 0 w = Some (s # rest, pos', offset')" and
    sub: "subs = pre @ s # rest" and pos': "unat (ei_addr e) = length (cat C pre w) + unat pos'"
      "unat pos' < length (C s w)" by blast
  have pre: "es dvd length (cat C pre w)"
  proof -
    have "\<forall>t\<in>set pre. es dvd length (C t w)" using cs w sub by (auto simp: concat_state_def)
    then show ?thesis by (induction pre) auto
  qed
  define instr where "instr = e\<lparr>ei_fail_addr := MTD_FAIL_ADDR_UNKNOWN lib\<rparr>"
  have 1: "\<forall>t\<in>set (s # rest). flat_erase I t (C t) (others C R t) es (op_erase (dev t)) \<and>
      (\<forall>w. I w \<longrightarrow> C t w \<noteq> [] \<and> es dvd length (C t w))"
    using er cs sub unfolding concat_state_def by (metis in_set_conv_decomp_first Un_iff set_append)
  have 2: "subs_state I C (s # rest)" using st sub by (auto simp: subs_state_def)
  have 3: "s # rest \<noteq> [] \<longrightarrow> unat (ei_addr (instr\<lparr>ei_addr := pos'\<rparr>)) < length (C (hd (s # rest)) w)"
    "unat (ei_addr (instr\<lparr>ei_addr := pos'\<rparr>)) + unat (ei_len e) \<le> length (cat C (s # rest) w)"
    using pos' r(2) sub by simp_all
  have "es dvd unat pos'" using r(3) pre pos'(1) by (metis dvd_add_right_iff)
  then have 4: "es dvd unat (ei_addr (instr\<lparr>ei_addr := pos'\<rparr>))" by simp
  from concat_erase_loop_flat [OF 1 2 w 3 r(1) 4 r(4), of lib offset' "ei_fail_addr instr"] obtain w' e' where
    lp: "concat_erase_loop lib dev (s # rest) (instr\<lparr>ei_addr := pos'\<rparr>) (ei_len e) offset' (ei_fail_addr instr) w =
       Some (0, e', ei_fail_addr instr, w')" and
    w': "ei_state e' = MTD_ERASE_DONE" "I w'"
      "cat C (s # rest) w' = put_at (cat C (s # rest) w) (unat pos') (replicate (unat (ei_len e)) 0xFF)"
      "\<forall>t. t \<notin> set (s # rest) \<longrightarrow> C t w' = C t w" "R w' = R w" "mem w' = mem w"
    by auto
  have "\<forall>t\<in>set pre. C t w' = C t w" using w'(4) st sub by (auto simp: subs_state_def)
  then have "cat C pre w' = cat C pre w" unfolding cat_def by (metis (mono_tags, lifting) map_eq_conv)
  then have "keeps I (cat C subs) R w (erased (cat C subs w) e) (mem w) w'"
    using w' pos'(1) by (simp add: keeps_def sub put_at_append_right)
  moreover have "concat_erase lib dev c subs e w =
      Some (0, instr\<lparr>ei_fail_addr := ei_fail_addr instr, ei_state := ei_state e'\<rparr>, w')"
    unfolding concat_erase_def using m al le alloc fs lp r(5)
    by (auto simp: instr_def call_callback_def Let_def)
  ultimately show "\<exists>w' e'. concat_erase lib dev c subs e w = Some (0, e', w') \<and> ei_state e' = MTD_ERASE_DONE \<and>
      ei_addr e' = ei_addr e \<and> keeps I (cat C subs) R w (erased (cat C subs w) e) (mem w) w'"
    using w'(1) by (auto simp: instr_def)
qed

lemma concat_flat:
  assumes "\<forall>s\<in>set subs. flat_dev I s (C s) (others C R s) pg es (dev s)"
    and st: "subs_state I C subs" and cs: "concat_state lib I C c subs es" and es: "es = 2 ^ k"
  shows "flat_dev I c (cat C subs) R pg es (concat_ops lib dev s0 c subs)"
proof -
  have fr: "flat_read I (cat C subs) R (concat_read dev c subs)"
    unfolding flat_read_def
  proof (intro allI impI)
    fix w and pos :: u64 and len :: u32 and buf
    assume w: "I w" "unat pos < length (cat C subs w)" "unat pos + unat len \<le> length (cat C subs w)"
    have "\<forall>s\<in>set subs. flat_read I (C s) (others C R s) (op_read (dev s))"
      using assms(1) by (simp add: flat_dev_def)
    from concat_read_loop_flat [OF this st w, of c buf 0]
    show "\<exists>w'. concat_read dev c subs pos len buf w = Some (0, len, w') \<and> keeps I (cat C subs) R w (cat C subs w)
       (store (mem w) buf (slice (cat C subs w) (unat pos) (unat len))) w'"
      by (auto simp: concat_read_def keeps_def cat_def)
  qed
  have fw: "flat_write I (cat C subs) R pg (concat_write dev c subs)"
    unfolding flat_write_def
  proof (intro allI impI)
    fix w and pos :: u64 and len :: u32 and buf
    assume w: "I w" "unat pos < length (cat C subs w)" "unat pos + unat len \<le> length (cat C subs w)"
    have "\<forall>s\<in>set subs. flat_write I (C s) (others C R s) pg (op_write (dev s))"
      using assms(1) by (simp add: flat_dev_def)
    note loop = concat_write_loop_flat [OF this st w, of buf 0]
    from cs w(1) obtain m where "info w c = Some m" "writeable m" unfolding concat_state_def by blast
    then have "concat_write dev c subs pos len buf w = concat_write_loop dev subs pos len buf 0 w"
      by (simp add: concat_write_def)
    with loop show "\<exists>w'. concat_write dev c subs pos len buf w = Some (0, len, w') \<and> keeps I (cat C subs) R w
       (program pg (cat C subs w) (unat pos) (load (mem w) buf (unat len))) (mem w) w'"
      by (auto simp: keeps_def)
  qed
  have "\<forall>s\<in>set subs. flat_erase I s (C s) (others C R s) es (op_erase (dev s))"
    using assms(1) by (simp add: flat_dev_def)
  from fr fw concat_erase_flat [OF this st cs es] show ?thesis
    by (simp add: flat_dev_def concat_ops_def)
qed

section \<open>Properties\<close>

text \<open>C13: a partition is a flat device of its own.  When the driver of the master reads, programs
  and erases a flat array of bytes and reports finished erases with \<open>mtd_erase_callback\<close>, the functions
  that \<open>add_one_partition\<close> installs read, program and erase the partition's slice of that array, at
  addresses counted from its start, and for a request inside the partition the rest of the master stays as it is.
  A read or a write that starts inside and would go over the end of the partition is cut there.  An erase is not: it is refused only
  when it starts behind the partition, and one that goes over the end erases what is behind it on the master.\<close>

theorem partition_is_flat:
  assumes "flat_driver lib I users C R pg es (dev mst)" and "slave_state I C a mst off n"
    and "a \<in> users" and "es dvd off"
  shows "flat_dev I a (part_content C off n) (part_rest C R off n) pg es (slave_ops lib dev (dev mst) partno a) \<and>
    clips_read I (part_content C off n) (part_rest C R off n) (op_read (slave_ops lib dev (dev mst) partno a)) \<and>
    clips_write I (part_content C off n) (part_rest C R off n) pg (op_write (slave_ops lib dev (dev mst) partno a)) \<and>
    erases_master I a C R off n es (op_erase (slave_ops lib dev (dev mst) partno a))"
  using slave_flat [where dev = dev and partno = partno, OF assms]
    slave_requests [where dev = dev and partno = partno, OF assms] by blast

text \<open>C14: a concatenated device is equivalent to one flat device that holds the contents of its
  subdevices in a row.  When every subdevice is a flat device that leaves the others alone, and all
  have the same erase size, a power of two, reads, writes and erases that cross subdevices have the
  effect that they have on the joined array, and nothing else changes.\<close>

theorem concat_is_flat:
  assumes "\<forall>s\<in>set subs. flat_dev I s (C s) (others C R s) pg es (dev s)"
    and "subs_state I C subs" and "concat_state lib I C c subs es" and "es = 2 ^ k"
  shows "flat_dev I c (cat C subs) R pg es (concat_ops lib dev s0 c subs)"
  using assms by (rule concat_flat)

section \<open>An instance\<close>

text \<open>Two memory chips at 1 and 2, a partition of the first at 3, and at 4 the concatenation of the
  partition and the second chip.\<close>

definition ram_lib :: "'f mtd_lib" where
  "ram_lib = \<lparr>MTD_FAIL_ADDR_UNKNOWN = -1,
     do_div = (\<lambda>n b. if b = 0 then None else Some (n div ucast b)),
     mtd_div_by_eb = (\<lambda>n m. if erasesize m = 0 then None else Some (ucast (n div ucast (erasesize m)))),
     mtd_mod_by_eb = (\<lambda>n m. if erasesize m = 0 then None else Some (ucast (n mod ucast (erasesize m)))),
     kzalloc = (\<lambda>w. find (\<lambda>a. info w a = None \<and> part_objs w a = None \<and> a \<notin> set (mtd_partitions w) \<and>
       Some a \<notin> set (mtd_table (mtdc w))) [9..<12]),
     client_cb = (\<lambda>f e w. Some (e, w))\<rparr>"

definition ram_ops :: "addr \<Rightarrow> (addr \<Rightarrow> u8 list) mtd_ops" where
  "ram_ops s = \<lparr>
     op_read = (\<lambda>pos len buf w. Some (0, len,
       w\<lparr>mem := store (mem w) buf (slice (flash w s) (unat pos) (unat len))\<rparr>)),
     op_write = (\<lambda>pos len buf w. Some (0, len,
       w\<lparr>flash := (flash w)(s := program and (flash w s) (unat pos) (load (mem w) buf (unat len)))\<rparr>)),
     op_panic_write = None, op_read_oob = None, op_write_oob = None, op_read_user_prot_reg = None,
     op_read_fact_prot_reg = None, op_write_user_prot_reg = None, op_lock_user_prot_reg = None,
     op_get_user_prot_info = None, op_get_fact_prot_info = None,
     op_erase = (\<lambda>e w. do {
       (e', w') \<leftarrow> mtd_erase_callback ram_lib (e\<lparr>ei_state := MTD_ERASE_DONE\<rparr>)
                    (w\<lparr>flash := (flash w)(s := erased (flash w s) e)\<rparr>);
       Some (0, e', w') }),
     op_sync = None, op_suspend = None, op_resume = None, op_lock = None, op_unlock = None,
     op_block_isbad = None, op_block_markbad = None\<rparr>"

definition ram_info :: "u64 \<Rightarrow> mtd_info" where
  "ram_info sz = (demo_mtd ''ram'')\<lparr>mtd_size := sz, erasesize := 4\<rparr>"

definition ram_dev :: "addr \<Rightarrow> (addr \<Rightarrow> u8 list) mtd_ops" where
  "ram_dev s = (if s = 3 then slave_ops ram_lib ram_ops (ram_ops 1) 0 3 else ram_ops s)"

definition ram_world :: "(addr \<Rightarrow> u8 list) mtd_world" where
  "ram_world = \<lparr>
     mtdc = \<lparr>mtd_table = [None, None], mtd_objs = [1 \<mapsto> ram_info 16, 2 \<mapsto> ram_info 8, 3 \<mapsto> ram_info 8, 4 \<mapsto> ram_info 16]\<rparr>,
     mem = (\<lambda>_. 0), mtd_partitions = [3],
     part_objs = [3 \<mapsto> \<lparr>pt_master = 1, pt_offset = 4, pt_index = 0, pt_registered = False\<rparr>],
     mtdp_cells = (\<lambda>_. None), flash = (\<lambda>s. replicate (if s = 1 then 16 else 8) 0xFF)\<rparr>"

definition ram_inv :: "(addr \<Rightarrow> u8 list) mtd_world \<Rightarrow> bool" where
  "ram_inv w \<longleftrightarrow> mtdc w = mtdc ram_world \<and> part_objs w = part_objs ram_world \<and>
     mtd_partitions w = mtd_partitions ram_world \<and>
     length (flash w 1) = 16 \<and> length (flash w 2) = 8"

definition ram_content :: "addr \<Rightarrow> (addr \<Rightarrow> u8 list) mtd_world \<Rightarrow> u8 list" where
  "ram_content s w = (if s = 3 then slice (flash w 1) 4 8 else if s = 2 then flash w 2 else [])"

definition ram_rest :: "(addr \<Rightarrow> u8 list) mtd_world \<Rightarrow> u8 list \<times> u8 list" where
  "ram_rest w = (take 4 (flash w 1), drop 12 (flash w 1))"

lemma ram_inv_world: "ram_inv ram_world"
  by (simp add: ram_inv_def ram_world_def)

lemma ram_read_flat:
  "\<forall>w h. I w \<longrightarrow> I (w\<lparr>mem := h\<rparr>) \<and> R (w\<lparr>mem := h\<rparr>) = R w \<and> C (w\<lparr>mem := h\<rparr>) = C w \<and> C w = flash w s \<Longrightarrow>
   flat_read I C R (op_read (ram_ops s))"
  by (simp add: flat_read_def ram_ops_def keeps_def)

lemma ram_write_flat:
  "\<forall>w c. I w \<longrightarrow> length c = length (flash w s) \<longrightarrow> I (w\<lparr>flash := (flash w)(s := c)\<rparr>) \<and>
     R (w\<lparr>flash := (flash w)(s := c)\<rparr>) = R w \<and> C (w\<lparr>flash := (flash w)(s := c)\<rparr>) = c \<and> C w = flash w s \<Longrightarrow>
   flat_write I C R and (op_write (ram_ops s))"
  by (simp add: flat_write_def ram_ops_def keeps_def)

lemma ram_driver_erase:
  assumes "\<forall>w c. I w \<longrightarrow> length c = length (flash w s) \<longrightarrow> I (w\<lparr>flash := (flash w)(s := c)\<rparr>) \<and>
     R (w\<lparr>flash := (flash w)(s := c)\<rparr>) = R w \<and> C (w\<lparr>flash := (flash w)(s := c)\<rparr>) = c \<and> C w = flash w s"
    and "\<forall>w a. I w \<longrightarrow> a \<in> users \<longrightarrow> info w a \<noteq> None"
  shows "driver_erase ram_lib I users C R es (op_erase (ram_ops s))"
  unfolding driver_erase_def
proof (intro allI impI)
  fix w and e :: erase_info
  assume w: "I w" and u: "ei_mtd e \<in> users" and rq: "erase_request es (length (C w)) e"
  define w1 where "w1 = w\<lparr>flash := (flash w)(s := erased (flash w s) e)\<rparr>"
  have l: "length (erased (flash w s) e) = length (flash w s)"
    using assms(1) w rq by (auto simp: erase_request_def)
  from assms(2) w u obtain m where m: "info w (ei_mtd e) = Some m" by blast
  have "\<exists>e'. mtd_erase_callback ram_lib (e\<lparr>ei_state := MTD_ERASE_DONE\<rparr>) w1 = Some (e', w1)"
    using m rq by (auto simp: mtd_erase_callback_def call_callback_def w1_def erase_request_def Let_def
        split: option.split)
  then obtain e' where e': "mtd_erase_callback ram_lib (e\<lparr>ei_state := MTD_ERASE_DONE\<rparr>) w1 = Some (e', w1)" ..
  have "op_erase (ram_ops s) e w = Some (0, e', w1)"
    using e' by (simp add: ram_ops_def w1_def [symmetric])
  moreover have "keeps I C R w (erased (C w) e) (mem w) w1"
    using assms(1) w l by (simp add: keeps_def w1_def)
  ultimately show "\<exists>w' e'. op_erase (ram_ops s) e w = Some (0, e', w') \<and>
      keeps I C R w (erased (C w) e) (mem w) w' \<and>
      mtd_erase_callback ram_lib (e\<lparr>ei_state := MTD_ERASE_DONE\<rparr>) w' = Some (e', w')"
    using e' by blast
qed

text \<open>A device that is not a partition gets its own requests back.\<close>

lemma driver_erase_own:
  assumes "driver_erase lib I users C R es f" and "a \<in> users"
    and "\<forall>w. I w \<longrightarrow> part_objs w a = None"
  shows "flat_erase I a C R es f"
  unfolding flat_erase_def
proof (intro allI impI)
  fix w and e :: erase_info
  assume w: "I w" and e: "ei_mtd e = a" and rq: "erase_request es (length (C w)) e"
  with assms(1,2) obtain w' e' where w': "f e w = Some (0, e', w')" "keeps I C R w (erased (C w) e) (mem w) w'"
    "mtd_erase_callback lib (e\<lparr>ei_state := MTD_ERASE_DONE\<rparr>) w' = Some (e', w')"
    unfolding driver_erase_def by blast
  from w'(2) assms(3) have "part_objs w' a = None" by (simp add: keeps_def)
  with w'(3) e rq have "ei_state e' = MTD_ERASE_DONE \<and> ei_addr e' = ei_addr e"
    by (auto simp: mtd_erase_callback_def call_callback_def erase_request_def split: Option.bind_splits)
  with w' show "\<exists>w' e'. f e w = Some (0, e', w') \<and> ei_state e' = MTD_ERASE_DONE \<and> ei_addr e' = ei_addr e \<and>
      keeps I C R w (erased (C w) e) (mem w) w'" by blast
qed

lemma ram_driver: "flat_driver ram_lib ram_inv {3} (\<lambda>w. flash w 1) (\<lambda>w. flash w 2) and 4 (ram_ops 1)"
  unfolding flat_driver_def
  by (intro conjI ram_read_flat ram_write_flat ram_driver_erase) (simp_all add: ram_inv_def ram_world_def)

lemma ram_slave_state: "slave_state ram_inv (\<lambda>w. flash w 1) 3 1 4 8"
  by (auto simp: slave_state_def ram_inv_def ram_world_def ram_info_def demo_mtd_def MTD_WRITEABLE_def)

definition demo_erase :: "addr \<Rightarrow> u64 \<Rightarrow> u64 \<Rightarrow> erase_info" where
  "demo_erase a pos len = \<lparr>ei_mtd = a, ei_addr = pos, ei_len = len, ei_fail_addr = -1, ei_state = 0, ei_callback = None\<rparr>"

definition ram_zero :: "(addr \<Rightarrow> u8 list) mtd_world" where
  "ram_zero = ram_world\<lparr>flash := (\<lambda>s. replicate (if s = 1 then 16 else 8) 0)\<rparr>"

theorem partition_is_flat_witness:
  "ram_inv ram_world \<and>
   (\<exists>k w'. op_write (slave_ops ram_lib ram_ops (ram_ops 1) 0 3) 6 5 100 ram_world = Some (0, k, w') \<and> unat k = 2 \<and>
      take 4 (flash w' 1) = replicate 4 0xFF \<and> drop 12 (flash w' 1) = replicate 4 0xFF) \<and>
   (\<exists>e' w'. op_erase (slave_ops ram_lib ram_ops (ram_ops 1) 0 3) (demo_erase 3 4 8) ram_zero = Some (0, e', w') \<and>
      flash w' 1 = replicate 8 0 @ replicate 8 0xFF)"
proof -
  let ?w = "ram_world"
  note all = partition_is_flat [where dev = ram_ops and mst = 1 and a = 3 and partno = 0, OF ram_driver ram_slave_state]
  have I: "ram_inv ?w" by (rule ram_inv_world)
  have "clips_write ram_inv (part_content (\<lambda>w. flash w 1) 4 8) (part_rest (\<lambda>w. flash w 1) (\<lambda>w. flash w 2) 4 8) and
      (op_write (slave_ops ram_lib ram_ops (ram_ops 1) 0 3))" using all by simp
  from this [unfolded clips_write_def, rule_format, OF I, of 6 5 100]
  have a: "\<exists>k w'. op_write (slave_ops ram_lib ram_ops (ram_ops 1) 0 3) 6 5 100 ?w = Some (0, k, w') \<and> unat k = 2 \<and>
      take 4 (flash w' 1) = replicate 4 0xFF \<and> drop 12 (flash w' 1) = replicate 4 0xFF"
    by (auto simp: keeps_def ram_world_def)
  have e: "erases_master ram_inv 3 (\<lambda>w. flash w 1) (\<lambda>w. flash w 2) 4 8 4 (op_erase (slave_ops ram_lib ram_ops (ram_ops 1) 0 3))"
    using all by simp
  have z: "ram_inv ram_zero" "flash ram_zero 1 = replicate 16 0" by (simp_all add: ram_inv_def ram_zero_def ram_world_def)
  have "\<exists>e' w'. op_erase (slave_ops ram_lib ram_ops (ram_ops 1) 0 3) (demo_erase 3 4 8) ram_zero = Some (0, e', w') \<and>
      flash w' 1 = replicate 8 0 @ replicate 8 0xFF"
    using e [unfolded erases_master_def, rule_format, OF z(1), of "demo_erase 3 4 8"]
    by (auto simp: demo_erase_def erase_request_def keeps_def z(2) [unfolded One_nat_def] put_at_def)
  with a I show ?thesis by blast
qed

lemma flat_dev_mono:
  assumes "flat_dev I a C R pg es ops" and "\<forall>w w'. R w' = R w \<longrightarrow> R' w' = R' w"
  shows "flat_dev I a C R' pg es ops"
proof -
  have k: "keeps I C R w c h w' \<Longrightarrow> keeps I C R' w c h w'" for w c h w'
    using assms(2) unfolding keeps_def by blast
  show ?thesis
    using assms(1) unfolding flat_dev_def flat_read_def flat_write_def flat_erase_def by (blast intro: k)
qed

lemma flat_dev_content: "flat_dev I a C R pg es ops \<Longrightarrow> \<forall>w. C' w = C w \<Longrightarrow> flat_dev I a C' R pg es ops"
  unfolding flat_dev_def flat_read_def flat_write_def flat_erase_def keeps_def by presburger

lemma ram_slave:
  "flat_dev ram_inv 3 (ram_content 3) (others ram_content ram_rest 3) and 4 (ram_dev 3)"
proof -
  have "flat_dev ram_inv 3 (part_content (\<lambda>w. flash w 1) 4 8)
     (part_rest (\<lambda>w. flash w 1) (\<lambda>w. flash w 2) 4 8) and 4 (ram_dev 3)"
    using slave_flat [where dev = ram_ops and mst = 1 and a = 3 and partno = 0, OF ram_driver ram_slave_state]
    by (simp add: ram_dev_def)
  then have "flat_dev ram_inv 3 (part_content (\<lambda>w. flash w 1) 4 8) (others ram_content ram_rest 3) and 4 (ram_dev 3)"
    by (rule flat_dev_mono) (intro allI impI, simp add: others_def ram_rest_def ram_content_def fun_eq_iff)
  then show ?thesis by (rule flat_dev_content) (simp add: ram_content_def)
qed

lemma ram_chip:
  "flat_dev ram_inv 2 (ram_content 2) (others ram_content ram_rest 2) and 4 (ram_dev 2)"
proof -
  have "flat_read ram_inv (ram_content 2) (others ram_content ram_rest 2) (op_read (ram_ops 2))"
    by (rule ram_read_flat) (simp add: ram_inv_def ram_content_def others_def ram_rest_def fun_eq_iff)
  moreover have upd: "\<forall>w c. ram_inv w \<longrightarrow> length c = length (flash w 2) \<longrightarrow> ram_inv (w\<lparr>flash := (flash w)(2 := c)\<rparr>) \<and>
     others ram_content ram_rest 2 (w\<lparr>flash := (flash w)(2 := c)\<rparr>) = others ram_content ram_rest 2 w \<and>
     ram_content 2 (w\<lparr>flash := (flash w)(2 := c)\<rparr>) = c \<and> ram_content 2 w = flash w 2"
    by (simp add: ram_inv_def ram_content_def others_def ram_rest_def fun_eq_iff)
  then have "flat_write ram_inv (ram_content 2) (others ram_content ram_rest 2) and (op_write (ram_ops 2))"
    by (rule ram_write_flat)
  moreover from upd have "driver_erase ram_lib ram_inv {2} (ram_content 2) (others ram_content ram_rest 2) 4
      (op_erase (ram_ops 2))"
    by (rule ram_driver_erase) (simp add: ram_inv_def ram_world_def)
  then have "flat_erase ram_inv 2 (ram_content 2) (others ram_content ram_rest 2) 4 (op_erase (ram_ops 2))"
    by (rule driver_erase_own) (simp_all add: ram_inv_def ram_world_def)
  ultimately show ?thesis by (simp add: flat_dev_def ram_dev_def)
qed

lemma ram_subdevs:
  "\<forall>s\<in>set [3, 2]. flat_dev ram_inv s (ram_content s) (others ram_content ram_rest s) and 4 (ram_dev s)"
  by (simp add: ram_slave ram_chip)

lemma ram_states:
  "subs_state ram_inv ram_content [3, 2]" "concat_state ram_lib ram_inv ram_content 4 [3, 2] 4"
  by (auto simp: subs_state_def concat_state_def ram_inv_def ram_world_def ram_info_def demo_mtd_def ram_lib_def
      MTD_WRITEABLE_def ram_content_def slice_eq_Nil find_None_iff)

theorem concat_is_flat_witness:
  "ram_inv ram_world \<and>
   flat_dev ram_inv 4 (cat ram_content [3, 2]) ram_rest and 4 (concat_ops ram_lib ram_dev (ram_dev 3) 4 [3, 2])"
  using concat_is_flat [OF ram_subdevs ram_states, of 2 "ram_dev 3"] ram_inv_world by simp

end
