(* ===== verification/MtdSlaveLaws.thy ===== *)
theory MtdSlaveLaws
  imports MtdConcatFlat
begin

text \<open>
  Laws of the functions that create and destroy partitions (\<open>mtdpart.c\<close>), together with the registry
  of devices (\<open>mtdcore.c\<close>).
\<close>

section \<open>Destroying partitions\<close>

definition slave_of :: "addr \<Rightarrow> 'f mtd_world \<Rightarrow> addr \<Rightarrow> bool" where
  "slave_of master w a \<longleftrightarrow> (\<exists>p. part_objs w a = Some p \<and> pt_master p = master)"

text \<open>A slave that \<open>del_mtd_partitions\<close> takes out of the registry.\<close>

definition unused_slave :: "'f mtd_world \<Rightarrow> addr \<Rightarrow> bool" where
  "unused_slave w a \<longleftrightarrow> (\<exists>p m. part_objs w a = Some p \<and> pt_registered p \<and> info w a = Some m \<and> usecount m = 0)"

definition live_slave :: "'f mtd_world \<Rightarrow> addr \<Rightarrow> bool" where
  "live_slave w a \<longleftrightarrow> (\<exists>p m. part_objs w a = Some p \<and> info w a = Some m \<and>
     mtd_index m < length (mtd_table (mtdc w)) \<and>
     (\<forall>i < length (mtd_table (mtdc w)). mtd_table (mtdc w) ! i = Some a \<longrightarrow> i = mtd_index m))"

lemma del_mtd_device_slave:
  assumes "live_slave w a"
  obtains rc t where "del_mtd_device (mtdc w) a = Some (rc, (mtdc w)\<lparr>mtd_table := t\<rparr>)"
    "length t = length (mtd_table (mtdc w))" "\<forall>i b. i < length t \<longrightarrow> t ! i = Some b \<longrightarrow> mtd_table (mtdc w) ! i = Some b"
    "\<forall>b. Some b \<in> set t \<longleftrightarrow> Some b \<in> set (mtd_table (mtdc w)) \<and> (b = a \<longrightarrow> usecount (the (info w a)) \<noteq> 0)"
proof -
  obtain m where m: "info w a = Some m" "mtd_index m < length (mtd_table (mtdc w))"
    "\<And>i. i < length (mtd_table (mtdc w)) \<Longrightarrow> mtd_table (mtdc w) ! i = Some a \<Longrightarrow> i = mtd_index m"
    using assms by (auto simp: live_slave_def)
  let ?t = "mtd_table (mtdc w)"
  consider (no) "?t ! mtd_index m \<noteq> Some a" | (busy) "?t ! mtd_index m = Some a" "usecount m \<noteq> 0"
    | (del) "?t ! mtd_index m = Some a" "usecount m = 0" by blast
  then show ?thesis
  proof cases
    case no
    then have "Some a \<notin> set ?t" using m(3) by (metis in_set_conv_nth)
    moreover have "del_mtd_device (mtdc w) a = Some (ENODEV, mtdc w)"
      using no m(1,2) by (simp add: del_mtd_device_def)
    ultimately show ?thesis by (intro that [of ENODEV ?t]) auto
  next
    case busy
    then have "del_mtd_device (mtdc w) a = Some (EBUSY, mtdc w)"
      using m(1,2) by (simp add: del_mtd_device_def)
    then show ?thesis using busy(2) m(1) by (intro that [of EBUSY ?t]) auto
  next
    case del
    let ?u = "?t[mtd_index m := None]"
    have nth: "?u ! i = Some b \<longleftrightarrow> i \<noteq> mtd_index m \<and> ?t ! i = Some b" if "i < length ?t" for i b
      using that by (cases "i = mtd_index m") simp_all
    have "Some b \<in> set ?u \<longleftrightarrow> Some b \<in> set ?t \<and> b \<noteq> a" for b
    proof -
      have "Some b \<in> set ?u \<longleftrightarrow> (\<exists>i < length ?t. i \<noteq> mtd_index m \<and> ?t ! i = Some b)"
        by (auto simp: in_set_conv_nth nth)
      also have "\<dots> \<longleftrightarrow> Some b \<in> set ?t \<and> b \<noteq> a"
        using m(3) del(1) by (auto simp: in_set_conv_nth)
      finally show ?thesis .
    qed
    moreover have "del_mtd_device (mtdc w) a = Some (0, (mtdc w)\<lparr>mtd_table := ?u\<rparr>)"
      using del m(1,2) by (simp add: del_mtd_device_def)
    moreover have "\<forall>i b. i < length ?u \<longrightarrow> ?u ! i = Some b \<longrightarrow> ?t ! i = Some b" using nth by simp
    ultimately show ?thesis using del(2) m(1) by (intro that [of 0 ?u]) auto
  qed
qed

lemma del_slaves_spec:
  assumes "\<forall>a\<in>set l. live_slave w a" and "distinct l" and "distinct (mtd_partitions w)"
  shows "\<exists>w'. del_slaves l master w = Some w' \<and>
    mtd_partitions w' = filter (\<lambda>a. \<not> (a \<in> set l \<and> slave_of master w a)) (mtd_partitions w) \<and>
    (\<forall>a. info w' a = (if a \<in> set l \<and> slave_of master w a then None else info w a)) \<and>
    (\<forall>a. part_objs w' a = (if a \<in> set l \<and> slave_of master w a then None else part_objs w a)) \<and>
    (\<forall>a. Some a \<in> set (mtd_table (mtdc w')) \<longleftrightarrow> Some a \<in> set (mtd_table (mtdc w)) \<and>
       \<not> (a \<in> set l \<and> slave_of master w a \<and> unused_slave w a)) \<and>
    length (mtd_table (mtdc w')) = length (mtd_table (mtdc w)) \<and>
    (\<forall>i b. i < length (mtd_table (mtdc w)) \<longrightarrow> mtd_table (mtdc w') ! i = Some b \<longrightarrow> mtd_table (mtdc w) ! i = Some b)"
  using assms
proof (induction l arbitrary: w)
  case (Cons a l)
  from Cons.prems obtain p m where pm: "part_objs w a = Some p" "info w a = Some m"
    by (auto simp: live_slave_def)
  show ?case
  proof (cases "pt_master p = master")
    case False
    then have "\<not> slave_of master w a" using pm by (simp add: slave_of_def)
    moreover have "del_slaves (a # l) master w = del_slaves l master w" using pm False by simp
    moreover from Cons.IH [of w] Cons.prems obtain w' where "del_slaves l master w = Some w'" and
      "mtd_partitions w' = filter (\<lambda>a. \<not> (a \<in> set l \<and> slave_of master w a)) (mtd_partitions w)"
      "\<forall>a. info w' a = (if a \<in> set l \<and> slave_of master w a then None else info w a)"
      "\<forall>a. part_objs w' a = (if a \<in> set l \<and> slave_of master w a then None else part_objs w a)"
      "\<forall>a. Some a \<in> set (mtd_table (mtdc w')) \<longleftrightarrow> Some a \<in> set (mtd_table (mtdc w)) \<and>
         \<not> (a \<in> set l \<and> slave_of master w a \<and> unused_slave w a)"
      "length (mtd_table (mtdc w')) = length (mtd_table (mtdc w))"
      "\<forall>i b. i < length (mtd_table (mtdc w)) \<longrightarrow> mtd_table (mtdc w') ! i = Some b \<longrightarrow> mtd_table (mtdc w) ! i = Some b"
      by auto
    ultimately show ?thesis by (intro exI [of _ w']) (auto intro!: filter_cong)
  next
    case True
    have "live_slave w a" using Cons.prems(1) by simp
    then obtain rc t where del: "del_mtd_device (mtdc w) a = Some (rc, (mtdc w)\<lparr>mtd_table := t\<rparr>)" and
      t: "length t = length (mtd_table (mtdc w))" "\<forall>i b. i < length t \<longrightarrow> t ! i = Some b \<longrightarrow> mtd_table (mtdc w) ! i = Some b"
        "\<forall>b. Some b \<in> set t \<longleftrightarrow> Some b \<in> set (mtd_table (mtdc w)) \<and> (b = a \<longrightarrow> usecount (the (info w a)) \<noteq> 0)"
      by (rule del_mtd_device_slave)
    define t' where "t' = (if pt_registered p then t else mtd_table (mtdc w))"
    define w1 where "w1 = w\<lparr>mtd_partitions := remove1 a (mtd_partitions w),
      mtdc := (mtdc w)\<lparr>mtd_table := t', mtd_objs := (mtd_objs (mtdc w))(a := None)\<rparr>,
      part_objs := (part_objs w)(a := None)\<rparr>"
    have t': "length t' = length (mtd_table (mtdc w))"
      "\<forall>i b. i < length t' \<longrightarrow> t' ! i = Some b \<longrightarrow> mtd_table (mtdc w) ! i = Some b"
      "\<forall>b. Some b \<in> set t' \<longleftrightarrow> Some b \<in> set (mtd_table (mtdc w)) \<and> (b = a \<longrightarrow> \<not> unused_slave w a)"
      using t pm by (auto simp: t'_def unused_slave_def)
    have step: "del_slaves (a # l) master w = del_slaves l master w1"
      using pm True del by (simp add: kfree_slave_def w1_def t'_def Let_def)
    have al: "a \<notin> set l" using Cons.prems(2) by simp
    have same: "slave_of master w1 b = slave_of master w b" "unused_slave w1 b = unused_slave w b" if "b \<noteq> a" for b
      using that by (simp_all add: slave_of_def unused_slave_def w1_def)
    have "\<forall>b\<in>set l. live_slave w1 b"
    proof
      fix b assume b: "b \<in> set l"
      with Cons.prems(1) have "live_slave w b" by simp
      then show "live_slave w1 b" using b al t'(1,2) by (auto simp: live_slave_def w1_def)
    qed
    moreover have "distinct l" "distinct (mtd_partitions w1)" using Cons.prems(2,3) by (simp_all add: w1_def)
    ultimately obtain w' where w': "del_slaves l master w1 = Some w'"
      "mtd_partitions w' = filter (\<lambda>a. \<not> (a \<in> set l \<and> slave_of master w1 a)) (mtd_partitions w1)"
      "\<forall>a. info w' a = (if a \<in> set l \<and> slave_of master w1 a then None else info w1 a)"
      "\<forall>a. part_objs w' a = (if a \<in> set l \<and> slave_of master w1 a then None else part_objs w1 a)"
      "\<forall>a. Some a \<in> set (mtd_table (mtdc w')) \<longleftrightarrow> Some a \<in> set (mtd_table (mtdc w1)) \<and>
         \<not> (a \<in> set l \<and> slave_of master w1 a \<and> unused_slave w1 a)"
      "length (mtd_table (mtdc w')) = length (mtd_table (mtdc w1))"
      "\<forall>i b. i < length (mtd_table (mtdc w1)) \<longrightarrow> mtd_table (mtdc w') ! i = Some b \<longrightarrow> mtd_table (mtdc w1) ! i = Some b"
      using Cons.IH [of w1] by blast
    have sa: "slave_of master w a" using pm True by (simp add: slave_of_def)
    have lst: "mtd_partitions w1 = filter (\<lambda>b. b \<noteq> a) (mtd_partitions w)"
      using Cons.prems(3) by (simp add: w1_def distinct_remove1_removeAll removeAll_filter_not_eq eq_commute)
    show ?thesis
    proof (intro exI [of _ w'] conjI allI)
      show "del_slaves (a # l) master w = Some w'" using step w'(1) by simp
      show "mtd_partitions w' = filter (\<lambda>b. \<not> (b \<in> set (a # l) \<and> slave_of master w b)) (mtd_partitions w)"
        unfolding w'(2) lst filter_filter using sa same(1) al
        by (intro filter_cong refl) (metis list.set_intros(1,2) set_ConsD)
      fix b
      show "info w' b = (if b \<in> set (a # l) \<and> slave_of master w b then None else info w b)"
        using w'(3) sa same al by (cases "b = a") (auto simp: w1_def)
      show "part_objs w' b = (if b \<in> set (a # l) \<and> slave_of master w b then None else part_objs w b)"
        using w'(4) sa same al by (cases "b = a") (auto simp: w1_def)
      show "(Some b \<in> set (mtd_table (mtdc w'))) = (Some b \<in> set (mtd_table (mtdc w)) \<and>
          \<not> (b \<in> set (a # l) \<and> slave_of master w b \<and> unused_slave w b))"
        using w'(5) t'(3) sa same [of b] al by (cases "b = a") (auto simp: w1_def)
    next
      show "length (mtd_table (mtdc w')) = length (mtd_table (mtdc w))" using w'(6) t'(1) by (simp add: w1_def)
    next
      fix i b
      show "i < length (mtd_table (mtdc w)) \<longrightarrow> mtd_table (mtdc w') ! i = Some b \<longrightarrow> mtd_table (mtdc w) ! i = Some b"
        using w'(7) t'(1,2) by (simp add: w1_def)
    qed
  qed
qed simp

section \<open>Creating partitions\<close>

text \<open>A slave lies inside its master, and when it can be written, it starts and ends on an erase block.\<close>

definition slave_fits :: "mtd_info \<Rightarrow> 'f mtd_world \<Rightarrow> addr \<Rightarrow> bool" where
  "slave_fits mm w a \<longleftrightarrow> (\<exists>p m. part_objs w a = Some p \<and> info w a = Some m \<and>
     unat (pt_offset p) + unat (mtd_size m) \<le> unat (mtd_size mm) \<and>
     (writeable m \<longrightarrow> unat (erasesize m) dvd unat (pt_offset p) \<and> unat (erasesize m) dvd unat (mtd_size m)))"

text \<open>What the master and its surroundings must provide: fresh memory from the allocator, a test for
  bad blocks that returns and touches no device object, and usable erase sizes.\<close>

definition fresh_alloc :: "'f mtd_lib \<Rightarrow> bool" where
  "fresh_alloc lib \<longleftrightarrow> (\<forall>w a. kzalloc lib w = Some a \<longrightarrow>
     info w a = None \<and> part_objs w a = None \<and> a \<notin> set (mtd_partitions w) \<and> Some a \<notin> set (mtd_table (mtdc w)))"

definition isbad_ok :: "'f block_fn \<Rightarrow> bool" where
  "isbad_ok f \<longleftrightarrow> (\<forall>ofs w. \<exists>r w'. f ofs w = Some (r, w') \<and> mtdc w' = mtdc w \<and> part_objs w' = part_objs w \<and>
     mtd_partitions w' = mtd_partitions w)"

definition master_ok :: "'f mtd_lib \<Rightarrow> 'f mtd_ops \<Rightarrow> mtd_info \<Rightarrow> bool" where
  "master_ok lib ops mm \<longleftrightarrow> div_fns_ok lib \<and> fresh_alloc lib \<and>
     (\<forall>f. op_block_isbad ops = Some f \<longrightarrow> isbad_ok f) \<and>
     unat (mtd_size mm) + 2 ^ 32 \<le> 2 ^ 64 \<and> erasesize mm \<noteq> 0 \<and> writesize mm \<noteq> 0 \<and>
     (1 < numeraseregions mm \<longrightarrow> er_offset (hd (eraseregions mm)) = 0 \<and> (\<forall>r\<in>set (eraseregions mm). er_erasesize r \<noteq> 0))"

definition parts_inv :: "addr \<Rightarrow> mtd_info \<Rightarrow> 'f mtd_world \<Rightarrow> bool" where
  "parts_inv master mm w \<longleftrightarrow> info w master = Some mm \<and> master \<notin> set (mtd_partitions w) \<and>
     distinct (mtd_partitions w) \<and> mtd_table (mtdc w) \<noteq> [] \<and>
     (\<forall>a\<in>set (mtd_partitions w). live_slave w a) \<and>
     (\<forall>a\<in>set (mtd_partitions w). slave_of master w a \<longrightarrow> slave_fits mm w a)"

text \<open>The two worlds differ at most in one object's count of bad blocks (and in what drivers keep).\<close>

definition bad_counted :: "addr \<Rightarrow> 'f mtd_world \<Rightarrow> 'f mtd_world \<Rightarrow> bool" where
  "bad_counted a w w' \<longleftrightarrow> part_objs w' = part_objs w \<and> mtd_partitions w' = mtd_partitions w \<and>
     mtd_table (mtdc w') = mtd_table (mtdc w) \<and> (\<forall>b. b \<noteq> a \<longrightarrow> info w' b = info w b) \<and>
     (\<exists>m n. info w a = Some m \<and> info w' a = Some (m\<lparr>ecc_badblocks := n\<rparr>))"

lemma bad_counted_trans: "bad_counted a w w1 \<Longrightarrow> bad_counted a w1 w2 \<Longrightarrow> bad_counted a w w2"
  by (auto simp: bad_counted_def)

lemma count_badblocks_returns:
  assumes "isbad_ok f" and "info w a = Some m" and "0 < unat (erasesize m)"
    and "unat (mtd_size m) + 2 ^ 32 \<le> 2 ^ 64"
  shows "\<exists>w'. count_badblocks f a offset offs w = Some w' \<and> bad_counted a w w'"
  using assms(2-4)
proof (induction "unat (mtd_size m) - unat offs" arbitrary: offs w m rule: less_induct)
  case less
  show ?case
  proof (cases "offs < mtd_size m")
    case False
    with less.prems(1) have "count_badblocks f a offset offs w = Some w"
      by (subst count_badblocks.simps) simp
    moreover have "bad_counted a w w"
      using less.prems(1) by (auto simp: bad_counted_def intro: exI [of _ "ecc_badblocks m"])
    ultimately show ?thesis by blast
  next
    case True
    from assms(1) obtain r w1 where w1: "f (offs + offset) w = Some (r, w1)" "mtdc w1 = mtdc w"
      "part_objs w1 = part_objs w" "mtd_partitions w1 = mtd_partitions w" unfolding isbad_ok_def by blast
    define m' where "m' = (if r \<noteq> 0 then m\<lparr>ecc_badblocks := ecc_badblocks m + 1\<rparr> else m)"
    define w2 where "w2 = (if r \<noteq> 0 then set_info a m' w1 else w1)"
    have i2: "info w2 a = Some m'" using less.prems(1) w1(2) by (simp add: w2_def m'_def)
    have b2: "bad_counted a w w2"
      using less.prems(1) w1 by (auto simp: bad_counted_def w2_def m'_def intro: exI [of _ "ecc_badblocks m"])
    have lt: "unat offs < unat (mtd_size m)" using True by (simp add: word_less_nat_alt)
    have u: "unat (offs + ucast (erasesize m)) = unat offs + unat (erasesize m)"
      using lt less.prems(3) u32_lt [of "erasesize m"] by (intro unat_add_len) simp
    have "count_badblocks f a offset offs w = count_badblocks f a offset (offs + ucast (erasesize m)) w2"
      using True less.prems(1) w1
      by (subst count_badblocks.simps) (simp add: w2_def m'_def)
    moreover have "\<exists>w'. count_badblocks f a offset (offs + ucast (erasesize m)) w2 = Some w' \<and> bad_counted a w2 w'"
      using u lt less.prems by (intro less.hyps [OF _ i2]) (auto simp: m'_def)
    ultimately show ?thesis using bad_counted_trans [OF b2] by auto
  qed
qed

lemma slave_register_ok:
  assumes a: "info w a = Some m" "writesize m \<noteq> 0" "mtd_index m = 0" "part_objs w a = Some p"
    and t: "mtd_table (mtdc w) \<noteq> []" "Some a \<notin> set (mtd_table (mtdc w))"
    and l: "\<forall>b\<in>L. live_slave w b" "a \<notin> L"
  shows "\<exists>w' i u r. slave_register part a w = Some w' \<and> mtd_partitions w' = mtd_partitions w \<and>
    mtd_table (mtdc w') \<noteq> [] \<and> (\<forall>b\<in>insert a L. live_slave w' b) \<and>
    (\<forall>b. b \<noteq> a \<longrightarrow> info w' b = info w b \<and> part_objs w' b = part_objs w b) \<and>
    info w' a = Some (m\<lparr>mtd_index := i, usecount := u\<rparr>) \<and> part_objs w' a = Some (p\<lparr>pt_registered := r\<rparr>)"
proof (cases "mp_mtdp part")
  case (Some cell)
  define w' where "w' = w\<lparr>mtdp_cells := (mtdp_cells w)(cell \<mapsto> a),
     part_objs := (part_objs w)(a \<mapsto> p\<lparr>pt_registered := False\<rparr>)\<rparr>"
  have "slave_register part a w = Some w'" using a Some by (simp add: slave_register_def w'_def)
  moreover have "live_slave w' b" if "b \<in> insert a L" for b
    using that l a t by (auto simp: live_slave_def w'_def dest: nth_mem)
  moreover have "info w' a = Some (m\<lparr>mtd_index := mtd_index m, usecount := usecount m\<rparr>)"
    "part_objs w' a = Some (p\<lparr>pt_registered := False\<rparr>)" "mtd_partitions w' = mtd_partitions w"
    "mtd_table (mtdc w') \<noteq> []" "\<forall>b. b \<noteq> a \<longrightarrow> info w' b = info w b \<and> part_objs w' b = part_objs w b"
    using a t(1) by (simp_all add: w'_def)
  ultimately show ?thesis by blast
next
  case None
  show ?thesis
  proof (cases "free_slot (mtd_table (mtdc w)) 0")
    case no: None
    define w' where "w' = w\<lparr>part_objs := (part_objs w)(a \<mapsto> p\<lparr>pt_registered := True\<rparr>)\<rparr>"
    have "slave_register part a w = Some w'" using a None no
      by (simp add: slave_register_def w'_def add_mtd_device_def)
    moreover have "live_slave w' b" if "b \<in> insert a L" for b
      using that l a t by (auto simp: live_slave_def w'_def dest: nth_mem)
    moreover have "info w' a = Some (m\<lparr>mtd_index := mtd_index m, usecount := usecount m\<rparr>)"
      "part_objs w' a = Some (p\<lparr>pt_registered := True\<rparr>)" "mtd_partitions w' = mtd_partitions w"
      "mtd_table (mtdc w') \<noteq> []" "\<forall>b. b \<noteq> a \<longrightarrow> info w' b = info w b \<and> part_objs w' b = part_objs w b"
      using a t(1) by (simp_all add: w'_def)
    ultimately show ?thesis by blast
  next
    case (Some j)
    from free_slot_Some [OF Some] have j: "j < length (mtd_table (mtdc w))" by simp
    define m' where "m' = m\<lparr>mtd_index := j, usecount := 0\<rparr>"
    define w' where "w' = w\<lparr>mtdc := mtd_set ((mtdc w)\<lparr>mtd_table := (mtd_table (mtdc w))[j := Some a]\<rparr>) a m',
      part_objs := (part_objs w)(a \<mapsto> p\<lparr>pt_registered := True\<rparr>)\<rparr>"
    have "slave_register part a w = Some w'" using a None Some
      by (simp add: slave_register_def w'_def add_mtd_device_def m'_def)
    moreover have "live_slave w' b" if b: "b \<in> insert a L" for b
    proof (cases "b = a")
      case True
      have "mtd_table (mtdc w) ! i \<noteq> Some a" if "i < length (mtd_table (mtdc w))" for i
        using that t(2) by (metis nth_mem)
      with True j show ?thesis
        by (auto simp: live_slave_def w'_def mtd_set_def m'_def nth_list_update split: if_splits)
    next
      case False
      with b l have "live_slave w b" by simp
      moreover have "mtd_table (mtdc w) ! i = Some b"
        if "(mtd_table (mtdc w))[j := Some a] ! i = Some b" "i < length (mtd_table (mtdc w))" for i
        using that False by (cases "i = j") auto
      ultimately show ?thesis using False
        by (auto simp: live_slave_def w'_def mtd_set_def)
    qed
    moreover have "info w' a = Some (m\<lparr>mtd_index := j, usecount := 0\<rparr>)"
      "part_objs w' a = Some (p\<lparr>pt_registered := True\<rparr>)" "mtd_partitions w' = mtd_partitions w"
      "mtd_table (mtdc w') \<noteq> []" "\<forall>b. b \<noteq> a \<longrightarrow> info w' b = info w b \<and> part_objs w' b = part_objs w b"
      using t(1) by (simp_all add: w'_def mtd_set_def m'_def)
    ultimately show ?thesis by blast
  qed
qed

lemma biggest_erasesize_ge: "e \<le> biggest_erasesize rs fin e"
  by (induction rs fin e rule: biggest_erasesize.induct) (auto intro: order_trans less_imp_le)

lemma first_region_nth: "first_region rs ofs = Suc i \<Longrightarrow> i < length rs \<and> er_offset (rs ! i) \<le> ofs"
proof (induction rs arbitrary: i)
  case (Cons r rs)
  then show ?case by (cases i) (auto split: if_splits)
qed simp

lemma slave_erasesize_ok:
  assumes ok: "master_ok lib ops mm" and sz: "0 < unat sz" "unat offset + unat sz \<le> unat (mtd_size mm)"
  shows "\<exists>e. slave_erasesize mm offset sz = Some e \<and> e \<noteq> 0"
proof (cases "1 < numeraseregions mm")
  case False
  with ok show ?thesis by (simp add: slave_erasesize_def master_ok_def)
next
  case True
  with ok have hd0: "er_offset (hd (eraseregions mm)) = 0" and nz: "\<forall>r\<in>set (eraseregions mm). er_erasesize r \<noteq> 0"
    by (simp_all add: master_ok_def)
  obtain r rs where rs: "eraseregions mm = r # rs" using True by (cases "eraseregions mm") auto
  then obtain i where i: "first_region (eraseregions mm) offset = Suc i" using hd0 by simp
  from first_region_nth [OF i] have n: "i < numeraseregions mm" "er_offset (eraseregions mm ! i) \<le> offset" by auto
  have "unat (offset + sz) = unat offset + unat sz"
    using sz(2) u64_lt [of "mtd_size mm"] by (intro unat_add_64) simp
  then have lt: "er_offset (eraseregions mm ! i) < offset + sz"
    using n(2) sz(1) by (simp add: word_le_nat_alt word_less_nat_alt)
  have "er_erasesize (eraseregions mm ! i) \<noteq> 0" using nz n(1) by simp
  then have "0 < er_erasesize (eraseregions mm ! i)" by (simp add: word_gt_0)
  from this and biggest_erasesize_ge
  have "0 < biggest_erasesize (drop (Suc i) (eraseregions mm)) (offset + sz) (er_erasesize (eraseregions mm ! i))"
    by (rule order.strict_trans2)
  then have "biggest_erasesize (drop i (eraseregions mm)) (offset + sz) 0 \<noteq> 0"
    using n(1) lt \<open>0 < er_erasesize (eraseregions mm ! i)\<close>
    by (subst Cons_nth_drop_Suc [symmetric]) auto
  with True i show ?thesis by (simp add: slave_erasesize_def Let_def)
qed

lemma unat_mod_0:
  assumes "e \<noteq> (0 :: u32)" and "ucast ((n :: u64) mod ucast e) = (0 :: u32)"
  shows "unat e dvd unat n"
proof -
  have "unat (n mod ucast e) = unat n mod unat e" by (simp add: unat_mod_distrib unat_ucast_up)
  moreover from this have "unat (n mod ucast e) < 2 ^ 32"
    using assms(1) u32_lt [of e] by (metis mod_less_divisor order.strict_trans unsigned_0 word_gt_0 word_less_nat_alt)
  then have "unat (n mod ucast e) = 0" using assms(2) unat_ucast_down by (metis unsigned_0)
  ultimately show ?thesis by (simp add: dvd_eq_mod_eq_0)
qed

lemma not_writeable_cleared [simp]: "and (and f (NOT MTD_WRITEABLE)) MTD_WRITEABLE = 0"
  by (simp add: and.assoc)

lemma slave_readonly_ok:
  assumes "div_fns_ok lib" and "erasesize mtd \<noteq> 0"
  shows "\<exists>fl. slave_readonly lib mtd offset = Some (mtd\<lparr>mtd_flags := fl\<rparr>) \<and>
    (fl = mtd_flags mtd \<or> fl = and (mtd_flags mtd) (NOT MTD_WRITEABLE)) \<and>
    (and fl MTD_WRITEABLE \<noteq> 0 \<longrightarrow> unat (erasesize mtd) dvd unat offset \<and> unat (erasesize mtd) dvd unat (mtd_size mtd))"
proof -
  have md: "mtd_mod_by_eb lib n m = (if erasesize m = 0 then None else Some (ucast (n mod ucast (erasesize m))))" for n m
    using assms(1) by (simp add: div_fns_ok_def)
  show ?thesis
  proof (cases "writeable mtd \<and> ucast (offset mod ucast (erasesize mtd)) = (0 :: u32) \<and>
      ucast (mtd_size mtd mod ucast (erasesize mtd)) = (0 :: u32)")
    case True
    then have "slave_readonly lib mtd offset = Some (mtd\<lparr>mtd_flags := mtd_flags mtd\<rparr>)"
      using assms(2) by (simp add: slave_readonly_def md)
    with True unat_mod_0 [OF assms(2)] show ?thesis by blast
  next
    case False
    then have "\<exists>fl. slave_readonly lib mtd offset = Some (mtd\<lparr>mtd_flags := fl\<rparr>) \<and>
        (fl = mtd_flags mtd \<or> fl = and (mtd_flags mtd) (NOT MTD_WRITEABLE)) \<and> and fl MTD_WRITEABLE = 0"
      using assms(2)
      by (cases "writeable mtd")
        (auto simp: slave_readonly_def md Let_def intro: exI [of _ "mtd_flags mtd"]
          exI [of _ "and (mtd_flags mtd) (NOT MTD_WRITEABLE)"])
    then show ?thesis by blast
  qed
qed

lemma slave_offset_ok: "master_ok lib ops mm \<Longrightarrow> \<exists>ofs. slave_offset lib mm part cur = Some ofs"
  by (simp add: slave_offset_def master_ok_def div_fns_ok_def Let_def)

text \<open>The place that an entry of the table asks for, on a master of \<open>M\<close> bytes with blocks of \<open>es\<close> bytes, when
  the entry before it ends at \<open>cur\<close>: its own offset, the end of that entry, or the next block from there on (a product
  of 32-bit numbers).  An entry that starts behind the master becomes empty at offset 0, one that
  does not fit, or whose size is left open, ends with the master.\<close>

definition wanted_offset :: "nat \<Rightarrow> nat \<Rightarrow> mtd_partition \<Rightarrow> nat" where
  "wanted_offset es cur part =
     (if mp_offset part = MTDPART_OFS_APPEND then cur
      else if mp_offset part = MTDPART_OFS_NXTBLK then if es dvd cur then cur else (cur div es + 1) * es mod 2 ^ 32
      else unat (mp_offset part))"

definition slot :: "nat \<Rightarrow> nat \<Rightarrow> nat \<Rightarrow> mtd_partition \<Rightarrow> nat \<times> nat" where
  "slot es M cur part =
     (let ofs = wanted_offset es cur part in
      if M \<le> ofs then (0, 0)
      else (ofs, if mp_size part = MTDPART_SIZ_FULL then M - ofs else min (unat (mp_size part)) (M - ofs)))"

fun slots :: "nat \<Rightarrow> nat \<Rightarrow> nat \<Rightarrow> mtd_partition list \<Rightarrow> (nat \<times> nat) list" where
  "slots es M cur [] = []"
| "slots es M cur (part # parts) = (let (ofs, sz) = slot es M cur part in (ofs, sz) # slots es M (ofs + sz) parts)"

lemma length_slots [simp]: "length (slots es M cur parts) = length parts"
  by (induction es M cur parts rule: slots.induct) (auto simp: Let_def split: prod.splits)

lemma slot_inside: "slot es M cur part = (ofs, sz) \<Longrightarrow> ofs + sz \<le> M"
  by (auto simp: slot_def Let_def split: if_splits)

lemma unat_ucast_mod: "unat (ucast (x :: u64) :: u32) = unat x mod 2 ^ 32"
  by (simp add: unsigned_ucast_eq take_bit_eq_mod)

lemma slave_offset_wanted:
  assumes ok: "master_ok lib ops mm" and cur: "unat cur \<le> unat (mtd_size mm)"
    and ofs: "slave_offset lib mm part cur = Some ofs"
  shows "unat ofs = wanted_offset (unat (erasesize mm)) (unat cur) part"
proof -
  have dv: "div_fns_ok lib" and e: "erasesize mm \<noteq> 0" and big: "unat (mtd_size mm) + 2 ^ 32 \<le> 2 ^ 64"
    using ok by (simp_all add: master_ok_def)
  have fns: "mtd_mod_by_eb lib n mm = Some (ucast (n mod ucast (erasesize mm)))"
    "mtd_div_by_eb lib n mm = Some (ucast (n div ucast (erasesize mm)))" for n
    using dv e by (simp_all add: div_fns_ok_def)
  have nc: "cur \<noteq> MTDPART_OFS_NXTBLK"
  proof
    assume "cur = MTDPART_OFS_NXTBLK"
    then have "unat cur = 2 ^ 64 - 2" by (simp add: MTDPART_OFS_NXTBLK_def)
    then show False using cur big by simp
  qed
  have na: "MTDPART_OFS_NXTBLK \<noteq> MTDPART_OFS_APPEND" by (simp add: MTDPART_OFS_NXTBLK_def MTDPART_OFS_APPEND_def)
  define r :: u32 where "r = ucast (cur mod ucast (erasesize mm))"
  have r: "r = 0 \<longleftrightarrow> unat (erasesize mm) dvd unat cur"
  proof
    show "r = 0 \<Longrightarrow> unat (erasesize mm) dvd unat cur" unfolding r_def by (rule unat_mod_0 [OF e])
    assume "unat (erasesize mm) dvd unat cur"
    then have "unat (cur mod ucast (erasesize mm)) = 0" by (simp add: unat_mod_distrib unat_ucast_up)
    then show "r = 0" unfolding r_def by (metis ucast_0 unat_eq_zero)
  qed
  consider (app) "mp_offset part = MTDPART_OFS_APPEND" | (nxt) "mp_offset part = MTDPART_OFS_NXTBLK"
    | (own) "mp_offset part \<noteq> MTDPART_OFS_APPEND" "mp_offset part \<noteq> MTDPART_OFS_NXTBLK" by blast
  then show ?thesis
  proof cases
    case app
    then show ?thesis using ofs nc by (simp add: slave_offset_def wanted_offset_def Let_def)
  next
    case own
    then show ?thesis using ofs by (simp add: slave_offset_def wanted_offset_def Let_def)
  next
    case nxt
    show ?thesis
    proof (cases "r = 0")
      case True
      then show ?thesis using ofs nxt na r by (simp add: slave_offset_def wanted_offset_def Let_def fns r_def)
    next
      case False
      define q :: u32 where "q = ucast (cur div ucast (erasesize mm))"
      have o: "ofs = ucast ((q + 1) * erasesize mm)"
        using False ofs nxt na by (simp add: slave_offset_def Let_def fns r_def [symmetric] q_def [symmetric])
      have "unat q = unat cur div unat (erasesize mm) mod 2 ^ 32"
        by (simp add: q_def unat_ucast_mod unat_div_distrib unat_ucast_up)
      then have "unat ((q + 1) * erasesize mm) = (unat cur div unat (erasesize mm) + 1) * unat (erasesize mm) mod 2 ^ 32"
        by (simp add: unat_word_ariths mod_simps)
      then show ?thesis using False nxt na r by (simp add: o wanted_offset_def unat_ucast_up)
    qed
  qed
qed

text \<open>Registering a new object whose data fit keeps the invariant.\<close>

lemma parts_inv_new:
  assumes inv: "parts_inv master mm w" and fresh: "info w a = None" "a \<notin> set (mtd_partitions w)"
      "Some a \<notin> set (mtd_table (mtdc w))"
    and w1: "mtd_partitions w1 = a # mtd_partitions w" "mtd_table (mtdc w1) = mtd_table (mtdc w)"
      "\<forall>b. b \<noteq> a \<longrightarrow> info w1 b = info w b \<and> part_objs w1 b = part_objs w b"
      "info w1 a = Some m" "part_objs w1 a = Some p"
    and m: "writesize m \<noteq> 0" "mtd_index m = 0" "unat (pt_offset p) + unat (mtd_size m) \<le> unat (mtd_size mm)"
      "writeable m \<Longrightarrow> unat (erasesize m) dvd unat (pt_offset p) \<and> unat (erasesize m) dvd unat (mtd_size m)"
  shows "\<exists>w'. slave_register part a w1 = Some w' \<and> parts_inv master mm w' \<and>
     mtd_partitions w' = a # mtd_partitions w \<and>
     (\<forall>b. b \<noteq> a \<longrightarrow> info w' b = info w b \<and> part_objs w' b = part_objs w b) \<and>
     (\<exists>m' p'. info w' a = Some m' \<and> mtd_name m' = mtd_name m \<and> part_objs w' a = Some p' \<and>
        pt_master p' = pt_master p \<and> pt_index p' = pt_index p \<and> pt_offset p' = pt_offset p \<and>
        mtd_size m' = mtd_size m \<and> mtd_flags m' = mtd_flags m)"
proof -
  have tab: "mtd_table (mtdc w1) \<noteq> []" "Some a \<notin> set (mtd_table (mtdc w1))"
    using inv fresh(3) w1(2) by (simp_all add: parts_inv_def)
  have neq: "b \<noteq> a" if "b \<in> set (mtd_partitions w)" for b using that fresh(2) by blast
  have "\<forall>b\<in>set (mtd_partitions w). live_slave w1 b"
    using inv w1(2,3) neq by (simp add: parts_inv_def live_slave_def)
  from slave_register_ok [OF w1(4) m(1,2) w1(5) tab this fresh(2), of part] obtain w' i u r where
    reg: "slave_register part a w1 = Some w'" and
    w': "mtd_partitions w' = mtd_partitions w1" "mtd_table (mtdc w') \<noteq> []"
      "\<forall>b\<in>insert a (set (mtd_partitions w)). live_slave w' b"
      "\<forall>b. b \<noteq> a \<longrightarrow> info w' b = info w1 b \<and> part_objs w' b = part_objs w1 b"
      "info w' a = Some (m\<lparr>mtd_index := i, usecount := u\<rparr>)" "part_objs w' a = Some (p\<lparr>pt_registered := r\<rparr>)"
    by blast
  have "master \<noteq> a" using inv fresh(1) by (auto simp: parts_inv_def)
  have "slave_fits mm w' a" using w'(5,6) m(3,4) by (simp add: slave_fits_def)
  moreover have "slave_fits mm w' b" if "b \<in> set (mtd_partitions w)" "slave_of master w' b" for b
    using inv that w'(4) w1(3) neq [OF that(1)]
    by (simp add: parts_inv_def slave_fits_def slave_of_def)
  ultimately have "parts_inv master mm w'"
    using inv fresh(2) w' w1 \<open>master \<noteq> a\<close> by (auto simp: parts_inv_def)
  with reg w'(1,4,5,6) w1(1,3) show ?thesis by auto
qed

lemma add_one_ok:
  assumes inv: "parts_inv master mm w" and ok: "master_ok lib (dev master) mm"
    and k: "kzalloc lib w = Some a" and sz: "unat (mp_size part) + unat (mtd_size mm) < 2 ^ 64"
    and cur: "unat cur \<le> unat (mtd_size mm)"
    and slot: "slot (unat (erasesize mm)) (unat (mtd_size mm)) (unat cur) part = (ofs0, sz0)"
  shows "\<exists>w'. add_one_partition lib dev master part i cur w = Some (Some a, w') \<and> parts_inv master mm w' \<and>
     mtd_partitions w' = a # mtd_partitions w \<and>
     (\<forall>b. b \<noteq> a \<longrightarrow> info w' b = info w b \<and> part_objs w' b = part_objs w b) \<and>
     (\<exists>m p. info w' a = Some m \<and> mtd_name m = mp_name part \<and> part_objs w' a = Some p \<and>
        pt_master p = master \<and> pt_index p = i \<and> unat (pt_offset p) = ofs0 \<and> unat (mtd_size m) = sz0 \<and>
        and (mtd_flags m) (mp_mask_flags part) = 0)"
proof -
  have fresh: "info w a = None" "a \<notin> set (mtd_partitions w)" "Some a \<notin> set (mtd_table (mtdc w))"
    using ok k by (auto simp: master_ok_def fresh_alloc_def)
  have im: "info w master = Some mm" using inv by (simp add: parts_inv_def)
  have ws: "writesize mm \<noteq> 0" and big: "unat (mtd_size mm) + 2 ^ 32 \<le> 2 ^ 64" using ok by (simp_all add: master_ok_def)
  obtain ofs where ofs: "slave_offset lib mm part cur = Some ofs" using slave_offset_ok [OF ok] by blast
  have place: "(if unat (mtd_size mm) \<le> unat ofs then (0, 0) else (unat ofs, if mp_size part = MTDPART_SIZ_FULL
      then unat (mtd_size mm) - unat ofs else min (unat (mp_size part)) (unat (mtd_size mm) - unat ofs))) = (ofs0, sz0)"
    using slot unfolding slot_def Let_def slave_offset_wanted [OF ok cur ofs, symmetric] .
  define w0 where "w0 = w\<lparr>mtd_partitions := a # mtd_partitions w\<rparr>"
  define sl where "sl = \<lparr>pt_master = master, pt_offset = ofs, pt_index = i, pt_registered = False\<rparr>"
  define m0 where "m0 = (if mp_size part = MTDPART_SIZ_FULL
    then (slave_init mm part)\<lparr>mtd_size := mtd_size mm - ofs\<rparr> else slave_init mm part)"
  have m0f: "writesize m0 = writesize mm" "mtd_index m0 = 0" "mtd_name m0 = mp_name part"
    "mtd_flags m0 = and (mtd_flags mm) (NOT (mp_mask_flags part))"
    by (simp_all add: m0_def slave_init_def)
  have put: "mtd_partitions (put_slave a m p w0) = a # mtd_partitions w"
    "mtd_table (mtdc (put_slave a m p w0)) = mtd_table (mtdc w)"
    "\<forall>b. b \<noteq> a \<longrightarrow> info (put_slave a m p w0) b = info w b \<and> part_objs (put_slave a m p w0) b = part_objs w b"
    "info (put_slave a m p w0) a = Some m" "part_objs (put_slave a m p w0) a = Some p" for m p
    by (simp_all add: put_slave_def w0_def set_info_def mtd_set_def)
  show ?thesis
  proof (cases "mtd_size mm \<le> ofs")
    case True
    have "\<exists>w'. slave_register part a (put_slave a (m0\<lparr>mtd_size := 0\<rparr>) (sl\<lparr>pt_offset := 0\<rparr>) w0) = Some w' \<and>
       parts_inv master mm w' \<and> mtd_partitions w' = a # mtd_partitions w \<and>
       (\<forall>b. b \<noteq> a \<longrightarrow> info w' b = info w b \<and> part_objs w' b = part_objs w b) \<and>
       (\<exists>m' p'. info w' a = Some m' \<and> mtd_name m' = mtd_name (m0\<lparr>mtd_size := 0\<rparr>) \<and> part_objs w' a = Some p' \<and>
        pt_master p' = pt_master (sl\<lparr>pt_offset := 0\<rparr>) \<and> pt_index p' = pt_index (sl\<lparr>pt_offset := 0\<rparr>) \<and>
        pt_offset p' = pt_offset (sl\<lparr>pt_offset := 0\<rparr>) \<and> mtd_size m' = mtd_size (m0\<lparr>mtd_size := 0\<rparr>) \<and>
        mtd_flags m' = mtd_flags (m0\<lparr>mtd_size := 0\<rparr>))"
      using m0f ws by (intro parts_inv_new [OF inv fresh put]) simp_all
    then obtain w' where w': "slave_register part a (put_slave a (m0\<lparr>mtd_size := 0\<rparr>) (sl\<lparr>pt_offset := 0\<rparr>) w0) = Some w'"
      "parts_inv master mm w'" "mtd_partitions w' = a # mtd_partitions w"
      "\<forall>b. b \<noteq> a \<longrightarrow> info w' b = info w b \<and> part_objs w' b = part_objs w b"
      "\<exists>m p. info w' a = Some m \<and> mtd_name m = mp_name part \<and> part_objs w' a = Some p \<and>
        pt_master p = master \<and> pt_index p = i \<and> unat (pt_offset p) = ofs0 \<and> unat (mtd_size m) = sz0 \<and>
        and (mtd_flags m) (mp_mask_flags part) = 0"
      using place True by (auto simp: m0f sl_def word_le_nat_alt and.assoc)
    have "add_one_partition lib dev master part i cur w = Some (Some a, w')"
      unfolding add_one_partition_def k option.case im Option.bind.bind_lunit Let_def w0_def [symmetric] ofs
        if_P [OF True] sl_def [symmetric]
      using w'(1) by (simp add: m0_def slave_init_def split: if_splits)
    with w' show ?thesis by blast
  next
    case False
    then have lt: "unat ofs < unat (mtd_size mm)" by (simp add: word_le_nat_alt)
    have diff: "unat (mtd_size mm - ofs) = unat (mtd_size mm) - unat ofs" using lt by (simp add: unat_sub_64)
    define m1 where "m1 = (if mtd_size mm < ofs + mtd_size m0 then m0\<lparr>mtd_size := mtd_size mm - ofs\<rparr> else m0)"
    have s2: "unat (mtd_size m1) = (if mp_size part = MTDPART_SIZ_FULL then unat (mtd_size mm) - unat ofs
        else min (unat (mp_size part)) (unat (mtd_size mm) - unat ofs))"
    proof (cases "mp_size part = MTDPART_SIZ_FULL")
      case True
      then have "unat (mtd_size m0) = unat (mtd_size mm) - unat ofs" by (simp add: m0_def diff)
      then show ?thesis using True diff by (auto simp: m1_def)
    next
      case f: False
      then have m0s: "mtd_size m0 = mp_size part" by (simp add: m0_def slave_init_def)
      have "unat (ofs + mtd_size m0) = unat ofs + unat (mp_size part)"
        using sz lt by (simp add: m0s unat_add_64)
      then show ?thesis using f diff m0s by (auto simp: m1_def word_less_nat_alt)
    qed
    have s1: "0 < unat (mtd_size m1) \<and> unat ofs + unat (mtd_size m1) \<le> unat (mtd_size mm)"
      using s2 lt by (auto simp: MTDPART_SIZ_FULL_def unat_gt_0)
    obtain e where e: "slave_erasesize mm ofs (mtd_size m1) = Some e" "e \<noteq> 0"
      using slave_erasesize_ok [OF ok s1 [THEN conjunct1] s1 [THEN conjunct2]] by blast
    obtain fl where fl: "slave_readonly lib (m1\<lparr>erasesize := e\<rparr>) ofs = Some (m1\<lparr>erasesize := e, mtd_flags := fl\<rparr>)"
      "fl = mtd_flags m1 \<or> fl = and (mtd_flags m1) (NOT MTD_WRITEABLE)"
      "and fl MTD_WRITEABLE \<noteq> 0 \<longrightarrow> unat e dvd unat ofs \<and> unat e dvd unat (mtd_size m1)"
      using slave_readonly_ok [of lib "m1\<lparr>erasesize := e\<rparr>" ofs] ok e(2) by (auto simp: master_ok_def)
    define m2 where "m2 = m1\<lparr>erasesize := e, mtd_flags := fl\<rparr>"
    have m2f: "writesize m2 = writesize mm" "mtd_index m2 = 0" "mtd_name m2 = mp_name part"
      "mtd_size m2 = mtd_size m1" "erasesize m2 = e" "mtd_flags m2 = fl"
      by (simp_all add: m2_def m1_def m0f)
    have mask: "and fl (mp_mask_flags part) = 0"
    proof -
      have "mtd_flags m1 = and (mtd_flags mm) (NOT (mp_mask_flags part))" by (simp add: m1_def m0f)
      with fl(2) show ?thesis by (intro bit_word_eqI) (auto simp: bit_simps)
    qed
    define w2 where "w2 = put_slave a m2 sl w0"
    have "\<exists>w3. (case op_block_isbad (dev master) of None \<Rightarrow> Some w2
        | Some isbad \<Rightarrow> count_badblocks isbad a ofs 0 w2) = Some w3 \<and> bad_counted a w2 w3"
    proof (cases "op_block_isbad (dev master)")
      case None
      then show ?thesis using put(4) [of m2 sl]
        by (auto simp: bad_counted_def w2_def intro: exI [of _ "ecc_badblocks m2"])
    next
      case (Some f)
      with ok have "isbad_ok f" by (simp add: master_ok_def)
      from count_badblocks_returns [OF this, of w2 a m2 ofs 0] Some show ?thesis
        using put(4) [of m2 sl] e(2) s1 big by (auto simp: w2_def m2f unat_gt_0)
    qed
    then obtain w3 where w3: "(case op_block_isbad (dev master) of None \<Rightarrow> Some w2
        | Some isbad \<Rightarrow> count_badblocks isbad a ofs 0 w2) = Some w3" "bad_counted a w2 w3" by blast
    then obtain n where n: "info w3 a = Some (m2\<lparr>ecc_badblocks := n\<rparr>)"
      using put(4) [of m2 sl] by (auto simp: bad_counted_def w2_def)
    have eq3: "mtd_partitions w3 = a # mtd_partitions w" "mtd_table (mtdc w3) = mtd_table (mtdc w)"
      "\<forall>b. b \<noteq> a \<longrightarrow> info w3 b = info w b \<and> part_objs w3 b = part_objs w b" "part_objs w3 a = Some sl"
      using w3(2) put [of m2 sl] by (simp_all add: bad_counted_def w2_def)
    have "\<exists>w'. slave_register part a w3 = Some w' \<and>
       parts_inv master mm w' \<and> mtd_partitions w' = a # mtd_partitions w \<and>
       (\<forall>b. b \<noteq> a \<longrightarrow> info w' b = info w b \<and> part_objs w' b = part_objs w b) \<and>
       (\<exists>m' p'. info w' a = Some m' \<and> mtd_name m' = mtd_name (m2\<lparr>ecc_badblocks := n\<rparr>) \<and> part_objs w' a = Some p' \<and>
        pt_master p' = pt_master sl \<and> pt_index p' = pt_index sl \<and>
        pt_offset p' = pt_offset sl \<and> mtd_size m' = mtd_size (m2\<lparr>ecc_badblocks := n\<rparr>) \<and>
        mtd_flags m' = mtd_flags (m2\<lparr>ecc_badblocks := n\<rparr>))"
      using m2f ws s1 fl(3) by (intro parts_inv_new [OF inv fresh eq3(1,2,3) n eq3(4)]) (simp_all add: sl_def)
    then obtain w' where w': "slave_register part a w3 = Some w'"
      "parts_inv master mm w'" "mtd_partitions w' = a # mtd_partitions w"
      "\<forall>b. b \<noteq> a \<longrightarrow> info w' b = info w b \<and> part_objs w' b = part_objs w b"
      "\<exists>m p. info w' a = Some m \<and> mtd_name m = mp_name part \<and> part_objs w' a = Some p \<and>
        pt_master p = master \<and> pt_index p = i \<and> unat (pt_offset p) = ofs0 \<and> unat (mtd_size m) = sz0 \<and>
        and (mtd_flags m) (mp_mask_flags part) = 0"
      using place lt s2 mask by (auto simp: m2f sl_def)
    have m0e: "(if mtd_size (slave_init mm part) = MTDPART_SIZ_FULL
        then (slave_init mm part)\<lparr>mtd_size := mtd_size mm - ofs\<rparr> else slave_init mm part) = m0"
      by (simp add: m0_def slave_init_def)
    have "add_one_partition lib dev master part i cur w = Some (Some a, w')"
      unfolding add_one_partition_def k option.case im Option.bind.bind_lunit Let_def w0_def [symmetric] ofs
        if_not_P [OF False] sl_def [symmetric] m0e m1_def [symmetric] e(1) fl(1) m2_def [symmetric]
        w2_def [symmetric] w3(1) w'(1) ..
    with w' show ?thesis by blast
  qed
qed

text \<open>The slave of a table entry with its index and its place: the name, the place and none of the masked flags.\<close>

definition describes :: "addr \<Rightarrow> 'f mtd_world \<Rightarrow> (nat \<times> mtd_partition) \<times> nat \<times> nat \<Rightarrow> addr \<Rightarrow> bool" where
  "describes master w = (\<lambda>((j, part), (ofs, sz)) a. \<exists>m p. info w a = Some m \<and> mtd_name m = mp_name part \<and>
     part_objs w a = Some p \<and> pt_master p = master \<and> pt_index p = j \<and> unat (pt_offset p) = ofs \<and> unat (mtd_size m) = sz \<and>
     and (mtd_flags m) (mp_mask_flags part) = 0)"

lemma add_slaves_ok:
  assumes "parts_inv master mm w" and ok: "master_ok lib (dev master) mm"
    and "\<forall>part\<in>set parts. unat (mp_size part) + unat (mtd_size mm) < 2 ^ 64"
    and "unat cur \<le> unat (mtd_size mm)"
  shows "\<exists>rc w'. add_slaves lib dev master parts i cur w = Some (rc, w') \<and> parts_inv master mm w' \<and>
    (rc = 0 \<and> (\<exists>new. mtd_partitions w' = rev new @ mtd_partitions w \<and>
        list_all2 (describes master w') (zip (enumerate i parts) (slots (unat (erasesize mm)) (unat (mtd_size mm)) (unat cur) parts)) new \<and>
        (\<forall>b. b \<notin> set new \<longrightarrow> info w' b = info w b \<and> part_objs w' b = part_objs w b)) \<or>
     rc = ENOMEM \<and> (\<forall>a\<in>set (mtd_partitions w'). \<not> slave_of master w' a))"
  using assms(1,3,4)
proof (induction parts arbitrary: i cur w)
  case Nil
  then show ?case by auto
next
  case (Cons part parts)
  show ?case
  proof (cases "kzalloc lib w")
    case None
    have l: "\<forall>a\<in>set (mtd_partitions w). live_slave w a" "distinct (mtd_partitions w)"
      using Cons.prems(1) by (simp_all add: parts_inv_def)
    obtain w' where w': "del_slaves (mtd_partitions w) master w = Some w'"
      "mtd_partitions w' = filter (\<lambda>a. \<not> (a \<in> set (mtd_partitions w) \<and> slave_of master w a)) (mtd_partitions w)"
      "\<forall>a. info w' a = (if a \<in> set (mtd_partitions w) \<and> slave_of master w a then None else info w a)"
      "\<forall>a. part_objs w' a = (if a \<in> set (mtd_partitions w) \<and> slave_of master w a then None else part_objs w a)"
      "length (mtd_table (mtdc w')) = length (mtd_table (mtdc w))"
      "\<forall>i b. i < length (mtd_table (mtdc w)) \<longrightarrow> mtd_table (mtdc w') ! i = Some b \<longrightarrow> mtd_table (mtdc w) ! i = Some b"
      using del_slaves_spec [OF l(1) l(2) l(2), of master] by blast
    have "add_slaves lib dev master (part # parts) i cur w = Some (ENOMEM, w')"
      using None w'(1) by (simp add: add_one_partition_def del_mtd_partitions_def)
    moreover have gone: "\<not> slave_of master w' a" if "a \<in> set (mtd_partitions w')" for a
      using that w' by (simp add: slave_of_def)
    moreover have "live_slave w' b" if b: "b \<in> set (mtd_partitions w')" for b
    proof -
      have b': "b \<in> set (mtd_partitions w)" "\<not> slave_of master w b" using b by (simp_all add: w'(2))
      then have "info w' b = info w b" "part_objs w' b = part_objs w b" using w'(3,4) by simp_all
      moreover obtain p m where "part_objs w b = Some p" "info w b = Some m"
        "mtd_index m < length (mtd_table (mtdc w))"
        "\<forall>i < length (mtd_table (mtdc w)). mtd_table (mtdc w) ! i = Some b \<longrightarrow> i = mtd_index m"
        using l(1) b'(1) unfolding live_slave_def by blast
      ultimately show ?thesis unfolding live_slave_def w'(5) using w'(6) by (metis (no_types, lifting))
    qed
    moreover have "mtd_table (mtdc w') \<noteq> []"
      using Cons.prems(1) w'(5) by (metis length_0_conv parts_inv_def)
    moreover have "info w' master = Some mm" "master \<notin> set (mtd_partitions w')" "distinct (mtd_partitions w')"
      using Cons.prems(1) w'(2,3) by (simp_all add: parts_inv_def)
    ultimately have "parts_inv master mm w'" "\<forall>a\<in>set (mtd_partitions w'). \<not> slave_of master w' a"
      by (simp_all add: parts_inv_def)
    with \<open>add_slaves lib dev master (part # parts) i cur w = Some (ENOMEM, w')\<close> show ?thesis by blast
  next
    case (Some a)
    let ?es = "unat (erasesize mm)" and ?M = "unat (mtd_size mm)"
    have fits: "unat (mp_size part) + ?M < 2 ^ 64" using Cons.prems(2) by simp
    obtain ofs sz where slot: "slot ?es ?M (unat cur) part = (ofs, sz)" by (cases "slot ?es ?M (unat cur) part")
    obtain w1 m p where w1: "add_one_partition lib dev master part i cur w = Some (Some a, w1)"
      "parts_inv master mm w1" "mtd_partitions w1 = a # mtd_partitions w"
      "\<forall>b. b \<noteq> a \<longrightarrow> info w1 b = info w b \<and> part_objs w1 b = part_objs w b"
      "info w1 a = Some m" "mtd_name m = mp_name part" "part_objs w1 a = Some p" "pt_master p = master" "pt_index p = i"
      "unat (pt_offset p) = ofs" "unat (mtd_size m) = sz" "and (mtd_flags m) (mp_mask_flags part) = 0"
      using add_one_ok [where dev = dev and i = i, OF Cons.prems(1) ok Some fits Cons.prems(3) slot] by blast
    have next_cur: "unat (pt_offset p + mtd_size m) = ofs + sz" "ofs + sz \<le> ?M"
      using slot_inside [OF slot] w1(10,11) u64_lt [of "mtd_size mm"] by (simp_all add: unat_add_64)
    have step: "add_slaves lib dev master (part # parts) i cur w =
        add_slaves lib dev master parts (i + 1) (pt_offset p + mtd_size m) w1"
      using w1 by simp
    from Cons.IH [OF w1(2), of "pt_offset p + mtd_size m" "i + 1", unfolded next_cur(1), OF _ next_cur(2)] Cons.prems(2) obtain rc w' where
      w': "add_slaves lib dev master parts (i + 1) (pt_offset p + mtd_size m) w1 = Some (rc, w')"
        "parts_inv master mm w'" and
      res: "rc = 0 \<and> (\<exists>new. mtd_partitions w' = rev new @ mtd_partitions w1 \<and>
        list_all2 (describes master w') (zip (enumerate (i + 1) parts) (slots ?es ?M (ofs + sz) parts)) new \<and>
        (\<forall>b. b \<notin> set new \<longrightarrow> info w' b = info w1 b \<and> part_objs w' b = part_objs w1 b)) \<or>
       rc = ENOMEM \<and> (\<forall>a\<in>set (mtd_partitions w'). \<not> slave_of master w' a)" by auto
    from res show ?thesis
    proof
      assume "rc = 0 \<and> (\<exists>new. mtd_partitions w' = rev new @ mtd_partitions w1 \<and>
        list_all2 (describes master w') (zip (enumerate (i + 1) parts) (slots ?es ?M (ofs + sz) parts)) new \<and>
        (\<forall>b. b \<notin> set new \<longrightarrow> info w' b = info w1 b \<and> part_objs w' b = part_objs w1 b))"
      then obtain new where rc: "rc = 0" and new: "mtd_partitions w' = rev new @ mtd_partitions w1"
        "list_all2 (describes master w') (zip (enumerate (i + 1) parts) (slots ?es ?M (ofs + sz) parts)) new"
        "\<forall>b. b \<notin> set new \<longrightarrow> info w' b = info w1 b \<and> part_objs w' b = part_objs w1 b" by blast
      have "a \<notin> set new" using w'(2) new(1) w1(3) by (auto simp: parts_inv_def)
      with new w1 have "mtd_partitions w' = rev (a # new) @ mtd_partitions w"
        "list_all2 (describes master w') (zip (enumerate i (part # parts)) (slots ?es ?M (unat cur) (part # parts))) (a # new)"
        "\<forall>b. b \<notin> set (a # new) \<longrightarrow> info w' b = info w b \<and> part_objs w' b = part_objs w b"
        by (simp_all add: describes_def slot)
      with rc w' step show ?thesis by (metis (no_types, lifting))
    next
      assume "rc = ENOMEM \<and> (\<forall>a\<in>set (mtd_partitions w'). \<not> slave_of master w' a)"
      with w' step show ?thesis by auto
    qed
  qed
qed

section \<open>Properties\<close>


text \<open>C30: \<open>del_mtd_partitions\<close> returns 0, removes exactly the master's partitions from the list and
  frees them.  It takes a freed partition out of the registry only when \<open>add_one_partition\<close> has registered it and nobody uses
  it (\<open>unused_slave\<close>): the result of \<open>del_mtd_device\<close> is ignored, and it is not called for a partition that was handed out
  through \<open>mtdp\<close>.  So every other freed partition of the registry, one that is still in use or one that was not registered
  by \<open>add_one_partition\<close>, leaves a pointer to freed memory in \<open>mtd_table\<close>.\<close>

theorem del_mtd_partitions_spec:
  assumes "\<forall>a\<in>set (mtd_partitions w). live_slave w a" and "distinct (mtd_partitions w)"
  shows "\<exists>w'. del_mtd_partitions master w = Some (0, w') \<and>
    mtd_partitions w' = filter (\<lambda>a. \<not> slave_of master w a) (mtd_partitions w) \<and>
    (\<forall>a. (if a \<in> set (mtd_partitions w) \<and> slave_of master w a
          then info w' a = None \<and> part_objs w' a = None \<and>
            (Some a \<in> set (mtd_table (mtdc w')) \<longleftrightarrow> Some a \<in> set (mtd_table (mtdc w)) \<and> \<not> unused_slave w a)
          else info w' a = info w a \<and> part_objs w' a = part_objs w a \<and>
            (Some a \<in> set (mtd_table (mtdc w')) \<longleftrightarrow> Some a \<in> set (mtd_table (mtdc w)))))"
proof -
  obtain w' where "del_slaves (mtd_partitions w) master w = Some w'" and w':
    "mtd_partitions w' = filter (\<lambda>a. \<not> (a \<in> set (mtd_partitions w) \<and> slave_of master w a)) (mtd_partitions w)"
    "\<forall>a. info w' a = (if a \<in> set (mtd_partitions w) \<and> slave_of master w a then None else info w a)"
    "\<forall>a. part_objs w' a = (if a \<in> set (mtd_partitions w) \<and> slave_of master w a then None else part_objs w a)"
    "\<forall>a. Some a \<in> set (mtd_table (mtdc w')) \<longleftrightarrow> Some a \<in> set (mtd_table (mtdc w)) \<and>
       \<not> (a \<in> set (mtd_partitions w) \<and> slave_of master w a \<and> unused_slave w a)"
    using del_slaves_spec [OF assms(1,2,2), of master] by blast
  then have "del_mtd_partitions master w = Some (0, w')" by (simp add: del_mtd_partitions_def)
  moreover have "mtd_partitions w' = filter (\<lambda>a. \<not> slave_of master w a) (mtd_partitions w)"
    unfolding w'(1) by (intro filter_cong) auto
  ultimately show ?thesis using w'(2-4) by (intro exI [of _ w']) (simp, blast)
qed

lemma ram_parts_inv: "parts_inv 1 (ram_info 16) ram_world"
  by (auto simp: parts_inv_def ram_world_def live_slave_def slave_fits_def slave_of_def ram_info_def
      demo_mtd_def less_Suc_eq)

lemma ram_master_ok: "master_ok ram_lib (ram_ops 1) (ram_info 16)"
  by (auto simp: master_ok_def ram_lib_def div_fns_ok_def fresh_alloc_def ram_ops_def ram_info_def demo_mtd_def
      find_Some_iff)

definition demo_entry :: mtd_partition where
  "demo_entry = \<lparr>mp_name = ''boot'', mp_size = MTDPART_SIZ_FULL, mp_offset = 6, mp_mask_flags = MTD_WRITEABLE, mp_mtdp = None\<rparr>"

definition demo_table :: "mtd_partition list" where
  "demo_table =
     [\<lparr>mp_name = ''boot'', mp_size = 6, mp_offset = MTDPART_OFS_APPEND, mp_mask_flags = 0, mp_mtdp = None\<rparr>,
      \<lparr>mp_name = ''rest'', mp_size = MTDPART_SIZ_FULL, mp_offset = MTDPART_OFS_NXTBLK, mp_mask_flags = 0, mp_mtdp = None\<rparr>]"

lemma add_one_allocated:
  "kzalloc lib w = Some a \<Longrightarrow> add_one_partition lib dev master part i cur w = Some (r, w') \<Longrightarrow> r \<noteq> None"
  by (auto simp: add_one_partition_def Let_def bind_eq_Some_conv split: if_split_asm)

lemma demo_entry_added: "add_mtd_partitions ram_lib ram_ops 1 [demo_entry] ram_world = Some (rc, w') \<Longrightarrow> rc = 0"
proof -
  assume a: "add_mtd_partitions ram_lib ram_ops 1 [demo_entry] ram_world = Some (rc, w')"
  have "kzalloc ram_lib ram_world = Some 9" by (simp add: ram_lib_def ram_world_def upt_rec)
  note add_one_allocated [OF this, where dev = ram_ops and master = 1 and part = demo_entry and i = 0 and cur = 0]
  with a show "rc = 0" by (auto simp: add_mtd_partitions_def split: Option.bind_splits option.splits)
qed


text \<open>Three partitions in the registry: 3 is in use, 5 was not registered by \<open>add_one_partition\<close>, 6 was and is not used.\<close>

definition busy_world :: "(addr \<Rightarrow> u8 list) mtd_world" where
  "busy_world = ram_world\<lparr>
     mtdc := \<lparr>mtd_table = [Some 3, Some 5, Some 6],
       mtd_objs = [1 \<mapsto> ram_info 16, 3 \<mapsto> (ram_info 4)\<lparr>mtd_index := 0, usecount := 1\<rparr>,
         5 \<mapsto> (ram_info 4)\<lparr>mtd_index := 1\<rparr>, 6 \<mapsto> (ram_info 4)\<lparr>mtd_index := 2\<rparr>]\<rparr>,
     mtd_partitions := [3, 5, 6],
     part_objs := [3 \<mapsto> \<lparr>pt_master = 1, pt_offset = 0, pt_index = 0, pt_registered = True\<rparr>,
       5 \<mapsto> \<lparr>pt_master = 1, pt_offset = 4, pt_index = 1, pt_registered = False\<rparr>,
       6 \<mapsto> \<lparr>pt_master = 1, pt_offset = 8, pt_index = 2, pt_registered = True\<rparr>]\<rparr>"

theorem del_mtd_partitions_spec_witness:
  "\<exists>w'. del_mtd_partitions 1 busy_world = Some (0, w') \<and> mtd_partitions w' = [] \<and>
     info w' 3 = None \<and> Some 3 \<in> set (mtd_table (mtdc w')) \<and>
     info w' 5 = None \<and> Some 5 \<in> set (mtd_table (mtdc w')) \<and>
     info w' 6 = None \<and> Some 6 \<notin> set (mtd_table (mtdc w'))"
proof -
  have l: "\<forall>a\<in>set (mtd_partitions busy_world). live_slave busy_world a" "distinct (mtd_partitions busy_world)"
    by (auto simp: busy_world_def live_slave_def less_Suc_eq)
  have s: "slave_of 1 busy_world 3" "slave_of 1 busy_world 5" "slave_of 1 busy_world 6"
    "\<not> unused_slave busy_world 3" "\<not> unused_slave busy_world 5" "unused_slave busy_world 6"
    by (simp_all add: busy_world_def slave_of_def unused_slave_def ram_info_def demo_mtd_def)
  have f: "mtd_partitions busy_world = [3, 5, 6]" "mtd_table (mtdc busy_world) = [Some 3, Some 5, Some 6]" by (simp_all add: busy_world_def)
  from del_mtd_partitions_spec [OF l, of 1] obtain w' where w': "del_mtd_partitions 1 busy_world = Some (0, w')"
    "mtd_partitions w' = filter (\<lambda>a. \<not> slave_of 1 busy_world a) (mtd_partitions busy_world)" and
    all: "\<And>a. a \<in> set (mtd_partitions busy_world) \<and> slave_of 1 busy_world a \<Longrightarrow> info w' a = None \<and>
      (Some a \<in> set (mtd_table (mtdc w')) \<longleftrightarrow> Some a \<in> set (mtd_table (mtdc busy_world)) \<and> \<not> unused_slave busy_world a)"
    by meson
  show ?thesis using w' all [of 3] all [of 5] all [of 6] by (intro exI [of _ w']) (simp add: f s [unfolded One_nat_def])
qed

end
