(* ===== verification/MtdConcatLaws.thy ===== *)
theory MtdConcatLaws
  imports MtdSlaveLaws
begin

text \<open>
  Laws of \<open>mtd_concat_create\<close> and of the out-of-band requests of a concatenated device
  (\<open>mtdconcat.c\<close>).
\<close>

section \<open>Erase blocks\<close>

text \<open>The runs of equal erase blocks of a device, and the sizes of its erase blocks one by one.\<close>

definition erase_runs :: "mtd_info \<Rightarrow> (u32 \<times> nat) list" where
  "erase_runs m = (if numeraseregions m = 0 then [(erasesize m, unat (mtd_size m) div unat (erasesize m))]
     else map (\<lambda>r. (er_erasesize r, unat (er_numblocks r))) (eraseregions m))"

definition expand :: "(u32 \<times> nat) list \<Rightarrow> u32 list" where
  "expand runs = concat (map (\<lambda>(e, k). replicate k e) runs)"

definition erase_blocks :: "mtd_info \<Rightarrow> u32 list" where
  "erase_blocks m = expand (erase_runs m)"

definition bytes :: "u32 list \<Rightarrow> nat" where
  "bytes bs = sum_list (map unat bs)"

text \<open>Regions start where the blocks of those before them end.\<close>

fun tiled :: "nat \<Rightarrow> erase_region list \<Rightarrow> bool" where
  "tiled p [] = True"
| "tiled p (r # rs) = (unat (er_offset r) = p \<and> tiled (p + unat (er_numblocks r) * unat (er_erasesize r)) rs)"

abbreviation region_runs :: "erase_region list \<Rightarrow> (u32 \<times> nat) list" where
  "region_runs rs \<equiv> map (\<lambda>r. (er_erasesize r, unat (er_numblocks r))) rs"

text \<open>A device whose erase blocks cover it.\<close>

definition blocks_ok :: "mtd_info \<Rightarrow> bool" where
  "blocks_ok m \<longleftrightarrow> erasesize m \<noteq> 0 \<and> (\<forall>r\<in>set (erase_runs m). fst r \<noteq> 0) \<and> bytes (erase_blocks m) = unat (mtd_size m)"

lemma expand_simps [simp]:
  "expand [] = []" "expand ((e, k) # rs) = replicate k e @ expand rs" "expand (xs @ ys) = expand xs @ expand ys"
  by (simp_all add: expand_def)

lemma bytes_simps [simp]:
  "bytes [] = 0" "bytes (b # bs) = unat b + bytes bs" "bytes (bs @ cs) = bytes bs + bytes cs"
  "bytes (replicate k b) = k * unat b"
  by (simp_all add: bytes_def sum_list_replicate)

lemma tiled_append [simp]:
  "tiled p (rs @ ss) \<longleftrightarrow> tiled p rs \<and> tiled (p + bytes (expand (region_runs rs))) ss"
  by (induction rs arbitrary: p) (auto simp: add.assoc)

section \<open>The two walks as folds over the runs\<close>

fun fill_runs :: "'f mtd_lib \<Rightarrow> nat \<Rightarrow> (u32 \<times> nat) list \<Rightarrow> fill_state \<Rightarrow> fill_state option" where
  "fill_runs lib n [] st = Some st"
| "fill_runs lib n ((e, k) # rs) st =
     do { st \<leftarrow> fill_change lib n e st; fill_runs lib n rs (advance (of_nat k * ucast e) st) }"

fun changes :: "u32 \<Rightarrow> (u32 \<times> nat) list \<Rightarrow> nat" where
  "changes cur [] = 0"
| "changes cur ((e, k) # rs) = (if e \<noteq> cur then 1 else 0) + changes e rs"

lemma fill_runs_append:
  "fill_runs lib n (xs @ ys) st = do { st \<leftarrow> fill_runs lib n xs st; fill_runs lib n ys st }"
proof (induction xs arbitrary: st)
  case (Cons x xs)
  then show ?case by (cases x) (simp add: Option.bind_assoc)
qed simp

lemma fill_change_cur: "fill_change lib n e st = Some st' \<Longrightarrow> snd (snd (snd st')) = e"
  by (auto simp: fill_change_def split: prod.splits if_splits Option.bind_splits)

lemma fill_sub_regions_runs: "fill_sub_regions lib n rs st = fill_runs lib n (region_runs rs) st"
proof (induction rs arbitrary: st)
  case (Cons r rs)
  show ?case
  proof (cases "fill_change lib n (er_erasesize r) st")
    case (Some st')
    have "ucast (er_numblocks r) = (of_nat (unat (er_numblocks r)) :: u64)" by (simp add: unsigned_of_nat)
    with Cons Some fill_change_cur [OF Some] show ?thesis by simp
  qed simp
qed simp

lemma fill_regions_runs:
  assumes "\<forall>s\<in>set subs. blocks_ok s"
  shows "fill_regions lib n subs st = fill_runs lib n (concat (map erase_runs subs)) st"
  using assms
proof (induction subs arbitrary: st)
  case (Cons s subs)
  have "mtd_size s = of_nat (unat (mtd_size s) div unat (erasesize s)) * ucast (erasesize s)"
    if "numeraseregions s = 0"
  proof -
    have "unat (mtd_size s) = unat (mtd_size s) div unat (erasesize s) * unat (erasesize s)"
      using Cons.prems that by (simp add: blocks_ok_def erase_blocks_def erase_runs_def)
    then have "(of_nat (unat (mtd_size s)) :: u64) =
        of_nat (unat (mtd_size s) div unat (erasesize s)) * of_nat (unat (erasesize s))"
      by (metis of_nat_mult)
    then show ?thesis by (simp add: unsigned_of_nat)
  qed
  moreover have "fill_regions lib n subs = fill_runs lib n (concat (map erase_runs subs))"
    using Cons by (intro ext) simp
  ultimately show ?case
    by (cases "numeraseregions s = 0")
      (simp_all add: fill_runs_append fill_sub_regions_runs erase_runs_def [of s] Option.bind_assoc)
qed simp

lemma count_sub_regions_fold:
  "count_sub_regions rs acc = fold (\<lambda>r. count_change (fst r)) (region_runs rs) acc"
  by (induction rs arbitrary: acc) auto

lemma count_regions_fold:
  "count_regions subs acc = fold (\<lambda>r. count_change (fst r)) (concat (map erase_runs subs)) acc"
  by (induction subs arbitrary: acc) (auto simp: erase_runs_def count_sub_regions_fold)

lemma count_fold:
  assumes "fold (\<lambda>r. count_change (fst r)) runs (n, cur, big) = (n', cur', big')" and "cur \<le> big"
  shows "n' = n + changes cur runs \<and> cur' = (if runs = [] then cur else fst (last runs)) \<and> big \<le> big' \<and>
    (\<forall>r\<in>set runs. fst r \<le> big')"
  using assms
proof (induction runs arbitrary: n cur big)
  case (Cons r runs)
  obtain e k where r: "r = (e, k)" by (cases r)
  show ?case
  proof (cases "e = cur")
    case True
    with Cons r show ?thesis by (fastforce simp: count_change_def)
  next
    case False
    define b where "b = (if big < e then e else big)"
    have "count_change e (n, cur, big) = (n + 1, e, b)" using False by (simp add: count_change_def b_def)
    with Cons.prems(1) r have "fold (\<lambda>r. count_change (fst r)) runs (n + 1, e, b) = (n', cur', big')" by simp
    moreover have "e \<le> b" by (simp add: b_def not_less)
    ultimately have "n' = n + 1 + changes e runs \<and> cur' = (if runs = [] then e else fst (last runs)) \<and> b \<le> big' \<and>
        (\<forall>r\<in>set runs. fst r \<le> big')" by (rule Cons.IH)
    then have ih: "n' = n + 1 + changes e runs" "cur' = (if runs = [] then e else fst (last runs))"
      "b \<le> big'" "\<forall>r\<in>set runs. fst r \<le> big'" by auto
    moreover have "e \<le> big'" "big \<le> big'" using ih(3) by (auto simp: b_def split: if_splits)
    ultimately show ?thesis using False r by auto
  qed
qed simp

lemma changes_0: "changes cur runs = 0 \<Longrightarrow> \<forall>r\<in>set runs. fst r = cur"
  by (induction cur runs rule: changes.induct) (auto split: if_splits)

section \<open>Filling the table of regions\<close>

text \<open>\<open>bs\<close> are the erase blocks walked so far.\<close>

definition fill_ok :: "fill_state \<Rightarrow> u32 list \<Rightarrow> bool" where
  "fill_ok st bs \<longleftrightarrow> (case st of (regs, start, position, cur) \<Rightarrow>
     cur \<noteq> 0 \<and> tiled 0 regs \<and> unat start = bytes (expand (region_runs regs)) \<and>
     (\<exists>k. bs = expand (region_runs regs) @ replicate k cur \<and> unat position = bytes bs))"

lemma unat_of_nat_64: "n < 2 ^ 64 \<Longrightarrow> unat (of_nat n :: u64) = n"
  by (simp add: unsigned_of_nat take_bit_nat_eq_self)

lemma put_region_ok:
  assumes "fill_ok (regs, start, position, cur) bs" and "div_fns_ok lib" and "length regs < n" and "length bs < 2 ^ 32"
  shows "\<exists>regs'. put_region lib n regs start position cur = Some regs' \<and> length regs' = Suc (length regs) \<and>
    tiled 0 regs' \<and> expand (region_runs regs') = bs"
proof -
  from assms(1) obtain k where k: "cur \<noteq> 0" "tiled 0 regs" "unat start = bytes (expand (region_runs regs))"
    "bs = expand (region_runs regs) @ replicate k cur" "unat position = bytes bs" by (auto simp: fill_ok_def)
  have cur: "0 < unat cur" using k(1) by (simp add: unat_gt_0)
  have "unat (position - start) = k * unat cur" using k(3-5) by (simp add: unat_sub_64)
  then have "unat ((position - start) div ucast cur) = k"
    using cur by (simp add: unat_div_distrib unat_ucast_up)
  moreover have "k < 2 ^ 32" using assms(4) k(4) by simp
  ultimately have q: "unat (ucast ((position - start) div ucast cur) :: u32) = k"
    by (simp add: unat_ucast_down)
  let ?r = "\<lparr>er_offset = start, er_erasesize = cur, er_numblocks = ucast ((position - start) div ucast cur)\<rparr>"
  have "put_region lib n regs start position cur = Some (regs @ [?r])"
    using assms(2,3) k(1) by (simp add: put_region_def div_fns_ok_def)
  then show ?thesis using k q by simp
qed

lemma fill_runs_ok:
  assumes "fill_ok (regs, start, position, cur) bs" and lib: "div_fns_ok lib" and "\<forall>r\<in>set runs. fst r \<noteq> 0"
    and "length regs + changes cur runs < n" and "bytes bs + bytes (expand runs) < 2 ^ 64"
    and "length bs + length (expand runs) < 2 ^ 32"
  shows "\<exists>regs' start' position' cur'. fill_runs lib n runs (regs, start, position, cur) =
      Some (regs', start', position', cur') \<and> fill_ok (regs', start', position', cur') (bs @ expand runs) \<and>
      length regs' = length regs + changes cur runs"
  using assms(1,3-)
proof (induction runs arbitrary: regs start position cur bs)
  case (Cons r runs)
  obtain e k where r: "r = (e, k)" by (cases r)
  obtain j where j: "cur \<noteq> 0" "tiled 0 regs" "unat start = bytes (expand (region_runs regs))"
    "bs = expand (region_runs regs) @ replicate j cur" "unat position = bytes bs"
    using Cons.prems(1) by (auto simp: fill_ok_def)
  have "e \<noteq> 0" using Cons.prems(2) r by simp
  have "k * unat e < 2 ^ 64" "bytes bs + k * unat e < 2 ^ 64" using Cons.prems(4) r by simp_all
  then have adv: "unat (position + of_nat k * ucast e) = bytes bs + k * unat e"
  proof -
    have "of_nat k * ucast e = (of_nat (k * unat e) :: u64)" by (simp add: unsigned_of_nat)
    moreover have "unat (of_nat (k * unat e) :: u64) = k * unat e"
      by (rule unat_of_nat_64) fact
    ultimately have "unat (of_nat k * ucast e :: u64) = k * unat e" by (simp only:)
    then show ?thesis using \<open>bytes bs + k * unat e < 2 ^ 64\<close> j(5) by (simp add: unat_add_64)
  qed
  show ?case
  proof (cases "e = cur")
    case True
    have "fill_ok (regs, start, position + of_nat k * ucast e, cur) (bs @ replicate k e)"
      using j adv True by (auto simp: fill_ok_def replicate_add intro: exI [of _ "j + k"])
    from Cons.IH [OF this] Cons.prems r True show ?thesis
      by (simp add: fill_change_def advance_def)
  next
    case False
    have "length regs < n" "length bs < 2 ^ 32" using Cons.prems(3,5) False r by simp_all
    from put_region_ok [OF Cons.prems(1) lib this] obtain regs' where
      regs': "put_region lib n regs start position cur = Some regs'" "length regs' = Suc (length regs)"
        "tiled 0 regs'" "expand (region_runs regs') = bs" by blast
    have "fill_ok (regs', position, position + of_nat k * ucast e, e) (bs @ replicate k e)"
      using regs' j(5) adv \<open>e \<noteq> 0\<close> by (auto simp: fill_ok_def intro: exI [of _ k])
    from Cons.IH [OF this] Cons.prems r False regs'(1,2) show ?thesis
      by (simp add: fill_change_def advance_def)
  qed
qed auto

section \<open>Creating a concatenated device\<close>

lemma expand_concat: "expand (concat xss) = concat (map expand xss)"
  by (induction xss) auto

lemma expand_same: "\<forall>r\<in>set runs. fst r = e \<Longrightarrow> expand runs = replicate (length (expand runs)) e"
proof (induction runs)
  case (Cons r runs)
  then obtain k where "r = (e, k)" by (cases r) auto
  with Cons show ?case by (simp add: replicate_add)
qed simp

lemma set_expand: "b \<in> set (expand runs) \<Longrightarrow> \<exists>r\<in>set runs. fst r = b"
  by (induction runs) (auto split: if_splits)

lemma concat_regions_ok:
  assumes lib: "div_fns_ok lib" and ne: "subs \<noteq> []" and ok: "\<forall>s\<in>set subs. blocks_ok s"
    and bs: "bs = concat (map erase_blocks subs)"
    and sz: "unat (mtd_size mtd) = bytes bs" "length bs < 2 ^ 32"
  shows "\<exists>r. concat_regions lib alloc subs mtd = Some r \<and> (\<forall>m. r = Some m \<longrightarrow>
    (\<exists>e rs. m = mtd\<lparr>erasesize := e, eraseregions := rs\<rparr> \<and> erase_blocks m = bs \<and> tiled 0 rs \<and> (\<forall>b\<in>set bs. b \<le> e)))"
proof -
  define runs where "runs = concat (map erase_runs subs)"
  have bsr: "bs = expand runs"
    unfolding bs runs_def expand_concat map_map
    by (intro arg_cong [where f = concat] map_cong) (simp_all add: erase_blocks_def)
  obtain s0 rest where s0: "subs = s0 # rest" using ne by (cases subs) auto
  have e0: "erasesize s0 \<noteq> 0" "0 < unat (erasesize s0)" using ok s0 by (simp_all add: blocks_ok_def unat_gt_0)
  have nz: "\<forall>r\<in>set runs. fst r \<noteq> 0" using ok by (auto simp: runs_def blocks_ok_def)
  obtain n cur big where cnt: "count_regions subs (1, erasesize s0, erasesize s0) = (n, cur, big)"
    by (cases "count_regions subs (1, erasesize s0, erasesize s0)") auto
  from cnt have "fold (\<lambda>r. count_change (fst r)) runs (1, erasesize s0, erasesize s0) = (n, cur, big)"
    by (simp add: count_regions_fold runs_def)
  from count_fold [OF this order_refl] have n: "n = 1 + changes (erasesize s0) runs"
    "cur = (if runs = [] then erasesize s0 else fst (last runs))" and mx: "\<forall>r\<in>set runs. fst r \<le> big" by auto
  show ?thesis
  proof (cases "n = 1")
    case True
    then have all: "\<forall>r\<in>set runs. fst r = erasesize s0" using n(1) changes_0 by simp
    then have cur: "cur = erasesize s0" using n(2) by (cases "runs = []") auto
    have rep: "bs = replicate (length bs) (erasesize s0)" unfolding bsr using all by (rule expand_same)
    then have "bytes bs = length bs * unat (erasesize s0)" by (metis bytes_simps(4))
    then have "unat (mtd_size mtd) div unat (erasesize s0) = length bs" using sz(1) e0(2) by simp
    then have "erase_blocks (mtd\<lparr>erasesize := cur, eraseregions := []\<rparr>) = bs"
      using rep by (simp add: erase_blocks_def erase_runs_def cur)
    moreover have "\<forall>b\<in>set bs. b \<le> cur" unfolding cur bsr using all by (metis order_refl set_expand)
    moreover have "concat_regions lib alloc subs mtd = Some (Some (mtd\<lparr>erasesize := cur, eraseregions := []\<rparr>))"
      using s0 cnt True by (simp add: concat_regions_def)
    ultimately show ?thesis by fastforce
  next
    case f: False
    show ?thesis
    proof (cases alloc)
      case False
      with f s0 cnt show ?thesis by (simp add: concat_regions_def)
    next
      case True
      have fo: "fill_ok ([], 0, 0, erasesize s0) []" using e0 by (auto simp: fill_ok_def)
      have b64: "bytes [] + bytes (expand runs) < 2 ^ 64" using sz(1) u64_lt [of "mtd_size mtd"] by (simp add: bsr)
      have l32: "length [] + length (expand runs) < 2 ^ 32" using sz(2) by (simp add: bsr)
      have ch: "length ([] :: erase_region list) + changes (erasesize s0) runs < n" using n(1) by simp
      from fill_runs_ok [OF fo lib nz ch b64 l32] obtain regs start position c where
        fl: "fill_runs lib n runs ([], 0, 0, erasesize s0) = Some (regs, start, position, c)"
          "fill_ok (regs, start, position, c) bs" "length regs = changes (erasesize s0) runs"
        by (auto simp: bsr)
      have "length regs < n" using fl(3) n(1) by simp
      from put_region_ok [OF fl(2) lib this sz(2)] obtain regs' where
        pr: "put_region lib n regs start position c = Some regs'" "length regs' = Suc (length regs)"
          "tiled 0 regs'" "expand (region_runs regs') = bs" by blast
      have "regs' \<noteq> []" using pr(2) by auto
      then have "erase_blocks (mtd\<lparr>erasesize := big, eraseregions := regs'\<rparr>) = bs"
        using pr(4) by (simp add: erase_blocks_def erase_runs_def)
      moreover have "\<forall>b\<in>set bs. b \<le> big" unfolding bsr using mx by (metis set_expand)
      moreover have "concat_regions lib alloc subs mtd = Some (Some (mtd\<lparr>erasesize := big, eraseregions := regs'\<rparr>))"
        using s0 cnt f True fl(1) pr(1) fill_regions_runs [OF ok, of lib n]
        by (simp add: concat_regions_def runs_def)
      ultimately show ?thesis using pr(3) by fastforce
    qed
  qed
qed

lemma writeable_or: "and (or f (and g MTD_WRITEABLE)) MTD_WRITEABLE \<noteq> 0 \<longleftrightarrow>
    and f MTD_WRITEABLE \<noteq> 0 \<or> and g MTD_WRITEABLE \<noteq> 0"
  by (simp add: word_ao_dist and.assoc or_eq_0_iff)

lemma concat_join_ok:
  assumes "concat_join s0 l mtd = Some m"
  shows "\<exists>fl bb. m = mtd\<lparr>mtd_flags := fl, mtd_size := mtd_size mtd + sum_list (map (mtd_size \<circ> fst) l),
      ecc_badblocks := bb\<rparr> \<and>
    (and fl MTD_WRITEABLE \<noteq> 0 \<longleftrightarrow> writeable mtd \<or> (\<exists>s\<in>fst ` set l. writeable s))"
  using assms
proof (induction l arbitrary: mtd)
  case Nil
  then show ?case
    by - (rule exI [of _ "mtd_flags mtd"], rule exI [of _ "ecc_badblocks mtd"], simp)
next
  case (Cons x l)
  obtain sub ops where x: "x = (sub, ops)" by (cases x)
  define m1 where "m1 = (if mtd_flags mtd \<noteq> mtd_flags sub
    then mtd\<lparr>mtd_flags := or (mtd_flags mtd) (and (mtd_flags sub) MTD_WRITEABLE)\<rparr> else mtd)"
  define m2 where "m2 = m1\<lparr>mtd_size := mtd_size m1 + mtd_size sub, ecc_badblocks := ecc_badblocks m1 + ecc_badblocks sub\<rparr>"
  from Cons.prems x have "concat_join s0 l m2 = Some m"
    unfolding concat_join.simps x Let_def m1_def [symmetric] m2_def [symmetric] by (simp split: if_splits)
  from Cons.IH [OF this] obtain fl bb where
    m: "m = m2\<lparr>mtd_flags := fl, mtd_size := mtd_size m2 + sum_list (map (mtd_size \<circ> fst) l), ecc_badblocks := bb\<rparr>"
    "and fl MTD_WRITEABLE \<noteq> 0 \<longleftrightarrow> writeable m2 \<or> (\<exists>s\<in>fst ` set l. writeable s)" by blast
  have "writeable m2 \<longleftrightarrow> writeable mtd \<or> writeable sub"
    by (simp add: m2_def m1_def writeable_or)
  then have "and fl MTD_WRITEABLE \<noteq> 0 \<longleftrightarrow> writeable mtd \<or> (\<exists>s\<in>fst ` set (x # l). writeable s)"
    using m(2) x by auto
  moreover have "m = mtd\<lparr>mtd_flags := fl, mtd_size := mtd_size mtd + sum_list (map (mtd_size \<circ> fst) (x # l)),
      ecc_badblocks := bb\<rparr>"
    using m(1) x by (simp add: m2_def m1_def add.assoc)
  ultimately show ?case by blast
qed

lemma sum_list_unat:
  assumes "sum_list (map (unat \<circ> f) l) < 2 ^ 64"
  shows "unat (sum_list (map f l) :: u64) = sum_list (map (unat \<circ> f) l)"
  using assms by (induction l) (simp_all add: unat_add_64)

lemma infos_length: "infos w as = Some ms \<Longrightarrow> length ms = length as"
  by (induction as arbitrary: ms) (auto split: Option.bind_splits)

lemma bytes_concat: "bytes (concat bss) = sum_list (map bytes bss)"
  by (induction bss) auto

lemma fst_zip_same: "length xs = length ys \<Longrightarrow> map (f \<circ> fst) (zip xs ys) = map f xs"
  by (induction xs ys rule: list_induct2) auto

text \<open>C29: \<open>mtd_concat_create\<close> never faults on devices whose erase blocks cover them.  It either returns
  \<open>NULL\<close> and changes nothing, or a new device that is as large as its subdevices together, whose erase
  blocks, read off its erase size or its table of regions, are those of the subdevices in a row, whose
  regions tile it from 0 on, whose erase size is at least that of every block, and which is writeable
  when one of the subdevices is.\<close>

theorem mtd_concat_create_blocks:
  assumes "infos w subs = Some ms" and "ms \<noteq> []" and "\<forall>m\<in>set ms. blocks_ok m" and "div_fns_ok lib"
    and "sum_list (map (unat \<circ> mtd_size) ms) < 2 ^ 64" and "length (concat (map erase_blocks ms)) < 2 ^ 32"
  shows "\<exists>r w'. mtd_concat_create lib regions_alloc dev subs name w = Some (r, w') \<and>
    (case r of None \<Rightarrow> w' = w
     | Some c \<Rightarrow> kzalloc lib w = Some c \<and> (\<exists>m. w' = set_info c m w \<and> mtd_name m = name \<and>
         unat (mtd_size m) = sum_list (map (unat \<circ> mtd_size) ms) \<and>
         erase_blocks m = concat (map erase_blocks ms) \<and> tiled 0 (eraseregions m) \<and>
         (\<forall>b\<in>set (erase_blocks m). b \<le> erasesize m) \<and>
         (writeable m \<longleftrightarrow> (\<exists>s\<in>set ms. writeable s))))"
proof -
  obtain m0 rest where ms: "ms = m0 # rest" using assms(2) by (cases ms) auto
  have len: "length ms = length subs" using infos_length [OF assms(1)] .
  then obtain a as where subs: "subs = a # as" "length rest = length as" using ms by (cases subs) auto
  show ?thesis
  proof (cases "kzalloc lib w")
    case None
    then show ?thesis using assms(1) by (simp add: mtd_concat_create_def)
  next
    case (Some c)
    let ?l = "zip rest (map dev as)"
    have ml: "map (mtd_size \<circ> fst) ?l = map mtd_size rest" "fst ` set ?l = set rest"
      using subs(2) by (simp_all add: fst_zip_same) (metis length_map list.set_map map_fst_zip)
    show ?thesis
    proof (cases "concat_join (dev a) ?l (concat_init m0 name)")
      case None
      then show ?thesis using assms(1) Some ms subs by (simp add: mtd_concat_create_def)
    next
      case (Some mtd)
      from concat_join_ok [OF this] obtain fl bb where
        mtd: "mtd = (concat_init m0 name)\<lparr>mtd_flags := fl,
            mtd_size := mtd_size (concat_init m0 name) + sum_list (map (mtd_size \<circ> fst) ?l), ecc_badblocks := bb\<rparr>"
          "and fl MTD_WRITEABLE \<noteq> 0 \<longleftrightarrow> writeable (concat_init m0 name) \<or> (\<exists>s\<in>fst ` set ?l. writeable s)" by blast
      have "mtd_size mtd = sum_list (map mtd_size ms)"
        using mtd(1) by (simp add: concat_init_def ml ms)
      then have sz: "unat (mtd_size mtd) = sum_list (map (unat \<circ> mtd_size) ms)"
        using sum_list_unat [OF assms(5)] by simp
      have "map bytes (map erase_blocks ms) = map (unat \<circ> mtd_size) ms"
        using assms(3) by (simp add: blocks_ok_def)
      then have "unat (mtd_size mtd) = bytes (concat (map erase_blocks ms))"
        by (simp only: sz bytes_concat)
      from concat_regions_ok [OF assms(4,2,3) refl this assms(6), of regions_alloc] obtain r where
        r: "concat_regions lib regions_alloc ms mtd = Some r" and
        rm: "\<forall>m. r = Some m \<longrightarrow> (\<exists>e rs. m = mtd\<lparr>erasesize := e, eraseregions := rs\<rparr> \<and>
           erase_blocks m = concat (map erase_blocks ms) \<and> tiled 0 rs \<and>
           (\<forall>b\<in>set (concat (map erase_blocks ms)). b \<le> e))" by blast
      have run: "mtd_concat_create lib regions_alloc dev subs name w =
          (case r of None \<Rightarrow> Some (None, w) | Some m \<Rightarrow> Some (Some c, set_info c m w))"
        using assms(1) \<open>kzalloc lib w = Some c\<close> Some ms subs r by (simp add: mtd_concat_create_def)
      show ?thesis
      proof (cases r)
        case None
        with run show ?thesis by simp
      next
        case (Some m)
        then obtain e rs where m: "m = mtd\<lparr>erasesize := e, eraseregions := rs\<rparr>"
          "erase_blocks m = concat (map erase_blocks ms)" "tiled 0 rs"
          "\<forall>b\<in>set (concat (map erase_blocks ms)). b \<le> e" using rm by blast
        have "mtd_name m = name" "unat (mtd_size m) = sum_list (map (unat \<circ> mtd_size) ms)"
          "tiled 0 (eraseregions m)" "\<forall>b\<in>set (erase_blocks m). b \<le> erasesize m"
          using m sz mtd(1) by (simp_all add: concat_init_def)
        moreover have "writeable m \<longleftrightarrow> (\<exists>s\<in>set ms. writeable s)"
          using mtd by (simp add: m(1) ml(2) ms concat_init_def)
        ultimately show ?thesis using run Some m(2) \<open>kzalloc lib w = Some c\<close>
          by (intro exI [of _ "Some c"] exI [of _ "set_info c m w"]) (simp, rule exI [of _ m], simp)
      qed
    qed
  qed
qed

theorem mtd_concat_create_blocks_witness:
  "\<exists>r w'. mtd_concat_create ram_lib True ram_dev [3, 2] ''cat'' ram_world = Some (r, w')"
proof -
  have i: "infos ram_world [3, 2] = Some [ram_info 8, ram_info 8]" by (simp add: ram_world_def)
  have b: "\<forall>m\<in>set [ram_info 8, ram_info 8]. blocks_ok m"
    by (simp add: blocks_ok_def erase_blocks_def erase_runs_def ram_info_def demo_mtd_def)
  have d: "div_fns_ok (ram_lib :: (addr \<Rightarrow> u8 list) mtd_lib)" using ram_master_ok by (simp add: master_ok_def)
  have l: "length (concat (map erase_blocks [ram_info 8, ram_info 8])) < 2 ^ 32"
    "sum_list (map (unat \<circ> mtd_size) [ram_info 8, ram_info 8]) < 2 ^ 64"
    by (simp_all add: erase_blocks_def erase_runs_def ram_info_def demo_mtd_def)
  show ?thesis
    using mtd_concat_create_blocks [where lib = ram_lib and regions_alloc = True and dev = ram_dev and name = "''cat''",
      OF i _ b d l(2,1)] by auto
qed

section \<open>Out-of-band reads across three subdevices\<close>

text \<open>Subdevices that deliver a fixed number of out-of-band bytes and no data, and note where they were
  told to put them.\<close>

definition oob_req :: "u32 \<Rightarrow> addr \<Rightarrow> oob_ops" where
  "oob_req n p = \<lparr>oo_len = 0, oo_retlen = 0, oo_ooblen = n, oo_oobretlen = 0, oo_datbuf = None, oo_oobbuf = Some p\<rparr>"

text \<open>A subdevice hands over at most \<open>k\<close> of the bytes asked for, all with the value \<open>v\<close>.\<close>

definition oob_dev :: "u32 \<Rightarrow> u8 \<Rightarrow> 'f oob_fn" where
  "oob_dev k v = (\<lambda>pos ops w. case oo_oobbuf ops of None \<Rightarrow> None
     | Some p \<Rightarrow> let n = min k (oo_ooblen ops)
                 in Some (0, ops\<lparr>oo_retlen := 0, oo_oobretlen := n\<rparr>,
                          w\<lparr>mem := store (mem w) p (replicate (unat n) v)\<rparr>))"

lemma triple_le:
  assumes "3 * unat (k :: u32) < 2 ^ 32"
  shows "k \<le> 3 * k" "k \<le> 2 * k" "k \<noteq> 0 \<Longrightarrow> 2 * k \<noteq> 0"
proof -
  have u: "unat (3 * k) = 3 * unat k" "unat (2 * k) = 2 * unat k"
    using assms by (simp_all add: unat_word_ariths)
  then show "k \<le> 3 * k" "k \<le> 2 * k" by (simp_all add: word_le_nat_alt)
  show "2 * k \<noteq> 0" if "k \<noteq> 0"
  proof
    assume "2 * k = 0"
    then have "unat (2 * k) = 0" by simp
    with u(2) have "unat k = 0" by simp
    with that show False by (simp add: unat_eq_zero)
  qed
qed

text \<open>C37: an out-of-band read of \<open>3 k\<close> bytes that three subdevices serve with \<open>k\<close> bytes each succeeds but
  puts the bytes of the third one behind the end of the caller's buffer, and leaves the last third of
  the buffer as it was: \<open>devops.oobbuf\<close> is advanced by the total so far instead of by what the last
  subdevice delivered.\<close>

theorem concat_read_oob_overruns:
  assumes "info w s1 = Some m1" "0 < mtd_size m1" "op_read_oob (dev s1) = Some (oob_dev k v1)"
    and "info w s2 = Some m2" "0 < mtd_size m2" "op_read_oob (dev s2) = Some (oob_dev k v2)"
    and "info w s3 = Some m3" "0 < mtd_size m3" "op_read_oob (dev s3) = Some (oob_dev k v3)"
    and "k \<noteq> 0" and "3 * unat k < 2 ^ 32"
  shows "\<exists>ops. concat_read_oob dev c [s1, s2, s3] 0 (oob_req (3 * k) p) w =
    Some (0, ops, w\<lparr>mem := store (store (store (mem w) p (replicate (unat k) v1))
      (p + unat k) (replicate (unat k) v2)) (p + unat (3 * k)) (replicate (unat k) v3)\<rparr>)"
proof -
  have u: "unat (3 * k) = 3 * unat k" "unat (2 * k) = 2 * unat k"
    using assms(11) by (simp_all add: unat_word_ariths)
  have ar: "3 * k - k = 2 * k" "3 * k - 2 * k = k" "2 * k + k = 3 * k" "k + k = 2 * k" by simp_all
  note t = triple_le [OF assms(11)]
  show ?thesis
    using assms(1-10) t u
    by (simp add: concat_read_oob_def oob_req_def oob_dev_def note_bitflips_def min_absorb1 ar word_gt_0 Let_def
        flip: add.assoc) (simp add: add.commute)
qed

theorem concat_read_oob_overruns_witness:
  "\<exists>ops. concat_read_oob (\<lambda>s. (ram_ops s)\<lparr>op_read_oob := Some (oob_dev 2 (of_nat s))\<rparr>) 4 [1, 2, 3] 0 (oob_req 6 100)
      ram_world =
    Some (0, ops, ram_world\<lparr>mem := store (store (store (\<lambda>_. 0) 100 [1, 1]) 102 [2, 2]) 106 [3, 3]\<rparr>)"
proof -
  have i: "info ram_world 1 = Some (ram_info 16)" "info ram_world 2 = Some (ram_info 8)"
    "info ram_world 3 = Some (ram_info 8)" "mem ram_world = (\<lambda>_. 0)" by (simp_all add: ram_world_def)
  have r: "replicate 2 x = [x, x]" for x :: u8 by (simp add: numeral_2_eq_2)
  show ?thesis
    using concat_read_oob_overruns [where dev = "\<lambda>s. (ram_ops s)\<lparr>op_read_oob := Some (oob_dev 2 (of_nat s))\<rparr>"
      and k = 2 and c = 4 and p = 100 and ?v1.0 = 1 and ?v2.0 = 2 and ?v3.0 = 3, OF i(1) _ _ i(2) _ _ i(3)]
    by (simp add: ram_info_def demo_mtd_def i(4) r)
qed

end
