(* ===== verification/PitRead.thy ===== *)
theory PitRead
  imports MtdConcatFlat
begin

text \<open>
  Reading a partition on flash with bad blocks, \<open>i4NFBPartitionRead\<close> of
  \<open>drivers/mtd/nand/mt85xx_part_oper.c\<close>.

  The code addresses the flash by logical offsets that count good blocks only: it first walks over
  the blocks in front of the offset and moves the start by one block for each bad one, then reads
  page by page and jumps over the bad blocks that it meets.  \<open>good_bytes\<close> is the content that this
  is meant to give, the good blocks in a row.

  The device comes from \<open>get_mtd_device\<close> of \<open>MtdCore\<close> and its functions are those of \<open>MtdOps\<close>.  The
  fields of \<open>struct mtd_info\<close> that hold the geometry are read once; they do not change.  \<open>None\<close> is a
  fault, or a loop that does not end (a failing \<open>ASSERT\<close> is \<open>while(1);\<close>).
\<close>

section \<open>The board\<close>

text \<open>\<open>mt85xx_get_part_info_by_name\<close> and the items it returns belong to code outside the repository.\<close>

record part_info =
  pi_id :: u32
  pi_info :: u32
  pi_offset :: u32
  pi_size :: u32

record pit_board =
  SONY_GET_REGISTRY :: bool
  mt85xx_get_part_info_by_name :: "string \<Rightarrow> part_info option"

definition get_part_id_by_name :: "pit_board \<Rightarrow> string option \<Rightarrow> u32" where
  "get_part_id_by_name B part_name =
     (case part_name of None \<Rightarrow> 0
      | Some s \<Rightarrow> (case mt85xx_get_part_info_by_name B s of None \<Rightarrow> 0 | Some t \<Rightarrow> pi_id t))"

definition get_part_info_by_name :: "pit_board \<Rightarrow> string option \<Rightarrow> u32" where
  "get_part_info_by_name B part_name =
     (case part_name of None \<Rightarrow> 0
      | Some s \<Rightarrow> (case mt85xx_get_part_info_by_name B s of None \<Rightarrow> 0 | Some t \<Rightarrow> pi_info t))"

definition get_part_addr_by_name :: "pit_board \<Rightarrow> string option \<Rightarrow> u32" where
  "get_part_addr_by_name B part_name =
     (case part_name of None \<Rightarrow> 0
      | Some s \<Rightarrow> (case mt85xx_get_part_info_by_name B s of None \<Rightarrow> 0 | Some t \<Rightarrow> pi_offset t))"

definition get_part_size_by_name :: "pit_board \<Rightarrow> string option \<Rightarrow> u32" where
  "get_part_size_by_name B part_name =
     (case part_name of None \<Rightarrow> 0
      | Some s \<Rightarrow> (case mt85xx_get_part_info_by_name B s of None \<Rightarrow> 0 | Some t \<Rightarrow> pi_size t))"

text \<open>\<open>mtd = get_mtd_device(NULL, u4DevId);\<close>  The result is dereferenced without a test for \<open>ERR_PTR\<close>,
  and the reference is never given back.\<close>

definition mtd_get :: "u32 \<Rightarrow> 'f mtd_world \<Rightarrow> (addr \<times> mtd_info \<times> 'f mtd_world) option" where
  "mtd_get u4DevId w =
     do { (r, c) \<leftarrow> get_mtd_device (mtdc w) None (sint u4DevId);
          case r of Inl e \<Rightarrow> None
          | Inr a \<Rightarrow> do { m \<leftarrow> mtd_objs c a; Some (a, m, w\<lparr>mtdc := c\<rparr>) } }"

definition get_page_size :: "'f mtd_world \<Rightarrow> (u32 \<times> 'f mtd_world) option" where
  "get_page_size w = do { (a, m, w) \<leftarrow> mtd_get 0 w; Some (writesize m, w) }"

definition get_block_size :: "'f mtd_world \<Rightarrow> (u32 \<times> 'f mtd_world) option" where
  "get_block_size w = do { (a, m, w) \<leftarrow> mtd_get 0 w; Some (erasesize m, w) }"

section \<open>Reading\<close>

text \<open>\<open>x & (~mtd->erasesize + 1)\<close>, and a call of \<open>mtd->block_isbad\<close> through its pointer.\<close>

definition block_base :: "mtd_info \<Rightarrow> u32 \<Rightarrow> u32" where
  "block_base m x = x AND (NOT (erasesize m) + 1)"

definition call_isbad :: "'f mtd_ops \<Rightarrow> u64 \<Rightarrow> 'f mtd_world \<Rightarrow> (int \<times> 'f mtd_world) option" where
  "call_isbad ops ofs w = (case op_block_isbad ops of None \<Rightarrow> None | Some f \<Rightarrow> f ofs w)"

text \<open>The first loop, over the blocks from \<open>ofs\<close> to that of \<open>start_addr\<close>.  The result is the last \<open>i4Ret\<close>
  and \<open>start_addr\<close>; \<open>None\<close> inside it is \<open>goto closeall\<close>.\<close>

partial_function (option) skip_prefix ::
  "mtd_info \<Rightarrow> 'f mtd_ops \<Rightarrow> u32 \<Rightarrow> u32 \<Rightarrow> int \<Rightarrow> 'f mtd_world \<Rightarrow> ((int \<times> u32) option \<times> 'f mtd_world) option"
where
  "skip_prefix m ops ofs start_addr i4Ret w =
     (if ofs < block_base m start_addr \<and> ucast ofs < mtd_size m
      then do { (i4Ret, w) \<leftarrow> call_isbad ops (ucast ofs) w;
                if i4Ret < 0 then Some (None, w)
                else skip_prefix m ops (ofs + erasesize m)
                       (if i4Ret = 1 then start_addr + erasesize m else start_addr) i4Ret w }
      else Some (Some (i4Ret, start_addr), w))"

declare skip_prefix.simps [code]

text \<open>How much the next read takes, with \<open>rem\<close> bytes still wanted.\<close>

definition page_len :: "mtd_info \<Rightarrow> u32 \<Rightarrow> u32 \<Rightarrow> u32" where
  "page_len m ofs rem =
     (if ofs mod writesize m \<noteq> 0 \<and> writesize m \<le> rem then writesize m - ofs mod writesize m
      else if rem < writesize m then rem
      else writesize m)"

text \<open>\<open>if (blockstart != (ofs & ...))\<close>: the new \<open>blockstart\<close> and \<open>badblock\<close>.\<close>

definition check_block ::
  "mtd_info \<Rightarrow> 'f mtd_ops \<Rightarrow> u32 \<Rightarrow> u32 \<Rightarrow> int \<Rightarrow> 'f mtd_world \<Rightarrow> (u32 \<times> int \<times> 'f mtd_world) option" where
  "check_block m ops ofs blockstart badblock w =
     (if blockstart \<noteq> block_base m ofs
      then do { (badblock, w) \<leftarrow> call_isbad ops (ucast (block_base m ofs)) w;
                Some (block_base m ofs, badblock, w) }
      else Some (blockstart, badblock, w))"

text \<open>The second loop.  \<open>cnt\<close> is \<open>u4RdByteCnt\<close>, \<open>len\<close> is \<open>u4MemLen\<close>; \<open>badblock\<close> can be negative only when it
  has just been asked for.\<close>

partial_function (option) nfb_read_loop ::
  "mtd_info \<Rightarrow> 'f mtd_ops \<Rightarrow> addr \<Rightarrow> u32 \<Rightarrow> u32 \<Rightarrow> u32 \<Rightarrow> int \<Rightarrow> u32 \<Rightarrow> int \<Rightarrow> 'f mtd_world
    \<Rightarrow> ((int \<times> u32) option \<times> 'f mtd_world) option"
where
  "nfb_read_loop m ops buf len ofs blockstart badblock cnt i4Ret w =
     (if ucast ofs < mtd_size m \<and> cnt < len
      then do { (blockstart, badblock, w) \<leftarrow> check_block m ops ofs blockstart badblock w;
                if badblock < 0 then Some (None, w)
                else if badblock \<noteq> 0
                then nfb_read_loop m ops buf len (ofs + erasesize m) blockstart 0 cnt i4Ret w
                else do { (i4Ret, u4RdLen, w) \<leftarrow>
                            op_read ops (ucast ofs) (page_len m ofs (len - cnt)) (buf + unat cnt) w;
                          if i4Ret < 0 then Some (None, w)
                          else nfb_read_loop m ops buf len (ofs + u4RdLen) blockstart badblock
                                 (cnt + u4RdLen) i4Ret w } }
      else Some (Some (i4Ret, cnt), w))"

declare nfb_read_loop.simps [code]

text \<open>Everything behind the search for the start: the second loop and the test for a short read.\<close>

definition nfb_read_from ::
  "mtd_info \<Rightarrow> 'f mtd_ops \<Rightarrow> u32 \<Rightarrow> addr \<Rightarrow> u32 \<Rightarrow> int \<Rightarrow> 'f mtd_world \<Rightarrow> (int \<times> 'f mtd_world) option" where
  "nfb_read_from m ops start_addr buf len i4Ret w =
     do { (r, w) \<leftarrow> nfb_read_loop m ops buf len start_addr 1 0 0 i4Ret w;
          case r of None \<Rightarrow> Some (-1, w)
          | Some (i4Ret, cnt) \<Rightarrow> if cnt < len then Some (-1, w) else Some (i4Ret, w) }"

text \<open>\<open>((u4MemLen / pagelen) * mtd->writesize) > (mtd->size - u8Offset)\<close>, which divides by the page size.\<close>

definition too_long :: "mtd_info \<Rightarrow> u32 \<Rightarrow> u32 \<Rightarrow> bool option" where
  "too_long m off len =
     (if writesize m = 0 then None
      else Some (mtd_size m - ucast off < (ucast (len div writesize m * writesize m) :: u64)))"

text \<open>\<open>b_get_registry\<close> is the global flag; \<open>dev\<close> gives the functions of the device at an address.\<close>

definition registry_start :: "pit_board \<Rightarrow> bool \<Rightarrow> u32 \<Rightarrow> u32" where
  "registry_start B b_get_registry u4DevId =
     (if SONY_GET_REGISTRY B \<and> b_get_registry \<and> u4DevId = 0
      then get_part_addr_by_name B (Some ''fast_init_param'') else 0)"

definition i4NFBPartitionRead ::
  "pit_board \<Rightarrow> (addr \<Rightarrow> 'f mtd_ops) \<Rightarrow> bool \<Rightarrow> u32 \<Rightarrow> u32 \<Rightarrow> addr \<Rightarrow> u32 \<Rightarrow> 'f mtd_world
    \<Rightarrow> (int \<times> 'f mtd_world) option" where
  "i4NFBPartitionRead B dev b_get_registry u4DevId u8Offset u4MemPtr u4MemLen w =
     (if u4MemPtr = 0 then None
      else do { (a, m, w) \<leftarrow> mtd_get u4DevId w;
                long \<leftarrow> too_long m u8Offset u4MemLen;
                if long then Some (-1, w)
                else do { (r, w) \<leftarrow> skip_prefix m (dev a) (registry_start B b_get_registry u4DevId) u8Offset 0 w;
                          case r of None \<Rightarrow> Some (-1, w)
                          | Some (i4Ret, start_addr) \<Rightarrow>
                              nfb_read_from m (dev a) start_addr u4MemPtr u4MemLen i4Ret w } })"

definition i4NFBPartitionRead_NoSkipBad ::
  "(addr \<Rightarrow> 'f mtd_ops) \<Rightarrow> u32 \<Rightarrow> u32 \<Rightarrow> addr \<Rightarrow> u32 \<Rightarrow> 'f mtd_world \<Rightarrow> (int \<times> 'f mtd_world) option" where
  "i4NFBPartitionRead_NoSkipBad dev u4DevId u8Offset u4MemPtr u4MemLen w =
     (if u4MemPtr = 0 then None
      else do { (a, m, w) \<leftarrow> mtd_get u4DevId w;
                long \<leftarrow> too_long m u8Offset u4MemLen;
                if long then Some (-1, w)
                else nfb_read_from m (dev a) u8Offset u4MemPtr u4MemLen 0 w })"

section \<open>The contract of the flash\<close>

text \<open>A device whose content is \<open>C\<close>, made of blocks of \<open>2 ^ j\<close> bytes with pages of \<open>ws\<close> bytes, of which
  those in \<open>bad\<close> are bad.  It answers reads and questions for bad blocks without error.\<close>

definition geometry :: "mtd_info \<Rightarrow> nat \<Rightarrow> nat \<Rightarrow> nat \<Rightarrow> bool" where
  "geometry m n j ws \<longleftrightarrow> 0 < j \<and> j < 31 \<and> erasesize m = 2 ^ j \<and> 0 < ws \<and> ws dvd 2 ^ j \<and> unat (writesize m) = ws \<and>
     2 ^ j dvd n \<and> n \<le> 2 ^ 31 \<and> unat (mtd_size m) = n"

definition reports_bad ::
  "('f mtd_world \<Rightarrow> bool) \<Rightarrow> ('f mtd_world \<Rightarrow> u8 list) \<Rightarrow> ('f mtd_world \<Rightarrow> 'r) \<Rightarrow> nat \<Rightarrow> (nat \<Rightarrow> bool) \<Rightarrow> 'f mtd_ops
    \<Rightarrow> bool" where
  "reports_bad I C R es bad ops \<longleftrightarrow> (\<forall>w ofs. I w \<longrightarrow> unat ofs < length (C w) \<longrightarrow>
     (\<exists>w'. call_isbad ops ofs w = Some (if bad (unat ofs div es) then 1 else 0, w') \<and>
        keeps I C R w (C w) (mem w) w'))"

text \<open>The good blocks from block \<open>k\<close> on in a row.\<close>

definition good_from :: "nat \<Rightarrow> (nat \<Rightarrow> bool) \<Rightarrow> u8 list \<Rightarrow> nat \<Rightarrow> u8 list" where
  "good_from es bad c k =
     concat (map (\<lambda>b. slice c (b * es) es) (filter (\<lambda>b. \<not> bad b) [k..<length c div es]))"

abbreviation good_bytes :: "nat \<Rightarrow> (nat \<Rightarrow> bool) \<Rightarrow> u8 list \<Rightarrow> u8 list" where
  "good_bytes es bad c \<equiv> good_from es bad c 0"


section \<open>Blocks and good bytes\<close>

lemma geometryD:
  assumes "geometry m n j ws"
  shows "0 < j" "j < 31" "erasesize m = 2 ^ j" "unat (erasesize m) = 2 ^ j" "0 < ws" "ws dvd 2 ^ j"
    "unat (writesize m) = ws" "2 ^ j dvd n" "n \<le> 2 ^ 31" "unat (mtd_size m) = n" "(2 :: nat) ^ j \<le> 2 ^ 30"
proof -
  show "erasesize m = 2 ^ j" "0 < j" "j < 31" "0 < ws" "ws dvd 2 ^ j"
    "unat (writesize m) = ws" "2 ^ j dvd n" "n \<le> 2 ^ 31" "unat (mtd_size m) = n"
    using assms by (simp_all only: geometry_def)
  then show "unat (erasesize m) = 2 ^ j" by (simp add: unat_pow2)
  show "(2 :: nat) ^ j \<le> 2 ^ 30" by (rule power_increasing) (use \<open>j < 31\<close> in simp_all)
qed

lemma unat_block_base:
  assumes "geometry m n j ws"
  shows "unat (block_base m x) = unat x div 2 ^ j * 2 ^ j"
proof -
  note g = geometryD [OF assms]
  have "block_base m x = x AND NOT (mask j)"
    unfolding block_base_def g(3) by (simp add: minus_eq_not_plus_1 [symmetric] minus_exp_eq_not_mask)
  also have "\<dots> = push_bit j (drop_bit j x)"
    by (rule bit_eqI) (auto simp: bit_ops bit_mask_iff)
  also have "unat \<dots> = unat x div 2 ^ j * 2 ^ j"
  proof -
    have "unat x div 2 ^ j * 2 ^ j < 2 ^ 32" "unat x div 2 ^ j < 2 ^ 32"
      using u32_lt [of x] order_le_less_trans [OF div_times_less_eq_dividend] order_le_less_trans [OF div_le_dividend]
      by blast+
    then show ?thesis
      by (simp add: push_bit_eq_mult unat_word_ariths unat_drop_bit_eq drop_bit_eq_div g(4) [unfolded g(3)])
  qed
  finally show ?thesis .
qed

lemma block_base_eq_iff:
  assumes "geometry m n j ws"
  shows "block_base m x = block_base m y \<longleftrightarrow> unat x div 2 ^ j = unat y div 2 ^ j"
  by (simp add: word_unat_eq_iff unat_block_base [OF assms])

lemma good_from_step:
  "k < length c div es \<Longrightarrow>
   good_from es bad c k = (if bad k then [] else slice c (k * es) es) @ good_from es bad c (Suc k)"
  by (simp add: good_from_def upt_conv_Cons)

lemma good_from_end: "length c div es \<le> k \<Longrightarrow> good_from es bad c k = []"
  by (simp add: good_from_def)

lemma unat_ucast32 [simp]: "unat (ucast (x :: u32) :: u64) = unat x"
  by (rule unat_ucast_up)

lemma block_lt_iff: 
  assumes "(0::nat) < es" "es dvd n" shows "k * es < n \<longleftrightarrow> k < n div es"
  using assms by (auto elim!: dvdE)

abbreviation tail_at :: "nat \<Rightarrow> (nat \<Rightarrow> bool) \<Rightarrow> u8 list \<Rightarrow> nat \<Rightarrow> u8 list" where
  "tail_at es bad c x \<equiv> drop (x mod es) (good_from es bad c (x div es))"

lemma keeps_trans:
  "keeps I C R w c h w1 \<Longrightarrow> keeps I C R w1 c' h' w2 \<Longrightarrow> keeps I C R w c' h' w2"
  by (simp add: keeps_def)

lemma keepsD: 
  assumes "keeps I C R w c h w'"
  shows "I w'" "C w' = c" "mem w' = h" "R w' = R w"
  using assms by (simp_all add: keeps_def)

section \<open>The search for the start\<close>

definition good_count :: "(nat \<Rightarrow> bool) \<Rightarrow> nat \<Rightarrow> nat \<Rightarrow> nat" where
  "good_count bad k b = length (filter (\<lambda>x. \<not> bad x) [k..<b])"

lemma good_count_simps:
  "good_count bad k k = 0"
  "k < b \<Longrightarrow> good_count bad k b = (if bad k then 0 else 1) + good_count bad (Suc k) b"
  by (simp_all add: good_count_def upt_conv_Cons)

lemma skip_prefix_finds:
  assumes g: "geometry m n j ws" and rb: "reports_bad I C R (2 ^ j) bad ops"
  shows "I w \<Longrightarrow> length (C w) = n \<Longrightarrow> unat ofs = k * 2 ^ j \<Longrightarrow> k * 2 ^ j \<le> unat start \<Longrightarrow>
    unat start + (n - k * 2 ^ j) < 2 ^ 32 \<Longrightarrow> ret \<in> {0, 1} \<Longrightarrow>
    \<exists>ret' start' w'. skip_prefix m ops ofs start ret w = Some (Some (ret', start'), w') \<and>
      ret' \<in> {0, 1} \<and> keeps I C R w (C w) (mem w) w' \<and>
      unat start' mod 2 ^ j = unat start mod 2 ^ j \<and>
      ((\<forall>b. k \<le> b \<longrightarrow> b * 2 ^ j \<le> unat start \<longrightarrow> \<not> bad b) \<longrightarrow> start' = start) \<and>
      tail_at (2 ^ j) bad (C w) (unat start') = drop (unat start - k * 2 ^ j) (good_from (2 ^ j) bad (C w) k) \<and>
      k \<le> unat start' div 2 ^ j \<and>
      (unat start' div 2 ^ j \<le> n div 2 ^ j \<longrightarrow>
        unat start - k * 2 ^ j = good_count bad k (unat start' div 2 ^ j) * 2 ^ j + unat start mod 2 ^ j)"
proof (induction "n - k * 2 ^ j" arbitrary: w ofs k start ret rule: less_induct)
  case less
  note geo = geometryD [OF g]
  let ?es = "2 ^ j :: nat"
  have base: "unat (block_base m start) = unat start div ?es * ?es" by (rule unat_block_base [OF g])
  show ?case
  proof (cases "k < unat start div ?es \<and> k * ?es < n")
    case False
    then have "\<not> (ofs < block_base m start \<and> ucast ofs < mtd_size m)"
      using less.prems(3) base geo(10) by (auto simp: word_less_nat_alt)
    then have s: "skip_prefix m ops ofs start ret w = Some (Some (ret, start), w)"
      by (subst skip_prefix.simps) (rule if_not_P)
    have "tail_at ?es bad (C w) (unat start) = drop (unat start - k * ?es) (good_from ?es bad (C w) k)"
    proof (cases "k < unat start div ?es")
      case True
      with False have "n \<le> k * ?es" by simp
      then have "n div ?es \<le> k" by (metis div_le_mono nonzero_mult_div_cancel_right power_not_zero zero_neq_numeral)
      with True less.prems(2) show ?thesis by (simp add: good_from_end)
    next
      case False
      moreover have "k \<le> unat start div ?es"
        using div_le_mono [OF less.prems(4), of ?es] by simp
      ultimately have "unat start div ?es = k" by simp
      then show ?thesis by (metis modulo_nat_def mult.commute)
    qed
    moreover have kd: "k \<le> unat start div ?es" using div_le_mono [OF less.prems(4), of ?es] by simp
    moreover have "unat start - k * ?es = good_count bad k (unat start div ?es) * ?es + unat start mod ?es"
      if "unat start div ?es \<le> n div ?es"
    proof -
      have "unat start div ?es = k"
        using False that kd block_lt_iff [of ?es n k] geo(8) by (metis le_neq_implies_less less_le_trans zero_less_numeral zero_less_power)
      then show ?thesis by (metis add_0 good_count_simps(1) modulo_nat_def mult.commute mult_0)
    qed
    ultimately show ?thesis using s less.prems(1,6) by (auto simp: keeps_def)
  next
    case True
    then have k: "k < n div ?es" using block_lt_iff [of ?es n k] geo(8) by simp
    from True have cond: "ofs < block_base m start \<and> ucast ofs < mtd_size m"
      using less.prems(3) base geo(10) by (auto simp: word_less_nat_alt)
    from rb [unfolded reports_bad_def, rule_format, OF less.prems(1), of "ucast ofs"] True less.prems(2,3)
    obtain w1 where w1: "call_isbad ops (ucast ofs) w = Some (if bad k then 1 else 0, w1)"
      "keeps I C R w (C w) (mem w) w1" by auto
    have es_n: "k * ?es + ?es \<le> n"
      using k by (metis Suc_leI add.commute dvd_mult_div_cancel geo(8) mult.commute mult_Suc mult_le_mono1)
    have kb: "k * ?es + ?es \<le> unat start"
      using True by (metis Suc_leI add.commute div_times_less_eq_dividend le_trans mult_Suc mult_le_mono1)
    have o': "unat (ofs + erasesize m) = Suc k * ?es"
      using less.prems(3) es_n geo(9) geo(4) by (subst unat_word_ariths) simp
    define start1 where "start1 = (if bad k then start + erasesize m else start)"
    have s1: "unat start1 = (if bad k then unat start + ?es else unat start)"
    proof (cases "bad k")
      case b: True
      have "unat start + ?es < 2 ^ 32" using less.prems(5) es_n by simp
      with b show ?thesis unfolding start1_def using geo(4) by (simp add: unat_word_ariths)
    qed (simp add: start1_def)
    have p1: "n - Suc k * ?es < n - k * ?es" using True by (intro diff_less_mono2) simp_all
    have p2: "Suc k * ?es \<le> unat start1" "unat start1 + (n - Suc k * ?es) < 2 ^ 32"
      using kb s1 less.prems(5) es_n by auto
    note k1 = keepsD [OF w1(2)]
    have n1: "length (C w1) = n" using k1 less.prems(2) by simp
    have r1: "(if bad k then 1 else 0 :: int) \<in> {0, 1}" by simp
    from less.hyps [OF p1 k1(1) n1 o' p2 r1, unfolded k1(2,3)]
    obtain ret' start' w' where ih: "skip_prefix m ops (ofs + erasesize m) start1 (if bad k then 1 else 0) w1
         = Some (Some (ret', start'), w')" "ret' \<in> {0, 1}" "keeps I C R w1 (C w) (mem w) w'"
      "unat start' mod ?es = unat start1 mod ?es"
      "(\<forall>b. Suc k \<le> b \<longrightarrow> b * ?es \<le> unat start1 \<longrightarrow> \<not> bad b) \<longrightarrow> start' = start1"
      "tail_at ?es bad (C w) (unat start') = drop (unat start1 - Suc k * ?es) (good_from ?es bad (C w) (Suc k))"
      "Suc k \<le> unat start' div ?es"
      "unat start' div ?es \<le> n div ?es \<longrightarrow>
        unat start1 - Suc k * ?es = good_count bad (Suc k) (unat start' div ?es) * ?es + unat start1 mod ?es"
      by blast
    have "skip_prefix m ops ofs start ret w = Some (Some (ret', start'), w')"
      using ih(1) by (subst skip_prefix.simps) (cases "bad k", simp_all add: cond w1(1) start1_def)
    moreover have "drop (unat start - k * ?es) (good_from ?es bad (C w) k) =
        drop (unat start1 - Suc k * ?es) (good_from ?es bad (C w) (Suc k))"
      using k kb s1 es_n less.prems(2) by (auto simp: good_from_step add.commute)
    moreover have "unat start' mod ?es = unat start mod ?es" using ih(4) s1 by simp
    moreover have "(\<forall>b. k \<le> b \<longrightarrow> b * ?es \<le> unat start \<longrightarrow> \<not> bad b) \<longrightarrow> start' = start"
    proof
      assume good: "\<forall>b. k \<le> b \<longrightarrow> b * ?es \<le> unat start \<longrightarrow> \<not> bad b"
      then have "start1 = start" using less.prems(4) by (simp add: start1_def)
      with good ih(5) show "start' = start" by simp
    qed
    moreover have "unat start - k * ?es = good_count bad k (unat start' div ?es) * ?es + unat start mod ?es"
      if "unat start' div ?es \<le> n div ?es"
    proof -
      have "k < unat start' div ?es" using ih(7) by simp
      moreover have "unat start1 - Suc k * ?es = good_count bad (Suc k) (unat start' div ?es) * ?es + unat start1 mod ?es"
        using ih(8) that by simp
      ultimately show ?thesis using s1 kb by (auto simp: good_count_simps(2))
    qed
    ultimately show ?thesis using ih(2,6,7) keeps_trans [OF w1(2) ih(3)]
      by (intro exI [of _ ret'] exI [of _ start'] exI [of _ w']) simp
  qed
qed


lemma slice_split: "p \<le> q \<Longrightarrow> a + q \<le> length c \<Longrightarrow> slice c a q = slice c a p @ slice c (a + p) (q - p)"
  using take_add [of p "q - p" "drop a c"] by (simp add: slice_def add.commute)

lemma tail_at_end: "es dvd n \<Longrightarrow> length c = n \<Longrightarrow> n \<le> x \<Longrightarrow> tail_at es bad c x = []"
  by (simp add: good_from_end div_le_mono)

lemma drop_slice: "o' \<le> q \<Longrightarrow> drop o' (slice c a q) = slice c (a + o') (q - o')"
  by (simp add: slice_def drop_take add.commute)

text \<open>What is left from a place in a bad and in a good block.\<close>

lemma tail_at_bad:
  assumes "0 < es" and "es dvd length c" and "x < length c" and "bad (x div es)"
  shows "tail_at es bad c x = tail_at es bad c (x + es)"
  using assms good_from_step [of "x div es" c es bad] block_lt_iff [of es "length c" "x div es"]
    order_le_less_trans [OF div_times_less_eq_dividend assms(3)] by (simp add: div_add_self2)

lemma div_mod_block: "q < es \<Longrightarrow> x = b * es + q \<Longrightarrow> x div es = b \<and> x mod es = (q :: nat)"
  by simp

lemma tail_at_good:
  assumes es: "0 < es" "es dvd length c" and x: "x < length c" "\<not> bad (x div es)" and p: "x mod es + p \<le> es"
  shows "tail_at es bad c x = slice c x p @ tail_at es bad c (x + p)"
proof -
  let ?b = "x div es" and ?o = "x mod es"
  have xb: "?b * es + ?o = x" by simp
  have lt: "?b < length c div es" using x(1) es block_lt_iff [of es "length c" ?b]
      order_le_less_trans [OF div_times_less_eq_dividend x(1)] by simp
  have le: "?b * es + es \<le> length c"
    using mult_le_mono1 [OF Suc_leI [OF lt], of es] es(2) by simp
  have o: "?o < es" using es(1) by simp
  have step: "good_from es bad c ?b = slice c (?b * es) es @ good_from es bad c (Suc ?b)"
    using good_from_step [OF lt, of bad] x(2) by simp
  have len: "length (slice c (?b * es) es) = es" using le by simp
  have "tail_at es bad c x = slice c x (es - ?o) @ good_from es bad c (Suc ?b)"
    using o len by (simp add: step drop_slice xb del: length_slice)
  also have "slice c x (es - ?o) = slice c x p @ slice c (x + p) (es - ?o - p)"
    using p le xb by (intro slice_split) linarith+
  finally have l: "tail_at es bad c x = slice c x p @ slice c (x + p) (es - ?o - p) @ good_from es bad c (Suc ?b)"
    by simp
  show ?thesis
  proof (cases "?o + p = es")
    case True
    then have "x + p = Suc ?b * es" using xb by (metis add.assoc add.commute mult_Suc)
    then have "(x + p) div es = Suc ?b" "(x + p) mod es = 0" using es(1) by (simp_all del: mult_Suc)
    with l True show ?thesis by (simp add: slice_def)
  next
    case False
    with p have op: "?o + p < es" by simp
    have "?b * es + (?o + p) = x + p" using xb by simp
    moreover from this have "(x + p) div es = ?b" "(x + p) mod es = ?o + p"
      using div_mod_block [OF op, of "x + p" ?b] by simp_all
    ultimately have "tail_at es bad c (x + p) = slice c (x + p) (es - (?o + p)) @ good_from es bad c (Suc ?b)"
      using op len by (simp add: step drop_slice del: length_slice)
    with l show ?thesis by (simp add: diff_diff_left)
  qed
qed

section \<open>The read loop\<close>

lemma unat_page_len:
  assumes "0 < unat (writesize m)"
  shows "unat (page_len m ofs rem) =
    (let ws = unat (writesize m) in
     if unat ofs mod ws \<noteq> 0 \<and> ws \<le> unat rem then ws - unat ofs mod ws else min (unat rem) ws)"
proof -
  have "ofs mod writesize m \<le> writesize m"
    using assms by (simp add: word_le_nat_alt unat_mod)
  moreover have "ofs mod writesize m = 0 \<longleftrightarrow> unat ofs mod unat (writesize m) = 0"
    by (simp add: unat_mod word_unat_eq_iff)
  ultimately show ?thesis
    by (simp add: page_len_def Let_def unat_mod unat_sub word_le_nat_alt word_less_nat_alt min_def)
qed


definition read_aligned :: "nat \<Rightarrow> nat \<Rightarrow> nat \<Rightarrow> nat \<Rightarrow> bool" where
  "read_aligned es ws x r \<longleftrightarrow> x mod ws = 0 \<or> ws \<le> r \<or> x mod es + r \<le> es"

lemma page_len_facts:
  assumes g: "geometry m n j ws" and al: "read_aligned (2 ^ j) ws (unat ofs) (unat r)" and r: "0 < unat r"
  defines "p \<equiv> unat (page_len m ofs r)"
  shows "0 < p" "p \<le> unat r" "unat ofs mod 2 ^ j + p \<le> 2 ^ j"
    "read_aligned (2 ^ j) ws (unat ofs + p) (unat r - p)"
proof -
  note geo = geometryD [OF g]
  let ?x = "unat ofs" and ?r = "unat r" and ?es = "2 ^ j :: nat"
  obtain q where q: "?es = ws * q" using geo(6) by (elim dvdE)
  have p: "p = (if ?x mod ws \<noteq> 0 \<and> ws \<le> ?r then ws - ?x mod ws else min ?r ws)"
    unfolding p_def using geo(5,7) by (subst unat_page_len) (simp_all add: Let_def)
  have lt: "?x mod ws < ws" using geo(5) by simp
  show "0 < p" "p \<le> ?r" using lt r geo(5) by (auto simp: p min_def)
  have mm: "?x mod ?es mod ws = ?x mod ws" using geo(6) by (rule mod_mod_cancel)
  have in_es: "?x mod ?es - ?x mod ws + ws \<le> ?es"
  proof -
    define o' where "o' = ?x mod ?es"
    have "o' < ws * q" unfolding o'_def q [symmetric] by simp
    then have "o' div ws < q" by (simp add: less_mult_imp_div_less mult.commute)
    then have "o' div ws * ws + ws \<le> ws * q" by (metis Suc_leI add.commute mult.commute mult_Suc mult_le_mono1)
    moreover have "o' div ws * ws = o' - o' mod ws" by (simp add: minus_mod_eq_div_mult)
    ultimately show ?thesis using mm q by (simp add: o'_def)
  qed
  have le: "?x mod ws \<le> ?x mod ?es" using mm by (metis mod_less_eq_dividend)
  show "?x mod ?es + p \<le> ?es"
    using in_es le lt al unfolding read_aligned_def p by (auto simp: min_def split: if_splits)
  show "read_aligned ?es ws (?x + p) (?r - p)"
  proof (cases "?x mod ws \<noteq> 0 \<and> ws \<le> ?r")
    case True
    then have "?x + p = (?x - ?x mod ws) + ws" using lt mod_less_eq_dividend [of ?x ws] by (simp add: p)
    then have "(?x + p) mod ws = 0" by (simp add: minus_mod_eq_div_mult)
    then show ?thesis by (simp add: read_aligned_def)
  next
    case False
    show ?thesis
    proof (cases "?r < ws")
      case True
      then have "p = ?r" using False by (simp add: p)
      then show ?thesis by (simp add: read_aligned_def less_imp_le_nat)
    next
      case f: False
      with False have "?x mod ws = 0" "p = ws" by (auto simp: p)
      then show ?thesis by (simp add: read_aligned_def)
    qed
  qed
qed

lemma add_min_diff: "p \<le> r \<Longrightarrow> p + min (r - p) L = min r (p + L :: nat)"
  by simp

lemma nfb_read_loop_reads:
  assumes g: "geometry m n j ws" and rb: "reports_bad I C R (2 ^ j) bad ops" and rf: "flat_read I C R (op_read ops)"
  shows "I w \<Longrightarrow> length (C w) = n \<Longrightarrow>
    (blockstart = block_base m ofs \<longrightarrow> unat ofs < n \<longrightarrow> \<not> bad (unat ofs div 2 ^ j)) \<Longrightarrow>
    read_aligned (2 ^ j) ws (unat ofs) (unat len - unat cnt) \<Longrightarrow> cnt \<le> len \<Longrightarrow>
    \<exists>cnt' w'. nfb_read_loop m ops buf len ofs blockstart 0 cnt ret w =
        Some (Some (if cnt' = cnt then ret else 0, cnt'), w') \<and>
      unat cnt' = unat cnt + min (unat len - unat cnt) (length (tail_at (2 ^ j) bad (C w) (unat ofs))) \<and>
      keeps I C R w (C w)
        (store (mem w) (buf + unat cnt) (take (unat len - unat cnt) (tail_at (2 ^ j) bad (C w) (unat ofs)))) w'"
proof (induction "n - unat ofs" arbitrary: w ofs blockstart cnt ret rule: less_induct)
  case less
  note geo = geometryD [OF g]
  let ?es = "2 ^ j :: nat" and ?r = "unat len - unat cnt"
  have es0: "0 < ?es" by simp
  show ?case
  proof (cases "unat ofs < n \<and> cnt < len")
    case False
    then have s: "nfb_read_loop m ops buf len ofs blockstart 0 cnt ret w = Some (Some (ret, cnt), w)"
      by (subst nfb_read_loop.simps) (rule if_not_P, use False geo(10) in \<open>auto simp: word_less_nat_alt\<close>)
    from False have "min ?r (length (tail_at ?es bad (C w) (unat ofs))) = 0"
      using tail_at_end [OF geo(8) less.prems(2)] by (auto simp: word_less_nat_alt)
    then have "take ?r (tail_at ?es bad (C w) (unat ofs)) = []" by (auto simp: min_def split: if_splits)
    with s less.prems(1) show ?thesis by (intro exI [of _ cnt] exI [of _ w]) (auto simp: keeps_def min_def split: if_splits)
  next
    case True
    have in_n: "unat ofs < length (C w)" "?es dvd length (C w)" using True less.prems(2) geo(8) by simp_all
    have cond: "ucast ofs < mtd_size m \<and> cnt < len" using True geo(10) by (simp add: word_less_nat_alt)
    let ?b = "unat ofs div ?es"
    have bb: "unat (block_base m ofs) = ?b * ?es" by (rule unat_block_base [OF g])
    have bb_n: "unat (ucast (block_base m ofs) :: u64) < length (C w)"
      using bb order_le_less_trans [OF div_times_less_eq_dividend in_n(1)] by simp
    have "\<exists>w1. check_block m ops ofs blockstart 0 w = Some (block_base m ofs, if bad ?b then 1 else 0, w1) \<and>
        keeps I C R w (C w) (mem w) w1"
    proof (cases "blockstart = block_base m ofs")
      case True
      with less.prems(1-3) in_n show ?thesis by (auto simp: check_block_def keeps_def)
    next
      case False
      from rb [unfolded reports_bad_def, rule_format, OF less.prems(1) bb_n] bb False show ?thesis
        by (auto simp: check_block_def)
    qed
    then obtain w1 where w1: "check_block m ops ofs blockstart 0 w =
        Some (block_base m ofs, if bad ?b then 1 else 0, w1)" "keeps I C R w (C w) (mem w) w1" by blast
    note k1 = keepsD [OF w1(2)]
    show ?thesis
    proof (cases "bad ?b")
      case b: True
      have o': "unat (ofs + erasesize m) = unat ofs + ?es"
        using True geo(4,9,11) by (simp add: unat_word_ariths)
      have "n - unat (ofs + erasesize m) < n - unat ofs" using True o' by (intro diff_less_mono2) simp_all
      moreover have "read_aligned ?es ws (unat (ofs + erasesize m)) ?r"
        using less.prems(4) geo(6) unfolding o' read_aligned_def by (auto simp: mod_add_right_eq [symmetric, of _ _ ws])
      moreover have "block_base m ofs = block_base m (ofs + erasesize m) \<longrightarrow>
          unat (ofs + erasesize m) < n \<longrightarrow> \<not> bad (unat (ofs + erasesize m) div ?es)"
        using o' by (simp add: block_base_eq_iff [OF g] div_add_self2)
      moreover have "length (C w1) = n" using k1 less.prems(2) by simp
      ultimately obtain cnt' w' where ih: "nfb_read_loop m ops buf len (ofs + erasesize m) (block_base m ofs) 0 cnt ret w1 =
          Some (Some (if cnt' = cnt then ret else 0, cnt'), w')"
        "unat cnt' = unat cnt + min ?r (length (tail_at ?es bad (C w1) (unat (ofs + erasesize m))))"
        "keeps I C R w1 (C w1) (store (mem w1) (buf + unat cnt)
           (take ?r (tail_at ?es bad (C w1) (unat (ofs + erasesize m))))) w'"
        using less.hyps [OF _ k1(1)] less.prems(5) by blast
      have t: "tail_at ?es bad (C w1) (unat (ofs + erasesize m)) = tail_at ?es bad (C w) (unat ofs)"
        using tail_at_bad [of ?es "C w" "unat ofs" bad] in_n b k1(2) o' by simp
      have "nfb_read_loop m ops buf len ofs blockstart 0 cnt ret w = Some (Some (if cnt' = cnt then ret else 0, cnt'), w')"
        using ih(1) by (subst nfb_read_loop.simps) (simp add: cond w1(1) b)
      with ih(2,3) keeps_trans [OF w1(2), of _ _ w'] k1 show ?thesis unfolding t by metis
    next
      case b: False
      define p where "p = page_len m ofs (len - cnt)"
      have ur: "unat (len - cnt) = ?r" using less.prems(5) by (simp add: unat_sub)
      have r0: "0 < ?r" using True by (simp add: word_less_nat_alt)
      note pf = page_len_facts [OF g, of ofs "len - cnt", unfolded ur, OF less.prems(4) r0, folded p_def]
      have split: "tail_at ?es bad (C w) (unat ofs) = slice (C w) (unat ofs) (unat p) @
          tail_at ?es bad (C w) (unat ofs + unat p)"
        by (rule tail_at_good) (use in_n b pf(3) in simp_all)
      have le: "unat ofs + unat p \<le> n"
      proof -
        have "?b < n div ?es" using in_n less.prems(2) block_lt_iff [of ?es n ?b] geo(8)
            order_le_less_trans [OF div_times_less_eq_dividend in_n(1), of ?es] by simp
        then have "?b * ?es + ?es \<le> n" using mult_le_mono1 [of "Suc ?b" "n div ?es" ?es] geo(8) by simp
        moreover have "unat ofs = ?b * ?es + unat ofs mod ?es" by (rule div_mult_mod_eq [symmetric])
        ultimately show ?thesis using pf(3) by linarith
      qed
      have "unat (ucast ofs :: u64) < length (C w1)" "unat (ucast ofs :: u64) + unat p \<le> length (C w1)"
        using le in_n k1(2) less.prems(2) by simp_all
      from rf [unfolded flat_read_def, rule_format, OF k1(1) this, of "buf + unat cnt"] k1 obtain w2 where
        w2: "op_read ops (ucast ofs) p (buf + unat cnt) w1 = Some (0, p, w2)"
        "keeps I C R w1 (C w) (store (mem w) (buf + unat cnt) (slice (C w) (unat ofs) (unat p))) w2" by auto
      note k2 = keepsD [OF w2(2)]
      have o': "unat (ofs + p) = unat ofs + unat p" using le geo(9) by (simp add: unat_word_ariths)
      have c': "unat (cnt + p) = unat cnt + unat p"
        using pf(2) u32_lt [of len] less.prems(5) by (simp add: unat_word_ariths word_le_nat_alt)
      have r': "unat len - unat (cnt + p) = ?r - unat p" by (simp add: c')
      have cp: "cnt + p \<le> len" using pf(2) r0 c' by (simp add: word_le_nat_alt)
      have "n - unat (ofs + p) < n - unat ofs" using True o' pf(1) by (intro diff_less_mono2) simp_all
      moreover have "block_base m ofs = block_base m (ofs + p) \<longrightarrow> unat (ofs + p) < n \<longrightarrow> \<not> bad (unat (ofs + p) div ?es)"
        using b block_base_eq_iff [OF g, of ofs "ofs + p"] by metis
      moreover have "read_aligned ?es ws (unat (ofs + p)) (unat len - unat (cnt + p))" using pf(4) o' r' by simp
      moreover have "length (C w2) = n" using k2 less.prems(2) by simp
      ultimately obtain cnt' w' where ih: "nfb_read_loop m ops buf len (ofs + p) (block_base m ofs) 0 (cnt + p) 0 w2 =
          Some (Some (if cnt' = cnt + p then 0 else 0, cnt'), w')"
        "unat cnt' = unat (cnt + p) + min (unat len - unat (cnt + p)) (length (tail_at ?es bad (C w2) (unat (ofs + p))))"
        "keeps I C R w2 (C w2) (store (mem w2) (buf + unat (cnt + p))
           (take (unat len - unat (cnt + p)) (tail_at ?es bad (C w2) (unat (ofs + p))))) w'"
        using less.hyps [OF _ k2(1), of "ofs + p" "block_base m ofs" "cnt + p" 0] cp by blast
      have ls: "length (slice (C w) (unat ofs) (unat p)) = unat p" using le less.prems(2) by simp
      have "nfb_read_loop m ops buf len ofs blockstart 0 cnt ret w = Some (Some (0, cnt'), w')"
        using ih(1) by (subst nfb_read_loop.simps) (simp add: cond w1(1) b w2(1) p_def [symmetric])
      moreover have "cnt' \<noteq> cnt" using ih(2) c' pf(1) by auto
      moreover have "unat cnt' = unat cnt + min ?r (length (tail_at ?es bad (C w) (unat ofs)))"
      proof -
        define L where "L = length (tail_at ?es bad (C w) (unat ofs + unat p))"
        have "unat cnt' = unat cnt + unat p + min (?r - unat p) L" using ih(2) c' r' k2(2) o' by (simp add: L_def)
        moreover have "length (tail_at ?es bad (C w) (unat ofs)) = unat p + L"
          unfolding split length_append ls L_def ..
        ultimately show ?thesis using add_min_diff [OF pf(2), of L] by (simp only: add.assoc)
      qed
      moreover have "keeps I C R w (C w) (store (mem w) (buf + unat cnt) (take ?r (tail_at ?es bad (C w) (unat ofs)))) w'"
      proof -
        have "take ?r (tail_at ?es bad (C w) (unat ofs)) = slice (C w) (unat ofs) (unat p) @
            take (?r - unat p) (tail_at ?es bad (C w) (unat ofs + unat p))"
          unfolding split using pf(2) ls by simp
        then have "store (mem w2) (buf + unat (cnt + p)) (take (unat len - unat (cnt + p)) (tail_at ?es bad (C w2) (unat (ofs + p)))) =
            store (mem w) (buf + unat cnt) (take ?r (tail_at ?es bad (C w) (unat ofs)))"
          using store_append [of "mem w" "buf + unat cnt" "slice (C w) (unat ofs) (unat p)"] ls k2 c' r' o'
          by (simp add: add.assoc)
        with ih(3) k2 keeps_trans [OF keeps_trans [OF w1(2) w2(2)], of _ _ w'] show ?thesis by simp
      qed
      ultimately show ?thesis by (intro exI [of _ cnt'] exI [of _ w']) simp
    qed
  qed
qed


lemma length_good_from: "length (good_from es bad c k) \<le> (length c div es - k) * es"
proof (induction "length c div es - k" arbitrary: k)
  case 0
  then show ?case by (simp add: good_from_end)
next
  case (Suc d)
  then have lt: "k < length c div es" by simp
  have "length (good_from es bad c (Suc k)) \<le> (length c div es - Suc k) * es"
    using Suc(1) [of "Suc k"] Suc(2) by simp
  moreover have "length c div es - k = Suc (length c div es - Suc k)" using lt by simp
  ultimately show ?case using good_from_step [OF lt, of bad] by (auto intro: add_mono)
qed

text \<open>The initial \<open>blockstart = 1\<close> is no block, so the first block is asked for.\<close>

lemma block_base_not_1:
  assumes g: "geometry m n j ws"
  shows "1 \<noteq> block_base m ofs"
proof
  assume "1 = block_base m ofs"
  then have "unat (block_base m ofs) = 1" by (metis unsigned_1)
  then have "unat ofs div 2 ^ j * 2 ^ j = 1" unfolding unat_block_base [OF g] .
  then have "(2 :: nat) ^ j dvd 1" by (metis dvd_triv_right)
  then show False using geometryD(1) [OF g] by simp
qed

lemma nfb_read_from_reads:
  assumes g: "geometry m n j ws" and rb: "reports_bad I C R (2 ^ j) bad ops" and rf: "flat_read I C R (op_read ops)"
    and w: "I w" "length (C w) = n" and al: "read_aligned (2 ^ j) ws (unat ofs) (unat len)" and len: "0 < len"
  defines "D \<equiv> tail_at (2 ^ j) bad (C w) (unat ofs)"
  shows "\<exists>w'. nfb_read_from m ops ofs buf len ret w = Some (if unat len \<le> length D then 0 else -1, w') \<and>
    keeps I C R w (C w) (store (mem w) buf (take (unat len) D)) w'"
proof -
  have i: "(1 = block_base m ofs \<longrightarrow> unat ofs < n \<longrightarrow> \<not> bad (unat ofs div 2 ^ j))"
    using block_base_not_1 [OF g, of ofs] by simp
  have al': "read_aligned (2 ^ j) ws (unat ofs) (unat len - unat (0 :: u32))" using al by simp
  from nfb_read_loop_reads [OF g rb rf w i al', of buf ret] obtain cnt' w' where l:
    "nfb_read_loop m ops buf len ofs 1 0 0 ret w = Some (Some (if cnt' = 0 then ret else 0, cnt'), w')"
    "unat cnt' = min (unat len) (length D)" "keeps I C R w (C w) (store (mem w) buf (take (unat len) D)) w'"
    unfolding D_def by auto
  have "cnt' < len \<longleftrightarrow> \<not> unat len \<le> length D" using l(2) by (auto simp: word_less_nat_alt min_def)
  moreover have "\<not> cnt' < len \<Longrightarrow> cnt' \<noteq> 0" using len by auto
  ultimately show ?thesis using l(1,3) by (auto simp: nfb_read_from_def)
qed

lemma too_long_iff:
  assumes g: "geometry m n j ws" and "unat off < n"
  shows "too_long m off len = Some (n - unat off < unat len div ws * ws)"
proof -
  note geo = geometryD [OF g]
  have "unat len div ws * ws < 2 ^ 32"
    using u32_lt [of len] order_le_less_trans [OF div_times_less_eq_dividend] by blast
  moreover have "unat len div ws < 2 ^ 32" by (rule order_le_less_trans [OF div_le_dividend u32_lt])
  ultimately have "unat (len div writesize m * writesize m) = unat len div ws * ws"
    using geo(7) u32_lt [of len] by (simp add: unat_word_ariths unat_div)
  moreover have "unat (mtd_size m - ucast off) = n - unat off"
    using geo(10) assms(2) by (subst unat_sub_64) simp_all
  moreover have "writesize m \<noteq> 0" using geo(5,7) by auto
  ultimately show ?thesis by (simp add: too_long_def word_less_nat_alt)
qed

section \<open>The whole read\<close>

lemma nfb_read_blocks:
  assumes "geometry m n j ws" and "reports_bad I C R (2 ^ j) bad (dev a)" and "flat_read I C R (op_read (dev a))"
    and "mtd_get u4DevId w = Some (a, m, w1)" and "I w1" and "length (C w1) = n"
    and "unat (registry_start B reg u4DevId) = s * 2 ^ j" and "s * 2 ^ j \<le> unat off" and "unat off < n"
    and "buf \<noteq> 0" and "0 < len" and "read_aligned (2 ^ j) ws (unat off) (unat len)"
  shows "\<exists>w' k. i4NFBPartitionRead B dev reg u4DevId off buf len w =
        Some (if unat off - s * 2 ^ j + unat len \<le> length (good_from (2 ^ j) bad (C w1) s) then 0 else -1, w') \<and>
      keeps I C R w1 (C w1) (store (mem w1) buf (slice (good_from (2 ^ j) bad (C w1) s) (unat off - s * 2 ^ j) k)) w' \<and>
      (unat off - s * 2 ^ j + unat len \<le> length (good_from (2 ^ j) bad (C w1) s) \<longrightarrow> k = unat len)"
proof -
  let ?G = "good_from (2 ^ j) bad (C w1) s" and ?o = "unat off - s * 2 ^ j"
  note geo = geometryD [OF assms(1)]
  note tl = too_long_iff [OF assms(1,9), of len]
  show ?thesis
  proof (cases "n - unat off < unat len div ws * ws")
    case True
    have "length ?G \<le> n - s * 2 ^ j"
      using length_good_from [of "2 ^ j" bad "C w1" s] assms(6) geo(8) by (simp add: diff_mult_distrib)
    moreover have "unat len div ws * ws \<le> unat len" by simp
    ultimately have "\<not> ?o + unat len \<le> length ?G" using True assms(8,9) by linarith
    moreover have "i4NFBPartitionRead B dev reg u4DevId off buf len w = Some (-1, w1)"
      using True tl assms(4,10) by (simp add: i4NFBPartitionRead_def)
    ultimately show ?thesis using assms(5) by (intro exI [of _ w1] exI [of _ 0]) (simp add: keeps_def)
  next
    case False
    have bound: "unat off + (n - s * 2 ^ j) < 2 ^ 32" using assms(9) geo(9) by simp
    from skip_prefix_finds [OF assms(1,2,5,6,7,8) bound, of 0] obtain ret' start' w2 where sp:
      "skip_prefix m (dev a) (registry_start B reg u4DevId) off 0 w1 = Some (Some (ret', start'), w2)"
      "keeps I C R w1 (C w1) (mem w1) w2" "unat start' mod 2 ^ j = unat off mod 2 ^ j"
      "tail_at (2 ^ j) bad (C w1) (unat start') = drop ?o ?G" by auto
    note k2 = keepsD [OF sp(2)]
    have "unat start' mod ws = unat off mod ws" using sp(3) geo(6) by (metis mod_mod_cancel)
    with assms(12) sp(3) have al: "read_aligned (2 ^ j) ws (unat start') (unat len)" by (simp add: read_aligned_def)
    have "length (C w2) = n" using k2 assms(6) by simp
    from nfb_read_from_reads [OF assms(1-3) k2(1) this al assms(11), of buf ret'] k2 sp(4) obtain w' where r:
      "nfb_read_from m (dev a) start' buf len ret' w2 = Some (if unat len \<le> length ?G - ?o then 0 else -1, w')"
      "keeps I C R w2 (C w1) (store (mem w1) buf (slice ?G ?o (unat len))) w'"
      by (auto simp: slice_def)
    have "i4NFBPartitionRead B dev reg u4DevId off buf len w = Some (if unat len \<le> length ?G - ?o then 0 else -1, w')"
      using r(1) tl False assms(4,10) sp(1) by (simp add: i4NFBPartitionRead_def)
    moreover have "unat len \<le> length ?G - ?o \<longleftrightarrow> ?o + unat len \<le> length ?G"
      using assms(11) by (auto simp: word_less_nat_alt)
    ultimately show ?thesis using keeps_trans [OF sp(2) r(2)] by (intro exI [of _ w'] exI [of _ "unat len"]) simp
  qed
qed

text \<open>C5: reading through \<open>i4NFBPartitionRead\<close> is reading from the good blocks
  of the flash in a row.  On a device that answers without error it returns 0 exactly when the good blocks
  hold all that is asked for, then the memory has those bytes and nothing else has changed, and -1
  otherwise.  The request must be page-aligned, at least a page long, or stay inside one block.
  \<open>s\<close> is the block from which the offset counts: the first one, or that of the registry.\<close>

theorem nfb_read_good_blocks:
  assumes "geometry m n j ws" and "reports_bad I C R (2 ^ j) bad (dev a)" and "flat_read I C R (op_read (dev a))"
    and "mtd_get u4DevId w = Some (a, m, w1)" and "I w1" and "length (C w1) = n"
    and "unat (registry_start B reg u4DevId) = s * 2 ^ j" and "s * 2 ^ j \<le> unat off" and "unat off < n"
    and "buf \<noteq> 0" and "0 < len" and "read_aligned (2 ^ j) ws (unat off) (unat len)"
  shows "\<exists>w' k. i4NFBPartitionRead B dev reg u4DevId off buf len w =
        Some (if unat off - s * 2 ^ j + unat len \<le> length (good_from (2 ^ j) bad (C w1) s) then 0 else -1, w') \<and>
      keeps I C R w1 (C w1) (store (mem w1) buf (slice (good_from (2 ^ j) bad (C w1) s) (unat off - s * 2 ^ j) k)) w' \<and>
      (unat off - s * 2 ^ j + unat len \<le> length (good_from (2 ^ j) bad (C w1) s) \<longrightarrow> k = unat len)"
  using assms by (rule nfb_read_blocks)

text \<open>C38: a request shorter than a page that starts inside a page and runs over
  the end of its block is served by one read of the chip, so the bytes behind the end of the block come
  from the next block even when that one is bad, and the function returns 0.\<close>

theorem nfb_read_straddle:
  assumes g: "geometry m n j ws" and rb: "reports_bad I C R (2 ^ j) bad (dev a)" and rf: "flat_read I C R (op_read (dev a))"
    and get: "mtd_get u4DevId w = Some (a, m, w1)" and I1: "I w1" and C1: "length (C w1) = n"
    and reg: "registry_start B reg u4DevId = 0" and buf: "buf \<noteq> 0"
    and good: "\<forall>b. b \<le> unat off div 2 ^ j \<longrightarrow> \<not> bad b"
    and strad: "unat off mod ws \<noteq> 0" "unat len < ws" "2 ^ j < unat off mod 2 ^ j + unat len"
    and fit: "unat off + unat len \<le> n"
  shows "\<exists>w'. i4NFBPartitionRead B dev reg u4DevId off buf len w = Some (0, w') \<and>
    keeps I C R w1 (C w1) (store (mem w1) buf (slice (C w1) (unat off) (2 ^ j - unat off mod 2 ^ j) @
      slice (C w1) (Suc (unat off div 2 ^ j) * 2 ^ j) (unat off mod 2 ^ j + unat len - 2 ^ j))) w'"
proof -
  let ?es = "2 ^ j :: nat"
  note geo = geometryD [OF g]
  have len0: "0 < unat len" using strad(3) by (metis Nat.add_0_right gr0I less_asym mod_less_divisor zero_less_numeral zero_less_power)
  have off: "unat off < n" using fit len0 by simp
  have bound: "unat off + (n - 0 * ?es) < 2 ^ 32" using off geo(9) by simp
  have s0: "unat (0 :: u32) = 0 * ?es" "0 * ?es \<le> unat off" by simp_all
  from skip_prefix_finds [OF g rb I1 C1 s0 bound, of 0] good obtain ret' w2 where sp:
    "skip_prefix m (dev a) 0 off 0 w1 = Some (Some (ret', off), w2)" "keeps I C R w1 (C w1) (mem w1) w2"
    using div_le_mono [of _ "unat off" ?es] by fastforce
  note k2 = keepsD [OF sp(2)]
  note no1 = block_base_not_1 [OF g, of off]
  have bb: "unat (ucast (block_base m off) :: u64) = unat off div ?es * ?es" using unat_block_base [OF g] by simp
  moreover have "\<dots> < length (C w2)" using k2 C1 order_le_less_trans [OF div_times_less_eq_dividend off] by simp
  ultimately obtain w3 where w3: "check_block m (dev a) off 1 0 w2 = Some (block_base m off, 0, w3)"
    "keeps I C R w2 (C w2) (mem w2) w3"
    using rb [unfolded reports_bad_def, rule_format, OF k2(1), of "ucast (block_base m off)"] no1 good
    by (auto simp: check_block_def)
  note k3 = keepsD [OF w3(2)]
  have pl: "page_len m off len = len"
    using strad geo(5,7) by (subst word_unat_eq_iff, subst unat_page_len) (simp_all add: Let_def)
  have "unat (ucast off :: u64) < length (C w3)" "unat (ucast off :: u64) + unat len \<le> length (C w3)"
    using off fit k2 k3 C1 by simp_all
  from rf [unfolded flat_read_def, rule_format, OF k3(1) this, of buf] obtain w4 where w4:
    "op_read (dev a) (ucast off) len buf w3 = Some (0, len, w4)"
    "keeps I C R w3 (C w1) (store (mem w1) buf (slice (C w1) (unat off) (unat len))) w4"
    using k2 k3 by auto
  have c: "ucast off < mtd_size m" "(0 :: u32) < len"
    using off len0 geo(10) by (simp_all add: word_less_nat_alt)
  have stop: "nfb_read_loop m (dev a) buf len (off + len) (block_base m off) 0 len 0 w4 = Some (Some (0, len), w4)"
    by (subst nfb_read_loop.simps) simp
  have loop: "nfb_read_loop m (dev a) buf len off 1 0 0 ret' w2 = Some (Some (0, len), w4)"
    by (subst nfb_read_loop.simps) (simp add: c w3(1) pl w4(1) stop)
  have nl: "\<not> n - unat off < unat len div ws * ws" using strad(2) by simp
  have "i4NFBPartitionRead B dev reg u4DevId off buf len w = Some (0, w4)"
    using sp(1) loop buf get reg too_long_iff [OF g off, of len] nl
    by (simp add: i4NFBPartitionRead_def nfb_read_from_def)
  moreover have "slice (C w1) (unat off) (unat len) = slice (C w1) (unat off) (?es - unat off mod ?es) @
      slice (C w1) (Suc (unat off div ?es) * ?es) (unat off mod ?es + unat len - ?es)"
  proof -
    have "unat off mod ?es < ?es" by simp
    moreover have "unat off + (?es - unat off mod ?es) = Suc (unat off div ?es) * ?es"
      by (metis add.commute add_diff_inverse_nat calculation div_mult_mod_eq group_cancel.add1 less_asym mult_Suc)
    ultimately show ?thesis
      using slice_split [of "?es - unat off mod ?es" "unat len" "unat off" "C w1"] strad(3) fit C1
      by (simp add: add.commute)
  qed
  ultimately show ?thesis using keeps_trans [OF keeps_trans [OF sp(2) w3(2)], of "C w1" _ w4] w4(2) k2 by auto
qed

text \<open>A partition of such a flash is such a flash again.\<close>

lemma part_reports_bad:
  assumes st: "slave_state I C a mst off n" and rb: "reports_bad I C R es bad (dev mst)" and al: "es dvd off"
  shows "reports_bad I (part_content C off n) (part_rest C R off n) es (\<lambda>b. bad (off div es + b))
    (slave_ops lib dev (dev mst) k a)"
  unfolding reports_bad_def
proof (intro allI impI)
  fix w and pos :: u64
  assume w: "I w" and lt: "unat pos < length (slice (C w) off n)"
  from st w obtain mi p mm where *: "info w a = Some mi" "unat (mtd_size mi) = n" "writeable mi"
    "part_objs w a = Some p" "pt_master p = mst" "unat (pt_offset p) = off" "info w mst = Some mm"
    "off + n \<le> length (C w)" "length (C w) < 2 ^ 64" by (rule slave_stateE)
  from lt * have in_n: "unat pos < n" by simp
  have addr: "unat (pos + pt_offset p) = off + unat pos"
    using * in_n by (subst unat_add_64) simp_all
  have "unat (pos + pt_offset p) < length (C w)" using addr in_n * by simp
  from rb [unfolded reports_bad_def, rule_format, OF w this] obtain w' where w':
    "call_isbad (dev mst) (pos + pt_offset p) w = Some (if bad ((off + unat pos) div es) then 1 else 0, w')"
    "keeps I C R w (C w) (mem w) w'"
    unfolding addr by blast
  have "(off + unat pos) div es = off div es + unat pos div es" using al by (rule div_plus_div_distrib_dvd_left)
  then have "call_isbad (slave_ops lib dev (dev mst) k a) pos w = Some (if bad (off div es + unat pos div es) then 1 else 0, w')"
    using w'(1) * in_n by (auto simp: call_isbad_def slave_ops_def Let_def part_block_isbad_def word_le_nat_alt
        split: option.splits)
  with w'(2) show "\<exists>w'. call_isbad (slave_ops lib dev (dev mst) k a) pos w =
      Some (if bad (off div es + unat pos div es) then 1 else 0, w') \<and>
    keeps I (part_content C off n) (part_rest C R off n) w (slice (C w) off n) (mem w) w'"
    by (intro exI [of _ w']) (simp add: keeps_def)
qed

section \<open>An instance\<close>

text \<open>A chip of four blocks of eight bytes with pages of four bytes.\<close>

definition chip_info :: mtd_info where
  "chip_info = (demo_mtd ''nand0'')\<lparr>mtd_size := 32, erasesize := 8, writesize := 4\<rparr>"

definition chip_ops :: "(nat \<Rightarrow> bool) \<Rightarrow> (addr \<Rightarrow> u8 list) mtd_ops" where
  "chip_ops bad = (ram_ops 1)\<lparr>op_block_isbad := Some (\<lambda>ofs w. Some (if bad (unat ofs div 8) then 1 else 0, w))\<rparr>"

definition chip_world :: "(addr \<Rightarrow> u8 list) mtd_world" where
  "chip_world = ram_world\<lparr>mtdc := \<lparr>mtd_table = [Some 1], mtd_objs = [1 \<mapsto> chip_info]\<rparr>, flash := (\<lambda>s. map of_nat [0..<32])\<rparr>"

definition chip_used :: "(addr \<Rightarrow> u8 list) mtd_world" where
  "chip_used = chip_world\<lparr>mtdc := mtd_set (mtdc chip_world) 1 (chip_info\<lparr>usecount := 1\<rparr>)\<rparr>"

definition chip_inv :: "(addr \<Rightarrow> u8 list) mtd_world \<Rightarrow> bool" where
  "chip_inv w \<longleftrightarrow> length (flash w 1) = 32"

definition chip_board :: pit_board where
  "chip_board = \<lparr>SONY_GET_REGISTRY = False, mt85xx_get_part_info_by_name = (\<lambda>_. None)\<rparr>"

lemma chip_get: "mtd_get 0 chip_world = Some (1, chip_info\<lparr>usecount := 1\<rparr>, chip_used)"
  by (simp add: mtd_get_def get_mtd_device_def chip_world_def chip_used_def mtd_set_def chip_info_def demo_mtd_def)

lemma chip_geometry: "geometry (chip_info\<lparr>usecount := 1\<rparr>) 32 3 4"
  by (simp add: geometry_def chip_info_def)

lemma chip_reports_bad: "reports_bad chip_inv (\<lambda>w. flash w 1) (\<lambda>w. ()) (2 ^ 3) bad (chip_ops bad)"
  by (simp add: reports_bad_def call_isbad_def chip_ops_def keeps_def)

lemma chip_flat_read: "flat_read chip_inv (\<lambda>w. flash w 1) (\<lambda>w. ()) (op_read (chip_ops bad))"
proof -
  have "op_read (chip_ops bad) = op_read (ram_ops 1)" by (simp add: chip_ops_def)
  then show ?thesis using ram_read_flat [of chip_inv "\<lambda>w. ()" "\<lambda>w. flash w 1" 1] by (simp add: chip_inv_def)
qed

lemma chip_used_state: "chip_inv chip_used" "length (flash chip_used 1) = 32"
    "flash chip_used 1 = map of_nat [0..<32]" "registry_start chip_board r i = 0"
  by (simp_all add: chip_inv_def chip_used_def chip_world_def registry_start_def chip_board_def)

theorem nfb_read_good_blocks_witness:
  "\<exists>w'. i4NFBPartitionRead chip_board (\<lambda>_. chip_ops (\<lambda>b. b = 1)) False 0 4 100 8 chip_world = Some (0, w') \<and>
     load (mem w') 100 8 = [4, 5, 6, 7, 16, 17, 18, 19]"
proof -
  have G: "good_bytes (2 ^ 3) (\<lambda>b. b = 1) (flash chip_used 1) =
      map of_nat ([0, 1, 2, 3, 4, 5, 6, 7, 16, 17, 18, 19, 20, 21, 22, 23, 24, 25, 26, 27, 28, 29, 30, 31])"
    unfolding chip_used_state by (simp add: good_from_def slice_def upt_rec)
  have h: "unat (registry_start chip_board False 0) = 0 * 2 ^ 3" "0 * 2 ^ 3 \<le> unat (4 :: u32)"
    "unat (4 :: u32) < 32" "(100 :: nat) \<noteq> 0" "(0 :: u32) < 8" "read_aligned (2 ^ 3) 4 (unat (4 :: u32)) (unat (8 :: u32))"
    using chip_used_state by (simp_all add: read_aligned_def)
  from nfb_read_good_blocks [where dev = "\<lambda>_. chip_ops (\<lambda>b. b = 1)" and C = "\<lambda>w. flash w 1" and I = chip_inv and R = "\<lambda>w. ()" and bad = "\<lambda>b. b = 1",
      OF chip_geometry chip_reports_bad chip_flat_read chip_get
      chip_used_state(1,2) h] show ?thesis
    unfolding G by (auto simp: keeps_def slice_def load_def store_def upt_rec)
qed

theorem nfb_read_straddle_witness:
  "\<exists>w'. i4NFBPartitionRead chip_board (\<lambda>_. chip_ops (\<lambda>b. b = 1)) False 0 6 100 3 chip_world = Some (0, w') \<and>
     load (mem w') 100 3 = [6, 7, 8]"
proof -
  have f: "flash chip_used (Suc 0) = map of_nat [0..<32]" using chip_used_state(3) by simp
  have h: "\<forall>b. b \<le> unat (6 :: u32) div 2 ^ 3 \<longrightarrow> \<not> b = (1 :: nat)" "unat (6 :: u32) mod 4 \<noteq> 0" "unat (3 :: u32) < 4"
    "2 ^ 3 < unat (6 :: u32) mod 2 ^ 3 + unat (3 :: u32)" "unat (6 :: u32) + unat (3 :: u32) \<le> 32" "(100 :: nat) \<noteq> 0"
    by simp_all
  from nfb_read_straddle [where dev = "\<lambda>_. chip_ops (\<lambda>b. b = 1)" and C = "\<lambda>w. flash w 1" and I = chip_inv and R = "\<lambda>w. ()" and bad = "\<lambda>b. b = 1" and reg = False,
      OF chip_geometry chip_reports_bad chip_flat_read chip_get
      chip_used_state(1,2) chip_used_state(4) h(6) h(1-5)] show ?thesis
    by (auto simp: keeps_def slice_def load_def store_def upt_rec f)
qed

end
