(* ===== verification/PitWrite.thy ===== *)
theory PitWrite
  imports PitRead "HOL-Library.Signed_Division"
begin

text \<open>
  Writing a partition on flash with bad blocks, \<open>i4NFBPartitionWrite\<close> of
  \<open>drivers/mtd/nand/mt85xx_part_oper.c\<close>.

  A block can only be erased as a whole, so the function keeps what stands before and behind the new
  bytes in the first and last block: it copies the block to a buffer, erases it and programs it page by
  page from three sources, the head of the old block, the new bytes and the tail of the old block.
  Blocks that fail are marked bad and the data go to the next one.

  The variables of the function are the record \<open>wr_state\<close>.  Those of type \<open>int\<close> are their 32-bit
  patterns; where C compares two of them the comparison is signed (\<open><s\<close>), where it compares one with
  an unsigned value it is unsigned.  \<open>wr_env\<close> holds what does not change: the device, the source and the
  two buffers from \<open>kzalloc\<close>.
\<close>

section \<open>State\<close>

record 'f wr_env =
  we_mtd :: addr
  we_info :: mtd_info
  we_ops :: "'f mtd_ops"
  pu1MemBuf :: addr
  pu1TempMemBuf :: addr
  pu1BlockMemBuf :: addr

record wr_state =
  imglen :: u32
  headoffset :: u32
  tailoffset :: u32
  headsize :: u32
  tailsize :: u32
  headend :: u32
  tailstart :: u32
  blockstart :: u32
  mtdoffset :: u32
  writeoffset :: u32
  tempoffset :: u32
  wr_i4Ret :: int
  u4WtByteCnt :: u32
  fgBlockDataBack :: bool
  wr_erase :: erase_info

text \<open>\<open>goto closeall\<close> leaves the loops.\<close>

datatype flow = Go | Closeall

abbreviation pos_int :: "u32 \<Rightarrow> bool" where
  "pos_int x \<equiv> 0 <s x"

definition memcpy :: "addr \<Rightarrow> addr \<Rightarrow> nat \<Rightarrow> 'f mtd_world \<Rightarrow> 'f mtd_world" where
  "memcpy dst src k w = w\<lparr>mem := store (mem w) dst (load (mem w) src k)\<rparr>"

definition memset :: "addr \<Rightarrow> u8 \<Rightarrow> nat \<Rightarrow> 'f mtd_world \<Rightarrow> 'f mtd_world" where
  "memset dst x k w = w\<lparr>mem := store (mem w) dst (replicate k x)\<rparr>"

section \<open>The search for the start\<close>

partial_function (option) write_prefix ::
  "mtd_info \<Rightarrow> 'f mtd_ops \<Rightarrow> u64 \<Rightarrow> u32 \<Rightarrow> int \<Rightarrow> 'f mtd_world \<Rightarrow> ((int \<times> u32) option \<times> 'f mtd_world) option"
where
  "write_prefix m ops offs mo i4Ret w =
     (if offs <s ucast (block_base m mo) \<and> offs < mtd_size m
      then do { (i4Ret, w) \<leftarrow> call_isbad ops offs w;
                if i4Ret < 0 then Some (None, w)
                else write_prefix m ops (offs + ucast (erasesize m))
                       (if i4Ret = 1 then mo + erasesize m else mo) i4Ret w }
      else Some (Some (i4Ret, mo), w))"

declare write_prefix.simps [code]

section \<open>Entering a block\<close>

text \<open>The \<open>do ... while\<close> over the erase block: the last \<open>i4Ret\<close>, \<open>baderaseblock\<close> and \<open>mtdoffset\<close>.\<close>

partial_function (option) bad_loop ::
  "mtd_info \<Rightarrow> 'f mtd_ops \<Rightarrow> u32 \<Rightarrow> u64 \<Rightarrow> bool \<Rightarrow> u32 \<Rightarrow> 'f mtd_world
    \<Rightarrow> ((int \<times> bool \<times> u32) option \<times> 'f mtd_world) option"
where
  "bad_loop m ops bs offs bad mo w =
     do { (r, w) \<leftarrow> call_isbad ops offs w;
          if r < 0 then Some (None, w)
          else let bad = (bad \<or> r = 1);
                   mo = (if bad then mo + erasesize m else mo);
                   offs = offs + ucast (erasesize m)
               in if offs <s ucast (bs + erasesize m) then bad_loop m ops bs offs bad mo w
                  else Some (Some (r, bad, mo), w) }"

declare bad_loop.simps [code]

text \<open>The copy of the block to \<open>pu1BlockMemBuf\<close>; \<open>False\<close> is \<open>goto closeall\<close>.\<close>

partial_function (option) backup_loop ::
  "mtd_info \<Rightarrow> 'f mtd_ops \<Rightarrow> addr \<Rightarrow> u64 \<Rightarrow> u32 \<Rightarrow> 'f mtd_world \<Rightarrow> (bool \<times> 'f mtd_world) option"
where
  "backup_loop m ops buf offs readlen w =
     (if offs < mtd_size m \<and> readlen < erasesize m
      then do { (r, readcnt, w) \<leftarrow> op_read ops offs (writesize m) (buf + unat readlen) w;
                if r \<noteq> 0 \<or> readcnt \<noteq> writesize m then Some (False, w)
                else backup_loop m ops buf (offs + scast (writesize m)) (readlen + readcnt) w }
      else Some (True, w))"

declare backup_loop.simps [code]

text \<open>Head and tail of the block that \<open>mtdoffset\<close> is in.\<close>

definition split_block :: "mtd_info \<Rightarrow> wr_state \<Rightarrow> wr_state" where
  "split_block m s =
     (let es = erasesize m;
          ts = (if blockstart s + es \<le> mtdoffset s + imglen s then 0
                else blockstart s + es - (mtdoffset s + imglen s))
      in s\<lparr>headsize := mtdoffset s - blockstart s, headend := mtdoffset s, tailsize := ts,
           tailoffset := es - ts, tailstart := blockstart s + (es - ts)\<rparr>)"

definition save_block :: "'f wr_env \<Rightarrow> wr_state \<Rightarrow> 'f mtd_world \<Rightarrow> (flow \<times> wr_state \<times> 'f mtd_world) option" where
  "save_block E s w =
     (if pos_int (headsize s) \<or> pos_int (tailsize s)
      then let s = s\<lparr>tempoffset := blockstart s\<rparr> in
        if \<not> fgBlockDataBack s
        then do { (ok, w) \<leftarrow> backup_loop (we_info E) (we_ops E) (pu1BlockMemBuf E) (scast (blockstart s)) 0
                    (memset (pu1BlockMemBuf E) 0xFF (unat (erasesize (we_info E))) w);
                  Some (if ok then Go else Closeall, s, w) }
        else Some (Go, s\<lparr>fgBlockDataBack := False\<rparr>, w)
      else Some (Go, s, w))"

definition call_markbad :: "'f mtd_ops \<Rightarrow> u64 \<Rightarrow> 'f mtd_world \<Rightarrow> (int \<times> 'f mtd_world) option" where
  "call_markbad ops ofs w = (case op_block_markbad ops of None \<Rightarrow> None | Some f \<Rightarrow> f ofs w)"

text \<open>\<open>erase->addr = blockstart; ... i4Ret = mtd->erase(mtd, erase);\<close>\<close>

definition erase_current :: "'f wr_env \<Rightarrow> wr_state \<Rightarrow> 'f mtd_world \<Rightarrow> (wr_state \<times> 'f mtd_world) option" where
  "erase_current E s w =
     do { (r, e, w) \<leftarrow> op_erase (we_ops E) ((wr_erase s)\<lparr>ei_addr := scast (blockstart s),
            ei_len := ucast (erasesize (we_info E)), ei_mtd := we_mtd E\<rparr>) w;
          Some (s\<lparr>wr_erase := e, wr_i4Ret := r\<rparr>, w) }"

text \<open>The body of \<open>while (blockstart != ...)\<close>.\<close>

definition enter_body :: "'f wr_env \<Rightarrow> wr_state \<Rightarrow> 'f mtd_world \<Rightarrow> (flow \<times> wr_state \<times> 'f mtd_world) option" where
  "enter_body E s w =
     (let m = we_info E; bs = block_base m (mtdoffset s);
          s = s\<lparr>headoffset := 0, tailoffset := 0, headsize := 0, tailsize := 0, headend := blockstart s,
                blockstart := bs, tailstart := bs + erasesize m\<rparr>
      in do { (r, w) \<leftarrow> bad_loop m (we_ops E) bs (scast bs) False (mtdoffset s) w;
              case r of None \<Rightarrow> Some (Closeall, s\<lparr>wr_i4Ret := -1\<rparr>, w)
              | Some (i4Ret, bad, mo) \<Rightarrow>
                  let s = s\<lparr>wr_i4Ret := i4Ret, mtdoffset := mo\<rparr> in
                  if bad then Some (Go, s, w)
                  else do { (fl, s, w) \<leftarrow> save_block E (split_block m s) w;
                            if fl = Closeall then Some (Closeall, s, w)
                            else do { (s, w) \<leftarrow> erase_current E s w;
                                      if wr_i4Ret s = 0 then Some (Go, s, w)
                                      else do { (r, w) \<leftarrow> call_markbad (we_ops E) (scast (blockstart s)) w;
                                                if r \<noteq> 0 then Some (Closeall, s\<lparr>wr_i4Ret := r\<rparr>, w)
                                                else Some (Go, s\<lparr>wr_i4Ret := r,
                                                       mtdoffset := mtdoffset s + erasesize m\<rparr>, w) } } } })"

partial_function (option) enter_loop ::
  "'f wr_env \<Rightarrow> wr_state \<Rightarrow> 'f mtd_world \<Rightarrow> (flow \<times> wr_state \<times> 'f mtd_world) option"
where
  "enter_loop E s w =
     (if blockstart s \<noteq> block_base (we_info E) (mtdoffset s)
      then do { (fl, s, w) \<leftarrow> enter_body E s w;
                if fl = Closeall then Some (Closeall, s, w) else enter_loop E s w }
      else Some (Go, s, w))"

declare enter_loop.simps [code]

section \<open>Writing a page\<close>

text \<open>The page buffer is filled from the head of the block, \<dots>\<close>

definition page_head :: "'f wr_env \<Rightarrow> wr_state \<Rightarrow> 'f mtd_world \<Rightarrow> u32 \<times> wr_state \<times> 'f mtd_world" where
  "page_head E s w =
     (let ws = writesize (we_info E) in
      if pos_int (headsize s)
      then let writelen = (if ws \<le>s headsize s then ws else headsize s);
               hs = (if ws \<le>s headsize s then headsize s - ws else 0)
           in (writelen,
               s\<lparr>headsize := hs, writeoffset := tempoffset s, tempoffset := tempoffset s + writelen,
                 headoffset := headoffset s + writelen\<rparr>,
               memcpy (pu1TempMemBuf E) (pu1BlockMemBuf E + unat (headoffset s)) (unat writelen) w)
      else (0, s, w))"

text \<open>\<dots> the new bytes \<dots>\<close>

definition page_data :: "'f wr_env \<Rightarrow> u32 \<Rightarrow> wr_state \<Rightarrow> 'f mtd_world \<Rightarrow> u32 \<times> wr_state \<times> 'f mtd_world" where
  "page_data E writelen s w =
     (let ws = writesize (we_info E) in
      if pos_int (imglen s) \<and> writelen < ws
      then let readlen = (if imglen s <s ws - writelen then imglen s else ws - writelen)
           in (readlen,
               s\<lparr>writeoffset := (if writelen = 0 then mtdoffset s else writeoffset s),
                 imglen := imglen s - readlen, u4WtByteCnt := u4WtByteCnt s + readlen,
                 mtdoffset := mtdoffset s + readlen\<rparr>,
               memcpy (pu1TempMemBuf E + unat writelen) (pu1MemBuf E + unat (u4WtByteCnt s)) (unat readlen) w)
      else (0, s, w))"

text \<open>\<dots> and the tail of the block; \<open>filled\<close> is \<open>readlen + writelen\<close>.\<close>

definition page_tail :: "'f wr_env \<Rightarrow> u32 \<Rightarrow> wr_state \<Rightarrow> 'f mtd_world \<Rightarrow> wr_state \<times> 'f mtd_world" where
  "page_tail E filled s w =
     (let ws = writesize (we_info E) in
      if pos_int (tailsize s) \<and> filled < ws
      then let readcnt = (if ws - filled \<le>s tailsize s then ws - filled else tailsize s);
               ts = (if ws - filled \<le>s tailsize s then tailsize s - (ws - filled) else 0)
           in (s\<lparr>tailsize := ts, writeoffset := (if filled = 0 then mtdoffset s else writeoffset s),
                 mtdoffset := mtdoffset s + readcnt, tailoffset := tailoffset s + readcnt\<rparr>,
               memcpy (pu1TempMemBuf E + unat filled) (pu1BlockMemBuf E + unat (tailoffset s)) (unat readcnt) w)
      else (s, w))"

definition fill_page :: "'f wr_env \<Rightarrow> wr_state \<Rightarrow> 'f mtd_world \<Rightarrow> wr_state \<times> 'f mtd_world" where
  "fill_page E s w =
     (let w = memset (pu1TempMemBuf E) 0xFF (unat (writesize (we_info E))) w;
          (writelen, s, w) = page_head E s w;
          (readlen, s, w) = page_data E writelen s w
      in page_tail E (readlen + writelen) s w)"

text \<open>After a failed write: the block is erased and marked bad, whatever these calls return, and what it
  got of the new bytes is to be written again, from the start of the next block.\<close>

definition written_here :: "wr_state \<Rightarrow> u32" where
  "written_here s =
     (if mtdoffset s \<le> headend s then 0
      else if mtdoffset s \<le> tailstart s then mtdoffset s - headend s
      else tailstart s - headend s)"

definition write_failed :: "'f wr_env \<Rightarrow> wr_state \<Rightarrow> 'f mtd_world \<Rightarrow> (wr_state \<times> 'f mtd_world) option" where
  "write_failed E s w =
     do { (s, w) \<leftarrow> erase_current E s w;
          (r, w) \<leftarrow> call_markbad (we_ops E) (ucast (block_base (we_info E) (writeoffset s))) w;
          let k = written_here s;
          Some (s\<lparr>mtdoffset := blockstart s + erasesize (we_info E), imglen := imglen s + k,
                  u4WtByteCnt := u4WtByteCnt s - k, fgBlockDataBack := True\<rparr>, w) }"

partial_function (option) write_loop ::
  "'f wr_env \<Rightarrow> wr_state \<Rightarrow> 'f mtd_world \<Rightarrow> (wr_state \<times> 'f mtd_world) option"
where
  "write_loop E s w =
     (if (imglen s \<noteq> 0 \<or> headsize s \<noteq> 0 \<or> tailsize s \<noteq> 0) \<and> ucast (mtdoffset s) < mtd_size (we_info E)
      then do { (fl, s, w) \<leftarrow> enter_loop E s w;
                if fl = Closeall then Some (s, w)
                else let (s, w) = fill_page E s w in
                  do { (r, retlen, w) \<leftarrow> op_write (we_ops E) (ucast (writeoffset s)) (writesize (we_info E))
                         (pu1TempMemBuf E) w;
                       if r \<noteq> 0
                       then do { (s, w) \<leftarrow> write_failed E s w; write_loop E s w }
                       else write_loop E s w } }
      else Some (s, w))"

declare write_loop.simps [code]

section \<open>The whole write\<close>

definition wr_start :: "u32 \<Rightarrow> u32 \<Rightarrow> int \<Rightarrow> wr_state" where
  "wr_start len mo i4Ret =
     \<lparr>imglen = len, headoffset = 0, tailoffset = 0, headsize = 0, tailsize = 0, headend = 0, tailstart = 0,
      blockstart = -1, mtdoffset = mo, writeoffset = 0, tempoffset = 0, wr_i4Ret = i4Ret, u4WtByteCnt = 0,
      fgBlockDataBack = False,
      wr_erase = \<lparr>ei_mtd = 0, ei_addr = 0, ei_len = 0, ei_fail_addr = 0, ei_state = 0, ei_callback = None\<rparr>\<rparr>"

text \<open>\<open>if (imglen > 0) i4Ret = -1;\<close>\<close>

definition close_write :: "wr_state \<Rightarrow> int" where
  "close_write s = (if pos_int (imglen s) then -1 else wr_i4Ret s)"

definition write_too_long :: "mtd_info \<Rightarrow> u32 \<Rightarrow> u32 \<Rightarrow> bool option" where
  "write_too_long m off len =
     (if writesize m = 0 then None
      else Some (mtd_size m - ucast off <
             (ucast (word_of_int (sint len sdiv sint (writesize m)) * writesize m :: u32) :: u64)))"

text \<open>The results of the three allocations: whether there is a \<open>struct erase_info\<close>, and the two buffers.\<close>

record wr_alloc =
  erase_memory :: bool
  page_memory :: "addr option"
  block_memory :: "addr option"

definition i4NFBPartitionWrite ::
  "pit_board \<Rightarrow> wr_alloc \<Rightarrow> (addr \<Rightarrow> 'f mtd_ops) \<Rightarrow> bool \<Rightarrow> u32 \<Rightarrow> u32 \<Rightarrow> addr \<Rightarrow> u32 \<Rightarrow> 'f mtd_world
    \<Rightarrow> (int \<times> 'f mtd_world) option" where
  "i4NFBPartitionWrite B al dev b_get_registry u4DevId u8Offset u4MemPtr u4MemLen w =
     (if \<not> erase_memory al then Some (ENOMEM, w)
      else if u4MemPtr = 0 then None
      else do { (a, m, w) \<leftarrow> mtd_get u4DevId w;
                long \<leftarrow> write_too_long m u8Offset u4MemLen;
                if long then Some (-1, w)
                else do { tmp \<leftarrow> page_memory al;
                          blk \<leftarrow> block_memory al;
                          let w = memset blk 0 (unat (erasesize m)) (memset tmp 0 8192 w);
                          (r, w) \<leftarrow> write_prefix m (dev a)
                            (ucast (registry_start B b_get_registry u4DevId)) u8Offset 0 w;
                          case r of None \<Rightarrow> Some (-1, w)
                          | Some (i4Ret, mo) \<Rightarrow>
                              do { (s, w) \<leftarrow> write_loop \<lparr>we_mtd = a, we_info = m, we_ops = dev a,
                                       pu1MemBuf = u4MemPtr, pu1TempMemBuf = tmp, pu1BlockMemBuf = blk\<rparr>
                                     (wr_start u4MemLen mo i4Ret) w;
                                   Some (close_write s, w) } } })"

end
