(* ===== verification/PitPages.thy ===== *)
theory PitPages
  imports PitWrite
begin

text \<open>
  One page of \<open>i4NFBPartitionWrite\<close>: what \<open>fill_page\<close> puts into the page buffer.  \<open>page_parts\<close> tells how many
  bytes come from the head of the old block, from the new bytes and from the tail of the old block, and
  \<open>fill_page_step\<close> shows that the buffer then holds the next page of the new content of the block, and
  that the variables describe the page behind it (\<open>page_state\<close>).
\<close>

section \<open>The three copies without their conditions\<close>

lemma memcpy_0 [simp]: "memcpy d s 0 w = w"
  by (simp add: memcpy_def)

lemma page_head_eq:
  assumes h: "unat (headsize s) < 2 ^ 31" "unat (writesize (we_info E)) < 2 ^ 31"
  defines "wl \<equiv> min (writesize (we_info E)) (headsize s)"
  shows "page_head E s w = (wl,
    s\<lparr>headsize := headsize s - wl, writeoffset := (if headsize s = 0 then writeoffset s else tempoffset s),
      tempoffset := tempoffset s + wl, headoffset := headoffset s + wl\<rparr>,
    memcpy (pu1TempMemBuf E) (pu1BlockMemBuf E + unat (headoffset s)) (unat wl) w)"
proof (cases "headsize s = 0")
  case True
  then have "wl = 0" by (simp add: wl_def min_def)
  with True show ?thesis by (simp add: page_head_def Let_def)
next
  case False
  then have p: "pos_int (headsize s)" using h by (simp add: sless_small unat_gt_0)
  show ?thesis
  proof (cases "writesize (we_info E) \<le> headsize s")
    case True
    then have "wl = writesize (we_info E)" by (simp add: wl_def)
    moreover from True have "writesize (we_info E) \<le>s headsize s" using h by (simp add: sle_small word_le_nat_alt)
    ultimately show ?thesis using p False by (simp add: page_head_def Let_def)
  next
    case le: False
    then have "wl = headsize s" by (simp add: wl_def)
    moreover from le have "\<not> writesize (we_info E) \<le>s headsize s" using h by (simp add: sle_small word_le_nat_alt)
    ultimately show ?thesis using p False by (simp add: page_head_def Let_def)
  qed
qed

lemma page_data_eq:
  assumes h: "unat (imglen s) < 2 ^ 31" "unat (writesize (we_info E)) < 2 ^ 31" "wl \<le> writesize (we_info E)"
  defines "rl \<equiv> min (writesize (we_info E) - wl) (imglen s)"
  shows "page_data E wl s w = (rl,
    s\<lparr>writeoffset := (if rl \<noteq> 0 \<and> wl = 0 then mtdoffset s else writeoffset s), imglen := imglen s - rl,
      u4WtByteCnt := u4WtByteCnt s + rl, mtdoffset := mtdoffset s + rl\<rparr>,
    memcpy (pu1TempMemBuf E + unat wl) (pu1MemBuf E + unat (u4WtByteCnt s)) (unat rl) w)"
proof -
  let ?ws = "writesize (we_info E)"
  have d: "unat (?ws - wl) < 2 ^ 31" "unat (?ws - wl) = unat ?ws - unat wl"
    using h(2,3) by (simp_all add: unat_sub word_le_nat_alt)
  have lt: "wl < ?ws \<longleftrightarrow> ?ws - wl \<noteq> 0" using h(3) by (metis diff_eq_diff_eq diff_self order_less_le)
  have sl: "imglen s <s ?ws - wl \<longleftrightarrow> \<not> ?ws - wl \<le> imglen s"
    using h(1) d(1) by (simp add: sless_small word_le_nat_alt not_le)
  show ?thesis
  proof (cases "imglen s = 0 \<or> ?ws - wl = 0")
    case True
    then have "rl = 0" by (auto simp: rl_def min_def)
    moreover have "\<not> (pos_int (imglen s) \<and> wl < ?ws)" using True lt by auto
    ultimately show ?thesis unfolding page_data_def Let_def by (simp only: if_False) simp
  next
    case False
    then have c: "pos_int (imglen s) \<and> wl < ?ws" using h(1) lt by (simp add: sless_small unat_gt_0)
    have rl: "rl = (if imglen s <s ?ws - wl then imglen s else ?ws - wl)" using sl by (simp add: rl_def min_def)
    moreover have "rl \<noteq> 0" using False by (simp add: rl)
    ultimately show ?thesis using c by (simp add: page_data_def Let_def)
  qed
qed

lemma page_tail_eq:
  assumes h: "unat (tailsize s) < 2 ^ 31" "unat (writesize (we_info E)) < 2 ^ 31" "fl \<le> writesize (we_info E)"
  defines "cl \<equiv> min (writesize (we_info E) - fl) (tailsize s)"
  shows "page_tail E fl s w = (
    s\<lparr>tailsize := tailsize s - cl, writeoffset := (if cl \<noteq> 0 \<and> fl = 0 then mtdoffset s else writeoffset s),
      mtdoffset := mtdoffset s + cl, tailoffset := tailoffset s + cl\<rparr>,
    memcpy (pu1TempMemBuf E + unat fl) (pu1BlockMemBuf E + unat (tailoffset s)) (unat cl) w)"
proof -
  let ?ws = "writesize (we_info E)"
  have d: "unat (?ws - fl) < 2 ^ 31" "unat (?ws - fl) = unat ?ws - unat fl"
    using h(2,3) by (simp_all add: unat_sub word_le_nat_alt)
  have lt: "fl < ?ws \<longleftrightarrow> ?ws - fl \<noteq> 0" using h(3) by (metis diff_eq_diff_eq diff_self order_less_le)
  have sl: "?ws - fl \<le>s tailsize s \<longleftrightarrow> ?ws - fl \<le> tailsize s"
    using h(1) d(1) by (simp add: sle_small word_le_nat_alt)
  show ?thesis
  proof (cases "tailsize s = 0 \<or> ?ws - fl = 0")
    case True
    then have "cl = 0" by (auto simp: cl_def min_def)
    moreover have "\<not> (pos_int (tailsize s) \<and> fl < ?ws)" using True lt by auto
    ultimately show ?thesis unfolding page_tail_def Let_def by (simp only: if_False) simp
  next
    case False
    then have c: "pos_int (tailsize s) \<and> fl < ?ws" using h(1) lt by (simp add: sless_small unat_gt_0)
    have cl: "cl = (if ?ws - fl \<le>s tailsize s then ?ws - fl else tailsize s)" using sl by (simp add: cl_def min_def)
    moreover have "cl \<noteq> 0" using False by (simp add: cl)
    ultimately show ?thesis using c by (simp add: page_tail_def Let_def)
  qed
qed

section \<open>The parts of a page\<close>

lemma take_min: "take (min a (length xs)) xs = take a xs"
  by (simp add: min_def)

text \<open>Where a page \<open>[x, x + k)\<close> lies relative to the new bytes \<open>[q, q + P)\<close>, and what it takes from each source.\<close>

definition page_parts :: "nat \<Rightarrow> nat \<Rightarrow> nat \<Rightarrow> nat \<Rightarrow> nat \<times> nat \<times> nat" where
  "page_parts q P x k =
     (let wl = min k (q - x); rl = min (k - (q - x)) (P - (x - q)) in (wl, rl, k - wl - rl))"

lemma page_parts_cases:
  assumes "page_parts q P x k = (wl, rl, cl)" and "0 < k"
  obtains "x + k \<le> q" "wl = k" "rl = 0" "cl = 0"
  | "x < q" "q < x + k" "x + k \<le> q + P" "wl = q - x" "rl = x + k - q" "cl = 0"
  | "x < q" "q < x + k" "q + P < x + k" "wl = q - x" "rl = P" "cl = x + k - (q + P)"
  | "q \<le> x" "x + k \<le> q + P" "wl = 0" "rl = k" "cl = 0"
  | "q \<le> x" "x < q + P" "q + P < x + k" "wl = 0" "rl = q + P - x" "cl = x + k - (q + P)"
  | "q + P \<le> x" "wl = 0" "rl = 0" "cl = k"
proof -
  from assms have *: "wl = min k (q - x)" "rl = min (k - (q - x)) (P - (x - q))" "cl = k - wl - rl"
    by (auto simp: page_parts_def Let_def)
  consider "x + k \<le> q" | "x < q" "q < x + k" "x + k \<le> q + P" | "x < q" "q < x + k" "q + P < x + k"
    | "q \<le> x" "x + k \<le> q + P" | "q \<le> x" "x < q + P" "q + P < x + k" | "q + P \<le> x" by linarith
  then show thesis
  proof cases
    case 1 with * that(1) show ?thesis by simp
  next
    case 2 with * that(2) show ?thesis by simp
  next
    case 3 with * that(3) show ?thesis by simp
  next
    case 4 with * that(4) show ?thesis by simp
  next
    case 5 with * that(5) show ?thesis by simp
  next
    case 6 with * that(6) show ?thesis by simp
  qed
qed

lemma diff_min_min: "a - b - c = a - min a b - min (a - b) (c :: nat)"
  by (cases "a \<le> b"; cases "a - b \<le> c") simp_all

lemma slice_merge:
  assumes "length old = es" and "length dat = P" and "q + P \<le> es" and "x + k \<le> es"
    and k: "0 < k" and pp: "page_parts q P x k = (wl, rl, cl)"
  shows "slice (take q old @ dat @ drop (q + P) old) x k =
    slice old x wl @ slice dat (x - q) rl @ slice old (max (q + P) x) cl"
proof -
  from pp have wl_def: "wl = min k (q - x)" and rl_def: "rl = min (k - (q - x)) (P - (x - q))" and cl_def: "cl = k - wl - rl"
    by (auto simp: page_parts_def Let_def)
  have l: "length (take q old) = q" using assms(1,3) by simp
  have "slice (take q old @ dat @ drop (q + P) old) x k =
      take k (drop x (take q old)) @ take (k - (q - x)) (drop (x - q) dat) @
      take (k - (q - x) - (P - (x - q))) (drop (x - q - P) (drop (q + P) old))"
    using l assms(2) by (simp add: slice_def)
  moreover have "take k (drop x (take q old)) = slice old x wl"
    by (simp add: slice_def drop_take wl_def)
  moreover have "take (k - (q - x)) (drop (x - q) dat) = slice dat (x - q) rl"
    using take_min [of "k - (q - x)" "drop (x - q) dat"] assms(2) by (simp add: slice_def rl_def)
  moreover have "drop (x - q - P) (drop (q + P) old) = drop (max (q + P) x) old"
    by (simp add: max_def)
  moreover have "k - (q - x) - (P - (x - q)) = cl"
    unfolding cl_def wl_def rl_def by (rule diff_min_min)
  ultimately show ?thesis by (simp only: slice_def)
qed

lemma page_counts:
  assumes pp: "page_parts q P x k = (wl, rl, cl)" and h: "0 < k" "x + k \<le> es"
    and p: "P = L \<and> q + L \<le> es \<or> q + P = es \<and> P < L"
  shows "min (k - wl) (L - min P (x - q)) = rl"
    and "min (k - (wl + rl)) (es - max (q + P) x) = cl"
    and "max q x + rl + cl = max q (x + k)"
    and "min P (x - q) + rl = min P (x + k - q)"
    and "q - x - wl = q - (x + k)" and "min k (q - x) = wl"
    and "x + k < q \<Longrightarrow> wl = k"
    and "es - max (q + P) x - cl = es - max (q + P) (x + k)"
    and "max (q + P) x + cl = max (q + P) (x + k)"
    and "wl = 0 \<Longrightarrow> q \<le> x" and "wl \<noteq> 0 \<Longrightarrow> x < q" and "rl \<noteq> 0 \<Longrightarrow> min P (x - q) = x - q"
    and "wl + rl + cl = k"
proof -
  note cs = page_parts_cases [OF pp h(1)]
  show "min (k - wl) (L - min P (x - q)) = rl"
  proof (cases "P = L")
    case True
    show ?thesis unfolding True [symmetric] by (rule cs; simp add: min_def; linarith?)
  next
    case False
    with p have "q + P = es" "P < L" by simp_all
    then show ?thesis using h by - (rule cs; simp add: min_def; linarith?)
  qed
  show "min (k - (wl + rl)) (es - max (q + P) x) = cl" using h(2) by - (rule cs; simp add: min_def max_def; linarith?)
  show "max q x + rl + cl = max q (x + k)" by (rule cs; simp add: max_def; linarith?)
  show "min P (x - q) + rl = min P (x + k - q)" by (rule cs; simp add: min_def; linarith?)
  show "q - x - wl = q - (x + k)" "wl + rl + cl = k" "min k (q - x) = wl" by - (rule cs; simp add: min_def; fail)+
  show m: "max (q + P) x + cl = max (q + P) (x + k)" by (rule cs; simp add: max_def; linarith?)
  then show "es - max (q + P) x - cl = es - max (q + P) (x + k)" by (simp only: diff_diff_left)
  show "x + k < q \<Longrightarrow> wl = k" by (rule cs; simp)
  show "wl = 0 \<Longrightarrow> q \<le> x" using h(1) by - (rule cs; simp)
  show "wl \<noteq> 0 \<Longrightarrow> x < q" by (rule cs; simp)
  show "rl \<noteq> 0 \<Longrightarrow> min P (x - q) = x - q" by (rule cs; simp)
qed

section \<open>Filling the page buffer\<close>

definition apart :: "addr \<Rightarrow> nat \<Rightarrow> addr \<Rightarrow> nat \<Rightarrow> bool" where
  "apart p k q l \<longleftrightarrow> p + k \<le> q \<or> q + l \<le> p"

lemma load_store_apart: "apart p (length xs) q l \<Longrightarrow> load (store h p xs) q l = load h q l"
  by (auto simp: apart_def load_def store_def)

lemma store_other: "\<not> (p \<le> a \<and> a < p + length xs) \<Longrightarrow> store h p xs a = h a"
  by (simp only: store_def if_False)

lemma apart_sub: "apart p k q l \<Longrightarrow> p \<le> p' \<Longrightarrow> p' + k' \<le> p + k \<Longrightarrow> q \<le> q' \<Longrightarrow> q' + l' \<le> q + l \<Longrightarrow> apart p' k' q' l'"
  by (auto simp: apart_def)

lemma load_slice: "o' + k \<le> n \<Longrightarrow> load h (p + o') k = slice (load h p n) o' k"
proof -
  assume "o' + k \<le> n"
  then have "load h p n = load h p o' @ load h (p + o') k @ load h (p + (o' + k)) (n - (o' + k))"
    using load_add [of h p o' "n - o'"] load_add [of h "p + o'" k "n - o' - k"] by (simp add: add.assoc)
  then show ?thesis by (simp add: slice_def)
qed

lemma store_three:
  "load (store (store (store h p a) (p + length a) b) (p + length a + length b) c) p (length a + length b + length c) = a @ b @ c"
  using load_store [of h p "a @ b @ c"] store_append [of h p a b] store_append [of h p "a @ b" c]
  by (simp add: add.assoc)

definition page_state :: "nat \<Rightarrow> nat \<Rightarrow> nat \<Rightarrow> nat \<Rightarrow> nat \<Rightarrow> nat \<Rightarrow> wr_state \<Rightarrow> nat \<Rightarrow> bool" where
  "page_state es base q P L cnt s x \<longleftrightarrow>
     unat (blockstart s) = base \<and> unat (headsize s) = q - x \<and>
     (x < q \<longrightarrow> unat (tempoffset s) = base + x \<and> unat (headoffset s) = x) \<and>
     unat (tailsize s) = es - max (q + P) x \<and> (unat (tailsize s) \<noteq> 0 \<longrightarrow> unat (tailoffset s) = max (q + P) x) \<and>
     unat (imglen s) = L - min P (x - q) \<and> unat (u4WtByteCnt s) = cnt + min P (x - q) \<and>
     unat (mtdoffset s) = base + max q x \<and> \<not> fgBlockDataBack s \<and> wr_i4Ret s = 0 \<and>
     ei_callback (wr_erase s) = None"

lemma unat_min: "unat (min a b :: u32) = min (unat a) (unat b)"
  by (simp add: min_def word_le_nat_alt)

lemma fill_page_step:
  fixes E :: "'f wr_env" and w :: "'f mtd_world"
  assumes st: "page_state es base q P L cnt s x" and pl: "P = L \<and> q + L \<le> es \<or> q + P = es \<and> P < L"
    and ws: "unat (writesize (we_info E)) = k" "0 < k" "x + k \<le> es"
    and bound: "base + es \<le> 2 ^ 31" "L < 2 ^ 31" "es \<le> 2 ^ 30" "cnt + L < 2 ^ 32"
    and ap: "apart (pu1TempMemBuf E) k (pu1BlockMemBuf E) es" "apart (pu1TempMemBuf E) k (pu1MemBuf E + cnt) L"
    and old: "old = load (mem w) (pu1BlockMemBuf E) es" and dat: "dat = load (mem w) (pu1MemBuf E + cnt) P"
  shows "\<exists>s' w'. fill_page E s w = (s', w') \<and> page_state es base q P L cnt s' (x + k) \<and>
    unat (writeoffset s') = base + x \<and> w' = w\<lparr>mem := mem w'\<rparr> \<and>
    load (mem w') (pu1TempMemBuf E) k = slice (take q old @ dat @ drop (q + P) old) x k \<and>
    (\<forall>a. \<not> (pu1TempMemBuf E \<le> a \<and> a < pu1TempMemBuf E + k) \<longrightarrow> mem w' a = mem w a)"
proof -
  let ?tmp = "pu1TempMemBuf E" and ?blk = "pu1BlockMemBuf E" and ?src = "pu1MemBuf E"
  let ?k = "writesize (we_info E)"
  obtain wl rl cl where pp: "page_parts q P x k = (wl, rl, cl)" by (metis prod_cases3)
  note pc = page_counts [OF pp ws(2,3) pl]
  from st have S: "unat (blockstart s) = base" "unat (headsize s) = q - x"
     "x < q \<Longrightarrow> unat (tempoffset s) = base + x" "x < q \<Longrightarrow> unat (headoffset s) = x"
     "unat (tailsize s) = es - max (q + P) x" "unat (tailsize s) \<noteq> 0 \<Longrightarrow> unat (tailoffset s) = max (q + P) x"
     "unat (imglen s) = L - min P (x - q)" "unat (u4WtByteCnt s) = cnt + min P (x - q)"
     "unat (mtdoffset s) = base + max q x" "\<not> fgBlockDataBack s" "wr_i4Ret s = 0" "ei_callback (wr_erase s) = None"
    by (simp_all add: page_state_def)
  have qes: "q \<le> es" "q + P \<le> es" "P \<le> L" using pl by auto
  define w0 where "w0 = memset ?tmp 0xFF k w"
  \<comment> \<open>the head\<close>
  define wlw where "wlw = min ?k (headsize s)"
  have uwl: "unat wlw = wl" using pc(6) S(2) ws(1) by (simp add: wlw_def unat_min)
  have wlk: "wlw \<le> ?k" "wl \<le> k" using pc(13) by (auto simp: wlw_def)
  define s1 where "s1 = s\<lparr>headsize := headsize s - wlw, writeoffset := (if headsize s = 0 then writeoffset s else tempoffset s),
      tempoffset := tempoffset s + wlw, headoffset := headoffset s + wlw\<rparr>"
  define w1 where "w1 = memcpy ?tmp (?blk + unat (headoffset s)) wl w0"
  have hs: "unat (headsize s) < 2 ^ 31" using S(2) qes bound(3) by simp
  have kb: "unat ?k < 2 ^ 31" using ws bound(3) by simp
  have h1: "page_head E s w0 = (wlw, s1, w1)"
    using page_head_eq [OF hs kb, of w0] uwl by (simp add: wlw_def [symmetric] s1_def w1_def)
  \<comment> \<open>the new bytes\<close>
  have ub: "unat (?k - wlw) = k - wl" using unat_sub_32 [OF wlk(1)] uwl ws(1) by simp
  define rlw where "rlw = min (?k - wlw) (imglen s)"
  have url: "unat rlw = rl" using pc(1) S(7) ub by (simp add: rlw_def unat_min)
  define s2 where "s2 = s1\<lparr>writeoffset := (if rlw \<noteq> 0 \<and> wlw = 0 then mtdoffset s1 else writeoffset s1), imglen := imglen s1 - rlw,
      u4WtByteCnt := u4WtByteCnt s1 + rlw, mtdoffset := mtdoffset s1 + rlw\<rparr>"
  define w2 where "w2 = memcpy (?tmp + wl) (?src + (cnt + min P (x - q))) rl w1"
  have s1f: "imglen s1 = imglen s" "u4WtByteCnt s1 = u4WtByteCnt s" "mtdoffset s1 = mtdoffset s" "tailsize s1 = tailsize s"
    "tailoffset s1 = tailoffset s" by (simp_all add: s1_def)
  have im: "unat (imglen s1) < 2 ^ 31" using S(7) bound(2) s1f by simp
  have h2: "page_data E wlw s1 w1 = (rlw, s2, w2)"
    using page_data_eq [OF im kb wlk(1), of w1] url uwl S(8) by (simp add: rlw_def [symmetric] s1f s2_def w2_def)
  \<comment> \<open>the tail\<close>
  have fl: "unat (rlw + wlw) = wl + rl" using url uwl pc(13) ws kb by (subst unat_add_32) simp_all
  have flk: "rlw + wlw \<le> ?k" using fl ws(1) pc(13) by (simp add: word_le_nat_alt)
  have uf: "unat (?k - (rlw + wlw)) = k - (wl + rl)" using unat_sub_32 [OF flk] fl ws(1) by simp
  define clw where "clw = min (?k - (rlw + wlw)) (tailsize s)"
  have ucl: "unat clw = cl" using pc(2) S(5) uf by (simp add: clw_def unat_min)
  define s3 where "s3 = s2\<lparr>tailsize := tailsize s2 - clw, writeoffset := (if clw \<noteq> 0 \<and> rlw + wlw = 0 then mtdoffset s2 else writeoffset s2),
      mtdoffset := mtdoffset s2 + clw, tailoffset := tailoffset s2 + clw\<rparr>"
  define w3 where "w3 = memcpy (?tmp + (wl + rl)) (?blk + unat (tailoffset s)) cl w2"
  have s2f: "tailsize s2 = tailsize s" "tailoffset s2 = tailoffset s" by (simp_all add: s2_def s1f)
  have ti: "unat (tailsize s2) < 2 ^ 31" using S(5) bound(3) s2f by simp
  have h3: "page_tail E (rlw + wlw) s2 w2 = (s3, w3)"
    using page_tail_eq [OF ti kb flk, of w2] ucl fl s2f by (simp add: clw_def [symmetric] s3_def w3_def)
  have fp: "fill_page E s w = (s3, w3)"
    using h1 h2 h3 ws(1) by (simp add: fill_page_def Let_def w0_def)
  \<comment> \<open>the state behind the page\<close>
  have s3f: "blockstart s3 = blockstart s" "headsize s3 = headsize s - wlw" "tempoffset s3 = tempoffset s + wlw"
    "headoffset s3 = headoffset s + wlw" "tailsize s3 = tailsize s - clw" "tailoffset s3 = tailoffset s + clw"
    "imglen s3 = imglen s - rlw" "u4WtByteCnt s3 = u4WtByteCnt s + rlw" "mtdoffset s3 = mtdoffset s + rlw + clw"
    "fgBlockDataBack s3 = fgBlockDataBack s" "wr_i4Ret s3 = wr_i4Ret s" "wr_erase s3 = wr_erase s"
    by (simp_all add: s3_def s2_def s1_def)
  have lim: "base + x < 2 ^ 31" "x < es" "max q x \<le> es" "max (q + P) x \<le> es" using ws bound qes by auto
  have ps: "page_state es base q P L cnt s3 (x + k)"
  proof -
    have "unat (headsize s3) = q - (x + k)"
      using S(2) uwl pc(5) unat_sub_32 [of wlw "headsize s"] by (simp add: s3f wlw_def)
    moreover have "unat (tempoffset s3) = base + (x + k) \<and> unat (headoffset s3) = x + k" if "x + k < q"
      using that S(3,4) pc(7) uwl lim(1) ws(3) bound(3) by (simp add: s3f unat_add_32)
    moreover have ts: "unat (tailsize s3) = es - max (q + P) (x + k)"
      using S(5) ucl pc(8) unat_sub_32 [of clw "tailsize s"] by (simp add: s3f clw_def)
    moreover have "unat (tailoffset s3) = max (q + P) (x + k)" if "unat (tailsize s3) \<noteq> 0"
    proof -
      have "es - max (q + P) x - cl \<noteq> 0" using that ts pc(8) by simp
      then have "unat (tailsize s) \<noteq> 0" using S(5) by simp
      then have "unat (tailoffset s) = max (q + P) x" by (rule S(6))
      then show ?thesis using ucl pc(9) lim(4) bound(3) pc(13) ws(3) by (simp add: s3f unat_add_32)
    qed
    moreover have "unat (imglen s3) = L - min P (x + k - q)"
      using S(7) url unat_sub_32 [of rlw "imglen s"] pc(4) by (simp add: s3f rlw_def)
    moreover have "unat (u4WtByteCnt s3) = cnt + min P (x + k - q)"
    proof -
      have "cnt + min P (x - q) + rl < 2 ^ 32" using pc(4) bound(4) qes(3) by linarith
      then show ?thesis using S(8) url pc(4) by (simp add: s3f unat_add_32)
    qed
    moreover have "unat (mtdoffset s3) = base + max q (x + k)"
    proof -
      have "base + (max q x + rl + cl) < 2 ^ 32" unfolding pc(3) using ws(3) qes(1) bound(1) by simp
      then have lt: "unat (mtdoffset s) + unat rlw + unat clw < 2 ^ 32" using S(9) url ucl by simp
      then have "unat (mtdoffset s) + unat rlw < 2 ^ 32" by linarith
      then have r: "unat (mtdoffset s + rlw) = unat (mtdoffset s) + unat rlw" by (rule unat_add_32)
      have "unat (mtdoffset s + rlw + clw) = unat (mtdoffset s) + unat rlw + unat clw"
        using unat_add_32 [of "mtdoffset s + rlw" clw] lt unfolding r by simp
      then show ?thesis unfolding s3f S(9) url ucl pc(3) [symmetric] by simp
    qed
    moreover have "unat (blockstart s3) = base" "\<not> fgBlockDataBack s3" "wr_i4Ret s3 = 0" "ei_callback (wr_erase s3) = None"
      using S(1,10-12) by (simp_all add: s3f)
    ultimately show ?thesis unfolding page_state_def by blast
  qed
  have wo: "unat (writeoffset s3) = base + x"
  proof (cases "x < q")
    case True
    then have "headsize s \<noteq> 0" using S(2) by (auto simp: unat_eq_zero)
    moreover have "wlw \<noteq> 0" using True pc(10) uwl by auto
    moreover have "rlw + wlw \<noteq> 0" using \<open>wlw \<noteq> 0\<close> fl uwl by (auto simp flip: unat_gt_0)
    ultimately show ?thesis using S(3) True by (simp add: s3_def s2_def s1_def)
  next
    case False
    then have "headsize s = 0" using S(2) by (simp add: unat_eq_zero)
    then have "wlw = 0" by (simp add: wlw_def min_def)
    show ?thesis
    proof (cases "rlw = 0")
      case True
      then have "cl = k" using url uwl \<open>wlw = 0\<close> pc(13) by simp
      then have "clw \<noteq> 0" using ucl ws(2) by auto
      with True \<open>wlw = 0\<close> False S(9) show ?thesis by (simp add: s3_def s2_def s1_def max_def)
    next
      case f: False
      with \<open>wlw = 0\<close> False S(9) show ?thesis by (simp add: s3_def s2_def s1_def max_def)
    qed
  qed
  \<comment> \<open>the page in the buffer\<close>
  define A where "A = slice old x wl"
  define B where "B = slice dat (x - q) rl"
  define D where "D = slice old (max (q + P) x) cl"
  have lA: "length A = wl" using old pc(13) ws(3) by (simp add: A_def)
  have lB: "length B = rl"
  proof -
    have "x - q + rl \<le> P" if "rl \<noteq> 0" using pc(4) pc(12) [OF that] by simp
    then show ?thesis using dat by (cases "rl = 0") (simp_all add: B_def)
  qed
  have cl_es: "max (q + P) x + cl \<le> es" unfolding pc(9) using qes ws(3) by simp
  have lD: "length D = cl" using old cl_es by (simp add: D_def)
  have m0: "mem w0 = store (mem w) ?tmp (replicate k 0xFF)" by (simp add: w0_def memset_def)
  have m1: "mem w1 = store (mem w0) ?tmp A"
  proof (cases "wl = 0")
    case True
    then show ?thesis using lA by (simp add: w1_def)
  next
    case False
    then have ho: "unat (headoffset s) = x" using S(4) pc(11) by simp
    have "apart ?tmp k (?blk + x) wl"
      by (rule apart_sub [OF ap(1)]) (use wlk lim ws(3) in simp_all)
    then have "load (mem w0) (?blk + x) wl = A"
      using load_slice [of x wl es "mem w" ?blk] wlk(2) ws(3) by (simp add: m0 load_store_apart A_def old)
    with ho show ?thesis by (simp add: w1_def memcpy_def)
  qed
  have m2: "mem w2 = store (mem w1) (?tmp + wl) B"
  proof (cases "rl = 0")
    case True
    then show ?thesis using lB by (simp add: w2_def)
  next
    case False
    have in_P: "x - q + rl \<le> P" using pc(4) pc(12) [OF False] by simp
    have "apart ?tmp k (?src + cnt + (x - q)) rl"
      by (rule apart_sub [OF ap(2)]) (use in_P qes(3) in simp_all)
    moreover from this have "apart ?tmp wl (?src + cnt + (x - q)) rl"
      by (rule apart_sub) (use wlk in simp_all)
    ultimately have "load (mem w1) (?src + cnt + (x - q)) rl = B"
      using load_slice [OF in_P, of "mem w" "?src + cnt"] lA by (simp add: m1 m0 load_store_apart B_def dat)
    then show ?thesis using pc(12) [OF False] by (simp add: w2_def memcpy_def add.assoc)
  qed
  have m3: "mem w3 = store (mem w2) (?tmp + wl + rl) D"
  proof (cases "cl = 0")
    case True
    then show ?thesis using lD by (simp add: w3_def)
  next
    case False
    then have to: "unat (tailoffset s) = max (q + P) x" using S(5,6) pc(8) cl_es by simp
    have a: "apart ?tmp k (?blk + max (q + P) x) cl"
      by (rule apart_sub [OF ap(1)]) (use cl_es in simp_all)
    then have "apart ?tmp wl (?blk + max (q + P) x) cl" "apart (?tmp + wl) rl (?blk + max (q + P) x) cl"
      by (rule apart_sub; use pc(13) in simp)+
    with a have "load (mem w2) (?blk + max (q + P) x) cl = D"
      using load_slice [OF cl_es, of "mem w" ?blk] lA lB
      by (simp add: m2 m1 m0 load_store_apart D_def old)
    then show ?thesis using to by (simp add: w3_def memcpy_def add.assoc)
  qed
  have pg: "load (mem w3) ?tmp k = slice (take q old @ dat @ drop (q + P) old) x k"
  proof -
    have "load (mem w3) ?tmp k = A @ B @ D"
      using store_three [of "mem w0" ?tmp A B D] lA lB lD pc(13) by (simp add: m3 m2 m1)
    then show ?thesis using slice_merge [of old es dat P q x k wl rl cl] old dat qes ws pp
      by (simp add: A_def B_def D_def)
  qed
  have oth: "mem w3 a = mem w a" if "\<not> (?tmp \<le> a \<and> a < ?tmp + k)" for a
  proof -
    have n: "\<not> (?tmp + wl + rl \<le> a \<and> a < ?tmp + wl + rl + length D)" "\<not> (?tmp + wl \<le> a \<and> a < ?tmp + wl + length B)"
      "\<not> (?tmp \<le> a \<and> a < ?tmp + length A)" "\<not> (?tmp \<le> a \<and> a < ?tmp + length (replicate k (0xFF :: u8)))"
      using that lA lB lD pc(13) by auto
    show ?thesis unfolding m3 m2 m1 m0 store_other [OF n(1)] store_other [OF n(2)] store_other [OF n(3)]
      by (rule store_other [OF n(4)])
  qed
  have "w3 = w\<lparr>mem := mem w3\<rparr>" by (simp add: w3_def w2_def w1_def w0_def memcpy_def memset_def)
  with fp ps wo pg oth show ?thesis by (intro exI [of _ s3] exI [of _ w3]) simp
qed

end
