(* ===== verification/PitWriteLaws.thy ===== *)
theory PitWriteLaws
  imports PitPages
begin

text \<open>
  \<open>i4NFBPartitionWrite\<close> on a flash that does not fail: it replaces bytes of the sequence of good blocks
  (\<open>good_bytes\<close>), leaves everything else as it is, and what it wrote is what \<open>i4NFBPartitionRead\<close> reads.
\<close>

section \<open>The contract of the flash\<close>

text \<open>The state of the flash does not depend on the memory; an erase of whole blocks sets them to 0xFF; a
  programmed cell that was erased holds the value written.\<close>

definition mem_free :: "('f mtd_world \<Rightarrow> bool) \<Rightarrow> ('f mtd_world \<Rightarrow> u8 list) \<Rightarrow> ('f mtd_world \<Rightarrow> 'r) \<Rightarrow> bool" where
  "mem_free I C R \<longleftrightarrow> (\<forall>w h. I (w\<lparr>mem := h\<rparr>) = I w \<and> C (w\<lparr>mem := h\<rparr>) = C w \<and> R (w\<lparr>mem := h\<rparr>) = R w)"

definition erases ::
  "('f mtd_world \<Rightarrow> bool) \<Rightarrow> addr \<Rightarrow> ('f mtd_world \<Rightarrow> u8 list) \<Rightarrow> ('f mtd_world \<Rightarrow> 'r) \<Rightarrow> nat
    \<Rightarrow> (erase_info \<Rightarrow> 'f mtd_world \<Rightarrow> (int \<times> erase_info \<times> 'f mtd_world) option) \<Rightarrow> bool" where
  "erases I a C R es f \<longleftrightarrow> (\<forall>w e. I w \<longrightarrow> ei_mtd e = a \<longrightarrow> erase_request es (length (C w)) e \<longrightarrow>
     (\<exists>w' e'. f e w = Some (0, e', w') \<and> ei_callback e' = ei_callback e \<and>
        keeps I C R w (erased (C w) e) (mem w) w'))"

definition writable_flash ::
  "('f mtd_world \<Rightarrow> bool) \<Rightarrow> ('f mtd_world \<Rightarrow> u8 list) \<Rightarrow> ('f mtd_world \<Rightarrow> 'r) \<Rightarrow> (u8 \<Rightarrow> u8 \<Rightarrow> u8) \<Rightarrow> nat
    \<Rightarrow> (nat \<Rightarrow> bool) \<Rightarrow> addr \<Rightarrow> 'f mtd_ops \<Rightarrow> bool" where
  "writable_flash I C R pg es bad a ops \<longleftrightarrow>
     reports_bad I C R es bad ops \<and> flat_read I C R (op_read ops) \<and> flat_write I C R pg (op_write ops) \<and>
     erases I a C R es (op_erase ops) \<and> mem_free I C R \<and> (\<forall>x. pg 0xFF x = x)"

section \<open>Entering a block\<close>

lemma backup_loop_reads:
  assumes g: "geometry m n j ws" and rf: "flat_read I C R (op_read ops)"
  shows "I w \<Longrightarrow> length (C w) = n \<Longrightarrow> unat offs = base + r \<Longrightarrow> unat readlen = r \<Longrightarrow> base + 2 ^ j \<le> n \<Longrightarrow>
    r \<le> 2 ^ j \<Longrightarrow> ws dvd r \<Longrightarrow>
    \<exists>w'. backup_loop m ops buf offs readlen w = Some (True, w') \<and>
      keeps I C R w (C w) (store (mem w) (buf + r) (slice (C w) (base + r) (2 ^ j - r))) w'"
proof (induction "2 ^ j - r" arbitrary: w offs readlen r rule: less_induct)
  case less
  note geo = geometryD [OF g]
  let ?es = "2 ^ j :: nat"
  show ?case
  proof (cases "r < ?es")
    case False
    then have "\<not> (offs < mtd_size m \<and> readlen < erasesize m)"
      using less.prems(4) geo(4) by (simp add: word_less_nat_alt)
    then have "backup_loop m ops buf offs readlen w = Some (True, w)"
      by (subst backup_loop.simps) (rule if_not_P)
    with False less.prems(1) show ?thesis by (intro exI [of _ w]) (simp add: keeps_def)
  next
    case True
    have fit: "r + ws \<le> ?es"
    proof -
      obtain a b where ab: "r = ws * a" "?es = ws * b" using less.prems(7) geo(6) by (auto elim!: dvdE)
      then have "a < b" using True by simp
      then have "ws * Suc a \<le> ws * b" by (intro mult_le_mono2) simp
      with ab show ?thesis by simp
    qed
    have ws31: "ws < 2 ^ 31" using geo(11) fit by simp
    have "unat offs < n" using True less.prems(3,5) by simp
    then have cond: "offs < mtd_size m \<and> readlen < erasesize m"
      using True less.prems(4) geo(4,10) by (simp add: word_less_nat_alt)
    have "unat offs < length (C w)" "unat offs + unat (writesize m) \<le> length (C w)"
      using less.prems fit True geo(7) by simp_all
    from rf [unfolded flat_read_def, rule_format, OF less.prems(1) this, of "buf + unat readlen"] geo(7) less.prems(3,4)
    obtain w1 where w1: "op_read ops offs (writesize m) (buf + unat readlen) w = Some (0, writesize m, w1)"
      "keeps I C R w (C w) (store (mem w) (buf + r) (slice (C w) (base + r) ws)) w1" by auto
    note k1 = keepsD [OF w1(2)]
    have sc: "(scast (writesize m) :: u64) = ucast (writesize m)" using ws31 geo(7) by (simp add: scast_small)
    have o': "unat (offs + scast (writesize m)) = base + (r + ws)"
      using less.prems(3,5) fit geo(7,9) unfolding sc by (subst unat_add_64) simp_all
    have r': "unat (readlen + writesize m) = r + ws"
      using less.prems(4) fit geo(7,11) by (subst unat_add_32) simp_all
    have n1: "length (C w1) = n" using k1 less.prems(2) by simp
    have d: "?es - (r + ws) < ?es - r" using True geo(5) by simp
    from less.hyps [OF d k1(1) n1 o' r' less.prems(5) fit] less.prems(7) k1 obtain w' where ih:
      "backup_loop m ops buf (offs + scast (writesize m)) (readlen + writesize m) w1 = Some (True, w')"
      "keeps I C R w1 (C w) (store (mem w1) (buf + (r + ws)) (slice (C w) (base + (r + ws)) (?es - (r + ws)))) w'"
      by auto
    have "backup_loop m ops buf offs readlen w = Some (True, w')"
      using ih(1) by (subst backup_loop.simps) (simp add: cond w1(1))
    moreover have "store (mem w1) (buf + (r + ws)) (slice (C w) (base + (r + ws)) (?es - (r + ws))) =
        store (mem w) (buf + r) (slice (C w) (base + r) (?es - r))"
    proof -
      have "length (slice (C w) (base + r) ws) = ws" using less.prems(2,5) fit by simp
      moreover have "slice (C w) (base + r) (?es - r) = slice (C w) (base + r) ws @ slice (C w) (base + r + ws) (?es - r - ws)"
        using fit less.prems(2,5) by (intro slice_split) simp_all
      ultimately show ?thesis
        using store_append [of "mem w" "buf + r" "slice (C w) (base + r) ws"] k1 by (simp add: add.assoc)
    qed
    ultimately show ?thesis using ih(2) keeps_trans [OF w1(2)] by auto
  qed
qed

lemma bad_loop_once:
  assumes g: "geometry m n j ws" and rb: "reports_bad I C R (2 ^ j) bad ops"
    and w: "I w" "length (C w) = n" and b: "unat bs = b * 2 ^ j" "b * 2 ^ j + 2 ^ j \<le> n"
  shows "\<exists>w'. bad_loop m ops bs (scast bs) False mo w =
      Some (Some (if bad b then 1 else 0, bad b, if bad b then mo + erasesize m else mo), w') \<and>
    keeps I C R w (C w) (mem w) w'"
proof -
  note geo = geometryD [OF g]
  have bs: "unat bs < 2 ^ 31" using b geo(9) by (simp add: less_le_trans [of _ "b * 2 ^ j + 2 ^ j"])
  have sc: "(scast bs :: u64) = ucast bs" by (rule scast_small [OF bs])
  have "unat (ucast bs :: u64) < length (C w)" using b w(2) by (simp add: less_le_trans [of _ "b * 2 ^ j + 2 ^ j"])
  from rb [unfolded reports_bad_def, rule_format, OF w(1) this] b(1) obtain w' where w':
    "call_isbad ops (ucast bs) w = Some (if bad b then 1 else 0, w')" "keeps I C R w (C w) (mem w) w'" by auto
  have e1: "unat (ucast bs + ucast (erasesize m) :: u64) = b * 2 ^ j + 2 ^ j"
    using b(1) geo(4,11) bs by (subst unat_add_64) simp_all
  have e2: "unat (bs + erasesize m) = b * 2 ^ j + 2 ^ j"
    using b geo(4,9) by (subst unat_add_32) simp_all
  have "\<not> (ucast bs + ucast (erasesize m) :: u64) <s ucast (bs + erasesize m)"
    using e1 e2 b(2) geo(9) by (subst sless_64) simp_all
  then show ?thesis using w' by (subst bad_loop.simps) (auto simp: sc Let_def)
qed

definition wr_ready :: "nat \<Rightarrow> nat \<Rightarrow> nat \<Rightarrow> wr_state \<Rightarrow> bool" where
  "wr_ready x L cnt s \<longleftrightarrow> unat (mtdoffset s) = x \<and> unat (imglen s) = L \<and> unat (u4WtByteCnt s) = cnt \<and>
     \<not> fgBlockDataBack s \<and> ei_callback (wr_erase s) = None"

lemma split_block_state:
  assumes g: "geometry m n j ws" and r: "wr_ready (base + q) L cnt s" and bs: "unat (blockstart s) = base"
    and b: "base + 2 ^ j \<le> n" "q < 2 ^ j" "L < 2 ^ 31"
    and P: "P = min L (2 ^ j - q)"
  shows "unat (headsize (split_block m s)) = q" "unat (tailsize (split_block m s)) = 2 ^ j - (q + P)"
    "unat (tailoffset (split_block m s)) = q + P"
proof -
  note geo = geometryD [OF g]
  have mo: "unat (mtdoffset s) = base + q" "unat (imglen s) = L" using r by (simp_all add: wr_ready_def)
  have end1: "unat (blockstart s + erasesize m) = base + 2 ^ j" using bs b geo(4,9) by (subst unat_add_32) simp_all
  have end2: "unat (mtdoffset s + imglen s) = base + q + L" using mo b geo(9) by (subst unat_add_32) simp_all
  show "unat (headsize (split_block m s)) = q"
    using mo bs by (simp add: split_block_def Let_def unat_sub_32 word_le_nat_alt)
  show ts: "unat (tailsize (split_block m s)) = 2 ^ j - (q + P)"
    using end1 end2 P b by (auto simp: split_block_def Let_def unat_sub_32 word_le_nat_alt min_def)
  have le: "tailsize (split_block m s) \<le> erasesize m" using ts geo(4) by (simp add: word_le_nat_alt)
  have "unat (tailoffset (split_block m s)) = unat (erasesize m) - unat (tailsize (split_block m s))"
    using unat_sub_32 [OF le] by (simp add: split_block_def Let_def)
  then show "unat (tailoffset (split_block m s)) = q + P" using ts geo(4) P b by simp
qed

lemma split_block_same [simp]:
  "mtdoffset (split_block m s) = mtdoffset s" "imglen (split_block m s) = imglen s"
  "blockstart (split_block m s) = blockstart s" "u4WtByteCnt (split_block m s) = u4WtByteCnt s"
  "fgBlockDataBack (split_block m s) = fgBlockDataBack s" "wr_erase (split_block m s) = wr_erase s"
  "wr_i4Ret (split_block m s) = wr_i4Ret s" "headoffset (split_block m s) = headoffset s"
  by (simp_all add: split_block_def Let_def)

lemma save_block_saves:
  assumes g: "geometry (we_info E) n j ws" and wf: "writable_flash I C R pg (2 ^ j) bad (we_mtd E) (we_ops E)"
    and w: "I w" "length (C w) = n" and bs: "unat (blockstart s) = base" "base + 2 ^ j \<le> n"
    and hd: "unat (headsize s) \<le> 2 ^ j" and tl: "unat (tailsize s) \<le> 2 ^ j" and fg: "\<not> fgBlockDataBack s"
  shows "\<exists>s' w'. save_block E s w = Some (Go, s', w') \<and>
    s' = (if headsize s = 0 \<and> tailsize s = 0 then s else s\<lparr>tempoffset := blockstart s\<rparr>) \<and>
    keeps I C R w (C w) (if headsize s = 0 \<and> tailsize s = 0 then mem w
      else store (mem w) (pu1BlockMemBuf E) (slice (C w) base (2 ^ j))) w'"
proof -
  note geo = geometryD [OF g]
  let ?es = "2 ^ j :: nat"
  have h31: "unat (headsize s) < 2 ^ 31" "unat (tailsize s) < 2 ^ 31" using hd tl geo(11) by simp_all
  then have c: "pos_int (headsize s) \<or> pos_int (tailsize s) \<longleftrightarrow> \<not> (headsize s = 0 \<and> tailsize s = 0)"
    by (auto simp: sless_small unat_gt_0)
  show ?thesis
  proof (cases "headsize s = 0 \<and> tailsize s = 0")
    case True
    with w show ?thesis by (simp add: save_block_def keeps_def)
  next
    case False
    from wf have mf: "mem_free I C R" and rf: "flat_read I C R (op_read (we_ops E))" by (simp_all add: writable_flash_def)
    define w0 where "w0 = memset (pu1BlockMemBuf E) 0xFF ?es w"
    have w0: "I w0" "length (C w0) = n" "C w0 = C w" "R w0 = R w" "mem w0 = store (mem w) (pu1BlockMemBuf E) (replicate ?es 0xFF)"
      using mf w by (simp_all add: w0_def memset_def mem_free_def)
    have b31: "unat (blockstart s) < 2 ^ 31" using bs geo(9) by (simp add: less_le_trans [of _ "base + ?es"])
    have o0: "unat (scast (blockstart s) :: u64) = base + 0" using bs(1) by (simp add: scast_small [OF b31])
    from backup_loop_reads [OF g rf w0(1,2) o0, of 0 "pu1BlockMemBuf E"] bs(2) obtain w' where w':
      "backup_loop (we_info E) (we_ops E) (pu1BlockMemBuf E) (scast (blockstart s)) 0 w0 = Some (True, w')"
      "keeps I C R w0 (C w) (store (mem w0) (pu1BlockMemBuf E) (slice (C w) base ?es)) w'"
      using w0(3) by auto
    have "store (mem w0) (pu1BlockMemBuf E) (slice (C w) base ?es) = store (mem w) (pu1BlockMemBuf E) (slice (C w) base ?es)"
      unfolding w0(5) using w(2) bs(2) by (auto simp: store_def fun_eq_iff)
    with w'(2) w0 have "keeps I C R w (C w) (store (mem w) (pu1BlockMemBuf E) (slice (C w) base ?es)) w'"
      by (simp add: keeps_def)
    moreover have "save_block E s w = Some (Go, s\<lparr>tempoffset := blockstart s\<rparr>, w')"
      using False c fg w'(1) geo(4) by (simp add: save_block_def w0_def)
    ultimately show ?thesis using False by auto
  qed
qed

lemma erase_current_erases:
  assumes g: "geometry (we_info E) n j ws" and wf: "writable_flash I C R pg (2 ^ j) bad (we_mtd E) (we_ops E)"
    and w: "I w" "length (C w) = n" and bs: "unat (blockstart s) = b * 2 ^ j" "b * 2 ^ j + 2 ^ j \<le> n"
    and cb: "ei_callback (wr_erase s) = None"
  shows "\<exists>e w'. erase_current E s w = Some (s\<lparr>wr_erase := e, wr_i4Ret := 0\<rparr>, w') \<and> ei_callback e = None \<and>
    keeps I C R w (put_at (C w) (b * 2 ^ j) (replicate (2 ^ j) 0xFF)) (mem w) w'"
proof -
  note geo = geometryD [OF g]
  let ?e = "(wr_erase s)\<lparr>ei_addr := scast (blockstart s), ei_len := ucast (erasesize (we_info E)), ei_mtd := we_mtd E\<rparr>"
  from wf have er: "erases I (we_mtd E) C R (2 ^ j) (op_erase (we_ops E))" by (simp add: writable_flash_def)
  have b31: "unat (blockstart s) < 2 ^ 31" using bs geo(9) by (simp add: less_le_trans [of _ "b * 2 ^ j + 2 ^ j"])
  have e: "unat (ei_addr ?e) = b * 2 ^ j" "unat (ei_len ?e) = 2 ^ j" "ei_callback ?e = None" "ei_mtd ?e = we_mtd E"
    using bs(1) geo(4) cb by (simp_all add: scast_small [OF b31])
  have "erase_request (2 ^ j) (length (C w)) ?e"
    unfolding erase_request_def e using bs(2) w(2) by simp
  from er [unfolded erases_def, rule_format, OF w(1) e(4) this] obtain w' e' where
    "op_erase (we_ops E) ?e w = Some (0, e', w')" "ei_callback e' = None"
    "keeps I C R w (put_at (C w) (b * 2 ^ j) (replicate (2 ^ j) 0xFF)) (mem w) w'"
    unfolding e by auto
  then show ?thesis by (auto simp: erase_current_def)
qed

lemma enter_bad:
  assumes g: "geometry (we_info E) n j ws" and wf: "writable_flash I C R pg (2 ^ j) bad (we_mtd E) (we_ops E)"
    and w: "I w" "length (C w) = n" and r: "wr_ready (b * 2 ^ j + q) L cnt s"
    and b: "bad b" "Suc b * 2 ^ j < n" and q: "q < 2 ^ j"
  shows "\<exists>s' w'. enter_body E s w = Some (Go, s', w') \<and> wr_ready (Suc b * 2 ^ j + q) L cnt s' \<and>
    unat (blockstart s') = b * 2 ^ j \<and> keeps I C R w (C w) (mem w) w'"
proof -
  note geo = geometryD [OF g]
  define bs where "bs = block_base (we_info E) (mtdoffset s)"
  from r have mo: "unat (mtdoffset s) = b * 2 ^ j + q" by (simp add: wr_ready_def)
  have ubs: "unat bs = b * 2 ^ j" unfolding bs_def unat_block_base [OF g] mo using q by simp
  have fit: "b * 2 ^ j + 2 ^ j \<le> n" using b(2) by simp
  from wf have "reports_bad I C R (2 ^ j) bad (we_ops E)" by (simp add: writable_flash_def)
  from bad_loop_once [OF g this w ubs fit, of "mtdoffset s"] b(1) obtain w' where w':
    "bad_loop (we_info E) (we_ops E) bs (scast bs) False (mtdoffset s) w =
      Some (Some (1, True, mtdoffset s + erasesize (we_info E)), w')" "keeps I C R w (C w) (mem w) w'" by auto
  have "unat (mtdoffset s + erasesize (we_info E)) = Suc b * 2 ^ j + q"
    using mo geo(4,9) b(2) q by (subst unat_add_32) simp_all
  then show ?thesis using r w' ubs by (auto simp: enter_body_def Let_def bs_def [symmetric] wr_ready_def)
qed

lemma enter_good:
  assumes g: "geometry (we_info E) n j ws" and wf: "writable_flash I C R pg (2 ^ j) bad (we_mtd E) (we_ops E)"
    and w: "I w" "length (C w) = n" and r: "wr_ready (b * 2 ^ j + q) L cnt s"
    and b: "\<not> bad b" "b * 2 ^ j + 2 ^ j \<le> n" and q: "q < 2 ^ j" and L: "L < 2 ^ 31" and P: "P = min L (2 ^ j - q)"
  shows "\<exists>s' w'. enter_body E s w = Some (Go, s', w') \<and> page_state (2 ^ j) (b * 2 ^ j) q P L cnt s' 0 \<and>
    keeps I C R w (put_at (C w) (b * 2 ^ j) (replicate (2 ^ j) 0xFF))
      (if q = 0 \<and> P = 2 ^ j then mem w else store (mem w) (pu1BlockMemBuf E) (slice (C w) (b * 2 ^ j) (2 ^ j))) w'"
proof -
  note geo = geometryD [OF g]
  let ?m = "we_info E" and ?es = "2 ^ j :: nat"
  define bs where "bs = block_base ?m (mtdoffset s)"
  from r have mo: "unat (mtdoffset s) = b * ?es + q" by (simp add: wr_ready_def)
  have ubs: "unat bs = b * ?es" unfolding bs_def unat_block_base [OF g] mo using q by simp
  from wf have "reports_bad I C R ?es bad (we_ops E)" by (simp add: writable_flash_def)
  from bad_loop_once [OF g this w ubs b(2), of "mtdoffset s"] b(1) obtain w1 where w1:
    "bad_loop ?m (we_ops E) bs (scast bs) False (mtdoffset s) w = Some (Some (0, False, mtdoffset s), w1)"
    "keeps I C R w (C w) (mem w) w1" by auto
  note k1 = keepsD [OF w1(2)]
  define s1 where "s1 = s\<lparr>headoffset := 0, tailoffset := 0, headsize := 0, tailsize := 0, headend := blockstart s,
      blockstart := bs, tailstart := bs + erasesize ?m, wr_i4Ret := 0, mtdoffset := mtdoffset s\<rparr>"
  have s1: "wr_ready (b * ?es + q) L cnt s1" "unat (blockstart s1) = b * ?es" "headoffset s1 = 0"
    using r ubs by (simp_all add: s1_def wr_ready_def)
  define s2 where "s2 = split_block ?m s1"
  note sb = split_block_state [OF g s1(1,2) b(2) q L P, folded s2_def]
  have n1: "length (C w1) = n" using k1 w(2) by simp
  have qP: "q + P \<le> ?es" "P \<le> L" using P q by auto
  have h2: "unat (headsize s2) \<le> ?es" "unat (tailsize s2) \<le> ?es" "\<not> fgBlockDataBack s2" "unat (blockstart s2) = b * ?es"
    using sb q s1 by (simp_all add: s2_def wr_ready_def)
  have zero: "headsize s2 = 0 \<and> tailsize s2 = 0 \<longleftrightarrow> q = 0 \<and> P = ?es"
    using sb qP by (auto simp flip: unat_eq_zero)
  from save_block_saves [OF g wf k1(1) n1 h2(4) b(2) h2(1-3)] obtain s3 w3 where w3:
    "save_block E s2 w1 = Some (Go, s3, w3)"
    "s3 = (if headsize s2 = 0 \<and> tailsize s2 = 0 then s2 else s2\<lparr>tempoffset := blockstart s2\<rparr>)"
    "keeps I C R w1 (C w1) (if q = 0 \<and> P = ?es then mem w1
      else store (mem w1) (pu1BlockMemBuf E) (slice (C w1) (b * ?es) ?es)) w3"
    unfolding zero by blast
  note k3 = keepsD [OF w3(3)]
  have s3: "unat (blockstart s3) = b * ?es" "ei_callback (wr_erase s3) = None"
    using h2(4) s1(1) by (simp_all add: w3(2) s2_def wr_ready_def)
  have n3: "length (C w3) = n" using k3 n1 by simp
  from erase_current_erases [OF g wf k3(1) n3 s3(1) b(2) s3(2)] obtain e w4 where w4:
    "erase_current E s3 w3 = Some (s3\<lparr>wr_erase := e, wr_i4Ret := 0\<rparr>, w4)" "ei_callback e = None"
    "keeps I C R w3 (put_at (C w3) (b * ?es) (replicate ?es 0xFF)) (mem w3) w4" by blast
  define s4 where "s4 = s3\<lparr>wr_erase := e, wr_i4Ret := 0\<rparr>"
  have "enter_body E s w = Some (Go, s4, w4)"
    unfolding enter_body_def Let_def bs_def [symmetric] using w1(1) w3(1) w4(1)
    by (simp add: s4_def s2_def s1_def)
  moreover have "page_state ?es (b * ?es) q P L cnt s4 0"
  proof -
    have f: "headsize s4 = headsize s2" "tailsize s4 = tailsize s2" "tailoffset s4 = tailoffset s2" "imglen s4 = imglen s1"
      "u4WtByteCnt s4 = u4WtByteCnt s1" "mtdoffset s4 = mtdoffset s1" "fgBlockDataBack s4 = fgBlockDataBack s1"
      "headoffset s4 = 0" "wr_i4Ret s4 = 0" "wr_erase s4 = e" "unat (blockstart s4) = b * ?es"
      using h2(4) s1(3) by (simp_all add: s4_def w3(2) s2_def)
    have t: "tempoffset s4 = blockstart s2" if "0 < q"
    proof -
      have "\<not> (headsize s2 = 0 \<and> tailsize s2 = 0)" using that zero by simp
      then show ?thesis by (simp only: s4_def w3(2) if_False) simp
    qed
    show ?thesis using sb s1(1) w4(2) h2(4) by (auto simp: page_state_def f t wr_ready_def)
  qed
  moreover have "keeps I C R w (put_at (C w) (b * ?es) (replicate ?es 0xFF))
      (if q = 0 \<and> P = ?es then mem w else store (mem w) (pu1BlockMemBuf E) (slice (C w) (b * ?es) ?es)) w4"
    using w4(3) k1 k3 by (simp add: keeps_def)
  ultimately show ?thesis by blast
qed


section \<open>The pages of a block\<close>

lemma program_erased: "\<forall>x. pg 0xFF x = x \<Longrightarrow> p + length xs \<le> length c \<Longrightarrow> slice c p (length xs) = replicate (length xs) 0xFF \<Longrightarrow>
  program pg c p xs = put_at c p xs"
  by (simp add: program_def map2_map_map zip_replicate1 comp_def)

lemma page_step_content:
  assumes "length T = es" and "x + k \<le> es" and "base + es \<le> length c" and "\<forall>x. pg 0xFF x = x"
  shows "program pg (put_at c base (take x T @ replicate (es - x) 0xFF)) (base + x) (slice T x k) =
    put_at c base (take (x + k) T @ replicate (es - (x + k)) 0xFF)"
proof -
  have l: "length (slice T x k) = k" using assms(1,2) by simp
  have e: "es - x = k + (es - (x + k))" using assms(2) by simp
  have r: "replicate (es - x) (0xFF :: u8) = replicate k 0xFF @ replicate (es - (x + k)) 0xFF"
    unfolding e replicate_add by simp
  have tk: "length (take x T) = x" using assms(1,2) by simp
  have c: "put_at c base (take x T @ replicate (es - x) 0xFF) =
      (take base c @ take x T) @ replicate k 0xFF @ (replicate (es - (x + k)) 0xFF @ drop (base + es) c)"
    using assms(2) tk unfolding put_at_def r by simp
  have lb: "length (take base c @ take x T) = base + x" using tk assms(3) by simp
  have "program pg (put_at c base (take x T @ replicate (es - x) 0xFF)) (base + x) (slice T x k) =
      put_at (put_at c base (take x T @ replicate (es - x) 0xFF)) (base + x) (slice T x k)"
    using assms(4) lb l unfolding c by (intro program_erased) (simp_all add: slice_def)
  also have "\<dots> = (take base c @ take x T) @ slice T x k @ (replicate (es - (x + k)) 0xFF @ drop (base + es) c)"
    using lb l assms(2) unfolding c put_at_def by simp
  also have "\<dots> = put_at c base (take (x + k) T @ replicate (es - (x + k)) 0xFF)"
    using assms(1,2) by (simp add: put_at_def slice_def take_add)
  finally show ?thesis .
qed

lemma load_cong: "(\<And>a. p \<le> a \<Longrightarrow> a < p + k \<Longrightarrow> h a = h' a) \<Longrightarrow> load h p k = load h' p k"
  by (simp add: load_def)

lemma load_outside:
  assumes "\<forall>a. \<not> (p \<le> a \<and> a < p + k) \<longrightarrow> h' a = h a" and "apart p k q l"
  shows "load h' q l = load h q l"
  by (rule load_cong) (use assms in \<open>auto simp: apart_def\<close>)

lemma page_at_end:
  assumes "page_state es base q P L cnt s es" and "P = L \<and> q + L \<le> es \<or> q + P = es \<and> P < L" and "q < es"
  shows "wr_ready (base + es) (L - P) (cnt + P) s" "headsize s = 0" "tailsize s = 0" "wr_i4Ret s = 0" "unat (blockstart s) = base"
proof -
  from assms have "min P (es - q) = P" "max q es = es" "max (q + P) es = es" by auto
  with assms show "wr_ready (base + es) (L - P) (cnt + P) s" "headsize s = 0" "tailsize s = 0" "wr_i4Ret s = 0"
      "unat (blockstart s) = base"
    by (auto simp: page_state_def wr_ready_def simp flip: unat_eq_zero)
qed

lemma page_not_done:
  assumes "page_state es base q P L cnt s x" and "P \<le> L" and "x < es"
  shows "imglen s \<noteq> 0 \<or> headsize s \<noteq> 0 \<or> tailsize s \<noteq> 0"
proof -
  consider "x < q" | "q \<le> x" "x < q + P" | "q + P \<le> x" by linarith
  then show ?thesis
  proof cases
    case 1
    then have "unat (headsize s) \<noteq> 0" using assms by (simp add: page_state_def)
    then show ?thesis by (auto simp: unat_eq_zero)
  next
    case 2
    then have "unat (imglen s) \<noteq> 0" using assms by (auto simp: page_state_def)
    then show ?thesis by (auto simp: unat_eq_zero)
  next
    case 3
    then have "unat (tailsize s) \<noteq> 0" using assms by (auto simp: page_state_def)
    then show ?thesis by (auto simp: unat_eq_zero)
  qed
qed

lemma write_block_pages:
  fixes E :: "'f wr_env" and w :: "'f mtd_world"
  assumes g: "geometry (we_info E) n j k" and wf: "writable_flash I C R pg (2 ^ j) bad (we_mtd E) (we_ops E)"
    and pl: "P = L \<and> q + L \<le> 2 ^ j \<or> q + P = 2 ^ j \<and> P < L" and q: "q < 2 ^ j"
    and base: "base = b * 2 ^ j" "base + 2 ^ j \<le> n" and L: "L < 2 ^ 31" "cnt + L < 2 ^ 32"
    and ap: "apart (pu1TempMemBuf E) k (pu1BlockMemBuf E) (2 ^ j)" "apart (pu1TempMemBuf E) k (pu1MemBuf E + cnt) L"
    and c1: "length c1 = n" and T: "length T = 2 ^ j"
  shows "page_state (2 ^ j) base q P L cnt s x \<Longrightarrow> x \<le> 2 ^ j \<Longrightarrow> k dvd x \<Longrightarrow> I w \<Longrightarrow>
    C w = put_at c1 base (take x T @ replicate (2 ^ j - x) 0xFF) \<Longrightarrow>
    T = take q (load (mem w) (pu1BlockMemBuf E) (2 ^ j)) @ load (mem w) (pu1MemBuf E + cnt) P @
      drop (q + P) (load (mem w) (pu1BlockMemBuf E) (2 ^ j)) \<Longrightarrow>
    \<exists>s' w'. write_loop E s w = write_loop E s' w' \<and> page_state (2 ^ j) base q P L cnt s' (2 ^ j) \<and>
      C w' = put_at c1 base T \<and> I w' \<and> R w' = R w \<and>
      (\<forall>a. \<not> (pu1TempMemBuf E \<le> a \<and> a < pu1TempMemBuf E + k) \<longrightarrow> mem w' a = mem w a)"
proof (induction "2 ^ j - x" arbitrary: s w x rule: less_induct)
  case less
  note geo = geometryD [OF g]
  let ?es = "2 ^ j :: nat" and ?m = "we_info E" and ?tmp = "pu1TempMemBuf E"
  show ?case
  proof (cases "x < ?es")
    case False
    with less.prems(2) have "x = ?es" by simp
    moreover from this have "C w = put_at c1 base T" using less.prems(5) T by simp
    ultimately show ?thesis using less.prems(1,4) by (intro exI [of _ s] exI [of _ w]) simp
  next
    case True
    have PL: "P \<le> L" "q + P \<le> ?es" using pl by auto
    have fit: "x + k \<le> ?es"
    proof -
      obtain a b' where ab: "x = k * a" "?es = k * b'" using less.prems(3) geo(6) by (auto elim!: dvdE)
      then have "a < b'" using True by simp
      then have "k * Suc a \<le> k * b'" by (intro mult_le_mono2) simp
      with ab show ?thesis by simp
    qed
    from wf have mf: "mem_free I C R" and fw: "flat_write I C R pg (op_write (we_ops E))" and pg: "\<forall>x. pg 0xFF x = x"
      by (simp_all add: writable_flash_def)
    have mx: "unat (mtdoffset s) = base + max q x" "unat (blockstart s) = base" using less.prems(1) by (simp_all add: page_state_def)
    have lt: "max q x < ?es" using True q by simp
    have "base + max q x < n" using lt base(2) by linarith
    then have cond: "(imglen s \<noteq> 0 \<or> headsize s \<noteq> 0 \<or> tailsize s \<noteq> 0) \<and> ucast (mtdoffset s) < mtd_size ?m"
      using page_not_done [OF less.prems(1) PL(1) True] mx(1) geo(10) by (simp add: word_less_nat_alt)
    have "block_base ?m (mtdoffset s) = blockstart s"
      unfolding word_unat_eq_iff unat_block_base [OF g] mx base(1) using div_mod_block [OF lt, of "b * ?es + max q x" b] by simp
    then have enter: "enter_loop E s w = Some (Go, s, w)" by (subst enter_loop.simps) simp
    have bnd: "base + ?es \<le> 2 ^ 31" using base(2) geo(9) by simp
    from fill_page_step [OF less.prems(1) pl geo(7) geo(5) fit bnd L(1) geo(11) L(2) ap refl refl, of w] obtain s1 w1 where f:
      "fill_page E s w = (s1, w1)" "page_state ?es base q P L cnt s1 (x + k)" "unat (writeoffset s1) = base + x"
      "w1 = w\<lparr>mem := mem w1\<rparr>" "load (mem w1) ?tmp k = slice T x k"
      "\<forall>a. \<not> (?tmp \<le> a \<and> a < ?tmp + k) \<longrightarrow> mem w1 a = mem w a"
      unfolding less.prems(6) [symmetric] by blast
    have w1: "I w1" "C w1 = C w" "R w1 = R w" using mf f(4) less.prems(4) by (metis mem_free_def)+
    have lC: "length (C w) = n" using less.prems(5) c1 base(2) T less.prems(2) by simp
    have "unat (ucast (writeoffset s1) :: u64) < length (C w1)"
      "unat (ucast (writeoffset s1) :: u64) + unat (writesize ?m) \<le> length (C w1)"
      using f(3) w1(2) lC base(2) fit True geo(7) by simp_all
    from fw [unfolded flat_write_def, rule_format, OF w1(1) this, of ?tmp] obtain w2 where w2:
      "op_write (we_ops E) (ucast (writeoffset s1)) (writesize ?m) ?tmp w1 = Some (0, writesize ?m, w2)"
      "keeps I C R w1 (program pg (C w) (base + x) (slice T x k)) (mem w1) w2"
      using f(3,5) w1(2) geo(7) by auto
    note k2 = keepsD [OF w2(2)]
    have step: "write_loop E s w = write_loop E s1 w2"
      unfolding write_loop.simps [of E s w] if_P [OF cond] by (simp add: enter f(1) w2(1))
    have C2: "C w2 = put_at c1 base (take (x + k) T @ replicate (?es - (x + k)) 0xFF)"
      unfolding k2(2) less.prems(5) by (rule page_step_content) (use T fit base(2) c1 pg in simp_all)
    have o2: "\<forall>a. \<not> (?tmp \<le> a \<and> a < ?tmp + k) \<longrightarrow> mem w2 a = mem w a" using f(6) k2(3) by simp
    have ap2: "apart ?tmp k (pu1MemBuf E + cnt) P" by (rule apart_sub [OF ap(2)]) (use PL in simp_all)
    have T2: "T = take q (load (mem w2) (pu1BlockMemBuf E) ?es) @ load (mem w2) (pu1MemBuf E + cnt) P @
      drop (q + P) (load (mem w2) (pu1BlockMemBuf E) ?es)"
      using less.prems(6) load_outside [OF o2 ap(1)] load_outside [OF o2 ap2] by simp
    have d: "?es - (x + k) < ?es - x" using True geo(5) by simp
    have dv: "k dvd x + k" using less.prems(3) by simp
    from less.hyps [OF d f(2) fit dv k2(1) C2 T2] obtain s' w' where ih:
      "write_loop E s1 w2 = write_loop E s' w'" "page_state ?es base q P L cnt s' ?es" "C w' = put_at c1 base T" "I w'"
      "R w' = R w2" "\<forall>a. \<not> (?tmp \<le> a \<and> a < ?tmp + k) \<longrightarrow> mem w' a = mem w2 a" by blast
    have "R w' = R w" using ih(5) k2(4) w1(3) by simp
    moreover have "\<forall>a. \<not> (?tmp \<le> a \<and> a < ?tmp + k) \<longrightarrow> mem w' a = mem w a" using ih(6) o2 by simp
    ultimately show ?thesis using ih step by metis
  qed
qed

section \<open>All blocks\<close>

lemma nth_put_at:
  assumes "p + length xs \<le> length c" and "i < length c"
  shows "put_at c p xs ! i = (if p \<le> i \<and> i < p + length xs then xs ! (i - p) else c ! i)"
  using assms by (auto simp: put_at_def nth_append min_def)

lemma nth_slice: "p + i < length c \<Longrightarrow> i < k \<Longrightarrow> slice c p k ! i = c ! (p + i)"
  by (simp add: slice_def)

lemma slice_put_other:
  assumes "p + length xs \<le> length c" and "q + k \<le> p \<or> p + length xs \<le> q" and "q + k \<le> length c"
  shows "slice (put_at c p xs) q k = slice c q k"
  using assms by (intro nth_equalityI) (auto simp: nth_slice nth_put_at)

lemma slice_put_same: "p + length xs \<le> length c \<Longrightarrow> slice (put_at c p xs) p (length xs) = xs"
  by (intro nth_equalityI) (auto simp: nth_slice nth_put_at)

lemma slice_put_block:
  assumes "length T = es" and "b * es + es \<le> length c" and "x * es + es \<le> length c"
  shows "slice (put_at c (b * es) T) (x * es) es = (if x = b then T else slice c (x * es) es)"
proof (cases "x = b")
  case True
  then show ?thesis using slice_put_same [of "b * es" T c] assms by simp
next
  case False
  have "x * es + es \<le> b * es \<or> b * es + es \<le> x * es"
  proof (cases "x < b")
    case True
    then have "Suc x * es \<le> b * es" by (intro mult_le_mono1) simp
    then show ?thesis by simp
  next
    case f: False
    with False have "Suc b * es \<le> x * es" by (intro mult_le_mono1) simp
    then show ?thesis by simp
  qed
  with False show ?thesis using slice_put_other [of "b * es" T c "x * es" es] assms by simp
qed

lemma good_from_cong:
  assumes "length c = length c'" and "\<And>x. k \<le> x \<Longrightarrow> x < length c div es \<Longrightarrow> \<not> bad x \<Longrightarrow> slice c (x * es) es = slice c' (x * es) es"
  shows "good_from es bad c k = good_from es bad c' k"
  unfolding good_from_def using assms by (intro arg_cong [where f = concat] map_cong) auto

lemma block_inside: "0 < es \<Longrightarrow> x < n div es \<Longrightarrow> x * es + es \<le> (n :: nat)"
proof -
  assume "x < n div es"
  then have "Suc x * es \<le> n div es * es" by (intro mult_le_mono1) simp
  also have "\<dots> \<le> n" by simp
  finally show ?thesis by simp
qed

lemma good_from_put:
  assumes "length T = es" and "0 < es" and "b * es + es \<le> length c" and "b < k"
  shows "good_from es bad (put_at c (b * es) T) k = good_from es bad c k"
  by (rule good_from_cong) (use assms in \<open>simp_all add: slice_put_block block_inside\<close>)

lemma good_from_skip:
  "b \<le> b' \<Longrightarrow> b' \<le> length c div es \<Longrightarrow> (\<And>x. b \<le> x \<Longrightarrow> x < b' \<Longrightarrow> bad x) \<Longrightarrow> good_from es bad c b = good_from es bad c b'"
proof (induction "b' - b" arbitrary: b)
  case (Suc d)
  then have "b < b'" by simp
  then have "good_from es bad c b = good_from es bad c (Suc b)" using Suc.prems good_from_step [of b c es bad] by simp
  also have "\<dots> = good_from es bad c b'" using Suc by (intro Suc.hyps(1)) simp_all
  finally show ?case .
qed simp

lemma enter_loop_good:
  assumes g: "geometry (we_info E) n j ws" and wf: "writable_flash I C R pg (2 ^ j) bad (we_mtd E) (we_ops E)"
    and q: "q < 2 ^ j" and L: "0 < L" "L < 2 ^ 31" and P: "P = min L (2 ^ j - q)"
  shows "I w \<Longrightarrow> length (C w) = n \<Longrightarrow> wr_ready (b * 2 ^ j + q) L cnt s \<Longrightarrow> unat (blockstart s) \<noteq> b * 2 ^ j \<Longrightarrow>
    q + L \<le> length (good_from (2 ^ j) bad (C w) b) \<Longrightarrow>
    \<exists>b' s' w'. b \<le> b' \<and> b' < n div 2 ^ j \<and> (\<forall>x. b \<le> x \<and> x < b' \<longrightarrow> bad x) \<and> \<not> bad b' \<and>
      enter_loop E s w = Some (Go, s', w') \<and> enter_loop E s' w' = Some (Go, s', w') \<and>
      page_state (2 ^ j) (b' * 2 ^ j) q P L cnt s' 0 \<and>
      keeps I C R w (put_at (C w) (b' * 2 ^ j) (replicate (2 ^ j) 0xFF))
        (if q = 0 \<and> P = 2 ^ j then mem w else store (mem w) (pu1BlockMemBuf E) (slice (C w) (b' * 2 ^ j) (2 ^ j))) w'"
proof (induction "n div 2 ^ j - b" arbitrary: b s w rule: less_induct)
  case less
  note geo = geometryD [OF g]
  let ?es = "2 ^ j :: nat" and ?m = "we_info E"
  have b_n: "b < n div ?es"
  proof (rule ccontr)
    assume "\<not> b < n div ?es"
    then show False using good_from_end [of "C w" ?es b bad] less.prems(2,5) L(1) by simp
  qed
  have fit: "b * ?es + ?es \<le> n" by (rule block_inside) (use b_n in simp_all)
  from less.prems(3) have mo: "unat (mtdoffset s) = b * ?es + q" by (simp add: wr_ready_def)
  have bm: "unat (block_base ?m (mtdoffset s)) = b * ?es" unfolding unat_block_base [OF g] mo using q by simp
  with less.prems(4) have ne: "blockstart s \<noteq> block_base ?m (mtdoffset s)" by auto
  show ?case
  proof (cases "bad b")
    case True
    have gs: "good_from ?es bad (C w) b = good_from ?es bad (C w) (Suc b)"
      using good_from_step [of b "C w" ?es bad] b_n less.prems(2) True by simp
    have "Suc b < n div ?es"
    proof (rule ccontr)
      assume "\<not> Suc b < n div ?es"
      then show False using good_from_end [of "C w" ?es "Suc b" bad] less.prems(2,5) L(1) gs by simp
    qed
    then have "Suc b * ?es < n" using block_lt_iff [of ?es n "Suc b"] geo(8) by simp
    from enter_bad [OF g wf less.prems(1-3) True this q] obtain s1 w1 where w1:
      "enter_body E s w = Some (Go, s1, w1)" "wr_ready (Suc b * ?es + q) L cnt s1" "unat (blockstart s1) = b * ?es"
      "keeps I C R w (C w) (mem w) w1" by blast
    note k1 = keepsD [OF w1(4)]
    have n1: "length (C w1) = n" "unat (blockstart s1) \<noteq> Suc b * ?es" using k1 less.prems(2) w1(3) by simp_all
    have gl: "q + L \<le> length (good_from ?es bad (C w1) (Suc b))" using less.prems(5) gs k1(2) by simp
    have d: "n div ?es - Suc b < n div ?es - b" using b_n by simp
    from less.hyps [OF d k1(1) n1(1) w1(2) n1(2) gl] obtain b' s' w' where ih:
      "Suc b \<le> b'" "b' < n div ?es" "\<forall>x. Suc b \<le> x \<and> x < b' \<longrightarrow> bad x" "\<not> bad b'"
      "enter_loop E s1 w1 = Some (Go, s', w')" "enter_loop E s' w' = Some (Go, s', w')"
      "page_state ?es (b' * ?es) q P L cnt s' 0"
      "keeps I C R w1 (put_at (C w1) (b' * ?es) (replicate ?es 0xFF))
        (if q = 0 \<and> P = ?es then mem w1 else store (mem w1) (pu1BlockMemBuf E) (slice (C w1) (b' * ?es) ?es)) w'"
      by blast
    have "enter_loop E s w = Some (Go, s', w')" by (subst enter_loop.simps) (simp add: ne w1(1) ih(5))
    moreover have "\<forall>x. b \<le> x \<and> x < b' \<longrightarrow> bad x" using ih(3) True by (metis Suc_leI le_neq_implies_less)
    ultimately show ?thesis using ih(1,2,4,6,7) keeps_trans [OF w1(4) ih(8) [unfolded k1(2,3)]]
      by (intro exI [of _ b'] exI [of _ s'] exI [of _ w']) simp
  next
    case False
    from enter_good [OF g wf less.prems(1-3) False fit q L(2) P] obtain s' w' where w':
      "enter_body E s w = Some (Go, s', w')" "page_state ?es (b * ?es) q P L cnt s' 0"
      "keeps I C R w (put_at (C w) (b * ?es) (replicate ?es 0xFF))
        (if q = 0 \<and> P = ?es then mem w else store (mem w) (pu1BlockMemBuf E) (slice (C w) (b * ?es) ?es)) w'" by blast
    have "blockstart s' = block_base ?m (mtdoffset s')"
      using w'(2) q unfolding word_unat_eq_iff unat_block_base [OF g] by (simp add: page_state_def)
    then have stop: "enter_loop E s' w' = Some (Go, s', w')" by (subst enter_loop.simps) simp
    have "enter_loop E s w = Some (Go, s', w')" by (subst enter_loop.simps) (simp add: ne w'(1) stop)
    moreover have "\<forall>x. b \<le> x \<and> x < b \<longrightarrow> bad x" by (meson not_le)
    ultimately show ?thesis using stop w'(2,3) False b_n by (intro exI [of _ b] exI [of _ s'] exI [of _ w']) simp
  qed
qed


lemma write_loop_blocks:
  assumes g: "geometry (we_info E) n j k" and wf: "writable_flash I C R pg (2 ^ j) bad (we_mtd E) (we_ops E)"
    and ap: "apart (pu1TempMemBuf E) k (pu1BlockMemBuf E) (2 ^ j)"
  shows "I w \<Longrightarrow> length (C w) = n \<Longrightarrow> wr_ready (b * 2 ^ j + q) L cnt s \<Longrightarrow> unat (blockstart s) \<noteq> b * 2 ^ j \<Longrightarrow>
    q + L \<le> length (good_from (2 ^ j) bad (C w) b) \<Longrightarrow> q < 2 ^ j \<Longrightarrow> 0 < L \<Longrightarrow> L < 2 ^ 31 \<Longrightarrow> cnt + L < 2 ^ 32 \<Longrightarrow>
    apart (pu1TempMemBuf E) k (pu1MemBuf E + cnt) L \<Longrightarrow> apart (pu1BlockMemBuf E) (2 ^ j) (pu1MemBuf E + cnt) L \<Longrightarrow>
    \<exists>s' w'. write_loop E s w = Some (s', w') \<and> imglen s' = 0 \<and> wr_i4Ret s' = 0 \<and> I w' \<and> R w' = R w \<and>
      length (C w') = n \<and>
      good_from (2 ^ j) bad (C w') b =
        put_at (good_from (2 ^ j) bad (C w) b) q (load (mem w) (pu1MemBuf E + cnt) L) \<and>
      (\<forall>x. x < n div 2 ^ j \<longrightarrow> bad x \<or> x < b \<longrightarrow> slice (C w') (x * 2 ^ j) (2 ^ j) = slice (C w) (x * 2 ^ j) (2 ^ j))"
proof (induction "n div 2 ^ j - b" arbitrary: b q L cnt s w rule: less_induct)
  case less
  note geo = geometryD [OF g]
  let ?es = "2 ^ j :: nat" and ?m = "we_info E" and ?src = "pu1MemBuf E" and ?blk = "pu1BlockMemBuf E" and ?tmp = "pu1TempMemBuf E"
  define P where "P = min L (?es - q)"
  from enter_loop_good [OF g wf less.prems(6-8) P_def less.prems(1-5)] obtain b' s1 w1 where e:
    "b \<le> b'" "b' < n div ?es" "\<forall>x. b \<le> x \<and> x < b' \<longrightarrow> bad x" "\<not> bad b'"
    "enter_loop E s w = Some (Go, s1, w1)" "enter_loop E s1 w1 = Some (Go, s1, w1)"
    "page_state ?es (b' * ?es) q P L cnt s1 0"
    "keeps I C R w (put_at (C w) (b' * ?es) (replicate ?es 0xFF))
        (if q = 0 \<and> P = ?es then mem w else store (mem w) ?blk (slice (C w) (b' * ?es) ?es)) w1" by blast
  note k1 = keepsD [OF e(8)]
  have fit: "b' * ?es + ?es \<le> n" by (rule block_inside) (use e(2) in simp_all)
  have pl: "P = L \<and> q + L \<le> ?es \<or> q + P = ?es \<and> P < L" using less.prems(6) by (auto simp: P_def min_def)
  have PL: "P \<le> L" "q + P \<le> ?es" using pl by auto
  define blk where "blk = slice (C w) (b' * ?es) ?es"
  define d1 where "d1 = load (mem w) (?src + cnt) P"
  define T where "T = take q blk @ d1 @ drop (q + P) blk"
  have lb: "length blk = ?es" "length d1 = P" using fit less.prems(2) by (simp_all add: blk_def d1_def)
  have lT: "length T = ?es" using lb PL by (simp add: T_def)
  have Tput: "T = put_at blk q d1" using lb by (simp add: T_def put_at_def)
  have apP: "apart ?blk ?es (?src + cnt) P" by (rule apart_sub [OF less.prems(11)]) (use PL in simp_all)
  have same1: "load (mem w1) (?src + cnt) P = d1"
    using k1(3) load_store_apart [of ?blk blk "?src + cnt" P "mem w"] apP lb by (simp add: d1_def blk_def)
  have T1: "T = take q (load (mem w1) ?blk ?es) @ load (mem w1) (?src + cnt) P @ drop (q + P) (load (mem w1) ?blk ?es)"
  proof (cases "q = 0 \<and> P = ?es")
    case True
    then show ?thesis using same1 lb by (simp add: T_def)
  next
    case False
    then have "load (mem w1) ?blk ?es = blk" using k1(3) load_store [of "mem w" ?blk blk] lb by (auto simp: blk_def)
    then show ?thesis using same1 by (simp add: T_def)
  qed
  have C1: "C w1 = put_at (C w) (b' * ?es) (take 0 T @ replicate (?es - 0) 0xFF)" using k1(2) by simp
  from write_block_pages [OF g wf pl less.prems(6) refl fit less.prems(8,9) ap less.prems(10) less.prems(2) lT e(7) _ _ k1(1) C1 T1]
  obtain s2 w2 where p: "write_loop E s1 w1 = write_loop E s2 w2" "page_state ?es (b' * ?es) q P L cnt s2 ?es"
    "C w2 = put_at (C w) (b' * ?es) T" "I w2" "R w2 = R w1"
    "\<forall>a. \<not> (?tmp \<le> a \<and> a < ?tmp + k) \<longrightarrow> mem w2 a = mem w1 a" by auto
  note pe = page_at_end [OF p(2) pl less.prems(6)]
  have step: "write_loop E s w = write_loop E s2 w2"
  proof -
    have i: "imglen s \<noteq> 0" "imglen s1 \<noteq> 0"
      using less.prems(3,7) e(7) by (auto simp: wr_ready_def page_state_def simp flip: unat_gt_0)
    have "b * ?es + q < n"
      using mult_le_mono1 [OF e(1), of ?es] fit less.prems(6) by linarith
    then have "ucast (mtdoffset s) < mtd_size ?m" "ucast (mtdoffset s1) < mtd_size ?m"
      using less.prems(3,6) e(7) fit geo(10) by (simp_all add: word_less_nat_alt wr_ready_def page_state_def)
    then have "write_loop E s w = write_loop E s1 w1"
      unfolding write_loop.simps [of E s w] write_loop.simps [of E s1 w1] using i by (simp add: e(5,6))
    then show ?thesis using p(1) by simp
  qed
  have len2: "length (C w2) = n" using p(3) lT less.prems(2) fit by simp
  have blocks2: "slice (C w2) (x * ?es) ?es = (if x = b' then T else slice (C w) (x * ?es) ?es)" if "x < n div ?es" for x
    unfolding p(3) using slice_put_block [OF lT, of b' "C w" x] fit less.prems(2) block_inside [OF _ that] by simp
  have skip: "good_from ?es bad c b = good_from ?es bad c b'" if "length c = n" for c
    by (rule good_from_skip) (use e(1-3) that in auto)
  have at_b': "good_from ?es bad c b' = slice c (b' * ?es) ?es @ good_from ?es bad c (Suc b')" if "length c = n" for c
    using good_from_step [of b' c ?es bad] e(2,4) that by simp
  have rest: "good_from ?es bad (C w2) (Suc b') = good_from ?es bad (C w) (Suc b')"
    unfolding p(3) by (rule good_from_put [OF lT]) (use fit less.prems(2) in simp_all)
  show ?case
  proof (cases "P = L")
    case True
    have "imglen s2 = 0" using pe(1) True by (simp add: wr_ready_def unat_eq_zero)
    then have "write_loop E s2 w2 = Some (s2, w2)" by (subst write_loop.simps) (simp add: pe(2,3))
    moreover have ld: "load (mem w) (?src + cnt) L = d1" using True by (simp add: d1_def)
    moreover have "good_from ?es bad (C w2) b = put_at (good_from ?es bad (C w) b) q (load (mem w) (?src + cnt) L)"
      unfolding ld using skip at_b' len2 less.prems(2) rest blocks2 [OF e(2)] PL lb True
      by (simp add: Tput put_at_append_left blk_def [symmetric])
    ultimately show ?thesis using step pe(4) \<open>imglen s2 = 0\<close> p(4,5) k1(4) len2 blocks2 e(1,4)
      by (intro exI [of _ s2] exI [of _ w2]) auto
  next
    case False
    with pl have qP: "q + P = ?es" "P < L" by auto
    have r2: "wr_ready (Suc b' * ?es + 0) (L - P) (cnt + P) s2" using pe(1) by (simp add: add.commute)
    have bs2: "unat (blockstart s2) \<noteq> Suc b' * ?es" using pe(5) by simp
    have gl: "0 + (L - P) \<le> length (good_from ?es bad (C w2) (Suc b'))"
      using less.prems(5) skip [OF less.prems(2)] at_b' [OF less.prems(2)] rest lb qP by (simp add: blk_def [symmetric] del: length_slice)
    have d: "n div ?es - Suc b' < n div ?es - b" using e(1,2) by simp
    have a1: "apart ?tmp k (?src + (cnt + P)) (L - P)" by (rule apart_sub [OF less.prems(10)]) (use qP in simp_all)
    have a2: "apart ?blk ?es (?src + (cnt + P)) (L - P)" by (rule apart_sub [OF less.prems(11)]) (use qP in simp_all)
    have n2: "0 < L - P" "L - P < 2 ^ 31" "cnt + P + (L - P) < 2 ^ 32" "(0 :: nat) < ?es" using qP less.prems(8,9) by simp_all
    from less.hyps [OF d p(4) len2 r2 bs2 gl n2(4) n2(1-3) a1 a2] obtain s' w' where ih:
      "write_loop E s2 w2 = Some (s', w')" "imglen s' = 0" "wr_i4Ret s' = 0" "I w'" "R w' = R w2" "length (C w') = n"
      "good_from ?es bad (C w') (Suc b') = put_at (good_from ?es bad (C w2) (Suc b')) 0 (load (mem w2) (?src + (cnt + P)) (L - P))"
      "\<forall>x. x < n div ?es \<longrightarrow> bad x \<or> x < Suc b' \<longrightarrow> slice (C w') (x * ?es) ?es = slice (C w2) (x * ?es) ?es" by blast
    have "load (mem w2) (?src + (cnt + P)) (L - P) = load (mem w1) (?src + (cnt + P)) (L - P)"
      by (rule load_outside [OF p(6) a1])
    also have "\<dots> = load (mem w) (?src + (cnt + P)) (L - P)"
      using k1(3) load_store_apart [of ?blk blk "?src + (cnt + P)" "L - P" "mem w"] a2 lb by (simp add: blk_def)
    finally have d2: "load (mem w) (?src + cnt) L = d1 @ load (mem w2) (?src + (cnt + P)) (L - P)"
      using load_add [of "mem w" "?src + cnt" P "L - P"] qP by (simp add: d1_def add.assoc)
    have "slice (C w') (b' * ?es) ?es = T" using ih(8) e(2) blocks2 by simp
    then have "good_from ?es bad (C w') b = put_at (good_from ?es bad (C w) b) q (load (mem w) (?src + cnt) L)"
      using skip at_b' ih(6,7) less.prems(2) rest lb qP d2
      by (simp add: Tput put_at_append_both blk_def [symmetric] del: length_slice)
    moreover have "slice (C w') (x * ?es) ?es = slice (C w) (x * ?es) ?es" if "x < n div ?es" "bad x \<or> x < b" for x
    proof -
      have "x \<noteq> b'" using that e(1,4) by auto
      moreover have "bad x \<or> x < Suc b'" using that e(1) by auto
      with ih(8) that(1) have "slice (C w') (x * ?es) ?es = slice (C w2) (x * ?es) ?es" by blast
      then show ?thesis using blocks2 [OF that(1)] \<open>x \<noteq> b'\<close> by simp
    qed
    ultimately show ?thesis using step ih p(5) k1(4) by (intro exI [of _ s'] exI [of _ w']) simp
  qed
qed

section \<open>The start of a write\<close>

lemma write_prefix_skip_prefix:
  assumes g: "geometry m n j ws"
  shows "unat ofs \<le> n \<Longrightarrow> write_prefix m ops (ucast ofs) mo ret w = skip_prefix m ops ofs mo ret w"
proof (induction "n + 2 ^ j - unat ofs" arbitrary: ofs mo ret w rule: less_induct)
  case less
  note geo = geometryD [OF g]
  have c1: "(ucast ofs :: u64) <s ucast (block_base m mo) \<longleftrightarrow> ofs < block_base m mo"
    using u32_lt [of ofs] u32_lt [of "block_base m mo"] by (subst sless_64) (simp_all add: word_less_nat_alt)
  show ?case
  proof (cases "ofs < block_base m mo \<and> ucast ofs < mtd_size m")
    case False
    then show ?thesis using c1 by (subst skip_prefix.simps, subst write_prefix.simps) (simp only: if_False)
  next
    case True
    then have lt: "unat ofs < n" using geo(10) by (simp add: word_less_nat_alt)
    have o': "unat (ofs + erasesize m) = unat ofs + 2 ^ j" using lt geo(4,9,11) by (subst unat_add_32) simp_all
    have u: "(ucast ofs + ucast (erasesize m) :: u64) = ucast (ofs + erasesize m)"
      using o' geo(4,9,11) lt by (subst word_unat_eq_iff, subst unat_add_64) simp_all
    have True': "(ucast ofs :: u64) <s ucast (block_base m mo) \<and> ucast ofs < mtd_size m" using True c1 by simp
    note unf = skip_prefix.simps [of m ops ofs mo ret w] write_prefix.simps [of m ops "ucast ofs" mo ret w]
      if_P [OF True] if_P [OF True']
    show ?thesis
    proof (cases "unat (ofs + erasesize m) \<le> n")
      case le: True
      have "n + 2 ^ j - unat (ofs + erasesize m) < n + 2 ^ j - unat ofs" using o' lt by (intro diff_less_mono2) simp_all
      from less.hyps [OF this le] show ?thesis unfolding unf by (simp only: u)
    next
      case gt: False
      have stop: "skip_prefix m ops (ofs + erasesize m) mo' r w' = Some (Some (r, mo'), w')"
        "write_prefix m ops (ucast (ofs + erasesize m)) mo' r w' = Some (Some (r, mo'), w')" for mo' r w'
      proof -
        have "\<not> (P \<and> (ucast (ofs + erasesize m) :: u64) < mtd_size m)" for P
          using gt geo(10) by (simp add: word_less_nat_alt)
        then show "skip_prefix m ops (ofs + erasesize m) mo' r w' = Some (Some (r, mo'), w')"
          "write_prefix m ops (ucast (ofs + erasesize m)) mo' r w' = Some (Some (r, mo'), w')"
          unfolding skip_prefix.simps [of m ops "ofs + erasesize m"] write_prefix.simps [of m ops "ucast (ofs + erasesize m)"]
          by (simp_all only: if_False)
      qed
      show ?thesis unfolding unf by (simp only: u stop)
    qed
  qed
qed

lemma good_from_split:
  "k \<le> b \<Longrightarrow> b \<le> length c div es \<Longrightarrow>
   good_from es bad c k = concat (map (\<lambda>x. slice c (x * es) es) (filter (\<lambda>x. \<not> bad x) [k..<b])) @ good_from es bad c b"
proof -
  assume "k \<le> b" "b \<le> length c div es"
  then have "[k..<length c div es] = [k..<b] @ [b..<length c div es]" by (metis le_add_diff_inverse upt_add_eq_append)
  then show ?thesis by (simp add: good_from_def)
qed

lemma length_good_prefix:
  "0 < es \<Longrightarrow> b \<le> length c div es \<Longrightarrow>
   length (concat (map (\<lambda>x. slice c (x * es) es) (filter (\<lambda>x. \<not> bad x) [k..<b]))) = good_count bad k b * es"
proof (induction "b - k" arbitrary: k)
  case 0
  then show ?case by (simp add: good_count_def)
next
  case (Suc d)
  then have kb: "k < b" by simp
  then have "k * es + es \<le> length c" using Suc.prems by (intro block_inside) simp_all
  then have "length (slice c (k * es) es) = es" by simp
  then show ?case using Suc.hyps(1) [of "Suc k"] Suc.hyps(2) Suc.prems kb
    by (simp add: upt_conv_Cons good_count_simps(2) del: length_slice)
qed

lemma write_too_long_iff:
  assumes g: "geometry m n j ws" and "unat off < n" and "unat len < 2 ^ 31"
  shows "write_too_long m off len = Some (n - unat off < unat len div ws * ws)"
proof -
  note geo = geometryD [OF g]
  have ws31: "unat (writesize m) < 2 ^ 31"
    using dvd_imp_le [OF geo(6)] geo(7,11) by simp
  have sd: "int a sdiv int b = int (a div b)" for a b :: nat
    by (cases "a = 0"; cases "b = 0") (simp_all add: signed_divide_int_def zdiv_int)
  have "sint len sdiv sint (writesize m) = int (unat len div ws)"
    unfolding sint_small [OF assms(3)] sint_small [OF ws31] geo(7) by (rule sd)
  then have q: "(word_of_int (sint len sdiv sint (writesize m)) :: u32) = len div writesize m"
    using geo(7) by (simp add: word_unat_eq_iff unat_div unsigned_of_nat take_bit_nat_eq_self
      order_le_less_trans [OF div_le_dividend u32_lt [of len, simplified]])
  from too_long_iff [OF g assms(2), of len] show ?thesis
    by (simp add: too_long_def write_too_long_def q split: if_splits)
qed


section \<open>The whole write\<close>

text \<open>The page buffer at \<open>tmp\<close> (8192 bytes), the block buffer at \<open>blk\<close> and the source do not overlap.\<close>

definition buffers_apart :: "addr \<Rightarrow> addr \<Rightarrow> nat \<Rightarrow> addr \<Rightarrow> nat \<Rightarrow> bool" where
  "buffers_apart tmp blk es buf len \<longleftrightarrow> apart tmp 8192 blk es \<and> apart tmp 8192 buf len \<and> apart blk es buf len"

lemma nfb_write_blocks:
  assumes g: "geometry m n j k" and wf: "writable_flash I C R pg (2 ^ j) bad a (dev a)"
    and get: "mtd_get u4DevId w = Some (a, m, w1)" and w1: "I w1" "length (C w1) = n"
    and reg: "unat (registry_start B reg u4DevId) = s * 2 ^ j" and off: "s * 2 ^ j \<le> unat off" "unat off < n"
    and len: "buf \<noteq> 0" "0 < unat len" "unat len < 2 ^ 31" and k: "k \<le> 8192"
    and ap: "buffers_apart tmp blk (2 ^ j) buf (unat len)"
    and fit: "unat off - s * 2 ^ j + unat len \<le> length (good_from (2 ^ j) bad (C w1) s)"
  shows "\<exists>w'. i4NFBPartitionWrite B \<lparr>erase_memory = True, page_memory = Some tmp, block_memory = Some blk\<rparr>
        dev reg u4DevId off buf len w = Some (0, w') \<and> I w' \<and> R w' = R w1 \<and> length (C w') = n \<and>
      good_from (2 ^ j) bad (C w') s =
        put_at (good_from (2 ^ j) bad (C w1) s) (unat off - s * 2 ^ j) (load (mem w1) buf (unat len)) \<and>
      (\<forall>x < n div 2 ^ j. bad x \<or> x < s \<longrightarrow> slice (C w') (x * 2 ^ j) (2 ^ j) = slice (C w1) (x * 2 ^ j) (2 ^ j))"
proof -
  let ?es = "2 ^ j :: nat" and ?L = "unat len" and ?o = "unat off - s * 2 ^ j"
  let ?al = "\<lparr>erase_memory = True, page_memory = Some tmp, block_memory = Some blk\<rparr>"
  note geo = geometryD [OF g]
  from wf have rb: "reports_bad I C R ?es bad (dev a)" and mf: "mem_free I C R" by (simp_all add: writable_flash_def)
  have ap': "apart tmp k blk ?es" "apart tmp 8192 buf ?L" "apart blk ?es buf ?L" "apart tmp k buf ?L"
    using ap k by (auto simp: buffers_apart_def apart_def)
  have short: "\<not> n - unat off < ?L div k * k"
  proof -
    have "length (good_from ?es bad (C w1) s) \<le> n - s * ?es"
      using length_good_from [of ?es bad "C w1" s] w1(2) geo(8) by (simp add: diff_mult_distrib)
    moreover have "?L div k * k \<le> ?L" by simp
    ultimately show ?thesis using fit off by linarith
  qed
  define w2 where "w2 = memset blk 0 ?es (memset tmp 0 8192 w1)"
  have w2: "I w2" "C w2 = C w1" "R w2 = R w1" "load (mem w2) buf ?L = load (mem w1) buf ?L"
    using mf w1 ap' by (simp_all add: w2_def memset_def mem_free_def load_store_apart)
  have n2: "length (C w2) = n" using w2 w1 by simp
  have bound: "unat off + (n - s * ?es) < 2 ^ 32" using off(2) geo(9) by simp
  from skip_prefix_finds [OF g rb w2(1) n2 reg off(1) bound, of 0] obtain ret' mo w3 where sp:
    "skip_prefix m (dev a) (registry_start B reg u4DevId) off 0 w2 = Some (Some (ret', mo), w3)"
    "keeps I C R w2 (C w2) (mem w2) w3" "unat mo mod ?es = unat off mod ?es"
    "tail_at ?es bad (C w2) (unat mo) = drop ?o (good_from ?es bad (C w2) s)" "s \<le> unat mo div ?es"
    "unat mo div ?es \<le> n div ?es \<longrightarrow> ?o = good_count bad s (unat mo div ?es) * ?es + unat off mod ?es" by auto
  note k3 = keepsD [OF sp(2)]
  define b where "b = unat mo div ?es"
  define q where "q = unat mo mod ?es"
  have tl: "length (good_from ?es bad (C w1) b) - q = length (good_from ?es bad (C w1) s) - ?o"
    using arg_cong [OF sp(4), of length] w2(2) by (simp add: b_def q_def)
  have bn: "b < n div ?es"
  proof (rule ccontr)
    assume "\<not> b < n div ?es"
    then show False using good_from_end [of "C w1" ?es b bad] w1(2) tl fit len(2) by simp
  qed
  have mo: "unat mo = b * ?es + q" unfolding b_def q_def by (rule div_mult_mod_eq [symmetric])
  define E where "E = \<lparr>we_mtd = a, we_info = m, we_ops = dev a, pu1MemBuf = buf, pu1TempMemBuf = tmp, pu1BlockMemBuf = blk\<rparr>"
  have E: "we_mtd E = a" "we_info E = m" "we_ops E = dev a" "pu1MemBuf E = buf" "pu1TempMemBuf E = tmp" "pu1BlockMemBuf E = blk"
    by (simp_all add: E_def)
  have st: "wr_ready (b * ?es + q) ?L 0 (wr_start len mo ret')" by (simp add: wr_ready_def wr_start_def mo)
  have bs: "unat (blockstart (wr_start len mo ret')) \<noteq> b * ?es"
  proof -
    have "b * ?es < n" using block_lt_iff [of ?es n b] geo(8) bn by simp
    then show ?thesis using geo(9) by (simp add: wr_start_def unsigned_minus_1_eq_mask mask_eq_exp_minus_1)
  qed
  have n3: "length (C w3) = n" using k3 n2 by simp
  have fit3: "q + ?L \<le> length (good_from ?es bad (C w3) b)" using tl fit len(2) k3 w2(2) by simp
  have q: "q < ?es" by (simp add: q_def)
  from write_loop_blocks [of E n j k I C R pg bad w3 b q ?L 0, unfolded E, OF g wf ap'(1) k3(1) n3 st bs fit3 q len(2,3)]
    ap'(3,4) len(3) obtain s' w' where r:
    "write_loop E (wr_start len mo ret') w3 = Some (s', w')" "imglen s' = 0" "wr_i4Ret s' = 0" "I w'" "R w' = R w3"
    "length (C w') = n" "good_from ?es bad (C w') b = put_at (good_from ?es bad (C w3) b) q (load (mem w3) buf ?L)"
    "\<forall>x. x < n div ?es \<longrightarrow> bad x \<or> x < b \<longrightarrow> slice (C w') (x * ?es) ?es = slice (C w3) (x * ?es) ?es"
    by auto
  have pref: "write_prefix m (dev a) (ucast (registry_start B reg u4DevId)) off 0 w2 = Some (Some (ret', mo), w3)"
    using write_prefix_skip_prefix [OF g, of "registry_start B reg u4DevId" "dev a" off 0 w2] reg off sp(1) by simp
  have run: "i4NFBPartitionWrite B ?al dev reg u4DevId off buf len w = Some (0, w')"
    using get len(1) write_too_long_iff [OF g off(2) len(3)] short pref r(1-3) geo(4)
    by (simp add: i4NFBPartitionWrite_def w2_def [symmetric] E_def [symmetric] close_write_def)
  have same: "slice (C w') (x * ?es) ?es = slice (C w1) (x * ?es) ?es" if "x < n div ?es" "bad x \<or> x < b" for x
  proof -
    have "slice (C w') (x * ?es) ?es = slice (C w3) (x * ?es) ?es" using r(8) that by blast
    then show ?thesis unfolding k3(2) w2(2) .
  qed
  define pre where "pre = concat (map (\<lambda>x. slice (C w1) (x * ?es) ?es) (filter (\<lambda>x. \<not> bad x) [s..<b]))"
  have "concat (map (\<lambda>x. slice (C w') (x * ?es) ?es) (filter (\<lambda>x. \<not> bad x) [s..<b])) = pre"
    unfolding pre_def using bn by (intro arg_cong [where f = concat] map_cong) (auto intro!: same)
  then have split: "good_from ?es bad (C w') s = pre @ good_from ?es bad (C w') b"
    "good_from ?es bad (C w1) s = pre @ good_from ?es bad (C w1) b"
    using good_from_split [of s b "C w'" ?es bad] good_from_split [of s b "C w1" ?es bad] sp(5) bn r(6) w1(2)
    by (simp_all add: b_def pre_def)
  have "length pre = good_count bad s b * ?es"
    unfolding pre_def by (rule length_good_prefix) (use bn w1(2) in simp_all)
  moreover have "?o = good_count bad s b * ?es + q" using sp(3,6) bn by (simp add: b_def q_def)
  ultimately have "good_from ?es bad (C w') s = put_at (good_from ?es bad (C w1) s) ?o (load (mem w1) buf ?L)"
    unfolding split r(7) using k3 w2 by (simp add: put_at_append_right)
  moreover have "\<forall>x < n div ?es. bad x \<or> x < s \<longrightarrow> slice (C w') (x * ?es) ?es = slice (C w1) (x * ?es) ?es"
    using same sp(5) by (auto simp: b_def)
  ultimately show ?thesis using run r(4,5,6) k3(4) w2(3) by (intro exI [of _ w']) simp
qed


text \<open>C6: on a flash whose operations succeed, \<open>i4NFBPartitionWrite\<close> replaces
  the given bytes of the sequence of good blocks and nothing else: the bytes around them are preserved,
  also in the blocks that it had to erase, as are the bad blocks and the blocks in front of the start.
  It returns 0.\<close>

theorem nfb_write_good_blocks:
  assumes "geometry m n j k" and "writable_flash I C R pg (2 ^ j) bad a (dev a)"
    and "mtd_get u4DevId w = Some (a, m, w1)" and "I w1" and "length (C w1) = n"
    and "unat (registry_start B reg u4DevId) = s * 2 ^ j" and "s * 2 ^ j \<le> unat off" and "unat off < n"
    and "buf \<noteq> 0" and "0 < unat len" and "unat len < 2 ^ 31" and "k \<le> 8192"
    and "buffers_apart tmp blk (2 ^ j) buf (unat len)"
    and "unat off - s * 2 ^ j + unat len \<le> length (good_from (2 ^ j) bad (C w1) s)"
  shows "\<exists>w'. i4NFBPartitionWrite B \<lparr>erase_memory = True, page_memory = Some tmp, block_memory = Some blk\<rparr>
        dev reg u4DevId off buf len w = Some (0, w') \<and> I w' \<and> R w' = R w1 \<and> length (C w') = n \<and>
      good_from (2 ^ j) bad (C w') s =
        put_at (good_from (2 ^ j) bad (C w1) s) (unat off - s * 2 ^ j) (load (mem w1) buf (unat len)) \<and>
      (\<forall>x < n div 2 ^ j. bad x \<or> x < s \<longrightarrow> slice (C w') (x * 2 ^ j) (2 ^ j) = slice (C w1) (x * 2 ^ j) (2 ^ j))"
  using assms by (rule nfb_write_blocks)

text \<open>The device can be got again from every state that \<open>R\<close> does not tell from \<open>w\<close>.\<close>

definition stays_open ::
  "('f mtd_world \<Rightarrow> bool) \<Rightarrow> ('f mtd_world \<Rightarrow> u8 list) \<Rightarrow> ('f mtd_world \<Rightarrow> 'r) \<Rightarrow> u32 \<Rightarrow> addr \<Rightarrow> nat \<Rightarrow> nat \<Rightarrow> nat
    \<Rightarrow> 'f mtd_world \<Rightarrow> bool" where
  "stays_open I C R u4DevId a n j k w \<longleftrightarrow> (\<forall>v. I v \<longrightarrow> R v = R w \<longrightarrow>
     (\<exists>m v1. mtd_get u4DevId v = Some (a, m, v1) \<and> geometry m n j k \<and> I v1 \<and> C v1 = C v \<and> mem v1 = mem v))"

text \<open>C7: what \<open>i4NFBPartitionWrite\<close> wrote, \<open>i4NFBPartitionRead\<close> reads back, with bad blocks
  anywhere on the flash; both return 0.\<close>

theorem nfb_write_read:
  assumes g: "geometry m n j k" and wf: "writable_flash I C R pg (2 ^ j) bad a (dev a)"
    and get: "mtd_get u4DevId w = Some (a, m, w1)" and w1: "I w1" "length (C w1) = n"
    and op: "stays_open I C R u4DevId a n j k w1"
    and reg: "unat (registry_start B reg u4DevId) = s * 2 ^ j" and off: "s * 2 ^ j \<le> unat off" "unat off < n"
    and len: "buf \<noteq> 0" "0 < unat len" "unat len < 2 ^ 31" and k: "k \<le> 8192"
    and ap: "buffers_apart tmp blk (2 ^ j) buf (unat len)"
    and fit: "unat off - s * 2 ^ j + unat len \<le> length (good_from (2 ^ j) bad (C w1) s)"
    and rd: "buf' \<noteq> 0" "read_aligned (2 ^ j) k (unat off) (unat len)"
  shows "\<exists>w2 w3. i4NFBPartitionWrite B \<lparr>erase_memory = True, page_memory = Some tmp, block_memory = Some blk\<rparr>
        dev reg u4DevId off buf len w = Some (0, w2) \<and>
      i4NFBPartitionRead B dev reg u4DevId off buf' len w2 = Some (0, w3) \<and>
      load (mem w3) buf' (unat len) = load (mem w1) buf (unat len)"
proof -
  let ?es = "2 ^ j :: nat" and ?o = "unat off - s * 2 ^ j" and ?L = "unat len"
  let ?G = "good_from ?es bad (C w1) s" and ?d = "load (mem w1) buf ?L"
  from wf have rb: "reports_bad I C R ?es bad (dev a)" and rf: "flat_read I C R (op_read (dev a))"
    by (simp_all add: writable_flash_def)
  from nfb_write_blocks [where dev = dev and C = C and I = I and R = R and bad = bad and pg = pg, OF g wf get w1 reg off len k ap fit] obtain w2 where w2:
    "i4NFBPartitionWrite B \<lparr>erase_memory = True, page_memory = Some tmp, block_memory = Some blk\<rparr>
        dev reg u4DevId off buf len w = Some (0, w2)" "I w2" "R w2 = R w1" "length (C w2) = n"
    "good_from ?es bad (C w2) s = put_at ?G ?o ?d" by blast
  from op [unfolded stays_open_def, rule_format, OF w2(2,3)] obtain m2 v1 where v1:
    "mtd_get u4DevId w2 = Some (a, m2, v1)" "geometry m2 n j k" "I v1" "C v1 = C w2" "mem v1 = mem w2" by blast
  have len': "0 < len" using len(2) by (simp add: word_less_nat_alt)
  have nv: "length (C v1) = n" using v1(4) w2(4) by simp
  from nfb_read_blocks [where dev = dev and C = C and I = I and R = R and bad = bad, OF v1(2) rb rf v1(1,3) nv reg off rd(1) len' rd(2)] obtain w3 x where r:
    "i4NFBPartitionRead B dev reg u4DevId off buf' len w2 =
       Some (if ?o + ?L \<le> length (put_at ?G ?o ?d) then 0 else -1, w3)"
    "mem w3 = store (mem v1) buf' (slice (put_at ?G ?o ?d) ?o x)"
    "?o + ?L \<le> length (put_at ?G ?o ?d) \<longrightarrow> x = ?L"
    unfolding v1(4) w2(5) keeps_def by blast
  have l: "?o + ?L \<le> length (put_at ?G ?o ?d)" using fit by simp
  then have x: "x = ?L" using r(3) by blast
  have "slice (put_at ?G ?o ?d) ?o ?L = ?d" using slice_put_same [of ?o ?d ?G] fit by simp
  then have "load (mem w3) buf' ?L = ?d" using load_store [of "mem v1" buf' ?d] r(2) x by simp
  with w2(1) r(1) l show ?thesis by simp
qed

section \<open>An instance\<close>

definition nand_inv :: "(addr \<Rightarrow> u8 list) mtd_world \<Rightarrow> bool" where
  "nand_inv w \<longleftrightarrow> length (flash w 1) = 32 \<and> info w 1 \<noteq> None \<and> part_objs w 1 = None"

lemma driver_erases:
  assumes "driver_erase lib I users C R es f" and "a \<in> users" and "\<forall>w. I w \<longrightarrow> part_objs w a = None"
  shows "erases I a C R es f"
  unfolding erases_def
proof (intro allI impI)
  fix w and e :: erase_info
  assume w: "I w" and e: "ei_mtd e = a" and rq: "erase_request es (length (C w)) e"
  with assms(1,2) obtain w' e' where w': "f e w = Some (0, e', w')" "keeps I C R w (erased (C w) e) (mem w) w'"
    "mtd_erase_callback lib (e\<lparr>ei_state := MTD_ERASE_DONE\<rparr>) w' = Some (e', w')"
    unfolding driver_erase_def by blast
  from w'(2) assms(3) have "part_objs w' a = None" by (simp add: keeps_def)
  with w'(3) e rq have "ei_callback e' = ei_callback e"
    by (auto simp: mtd_erase_callback_def call_callback_def erase_request_def split: Option.bind_splits)
  with w' show "\<exists>w' e'. f e w = Some (0, e', w') \<and> ei_callback e' = ei_callback e \<and>
      keeps I C R w (erased (C w) e) (mem w) w'" by blast
qed

lemma chip_ops_fields: "op_read (chip_ops bad) = op_read (ram_ops 1)" "op_write (chip_ops bad) = op_write (ram_ops 1)"
    "op_erase (chip_ops bad) = op_erase (ram_ops 1)"
  by (simp_all add: chip_ops_def)

lemma chip_writable_inv:
  assumes I: "\<forall>w h. I (w\<lparr>mem := h\<rparr>) = I w" "\<forall>w. I w \<longrightarrow> info w 1 \<noteq> None \<and> part_objs w 1 = None"
    "\<forall>w c. I w \<longrightarrow> length c = length (flash w 1) \<longrightarrow> I (w\<lparr>flash := (flash w)(1 := c)\<rparr>)"
  shows "writable_flash I (\<lambda>w. flash w 1) mtdc and (2 ^ 3) bad 1 (chip_ops bad)"
proof -
  have "reports_bad I (\<lambda>w. flash w 1) mtdc (2 ^ 3) bad (chip_ops bad)"
    by (simp add: reports_bad_def call_isbad_def chip_ops_def keeps_def)
  moreover have "flat_read I (\<lambda>w. flash w 1) mtdc (op_read (chip_ops bad))"
    unfolding chip_ops_fields by (rule ram_read_flat) (use I in simp)
  moreover have "flat_write I (\<lambda>w. flash w 1) mtdc and (op_write (chip_ops bad))"
    unfolding chip_ops_fields by (rule ram_write_flat) (use I in simp)
  moreover have "erases I 1 (\<lambda>w. flash w 1) mtdc (2 ^ 3) (op_erase (chip_ops bad))"
    unfolding chip_ops_fields
    by (rule driver_erases [OF ram_driver_erase [where users = "{1}"]]) (use I in simp_all)
  moreover have "(0xFF :: u8) AND x = x" for x
  proof -
    have "(0xFF :: u8) = -1" by simp
    then show ?thesis by (simp only: and.left_neutral)
  qed
  ultimately show ?thesis using I(1) by (simp add: writable_flash_def mem_free_def)
qed

lemma chip_writable: "writable_flash nand_inv (\<lambda>w. flash w 1) mtdc and (2 ^ 3) bad 1 (chip_ops bad)"
  by (rule chip_writable_inv) (simp_all add: nand_inv_def)

lemma chip_stays_open: "stays_open nand_inv (\<lambda>w. flash w 1) mtdc 0 1 32 3 4 chip_used"
  by (simp add: stays_open_def mtd_get_def get_mtd_device_def chip_used_def chip_world_def mtd_set_def nand_inv_def
      geometry_def chip_info_def)

lemma chip_used_nand: "nand_inv chip_used"
  by (simp add: nand_inv_def chip_used_def chip_world_def mtd_set_def ram_world_def)

lemma chip_good: "good_bytes (2 ^ 3) (\<lambda>b. b = 1) (flash chip_used 1) =
    map of_nat ([0, 1, 2, 3, 4, 5, 6, 7, 16, 17, 18, 19, 20, 21, 22, 23, 24, 25, 26, 27, 28, 29, 30, 31])"
  unfolding chip_used_state by (simp add: good_from_def slice_def upt_rec)

lemma chip_buffers: "buffers_apart 1000 10000 (2 ^ 3) 100 (unat (8 :: u32))"
  by (simp add: buffers_apart_def apart_def)

theorem nfb_write_good_blocks_witness:
  "\<exists>w'. i4NFBPartitionWrite chip_board \<lparr>erase_memory = True, page_memory = Some 1000, block_memory = Some 10000\<rparr>
      (\<lambda>_. chip_ops (\<lambda>b. b = 1)) False 0 6 100 8 chip_world = Some (0, w') \<and>
     good_bytes (2 ^ 3) (\<lambda>b. b = 1) (flash w' 1) = [0, 1, 2, 3, 4, 5, 0, 0, 0, 0, 0, 0, 0, 0, 22, 23, 24, 25, 26, 27, 28, 29, 30, 31]"
proof -
  have h: "unat (registry_start chip_board False 0) = 0 * 2 ^ 3" "0 * 2 ^ 3 \<le> unat (6 :: u32)"
    "unat (6 :: u32) < 32" "(100 :: nat) \<noteq> 0" "0 < unat (8 :: u32)" "unat (8 :: u32) < 2 ^ 31" "(4 :: nat) \<le> 8192"
    using chip_used_state by simp_all
  have fit: "unat (6 :: u32) - 0 * 2 ^ 3 + unat (8 :: u32) \<le> length (good_bytes (2 ^ 3) (\<lambda>b. b = 1) (flash chip_used 1))"
    unfolding chip_good by simp
  have ld: "load (mem chip_used) 100 8 = [0, 0, 0, 0, 0, 0, 0, 0]"
    by (simp add: load_def chip_used_def chip_world_def ram_world_def upt_rec)
  from nfb_write_good_blocks [where dev = "\<lambda>_. chip_ops (\<lambda>b. b = 1)" and C = "\<lambda>w. flash w 1" and I = nand_inv and R = mtdc
      and bad = "\<lambda>b. b = 1" and pg = "and", OF chip_geometry chip_writable chip_get chip_used_nand chip_used_state(2) h chip_buffers fit]
  moreover have "put_at (map of_nat [0, 1, 2, 3, 4, 5, 6, 7, 16, 17, 18, 19, 20, 21, 22, 23, 24, 25, 26, 27, 28, 29, 30, 31]) 6
      [0, 0, 0, 0, 0, 0, 0, 0] = [0, 1, 2, 3, 4, 5, 0, 0, 0, 0, 0, 0, 0, 0, 22, 23, 24, 25, 26, 27, 28, 29, 30, 31 :: u8]"
    by (simp add: put_at_def)
  ultimately show ?thesis unfolding chip_good by (auto simp: ld)
qed

theorem nfb_write_read_witness:
  "\<exists>w2 w3. i4NFBPartitionWrite chip_board \<lparr>erase_memory = True, page_memory = Some 1000, block_memory = Some 10000\<rparr>
      (\<lambda>_. chip_ops (\<lambda>b. b = 1)) False 0 4 100 8 chip_world = Some (0, w2) \<and>
     i4NFBPartitionRead chip_board (\<lambda>_. chip_ops (\<lambda>b. b = 1)) False 0 4 200 8 w2 = Some (0, w3) \<and>
     load (mem w3) 200 8 = replicate 8 0"
proof -
  have h: "unat (registry_start chip_board False 0) = 0 * 2 ^ 3" "0 * 2 ^ 3 \<le> unat (4 :: u32)"
    "unat (4 :: u32) < 32" "(100 :: nat) \<noteq> 0" "0 < unat (8 :: u32)" "unat (8 :: u32) < 2 ^ 31" "(4 :: nat) \<le> 8192"
    using chip_used_state by simp_all
  have fit: "unat (4 :: u32) - 0 * 2 ^ 3 + unat (8 :: u32) \<le> length (good_bytes (2 ^ 3) (\<lambda>b. b = 1) (flash chip_used 1))"
    unfolding chip_good by simp
  have rd: "(200 :: nat) \<noteq> 0" "read_aligned (2 ^ 3) 4 (unat (4 :: u32)) (unat (8 :: u32))"
    by (simp_all add: read_aligned_def)
  have ld: "load (mem chip_used) 100 8 = replicate 8 0"
    by (simp add: load_def chip_used_def chip_world_def ram_world_def numeral_eq_Suc)
  from nfb_write_read [where dev = "\<lambda>_. chip_ops (\<lambda>b. b = 1)" and C = "\<lambda>w. flash w 1" and I = nand_inv and R = mtdc
      and bad = "\<lambda>b. b = 1" and pg = "and", OF chip_geometry chip_writable chip_get chip_used_nand chip_used_state(2) chip_stays_open
      h chip_buffers fit rd]
  show ?thesis by (simp add: ld)
qed

end
