(* ===== verification/PitTable.thy ===== *)
theory PitTable
  imports PitWrite EnvStore
begin

text \<open>
  The partition information table (PIT) of the board, \<open>drivers/mtd/nand/mt85xx_part_oper.c\<close>: finding the
  table on the flash, comparing it with that of an upgrade package, and making the adaptive table, in
  which every partition is enlarged by the bad blocks inside it.

  The code takes tables by their address and reads their fields through casts, so the tables are bytes
  of \<open>mem\<close>.  The two table formats and the signatures are declared in headers outside the repository; the
  sizes and offsets of their fields are the record \<open>pit_layout\<close>.  Words are little-endian.
\<close>

section \<open>Words and strings in memory\<close>

definition le_bytes :: "u32 \<Rightarrow> u8 list" where
  "le_bytes x = [ucast x, ucast (drop_bit 8 x), ucast (drop_bit 16 x), ucast (drop_bit 24 x)]"

definition le_word :: "u8 list \<Rightarrow> u32" where
  "le_word bs = foldr (\<lambda>b x. ucast b OR push_bit 8 x) bs 0"

definition ld32 :: "(addr \<Rightarrow> u8) \<Rightarrow> addr \<Rightarrow> u32" where
  "ld32 h p = le_word (load h p 4)"

definition st32 :: "addr \<Rightarrow> u32 \<Rightarrow> 'f mtd_world \<Rightarrow> 'f mtd_world" where
  "st32 p x w = w\<lparr>mem := store (mem w) p (le_bytes x)\<rparr>"

text \<open>\<open>strcmp(p, s) == 0\<close> for a pointer into memory and a string.\<close>

fun mem_streq :: "(addr \<Rightarrow> u8) \<Rightarrow> addr \<Rightarrow> string \<Rightarrow> bool" where
  "mem_streq h p [] = (h p = 0)"
| "mem_streq h p (c # s) = (h p = of_char c \<and> mem_streq h (p + 1) s)"

section \<open>Tables\<close>

record pit_layout =
  item_bytes :: nat
  new_item_bytes :: nat
  o_name :: nat
  o_id :: nat
  o_info :: nat
  o_offset :: nat
  o_size :: nat
  o_header_len :: nat
  o_item_num :: nat
  o_item_len :: nat
  HEAD_SIG :: u32
  TAIL_SIG :: u32
  ADPT_HEAD_SIG :: u32
  ADPT_TAIL_SIG :: u32
  PART_TBL_ITEM_NR_MAX :: nat
  SEARCH_PART_TBL_START :: u32
  SEARCH_PART_TBL_END :: u32
  ADPT_PIT_OFFSET :: u32
  u4_get_parent_part_id :: "(addr \<Rightarrow> u8) \<Rightarrow> addr \<Rightarrow> u32"
  CONFIG_NOR_BOOT :: bool

text \<open>\<open>u4_get_parent_part_id\<close>, a function of the table module outside the repository, reads the item at an
  address.\<close>

definition ISUBIVOLUME :: "u32 \<Rightarrow> u32" where
  "ISUBIVOLUME binInfo = drop_bit 12 (0x0000F000 AND binInfo)"

text \<open>The versions; the result -1 of \<open>i4CheckPITVer\<close> is \<open>V_ERR\<close>, which the code never tells from it.\<close>

datatype pit_ver = V_ERR | V0 | V1

definition i4CheckPITVer :: "(addr \<Rightarrow> u8) \<Rightarrow> addr \<Rightarrow> u32 \<Rightarrow> pit_ver" where
  "i4CheckPITVer h phead u4HeadSig =
     (if ld32 h phead \<noteq> u4HeadSig \<or> ld32 h (phead + 4) \<noteq> u4HeadSig then V_ERR
      else if ld32 h (phead + 8) \<noteq> u4HeadSig \<or> ld32 h (phead + 12) \<noteq> u4HeadSig then V1
      else V0)"

text \<open>The loop of \<open>u4GetPartNum\<close> over a table of the first format goes on after a match.\<close>

definition is_tail :: "pit_layout \<Rightarrow> (addr \<Rightarrow> u8) \<Rightarrow> addr \<Rightarrow> u32 \<Rightarrow> bool" where
  "is_tail L h p u4TailSig \<longleftrightarrow> ld32 h (p + o_id L) = u4TailSig \<and> ld32 h (p + o_info L) = u4TailSig \<and>
     ld32 h (p + o_offset L) = u4TailSig \<and> ld32 h (p + o_size L) = u4TailSig"

definition v0_part_num :: "pit_layout \<Rightarrow> (addr \<Rightarrow> u8) \<Rightarrow> addr \<Rightarrow> u32 \<Rightarrow> u32" where
  "v0_part_num L h pit u4TailSig =
     fold (\<lambda>i len. if is_tail L h (pit + i * item_bytes L) u4TailSig then of_nat i else len)
       [0..<PART_TBL_ITEM_NR_MAX L] 0"

definition u4GetPartNum :: "pit_layout \<Rightarrow> (addr \<Rightarrow> u8) \<Rightarrow> addr \<Rightarrow> u32 \<Rightarrow> u32 \<Rightarrow> u32" where
  "u4GetPartNum L h pit u4HeadSig u4TailSig =
     (case i4CheckPITVer h pit u4HeadSig of
        V0 \<Rightarrow> v0_part_num L h pit u4TailSig
      | V1 \<Rightarrow> ld32 h (pit + o_item_num L)
      | V_ERR \<Rightarrow> 0)"

definition u4GetItemLen :: "pit_layout \<Rightarrow> (addr \<Rightarrow> u8) \<Rightarrow> addr \<Rightarrow> u32 \<Rightarrow> u32" where
  "u4GetItemLen L h pit u4HeadSig =
     (case i4CheckPITVer h pit u4HeadSig of
        V0 \<Rightarrow> of_nat (item_bytes L)
      | V1 \<Rightarrow> ld32 h (pit + o_item_len L)
      | V_ERR \<Rightarrow> 0)"

definition fill_words :: "addr \<Rightarrow> nat \<Rightarrow> u32 \<Rightarrow> 'f mtd_world \<Rightarrow> 'f mtd_world" where
  "fill_words p k x w = fold (\<lambda>i. st32 (p + 4 * i) x) [0..<k] w"

definition u4SetPartHead :: "addr \<Rightarrow> pit_ver \<Rightarrow> u32 \<Rightarrow> 'f mtd_world \<Rightarrow> int \<times> 'f mtd_world" where
  "u4SetPartHead pit pitver u4HeadSig w =
     (case pitver of V0 \<Rightarrow> (0, fill_words pit 8 u4HeadSig w)
      | V1 \<Rightarrow> (0, st32 (pit + 4) u4HeadSig (st32 pit u4HeadSig w))
      | V_ERR \<Rightarrow> (-1, w))"

definition u4SetPartTail :: "pit_layout \<Rightarrow> addr \<Rightarrow> u32 \<Rightarrow> pit_ver \<Rightarrow> u32 \<Rightarrow> 'f mtd_world \<Rightarrow> int \<times> 'f mtd_world" where
  "u4SetPartTail L pit pitlen pitver u4TailSig w =
     (case pitver of V0 \<Rightarrow> (0, fill_words (pit + item_bytes L * unat (pitlen + 1)) 8 u4TailSig w)
      | V1 \<Rightarrow> (0, w)
      | V_ERR \<Rightarrow> (-1, w))"

text \<open>Items lie below the end of the address space: the sums of addresses, which are 32-bit sums in the code, are
  taken not to wrap.\<close>

definition pr_get_pit_item_by_idx :: "pit_layout \<Rightarrow> (addr \<Rightarrow> u8) \<Rightarrow> addr \<Rightarrow> u32 \<Rightarrow> pit_ver \<Rightarrow> addr" where
  "pr_get_pit_item_by_idx L h pit idx pitver =
     (if pitver = V0 then pit + item_bytes L * unat (idx + 1)
      else pit + unat (ld32 h (pit + o_header_len L)) + unat (idx * ld32 h (pit + o_item_len L)))"

text \<open>\<open>nr\<close> is the global \<open>u4_part_nr\<close>.\<close>

function find_item_by_name ::
  "pit_layout \<Rightarrow> (addr \<Rightarrow> u8) \<Rightarrow> addr \<Rightarrow> string \<Rightarrow> pit_ver \<Rightarrow> u32 \<Rightarrow> u32 \<Rightarrow> addr option" where
  "find_item_by_name L h pit name pitver nr i =
     (if i < nr
      then let item = pr_get_pit_item_by_idx L h pit i pitver in
        if mem_streq h (item + o_name L) name then Some item
        else find_item_by_name L h pit name pitver nr (i + 1)
      else None)"
  by pat_completeness auto
termination
proof (relation "measure (\<lambda>(L, h, pit, name, pitver, nr, i). unat nr - unat i)", goal_cases)
  case (2 L h pit name pitver nr i x)
  then have "unat i < unat nr" by (simp add: word_less_nat_alt)
  moreover from this have "unat (i + 1) = unat i + 1"
    using u32_lt [of nr] by (simp add: unat_word_ariths)
  ultimately show ?case by simp
qed simp

declare find_item_by_name.simps [simp del]

definition mt85xx_get_part_item_by_name ::
  "pit_layout \<Rightarrow> (addr \<Rightarrow> u8) \<Rightarrow> u32 \<Rightarrow> addr \<Rightarrow> string option \<Rightarrow> pit_ver \<Rightarrow> addr option" where
  "mt85xx_get_part_item_by_name L h nr pit part_name pitver =
     (case part_name of None \<Rightarrow> None | Some s \<Rightarrow> find_item_by_name L h pit s pitver nr 0)"

definition get_part_id_by_name_new ::
  "pit_layout \<Rightarrow> (addr \<Rightarrow> u8) \<Rightarrow> u32 \<Rightarrow> addr \<Rightarrow> string option \<Rightarrow> pit_ver \<Rightarrow> u32" where
  "get_part_id_by_name_new L h nr pit part_name pitver =
     (case mt85xx_get_part_item_by_name L h nr pit part_name pitver of
        None \<Rightarrow> 0 | Some temp \<Rightarrow> ld32 h (temp + o_id L))"

text \<open>\<open>u4ItemLen\<close> is computed and not used.\<close>

definition copy_len :: "pit_ver \<Rightarrow> nat" where
  "copy_len pitver = (case pitver of V0 \<Rightarrow> 32 | V1 \<Rightarrow> 40 | V_ERR \<Rightarrow> 0)"

definition i4CopyPartItem :: "addr \<Rightarrow> addr \<Rightarrow> pit_ver \<Rightarrow> 'f mtd_world \<Rightarrow> 'f mtd_world" where
  "i4CopyPartItem pdest psource pitver w = memcpy pdest psource (copy_len pitver) w"

section \<open>Global variables\<close>

record pit_globals =
  pit_ver_g :: pit_ver
  orig_pit :: addr
  adpt_pit :: addr
  u4_orig_part_nr :: u32
  u4_same :: u32
  u4_part_nr :: u32
  u4_adpt :: u32
  b_get_registry :: bool

text \<open>What surrounds the module: the board, the layout of the tables, the functions of the devices, and the
  results of its allocations (a null pointer is \<open>None\<close>).\<close>

record 'f pit_env =
  pe_board :: pit_board
  pe_layout :: pit_layout
  pe_dev :: "addr \<Rightarrow> 'f mtd_ops"
  pe_write_alloc :: wr_alloc
  alloc_orig :: "addr option"
  alloc_adpt :: "addr option"
  alloc_dest :: "addr option"
  alloc_destup :: "addr option"
  alloc_source :: "addr option"

definition table_bytes :: "pit_layout \<Rightarrow> nat" where
  "table_bytes L = PART_TBL_ITEM_NR_MAX L * new_item_bytes L"

section \<open>Finding tables\<close>

text \<open>The search of \<open>i4FindPartTbl\<close>; the result is the number of partitions of the table found.\<close>

partial_function (option) find_loop ::
  "'f pit_env \<Rightarrow> bool \<Rightarrow> addr \<Rightarrow> u32 \<Rightarrow> u32 \<Rightarrow> u32 \<Rightarrow> u32 \<Rightarrow> 'f mtd_world \<Rightarrow> (u32 option \<times> 'f mtd_world) option"
where
  "find_loop E reg pit headsig tailsig internal i w =
     (if i < SEARCH_PART_TBL_END (pe_layout E)
      then do { (r, w) \<leftarrow> i4NFBPartitionRead (pe_board E) (pe_dev E) reg 0 i pit
                  (of_nat (table_bytes (pe_layout E))) w;
                if r \<noteq> 0 \<or> i4CheckPITVer (mem w) pit headsig = V_ERR
                then find_loop E reg pit headsig tailsig internal (i + internal) w
                else Some (Some (u4GetPartNum (pe_layout E) (mem w) pit headsig tailsig), w) }
      else Some (None, w))"

declare find_loop.simps [code]

definition i4FindPartTbl ::
  "'f pit_env \<Rightarrow> bool \<Rightarrow> addr \<Rightarrow> u32 \<Rightarrow> u32 \<Rightarrow> 'f mtd_world \<Rightarrow> (u32 option \<times> 'f mtd_world) option" where
  "i4FindPartTbl E reg pit headsig tailsig w =
     do { (internal, w) \<leftarrow> get_block_size w;
          if pit = 0 then Some (None, w)
          else find_loop E reg pit headsig tailsig internal (SEARCH_PART_TBL_START (pe_layout E)) w }"

definition alloc_table :: "pit_layout \<Rightarrow> addr option \<Rightarrow> 'f mtd_world \<Rightarrow> addr \<times> 'f mtd_world" where
  "alloc_table L al w = (case al of None \<Rightarrow> (0, w) | Some p \<Rightarrow> (p, memset p 0 (table_bytes L) w))"

text \<open>The result is a pointer cast to \<open>INT32\<close>, or -1.\<close>

definition ptr_int :: "addr \<Rightarrow> int" where
  "ptr_int p = sint (of_nat p :: u32)"

definition i4SearchAdptPIT ::
  "'f pit_env \<Rightarrow> pit_globals \<Rightarrow> 'f mtd_world \<Rightarrow> (int \<times> pit_globals \<times> 'f mtd_world) option" where
  "i4SearchAdptPIT E G w =
     (let L = pe_layout E in
      if u4_same G = 0 then Some (ptr_int (adpt_pit G), G, w)
      else let (G, w) = (if adpt_pit G = 0
                   then let (p, w) = alloc_table L (alloc_adpt E) w in (G\<lparr>adpt_pit := p\<rparr>, w) else (G, w)) in
        if adpt_pit G = 0 then Some (-1, G, w)
        else do { (r, w) \<leftarrow> i4FindPartTbl E (b_get_registry G) (adpt_pit G) (ADPT_HEAD_SIG L) (ADPT_TAIL_SIG L) w;
                  case r of None \<Rightarrow> Some (-1, G, w) | Some pitlen \<Rightarrow> Some (ptr_int (adpt_pit G), G, w) })"

definition i4GetAdptPit ::
  "'f pit_env \<Rightarrow> pit_globals \<Rightarrow> 'f mtd_world \<Rightarrow> (int \<times> pit_globals \<times> 'f mtd_world) option" where
  "i4GetAdptPit E G w = i4SearchAdptPIT E G w"

definition i4SearchOrigPIT ::
  "'f pit_env \<Rightarrow> pit_globals \<Rightarrow> 'f mtd_world \<Rightarrow> (int \<times> pit_globals \<times> 'f mtd_world) option" where
  "i4SearchOrigPIT E G w =
     (let L = pe_layout E;
          (G, w) = (if orig_pit G = 0
            then let (p, w) = alloc_table L (alloc_orig E) w in (G\<lparr>orig_pit := p\<rparr>, w) else (G, w)) in
      if orig_pit G = 0 then Some (-1, G, w)
      else do { (r, w) \<leftarrow> i4FindPartTbl E (b_get_registry G) (orig_pit G) (HEAD_SIG L) (TAIL_SIG L) w;
                case r of None \<Rightarrow> Some (-1, G, w)
                | Some k \<Rightarrow>
                    Some (ptr_int (orig_pit G),
                      G\<lparr>pit_ver_g := i4CheckPITVer (mem w) (orig_pit G) (HEAD_SIG L),
                        u4_orig_part_nr := u4GetPartNum L (mem w) (orig_pit G) (HEAD_SIG L) (TAIL_SIG L)\<rparr>, w) })"

text \<open>The comparison of the items, \<open>memcmp\<close> for each one.\<close>

partial_function (option) same_items ::
  "pit_globals \<Rightarrow> (addr \<Rightarrow> u8) \<Rightarrow> addr \<Rightarrow> u32 \<Rightarrow> u32 \<Rightarrow> bool option" where
  "same_items G h bin_pit u4ItemLen i =
     (if i \<le> u4_orig_part_nr G
      then if load h (bin_pit + unat (u4ItemLen * i)) (copy_len (pit_ver_g G)) \<noteq>
              load h (orig_pit G + unat (u4ItemLen * i)) (copy_len (pit_ver_g G)) then Some False
           else same_items G h bin_pit u4ItemLen (i + 1)
      else Some True)"

declare same_items.simps [code]

definition i4CompareFlashPIT ::
  "'f pit_env \<Rightarrow> pit_globals \<Rightarrow> addr \<Rightarrow> 'f mtd_world \<Rightarrow> (int \<times> pit_globals \<times> 'f mtd_world) option" where
  "i4CompareFlashPIT E G bin_pit w =
     (let L = pe_layout E;
          (po, w) = alloc_table L (alloc_orig E) w;
          (pa, w) = alloc_table L (alloc_adpt E) w;
          G = G\<lparr>orig_pit := po, adpt_pit := pa\<rparr> in
      if orig_pit G = 0 \<or> adpt_pit G = 0 then Some (-1, G, w)
      else do { (r, G, w) \<leftarrow> i4SearchOrigPIT E G w;
                if r < 0 then Some (-1, G, w)
                else if i4CheckPITVer (mem w) bin_pit (HEAD_SIG L) \<noteq> pit_ver_g G then Some (0, G, w)
                else if u4GetPartNum L (mem w) bin_pit (HEAD_SIG L) (TAIL_SIG L) \<noteq> u4_orig_part_nr G
                then Some (0, G, w)
                else do { same \<leftarrow> same_items G (mem w) bin_pit (u4GetItemLen L (mem w) (orig_pit G) (HEAD_SIG L)) 1;
                          if same
                          then if u4_adpt G = 1 then Some (0, G, w) else Some (1, G\<lparr>u4_same := 1\<rparr>, w)
                          else Some (0, G, w) } })"

section \<open>The adaptive table\<close>

text \<open>The loops that count the blocks of a partition: \<open>good\<close> and \<open>bad\<close> are \<open>u4GoodCnt\<close> and \<open>u4BadCnt\<close>.  For
  the first partition there is no \<open>limit\<close>; reaching the limit is \<open>while(1);\<close>.\<close>

partial_function (option) scan_blocks ::
  "mtd_info \<Rightarrow> 'f mtd_ops \<Rightarrow> u64 option \<Rightarrow> u32 \<Rightarrow> u32 \<Rightarrow> u32 \<Rightarrow> u32 \<Rightarrow> 'f mtd_world \<Rightarrow> (u32 \<times> 'f mtd_world) option"
where
  "scan_blocks m ops limit u4Size off good bad w =
     (if good * erasesize m < u4Size
      then if case limit of None \<Rightarrow> False | Some l \<Rightarrow> l \<le> ucast off then None
           else do { (r, w) \<leftarrow> call_isbad ops (ucast (block_base m off)) w;
                     if r \<noteq> 0 then scan_blocks m ops limit u4Size (off + erasesize m) good (bad + 1) w
                     else scan_blocks m ops limit u4Size (off + erasesize m) (good + 1) bad w }
      else Some (bad, w))"

declare scan_blocks.simps [code]

text \<open>What the steps of \<open>i4SetNewFlashPIT\<close> keep fixed.\<close>

record 'f new_pit =
  np_layout :: pit_layout
  np_info :: mtd_info
  np_ops :: "'f mtd_ops"
  np_ver :: pit_ver
  np_adpt :: addr
  np_bin :: addr

abbreviation adpt_item :: "'f new_pit \<Rightarrow> (addr \<Rightarrow> u8) \<Rightarrow> u32 \<Rightarrow> addr" where
  "adpt_item N h i \<equiv> pr_get_pit_item_by_idx (np_layout N) h (np_adpt N) i (np_ver N)"

abbreviation bin_item :: "'f new_pit \<Rightarrow> (addr \<Rightarrow> u8) \<Rightarrow> u32 \<Rightarrow> addr" where
  "bin_item N h i \<equiv> pr_get_pit_item_by_idx (np_layout N) h (np_bin N) i (np_ver N)"

definition first_item :: "'f new_pit \<Rightarrow> 'f mtd_world \<Rightarrow> 'f mtd_world option" where
  "first_item N w =
     (let L = np_layout N; prdest = adpt_item N (mem w) 0; prsource = bin_item N (mem w) 0 in
      do { (bad, w) \<leftarrow> scan_blocks (np_info N) (np_ops N) None (ld32 (mem w) (prsource + o_size L))
                         (ld32 (mem w) (prsource + o_offset L)) 0 0 w;
           let w = i4CopyPartItem prdest prsource (np_ver N) w;
           Some (if ISUBIVOLUME (ld32 (mem w) (prdest + o_info L)) \<noteq> 4
                 then st32 (prdest + o_size L)
                        (ld32 (mem w) (prsource + o_size L) + bad * erasesize (np_info N)) w
                 else w) })"

text \<open>The offset that the next item gets.\<close>

definition next_offset :: "'f new_pit \<Rightarrow> (addr \<Rightarrow> u8) \<Rightarrow> u32 \<Rightarrow> u32" where
  "next_offset N h u4Id =
     (let L = np_layout N; prsource = bin_item N h u4Id; prdestup = adpt_item N h (u4Id - 1) in
      if ISUBIVOLUME (ld32 h (prsource + o_info L)) \<noteq> 4
      then if ISUBIVOLUME (ld32 h (prdestup + o_info L)) \<noteq> 4
           then ld32 h (prdestup + o_offset L) + ld32 h (prdestup + o_size L)
           else let prdestup = adpt_item N h (u4_get_parent_part_id L h prdestup - 1) in
             ld32 h (prdestup + o_offset L) + ld32 h (prdestup + o_size L)
      else if ISUBIVOLUME (ld32 h (prdestup + o_info L)) \<noteq> 4
           then ld32 h (prdestup + o_offset L)
           else ld32 h (prdestup + o_offset L) + ld32 h (prdestup + o_size L))"

text \<open>\<open>mtd->size - 12*mtd->erasesize\<close>.\<close>

definition scan_limit :: "mtd_info \<Rightarrow> u64" where
  "scan_limit m = mtd_size m - ucast (12 * erasesize m)"

definition next_item :: "'f new_pit \<Rightarrow> u32 \<Rightarrow> 'f mtd_world \<Rightarrow> 'f mtd_world option" where
  "next_item N u4Id w =
     (let L = np_layout N; m = np_info N;
          prdest = adpt_item N (mem w) u4Id; prsource = bin_item N (mem w) u4Id;
          w = st32 (prdest + o_offset L) (next_offset N (mem w) u4Id) w;
          u4DestOft = ld32 (mem w) (prdest + o_offset L) in
      do { (bad, w) \<leftarrow> (if CONFIG_NOR_BOOT L then Some (0, w)
             else scan_blocks m (np_ops N) (Some (scan_limit m)) (ld32 (mem w) (prsource + o_size L)) u4DestOft 0 0 w);
           let w = i4CopyPartItem prdest prsource (np_ver N) w;
           let w = st32 (prdest + o_offset L) u4DestOft w;
           let kind = ISUBIVOLUME (ld32 (mem w) (prsource + o_info L));
           let bad = (if kind = 4 then 0 else if kind = 3 then bad + 1 else bad);
           Some (st32 (prdest + o_size L) (ld32 (mem w) (prsource + o_size L) + bad * erasesize m) w) })"

fun next_items :: "'f new_pit \<Rightarrow> nat list \<Rightarrow> 'f mtd_world \<Rightarrow> 'f mtd_world option" where
  "next_items N [] w = Some w"
| "next_items N (i # is) w = do { w \<leftarrow> next_item N (of_nat i) w; next_items N is w }"

text \<open>Steps 0 to 3.\<close>

definition make_adaptive :: "'f new_pit \<Rightarrow> u32 \<Rightarrow> 'f mtd_world \<Rightarrow> 'f mtd_world option" where
  "make_adaptive N nr w =
     do { let L = np_layout N;
          w \<leftarrow> first_item N (i4CopyPartItem (np_adpt N) (np_bin N) (np_ver N) w);
          w \<leftarrow> next_items N [1..<unat nr] w;
          let w = snd (u4SetPartHead (np_adpt N) (np_ver N) (ADPT_HEAD_SIG L) w);
          Some (snd (u4SetPartTail L (np_adpt N) nr (np_ver N) (ADPT_TAIL_SIG L) w)) }"

section \<open>Storing the adaptive table\<close>

text \<open>The offset inside the partition; \<open>get_block_size\<close> is called for the test and again for the value.\<close>

definition store_offset :: "pit_layout \<Rightarrow> 'f mtd_world \<Rightarrow> (u32 \<times> 'f mtd_world) option" where
  "store_offset L w =
     do { (b, w) \<leftarrow> get_block_size w;
          if ADPT_PIT_OFFSET L < b then get_block_size w else Some (ADPT_PIT_OFFSET L, w) }"

definition store_copy ::
  "'f pit_env \<Rightarrow> pit_globals \<Rightarrow> addr \<Rightarrow> string \<Rightarrow> u32 \<Rightarrow> 'f mtd_world \<Rightarrow> (int \<times> 'f mtd_world) option" where
  "store_copy E G bin_pit name itemnr w =
     (let L = pe_layout E;
          u4Id = get_part_id_by_name_new L (mem w) (u4_part_nr G) (adpt_pit G) (Some name) (pit_ver_g G) in
      if u4Id \<noteq> 0
      then do { (offset, w) \<leftarrow> store_offset L w;
                let item = pr_get_pit_item_by_idx L (mem w) bin_pit (u4Id - 1) (pit_ver_g G);
                (r, w) \<leftarrow> i4NFBPartitionWrite (pe_board E) (pe_write_alloc E) (pe_dev E) (b_get_registry G) 0
                  (offset + ld32 (mem w) (item + o_offset L)) (adpt_pit G) (itemnr * of_nat (new_item_bytes L)) w;
                Some (if r \<noteq> 0 then -1 else 0, w) }
      else Some (0, w))"

definition i4StoreAdptPit ::
  "'f pit_env \<Rightarrow> pit_globals \<Rightarrow> addr \<Rightarrow> 'f mtd_world \<Rightarrow> (int \<times> 'f mtd_world) option" where
  "i4StoreAdptPit E G bin_pit w =
     (case pit_ver_g G of V_ERR \<Rightarrow> Some (-1, w)
      | v \<Rightarrow> let itemnr = (if v = V0 then u4_part_nr G + 2 else u4_part_nr G + 1) in
          if u4_same G = 0
          then do { (r, w) \<leftarrow> store_copy E G bin_pit ''part_info_1'' itemnr w;
                    if r \<noteq> 0 then Some (-1, w)
                    else do { (r, w) \<leftarrow> store_copy E G bin_pit ''part_info_2'' itemnr w;
                              Some (if r \<noteq> 0 then -1 else 0, w) } }
          else Some (0, w))"

section \<open>A new table\<close>

text \<open>The three items that are allocated and then not used; \<open>False\<close> when one allocation failed.\<close>

definition alloc_item :: "addr option \<Rightarrow> nat \<Rightarrow> 'f mtd_world \<Rightarrow> 'f mtd_world" where
  "alloc_item al k w = (case al of None \<Rightarrow> w | Some p \<Rightarrow> memset p 0 k w)"

definition alloc_three :: "'f pit_env \<Rightarrow> pit_ver \<Rightarrow> 'f mtd_world \<Rightarrow> bool \<times> 'f mtd_world" where
  "alloc_three E ver w =
     (let L = pe_layout E in
      if ver = V_ERR then (False, w)
      else (alloc_dest E \<noteq> None \<and> alloc_destup E \<noteq> None \<and> alloc_source E \<noteq> None,
        alloc_item (alloc_source E) (item_bytes L)
          (alloc_item (alloc_destup E) (item_bytes L)
            (alloc_item (alloc_dest E) (if ver = V0 then item_bytes L else new_item_bytes L) w))))"

definition i4SetNewFlashPIT ::
  "'f pit_env \<Rightarrow> pit_globals \<Rightarrow> addr \<Rightarrow> 'f mtd_world \<Rightarrow> (int \<times> pit_globals \<times> 'f mtd_world) option" where
  "i4SetNewFlashPIT E G bin_pit w =
     (let L = pe_layout E;
          (G, w) = (if adpt_pit G = 0
            then let (p, w) = alloc_table L (alloc_adpt E) w in (G\<lparr>adpt_pit := p\<rparr>, w) else (G, w)) in
      if adpt_pit G = 0 then Some (-1, G, w)
      else do { (a, m, w) \<leftarrow> mtd_get 0 w;
                let ver = i4CheckPITVer (mem w) bin_pit (HEAD_SIG L);
                let G = G\<lparr>pit_ver_g := ver\<rparr>;
                let (ok, w) = alloc_three E ver w;
                if \<not> ok then Some (-1, G, w)
                else let nr = u4GetPartNum L (mem w) bin_pit (HEAD_SIG L) (TAIL_SIG L);
                         G = G\<lparr>u4_part_nr := nr\<rparr> in
                  if nr = 0 then Some (-1, G, w)
                  else do { w \<leftarrow> make_adaptive \<lparr>np_layout = L, np_info = m, np_ops = pe_dev E a, np_ver = ver,
                                   np_adpt = adpt_pit G, np_bin = bin_pit\<rparr> nr w;
                            (r, w) \<leftarrow> i4StoreAdptPit E G bin_pit w;
                            Some (if r \<noteq> 0 then -1 else 0, G, w) } })"

section \<open>The partitions in the environment\<close>

text \<open>The string at an address, up to its NUL.\<close>

partial_function (option) mem_str :: "(addr \<Rightarrow> u8) \<Rightarrow> addr \<Rightarrow> string option" where
  "mem_str h p = (if h p = 0 then Some []
     else do { s \<leftarrow> mem_str h (p + 1); Some (char_of (unat (h p)) # s) })"

declare mem_str.simps [code]

text \<open>\<open>strcat\<close> of the items to \<open>_bootargs_buf\<close>; a text that does not fit into the 1024 bytes of one of the
  buffers is a fault.  The size \<open>u4_size >> 10\<close> is printed with \<open>%d\<close> and never negative.\<close>

fun env_items ::
  "pit_layout \<Rightarrow> (addr \<Rightarrow> u8) \<Rightarrow> addr \<Rightarrow> pit_ver \<Rightarrow> nat list \<Rightarrow> string \<Rightarrow> string option" where
  "env_items L h pit ver [] buf = Some buf"
| "env_items L h pit ver (i # is) buf =
     (let item = pr_get_pit_item_by_idx L h pit (of_nat i) ver in
      if ISUBIVOLUME (ld32 h (item + o_info L)) \<noteq> 4
      then do { name \<leftarrow> mem_str h (item + o_name L);
                let tmp = dec (unat (drop_bit 10 (ld32 h (item + o_size L)))) @ ''K('' @ name @ ''),'';
                if 1024 \<le> length tmp \<or> 1024 \<le> length buf + length tmp then None
                else env_items L h pit ver is (buf @ tmp) }
      else env_items L h pit ver is buf)"

definition i4SetEnv ::
  "pit_layout \<Rightarrow> env_cfg \<Rightarrow> pit_ver \<Rightarrow> (addr \<Rightarrow> u8) \<Rightarrow> addr \<Rightarrow> u32 \<Rightarrow> env_state \<Rightarrow> (int \<times> env_state) option" where
  "i4SetEnv L cfg ver h pit u4PartCnt st =
     do { bootargs \<leftarrow> env_items L h pit ver [0..<unat u4PartCnt] ''mtdparts=mt85xx_nand:'';
          (r, st) \<leftarrow> setenv cfg st ''mtdparts'' (Some bootargs);
          if r = -1 then Some (r, st) else setenv cfg st ''mtdids'' (Some ''nand0=mt85xx_nand'') }"

end
