(* ===== verification/PitTableLaws.thy ===== *)
theory PitTableLaws
  imports PitWriteLaws PitTable
begin

text \<open>
  The adaptive table of \<open>PitTable\<close>: on a flash with enough good blocks its construction ends, main partitions
  and UBI volumes get the places that the four cases of \<open>i4SetNewFlashPIT\<close> give them, a main partition holds as
  many good blocks as the original one needs, and a volume keeps its size.
\<close>

section \<open>Counting good blocks\<close>

text \<open>The block behind the next \<open>need\<close> good blocks from \<open>k\<close> on, at most \<open>lim\<close>.\<close>

function take_good :: "(nat \<Rightarrow> bool) \<Rightarrow> nat \<Rightarrow> nat \<Rightarrow> nat \<Rightarrow> nat" where
  "take_good bad lim k need =
     (if need = 0 \<or> lim \<le> k then k else take_good bad lim (Suc k) (if bad k then need else need - 1))"
  by pat_completeness auto
termination
  by (relation "measure (\<lambda>(bad, lim, k, need). lim - k)") auto

declare take_good.simps [simp del]

lemma good_count_split:
  "k \<le> b \<Longrightarrow> b \<le> c \<Longrightarrow> good_count bad k c = good_count bad k b + good_count bad b c"
  using upt_add_eq_append [of k b "c - b"] by (simp add: good_count_def)

lemma good_count_le: "good_count bad k b \<le> b - k"
  unfolding good_count_def by (metis length_filter_le length_upt)

lemma take_good_between:
  "k \<le> lim \<Longrightarrow> need \<le> good_count bad k lim \<Longrightarrow> k \<le> take_good bad lim k need \<and>
   take_good bad lim k need \<le> lim \<and> good_count bad k (take_good bad lim k need) = need"
proof (induction bad lim k need rule: take_good.induct)
  case (1 bad lim k need)
  show ?case
  proof (cases "need = 0 \<or> lim \<le> k")
    case True
    with "1.prems" show ?thesis
      by (subst (1 2 3) take_good.simps) (auto simp: good_count_simps(1) good_count_def)
  next
    case False
    let ?need = "if bad k then need else need - 1"
    have "?need \<le> good_count bad (Suc k) lim"
      using "1.prems" False good_count_simps(2) [of k lim bad] by (auto split: if_splits)
    with "1.IH" [OF False] False have ih: "Suc k \<le> take_good bad lim (Suc k) ?need"
      "take_good bad lim (Suc k) ?need \<le> lim" "good_count bad (Suc k) (take_good bad lim (Suc k) ?need) = ?need"
      by simp_all
    have e: "take_good bad lim k need = take_good bad lim (Suc k) ?need"
      using False by (subst take_good.simps) simp
    have "good_count bad k (take_good bad lim (Suc k) ?need) = need"
      using ih(1,3) False good_count_simps(2) [of k "take_good bad lim (Suc k) ?need" bad] by (auto split: if_splits)
    with ih show ?thesis unfolding e by simp
  qed
qed

lemmas take_good_spec = take_good_between [THEN conjunct1]
  take_good_between [THEN conjunct2, THEN conjunct1] take_good_between [THEN conjunct2, THEN conjunct2]

lemma take_good_step:
  "0 < need \<Longrightarrow> k < lim \<Longrightarrow> take_good bad lim k need = take_good bad lim (Suc k) (if bad k then need else need - 1)"
  by (subst take_good.simps) simp

text \<open>What \<open>u4BadCnt\<close> is at the end.\<close>

abbreviation bads_taken :: "(nat \<Rightarrow> bool) \<Rightarrow> nat \<Rightarrow> nat \<Rightarrow> nat \<Rightarrow> nat" where
  "bads_taken bad lim k need \<equiv> take_good bad lim k need - k - need"

lemma bads_taken_add:
  assumes "k \<le> lim" and "need \<le> good_count bad k lim"
  shows "need + bads_taken bad lim k need = take_good bad lim k need - k"
proof -
  from take_good_spec [OF assms] good_count_le [of bad k "take_good bad lim k need"]
  show ?thesis by simp
qed

lemma taken_shift:
  "X + (e - Suc k - X) = e - Suc k \<Longrightarrow> Suc k \<le> e \<Longrightarrow> e - k - X = Suc (e - Suc k - (X :: nat))"
  "0 < X \<Longrightarrow> e - k - X = e - Suc k - (X - 1 :: nat)"
  by arith+

text \<open>The blocks that a size needs.\<close>

definition blocks_for :: "nat \<Rightarrow> nat \<Rightarrow> nat" where
  "blocks_for es x = (x + (es - 1)) div es"

lemma blocks_for_le: "0 < es \<Longrightarrow> x \<le> blocks_for es x * es"
  unfolding blocks_for_def using dividend_less_div_times [of es "x + (es - 1)"] by linarith

lemma less_blocks_for: "0 < es \<Longrightarrow> a < blocks_for es x \<longleftrightarrow> a * es < x"
  unfolding blocks_for_def using less_eq_div_iff_mult_less_eq [of es "Suc a" "x + (es - 1)"] by auto

lemma div_bounds: "x div es = k \<Longrightarrow> 0 < es \<Longrightarrow> k * es \<le> x \<and> x < k * es + es" for x es k :: nat
  using div_times_less_eq_dividend [of x es] dividend_less_div_times [of es x] by auto

lemma scan_blocks_counts:
  assumes g: "geometry m n j ws" and rb: "reports_bad I C R (2 ^ j) bad ops"
    and lim: "lim * 2 ^ j \<le> n" "case limit of None \<Rightarrow> True | Some l \<Rightarrow> lim * 2 ^ j \<le> unat l"
    and size: "T = blocks_for (2 ^ j) (unat u4Size)" "T * 2 ^ j < 2 ^ 32"
  shows "I w \<Longrightarrow> length (C w) = n \<Longrightarrow> unat off div 2 ^ j = k \<Longrightarrow> k \<le> lim \<Longrightarrow> unat good \<le> T \<Longrightarrow>
    T - unat good \<le> good_count bad k lim \<Longrightarrow> unat cnt + (lim - k) < 2 ^ 32 \<Longrightarrow>
    \<exists>b w'. scan_blocks m ops limit u4Size off good cnt w = Some (b, w') \<and>
      unat b = unat cnt + bads_taken bad lim k (T - unat good) \<and> keeps I C R w (C w) (mem w) w'"
proof (induction "lim - k" arbitrary: w off k good cnt)
  case 0
  note geo = geometryD [OF g]
  from "0.hyps" "0.prems"(4) have k: "k = lim" by simp
  with "0.prems"(5,6) have good: "unat good = T" by (simp add: good_count_simps(1))
  have "unat (good * erasesize m) = T * 2 ^ j"
    using size(2) good geo(4) by (simp add: unat_word_ariths)
  then have "\<not> good * erasesize m < u4Size" using blocks_for_le [of "2 ^ j" "unat u4Size"] size(1) by (simp add: word_less_nat_alt)
  then have "scan_blocks m ops limit u4Size off good cnt w = Some (cnt, w)"
    by (subst scan_blocks.simps) (rule if_not_P)
  with "0.prems"(1) good show ?case by (simp add: keeps_def take_good.simps)
next
  case (Suc d)
  note geo = geometryD [OF g]
  let ?es = "2 ^ j :: nat"
  note size_lt = size(2)
  have ge: "unat (good * erasesize m) = unat good * ?es"
    using size_lt Suc.prems(5) geo(4) le_less_trans [OF mult_le_mono1 size_lt, of "unat good"]
    by (simp add: unat_word_ariths)
  have cond: "good * erasesize m < u4Size \<longleftrightarrow> unat good < T"
    using ge less_blocks_for [of "2 ^ j" "unat good" "unat u4Size"] size(1) by (simp add: word_less_nat_alt)
  show ?case
  proof (cases "unat good < T")
    case False
    with cond have "\<not> good * erasesize m < u4Size" by blast
    then have "scan_blocks m ops limit u4Size off good cnt w = Some (cnt, w)"
      by (subst scan_blocks.simps) (rule if_not_P)
    with False Suc.prems(1) show ?thesis by (simp add: keeps_def take_good.simps)
  next
    case True
    have k: "k < lim" using Suc.hyps(2) by simp
    have kn: "k * ?es + ?es \<le> n" using mult_le_mono1 [OF Suc_leI [OF k], of ?es] lim(1) by simp
    have off: "unat off < k * ?es + ?es" "k * ?es \<le> unat off" using div_bounds [OF Suc.prems(3)] by simp_all
    have "k * ?es + ?es \<le> lim * ?es" using mult_le_mono1 [OF Suc_leI [OF k], of ?es] by simp
    then have "unat off < lim * ?es" using off by linarith
    then have "\<not> l \<le> ucast off" if "limit = Some l" for l
      using lim(2) that less_le_trans [of "unat off" "lim * ?es" "unat l"] by (simp add: word_le_nat_alt)
    then have nolimit: "\<not> (case limit of None \<Rightarrow> False | Some l \<Rightarrow> l \<le> ucast off)"
      by (simp split: option.split)
    have "unat (block_base m off) = k * ?es" using unat_block_base [OF g, of off] Suc.prems(3) by simp
    moreover from this have "unat (ucast (block_base m off) :: u64) < length (C w)"
      using kn Suc.prems(2) by (simp add: less_le_trans [of _ "k * ?es + ?es"])
    ultimately obtain w1 where w1: "call_isbad ops (ucast (block_base m off)) w = Some (if bad k then 1 else 0, w1)"
      "keeps I C R w (C w) (mem w) w1"
      using rb [unfolded reports_bad_def, rule_format, OF Suc.prems(1), of "ucast (block_base m off)"] by auto
    note k1 = keepsD [OF w1(2)]
    have o': "unat (off + erasesize m) div ?es = Suc k"
    proof -
      have "unat off + ?es < n + n" using off kn by linarith
      then have "unat off + ?es < 2 ^ 32" using geo(9) by simp
      then have "unat (off + erasesize m) = unat off + ?es" using geo(4) by (simp add: unat_add_32)
      then show ?thesis using Suc.prems(3) div_add_self2 [of ?es "unat off"] by simp
    qed
    define good1 where "good1 = (if bad k then good else good + 1)"
    define cnt1 where "cnt1 = (if bad k then cnt + 1 else cnt)"
    have g1: "unat good1 = (if bad k then unat good else unat good + 1)"
    proof -
      have "T * 1 \<le> T * ?es" by (intro mult_le_mono) simp_all
      then have "unat good + 1 < 2 ^ 32" using True size_lt by (simp only: mult_1_right)
      then show ?thesis by (simp add: good1_def unat_word_ariths)
    qed
    have c1: "unat cnt1 = (if bad k then unat cnt + 1 else unat cnt)"
      using Suc.prems(7) k by (auto simp: cnt1_def unat_word_ariths)
    have need: "T - unat good1 = (if bad k then T - unat good else T - unat good - 1)" using g1 by simp
    have "T - unat good1 \<le> good_count bad (Suc k) lim"
      using Suc.prems(6) good_count_simps(2) [OF k, of bad] need by (auto split: if_splits)
    moreover have "unat good1 \<le> T" using g1 True by simp
    moreover have "unat cnt1 + (lim - Suc k) < 2 ^ 32" using c1 Suc.prems(7) k by auto
    moreover have "d = lim - Suc k" using Suc.hyps(2) by simp
    ultimately obtain b w' where ih: "scan_blocks m ops limit u4Size (off + erasesize m) good1 cnt1 w1 = Some (b, w')"
      "unat b = unat cnt1 + bads_taken bad lim (Suc k) (T - unat good1)" "keeps I C R w1 (C w) (mem w) w'"
      using Suc.hyps(1) [of "Suc k" w1 "off + erasesize m" good1 cnt1] o' k k1 Suc.prems(2) by auto
    have "scan_blocks m ops limit u4Size off good cnt w = Some (b, w')"
      using ih(1) w1(1) nolimit cond True
      by (subst scan_blocks.simps) (cases "bad k", simp_all add: good1_def cnt1_def)
    moreover have "unat b = unat cnt + bads_taken bad lim k (T - unat good)"
    proof -
      define e where "e = take_good bad lim (Suc k) (T - unat good1)"
      have t: "take_good bad lim k (T - unat good) = e"
        using take_good_step [of "T - unat good" k lim bad] True k need by (simp add: e_def)
      have gc: "T - unat good1 \<le> good_count bad (Suc k) lim" by fact
      show ?thesis
      proof (cases "bad k")
        case True
        have "T - unat good1 + (e - Suc k - (T - unat good1)) = e - Suc k"
          unfolding e_def using gc k by (intro bads_taken_add) simp_all
        moreover have "Suc k \<le> e" unfolding e_def using gc k by (intro take_good_spec) simp_all
        ultimately have "e - k - (T - unat good1) = Suc (e - Suc k - (T - unat good1))" by (rule taken_shift)
        with True show ?thesis using ih(2) c1 need unfolding t e_def [symmetric] by simp
      next
        case False
        have "e - k - (T - unat good) = e - Suc k - (T - unat good - 1)"
          using \<open>unat good < T\<close> by (intro taken_shift) simp
        with False show ?thesis using ih(2) c1 need unfolding t e_def [symmetric] by simp
      qed
    qed
    ultimately show ?thesis using keeps_trans [OF w1(2) ih(3)] by blast
  qed
qed

section \<open>Words in memory\<close>

lemma le_word_bytes: "le_word (le_bytes x) = x"
proof (rule bit_word_eqI)
  fix n assume n: "n < LENGTH(32)"
  consider "n < 8" | "8 \<le> n \<and> n < 16" | "16 \<le> n \<and> n < 24" | "24 \<le> n" by linarith
  then show "bit (le_word (le_bytes x)) n \<longleftrightarrow> bit x n"
    by cases (use n in \<open>auto simp: le_word_def le_bytes_def bit_ops\<close>)
qed

lemma length_le_bytes [simp]: "length (le_bytes x) = 4"
  by (simp add: le_bytes_def)

lemma ld32_same: "ld32 (store h p (le_bytes x)) p = x"
  using load_store [of h p "le_bytes x"] by (simp add: ld32_def le_word_bytes)

lemma ld32_apart: "apart p (length xs) q 4 \<Longrightarrow> ld32 (store h p xs) q = ld32 h q"
  by (simp add: ld32_def load_store_apart)

lemma ld32_copied: "o' + 4 \<le> k \<Longrightarrow> ld32 (store h d (load h' s k)) (d + o') = ld32 h' (s + o')"
  using load_slice [of o' 4 k "store h d (load h' s k)" d] load_slice [of o' 4 k h' s]
    load_store [of h d "load h' s k"] by (simp add: ld32_def)

lemma mem_effects: "mem (st32 p x w) = store (mem w) p (le_bytes x)"
  "mem (i4CopyPartItem d s v w) = store (mem w) d (load (mem w) s (copy_len v))"
  by (simp_all add: st32_def i4CopyPartItem_def memcpy_def)

lemma rest_effects:
  assumes "mem_free I C R"
  shows "I (st32 p x w) = I w" "C (st32 p x w) = C w" "R (st32 p x w) = R w"
    "I (i4CopyPartItem d s v w) = I w" "C (i4CopyPartItem d s v w) = C w" "R (i4CopyPartItem d s v w) = R w"
  using assms unfolding mem_free_def st32_def i4CopyPartItem_def memcpy_def by simp_all

lemma rest_fill_words:
  assumes "mem_free I C R"
  shows "I (fill_words p k x w) = I w \<and> C (fill_words p k x w) = C w \<and> R (fill_words p k x w) = R w"
  by (induction k) (simp_all add: fill_words_def rest_effects [OF assms])

lemma fill_words_other: "\<not> (p \<le> a \<and> a < p + 4 * k) \<Longrightarrow> mem (fill_words p k x w) a = mem w a"
  by (induction k) (auto simp: fill_words_def mem_effects store_other)

lemma fill_words_at: "i < k \<Longrightarrow> ld32 (mem (fill_words p k x w)) (p + 4 * i) = x"
proof (induction k)
  case (Suc k)
  have e: "mem (fill_words p (Suc k) x w) = store (mem (fill_words p k x w)) (p + 4 * k) (le_bytes x)"
    by (simp add: fill_words_def mem_effects)
  show ?case
  proof (cases "i = k")
    case True
    then show ?thesis by (simp add: e ld32_same)
  next
    case False
    with Suc show ?thesis by (simp add: e ld32_apart apart_def)
  qed
qed simp

section \<open>Places of items\<close>

definition layout_ok :: "pit_layout \<Rightarrow> pit_ver \<Rightarrow> bool" where
  "layout_ok L ver \<longleftrightarrow> o_info L + 4 \<le> copy_len ver \<and> o_offset L + 4 \<le> copy_len ver \<and> o_size L + 4 \<le> copy_len ver \<and>
     apart (o_info L) 4 (o_offset L) 4 \<and> apart (o_info L) 4 (o_size L) 4 \<and> apart (o_offset L) 4 (o_size L) 4 \<and>
     (ver = V1 \<longrightarrow> 8 \<le> o_header_len L \<and> o_header_len L + 4 \<le> 40 \<and> 8 \<le> o_item_len L \<and> o_item_len L + 4 \<le> 40)"

text \<open>A table whose items start \<open>hdr\<close> bytes behind its address and are \<open>stride\<close> bytes apart.\<close>

definition table_at :: "pit_layout \<Rightarrow> pit_ver \<Rightarrow> (addr \<Rightarrow> u8) \<Rightarrow> addr \<Rightarrow> nat \<Rightarrow> nat \<Rightarrow> bool" where
  "table_at L ver h base hdr stride \<longleftrightarrow> copy_len ver \<le> hdr \<and> copy_len ver \<le> stride \<and>
     (case ver of V0 \<Rightarrow> hdr = item_bytes L \<and> stride = item_bytes L
      | V1 \<Rightarrow> unat (ld32 h (base + o_header_len L)) = hdr \<and> unat (ld32 h (base + o_item_len L)) = stride
      | V_ERR \<Rightarrow> False)"

lemma item_place:
  assumes "table_at L ver h base hdr stride" and "i < nr" and "hdr + nr * stride < 2 ^ 32" and "nr < 2 ^ 32 - 1"
  shows "pr_get_pit_item_by_idx L h base (of_nat i) ver = base + hdr + i * stride"
proof (cases ver)
  case V0
  have "unat (of_nat i + 1 :: u32) = i + 1"
    using assms(2,4) by (simp add: unat_word_ariths unsigned_of_nat take_bit_nat_eq_self)
  with V0 assms(1) show ?thesis by (simp add: pr_get_pit_item_by_idx_def table_at_def)
next
  case V1
  have "i * stride \<le> nr * stride" using assms(2) by (intro mult_le_mono1) simp
  then have "i * stride < 2 ^ 32" using assms(3) by linarith
  moreover have "unat (of_nat i :: u32) = i" using assms(2,4) by (simp add: unsigned_of_nat take_bit_nat_eq_self)
  ultimately show ?thesis using V1 assms(1) by (simp add: pr_get_pit_item_by_idx_def table_at_def unat_word_ariths)
next
  case V_ERR
  with assms(1) show ?thesis by (simp add: table_at_def)
qed

lemma table_at_cong:
  assumes "table_at L ver h base hdr stride" and "layout_ok L ver" and "\<And>a. base + 8 \<le> a \<Longrightarrow> a < base + hdr \<Longrightarrow> h' a = h a"
  shows "table_at L ver h' base hdr stride"
proof (cases ver)
  case V1
  with assms(1,2) have b: "40 \<le> hdr" "8 \<le> o_header_len L" "o_header_len L + 4 \<le> 40" "8 \<le> o_item_len L" "o_item_len L + 4 \<le> 40"
    by (simp_all add: table_at_def layout_ok_def copy_len_def)
  then have "load h' (base + o_header_len L) 4 = load h (base + o_header_len L) 4"
    "load h' (base + o_item_len L) 4 = load h (base + o_item_len L) 4"
    by (auto intro!: load_cong assms(3))
  with V1 assms(1) show ?thesis by (simp add: table_at_def ld32_def)
qed (use assms(1) in \<open>simp_all add: table_at_def\<close>)

section \<open>One item\<close>

lemma item_stored:
  fixes h :: "addr \<Rightarrow> u8" and d s a :: addr and x v :: u32
  assumes L: "layout_ok L ver"
  defines "k \<equiv> copy_len ver"
  defines "h' \<equiv> store (store h d (load h s k)) (d + o_size L) (le_bytes x)"
  defines "h'' \<equiv> store (store (store h d (load h s k)) (d + o_offset L) (le_bytes v)) (d + o_size L) (le_bytes x)"
  shows "ld32 h' (d + o_info L) = ld32 h (s + o_info L)" "ld32 h' (d + o_offset L) = ld32 h (s + o_offset L)"
    "ld32 h' (d + o_size L) = x" "\<not> (d \<le> a \<and> a < d + k) \<Longrightarrow> h' a = h a"
    "ld32 h'' (d + o_info L) = ld32 h (s + o_info L)" "ld32 h'' (d + o_offset L) = v"
    "ld32 h'' (d + o_size L) = x" "\<not> (d \<le> a \<and> a < d + k) \<Longrightarrow> h'' a = h a"
proof -
  have f: "o_info L + 4 \<le> k" "o_offset L + 4 \<le> k" "o_size L + 4 \<le> k"
    "apart (d + o_offset L) 4 (d + o_info L) 4" "apart (d + o_size L) 4 (d + o_info L) 4" "apart (d + o_size L) 4 (d + o_offset L) 4"
    using L unfolding layout_ok_def k_def apart_def by auto
  then show "ld32 h' (d + o_info L) = ld32 h (s + o_info L)" "ld32 h' (d + o_offset L) = ld32 h (s + o_offset L)"
    "ld32 h' (d + o_size L) = x" "ld32 h'' (d + o_info L) = ld32 h (s + o_info L)" "ld32 h'' (d + o_offset L) = v"
    "ld32 h'' (d + o_size L) = x"
    unfolding h'_def h''_def by (simp_all add: ld32_same ld32_apart ld32_copied)
  show "h' a = h a" if "\<not> (d \<le> a \<and> a < d + k)"
    unfolding h'_def using that f by (auto simp: store_def k_def)
  show "h'' a = h a" if "\<not> (d \<le> a \<and> a < d + k)"
    unfolding h''_def using that f by (auto simp: store_def k_def)
qed

text \<open>The items made so far: item \<open>l\<close> has the words \<open>kd l\<close>, the offset \<open>ofs l\<close> and the size \<open>len l\<close>.\<close>

definition items_done ::
  "pit_layout \<Rightarrow> addr \<Rightarrow> nat \<Rightarrow> (nat \<Rightarrow> nat) \<Rightarrow> (nat \<Rightarrow> nat) \<Rightarrow> (nat \<Rightarrow> u32) \<Rightarrow> nat \<Rightarrow> (addr \<Rightarrow> u8) \<Rightarrow> bool" where
  "items_done L items stride ofs len kd i h \<longleftrightarrow> (\<forall>l<i. let p = items + l * stride in
     ld32 h (p + o_info L) = kd l \<and> unat (ld32 h (p + o_offset L)) = ofs l \<and>
     unat (ld32 h (p + o_size L)) = len l)"

lemma items_done_add:
  assumes L: "layout_ok L ver" and dn: "items_done L items stride ofs len kd i h"
    and st: "copy_len ver \<le> stride"
    and other: "\<And>a. \<not> (items + i * stride \<le> a \<and> a < items + i * stride + copy_len ver) \<Longrightarrow> h' a = h a"
    and item: "ld32 h' (items + i * stride + o_info L) = kd i" "unat (ld32 h' (items + i * stride + o_offset L)) = ofs i"
      "unat (ld32 h' (items + i * stride + o_size L)) = len i"
  shows "items_done L items stride ofs len kd (Suc i) h'"
  unfolding items_done_def
proof (intro allI impI)
  fix l assume l: "l < Suc i"
  show "let p = items + l * stride in ld32 h' (p + o_info L) = kd l \<and> unat (ld32 h' (p + o_offset L)) = ofs l \<and>
     unat (ld32 h' (p + o_size L)) = len l"
  proof (cases "l = i")
    case True
    with item show ?thesis by simp
  next
    case False
    with l have li: "l < i" by simp
    then have "l * stride + stride \<le> i * stride" using mult_le_mono1 [of "Suc l" i stride] by simp
    then have same: "ld32 h' (items + l * stride + q) = ld32 h (items + l * stride + q)" if "q + 4 \<le> copy_len ver" for q
      unfolding ld32_def using st that by (intro arg_cong [where f = le_word] load_cong other) auto
    have "o_info L + 4 \<le> copy_len ver" "o_offset L + 4 \<le> copy_len ver" "o_size L + 4 \<le> copy_len ver"
      using L by (simp_all add: layout_ok_def)
    with dn li show ?thesis by (simp add: items_done_def same)
  qed
qed

lemma items_done_cong:
  assumes L: "layout_ok L ver" and dn: "items_done L items stride ofs len kd i h" and st: "copy_len ver \<le> stride"
    and same: "\<And>a. items \<le> a \<Longrightarrow> a < items + i * stride \<Longrightarrow> h' a = h a"
  shows "items_done L items stride ofs len kd i h'"
  unfolding items_done_def
proof (intro allI impI)
  fix l assume l: "l < i"
  then have le: "l * stride + stride \<le> i * stride" using mult_le_mono1 [of "Suc l" i stride] by simp
  have eq: "ld32 h' (items + l * stride + q) = ld32 h (items + l * stride + q)" if "q + 4 \<le> copy_len ver" for q
    unfolding ld32_def using st that le by (intro arg_cong [where f = le_word] load_cong same) auto
  have "o_info L + 4 \<le> copy_len ver" "o_offset L + 4 \<le> copy_len ver" "o_size L + 4 \<le> copy_len ver"
    using L by (simp_all add: layout_ok_def)
  with dn l show "let p = items + l * stride in ld32 h' (p + o_info L) = kd l \<and> unat (ld32 h' (p + o_offset L)) = ofs l \<and>
     unat (ld32 h' (p + o_size L)) = len l"
    by (simp add: items_done_def eq)
qed

section \<open>The whole table\<close>

text \<open>Where the partitions go.  \<open>new_size\<close> is the size of partition \<open>i\<close> at offset \<open>ofs\<close>: a volume keeps its size,
  every other partition grows by the bad blocks among those that it needs (they are not counted with
  \<open>CONFIG_NOR_BOOT\<close>, but for the first partition), and by one block when it holds a UBI device and is not the first.\<close>

definition new_size :: "nat \<Rightarrow> (nat \<Rightarrow> bool) \<Rightarrow> nat \<Rightarrow> bool \<Rightarrow> nat \<Rightarrow> u32 \<Rightarrow> nat \<Rightarrow> nat \<Rightarrow> nat" where
  "new_size es bad lim nor i kind sz ofs =
     (if kind = 4 then sz
      else sz + ((if nor \<and> 0 < i then 0 else bads_taken bad lim (ofs div es) (blocks_for es sz)) +
                 (if kind = 3 \<and> 0 < i then 1 else 0)) * es)"

text \<open>The offsets: a volume is behind the volume in front of it or at the start of the partition in front of it; a
  main partition is behind the main partition in front of it, or behind the parent of the volume in front of it.\<close>

function new_place :: "(nat \<Rightarrow> bool) \<Rightarrow> (nat \<Rightarrow> nat) \<Rightarrow> (nat \<Rightarrow> nat \<Rightarrow> nat) \<Rightarrow> nat \<Rightarrow> nat \<Rightarrow> nat" where
  "new_place vol par grow first 0 = first"
| "new_place vol par grow first (Suc i) =
     (if vol (Suc i)
      then if vol i then new_place vol par grow first i + grow i (new_place vol par grow first i)
           else new_place vol par grow first i
      else if vol i \<and> par i \<le> i
           then new_place vol par grow first (par i) + grow (par i) (new_place vol par grow first (par i))
           else new_place vol par grow first i + grow i (new_place vol par grow first i))"
  by pat_completeness auto
termination
  by (relation "measure (\<lambda>(vol, par, grow, first, i). i)") auto

declare new_place.simps [simp del]

lemma new_size_fits:
  assumes "0 < es" and "ofs div es \<le> lim" and "blocks_for es sz \<le> good_count bad (ofs div es) lim"
  shows "ofs + new_size es bad lim nor i kind sz ofs \<le> (lim + 2) * es"
    "kind \<noteq> 4 \<Longrightarrow> \<not> (nor \<and> 0 < i) \<Longrightarrow>
     blocks_for es sz \<le> good_count bad (ofs div es) (blocks_for es (ofs + new_size es bad lim nor i kind sz ofs))"
proof -
  define k where "k = ofs div es"
  define T where "T = blocks_for es sz"
  define e where "e = take_good bad lim k T"
  define b where "b = bads_taken bad lim k T"
  have a: "k \<le> lim" "T \<le> good_count bad k lim" using assms by (simp_all add: k_def T_def)
  note t = take_good_spec [OF a, folded e_def]
  have sum: "T + b = e - k" using bads_taken_add [OF a] by (simp add: b_def e_def)
  have o: "k * es \<le> ofs" "ofs < k * es + es" using div_bounds [of ofs es k] assms(1) by (simp_all add: k_def)
  have sz: "sz \<le> T * es" using blocks_for_le [OF assms(1), of sz] by (simp add: T_def)
  have "sz + (x + y) * es \<le> (e - k + 1) * es" if "x \<le> b" "y \<le> 1" for x y
  proof -
    have "sz + (x + y) * es \<le> T * es + (b + 1) * es" using sz that by (intro add_mono mult_le_mono1) simp_all
    also have "\<dots> = (e - k + 1) * es" unfolding sum [symmetric] by (simp add: algebra_simps)
    finally show ?thesis .
  qed
  note le = this
  consider "new_size es bad lim nor i kind sz ofs = sz + (0 + 0) * es"
    | "new_size es bad lim nor i kind sz ofs = sz + ((if nor \<and> 0 < i then 0 else b) + (if kind = 3 \<and> 0 < i then 1 else 0)) * es"
    unfolding new_size_def k_def T_def b_def by (cases "kind = 4") simp_all
  then have "new_size es bad lim nor i kind sz ofs \<le> (e - k + 1) * es"
    by cases (simp_all only: le zero_le if_split_asm, (intro le; simp)+)
  then have "ofs + new_size es bad lim nor i kind sz ofs \<le> (k * es + es) + (e - k + 1) * es" using o by linarith
  also have "\<dots> = (k + (e - k) + 2) * es" by (simp add: algebra_simps)
  also have "\<dots> \<le> (lim + 2) * es" using t(1,2) by (intro mult_le_mono1) simp
  finally show "ofs + new_size es bad lim nor i kind sz ofs \<le> (lim + 2) * es" .
  assume main: "kind \<noteq> 4" "\<not> (nor \<and> 0 < i)"
  show "blocks_for es sz \<le> good_count bad (ofs div es) (blocks_for es (ofs + new_size es bad lim nor i kind sz ofs))"
    unfolding T_def [symmetric] k_def [symmetric]
  proof (cases "T = 0")
    case False
    then have "(T - 1) * es < sz" using less_blocks_for [OF assms(1), of "T - 1" sz] by (simp add: T_def)
    moreover have "sz + b * es \<le> new_size es bad lim nor i kind sz ofs"
      using main by (simp add: new_size_def k_def T_def b_def)
    ultimately have "(T - 1) * es + b * es + k * es < ofs + new_size es bad lim nor i kind sz ofs" using o(1) by linarith
    moreover have "(T - 1) * es + b * es + k * es = (e - 1) * es"
    proof -
      have "T - 1 + b + k = e - 1" using sum False t(1) by linarith
      then show ?thesis by (simp only: add_mult_distrib [symmetric])
    qed
    ultimately have "e - 1 < blocks_for es (ofs + new_size es bad lim nor i kind sz ofs)"
      using less_blocks_for [OF assms(1)] by simp
    then have "e \<le> blocks_for es (ofs + new_size es bad lim nor i kind sz ofs)" by simp
    then show "T \<le> good_count bad k (blocks_for es (ofs + new_size es bad lim nor i kind sz ofs))"
      using good_count_split [OF t(1), of _ bad] t(3) by simp
  qed simp
qed

text \<open>A table to be adapted, in memory apart from the place for the new table; \<open>h0\<close> is the memory before.  The parent
  of a volume is told by the information word of its item, and is an item that is not behind it.\<close>

abbreviation bin_word :: "'f new_pit \<Rightarrow> (addr \<Rightarrow> u8) \<Rightarrow> nat \<Rightarrow> nat \<Rightarrow> nat \<Rightarrow> nat \<Rightarrow> u32" where
  "bin_word N h hdr stride i q \<equiv> ld32 h (np_bin N + hdr + i * stride + q)"

abbreviation part_kind :: "'f new_pit \<Rightarrow> (addr \<Rightarrow> u8) \<Rightarrow> nat \<Rightarrow> nat \<Rightarrow> nat \<Rightarrow> u32" where
  "part_kind N h hdr stride i \<equiv> ISUBIVOLUME (bin_word N h hdr stride i (o_info (np_layout N)))"

abbreviation part_bytes :: "'f new_pit \<Rightarrow> (addr \<Rightarrow> u8) \<Rightarrow> nat \<Rightarrow> nat \<Rightarrow> nat \<Rightarrow> nat" where
  "part_bytes N h hdr stride i \<equiv> unat (bin_word N h hdr stride i (o_size (np_layout N)))"

definition adaptable :: "'f new_pit \<Rightarrow> (addr \<Rightarrow> u8) \<Rightarrow> nat \<Rightarrow> nat \<Rightarrow> nat \<Rightarrow> (u32 \<Rightarrow> u32) \<Rightarrow> bool" where
  "adaptable N h0 hdr stride nr parent \<longleftrightarrow>
     layout_ok (np_layout N) (np_ver N) \<and>
     table_at (np_layout N) (np_ver N) h0 (np_bin N) hdr stride \<and>
     0 < nr \<and> nr < 2 ^ 32 - 1 \<and> hdr + nr * stride < 2 ^ 32 \<and>
     apart (np_adpt N) (hdr + nr * stride) (np_bin N) (hdr + nr * stride) \<and>
     (\<forall>h p. u4_get_parent_part_id (np_layout N) h p = parent (ld32 h (p + o_info (np_layout N)))) \<and>
     (\<forall>i<nr. part_kind N h0 hdr stride i = 4 \<longrightarrow>
        (let id = unat (parent (bin_word N h0 hdr stride i (o_info (np_layout N)))) in 1 \<le> id \<and> id \<le> Suc i))"

text \<open>The layout of the new table.\<close>

definition new_len ::
  "'f new_pit \<Rightarrow> (addr \<Rightarrow> u8) \<Rightarrow> nat \<Rightarrow> (nat \<Rightarrow> bool) \<Rightarrow> nat \<Rightarrow> nat \<Rightarrow> nat \<Rightarrow> nat \<Rightarrow> nat \<Rightarrow> nat" where
  "new_len N h es bad lim hdr stride i =
     new_size es bad lim (CONFIG_NOR_BOOT (np_layout N)) i (part_kind N h hdr stride i) (part_bytes N h hdr stride i)"

definition new_ofs ::
  "'f new_pit \<Rightarrow> (addr \<Rightarrow> u8) \<Rightarrow> nat \<Rightarrow> (nat \<Rightarrow> bool) \<Rightarrow> nat \<Rightarrow> nat \<Rightarrow> nat \<Rightarrow> (u32 \<Rightarrow> u32) \<Rightarrow> nat \<Rightarrow> nat" where
  "new_ofs N h es bad lim hdr stride parent =
     new_place (\<lambda>i. part_kind N h hdr stride i = 4)
       (\<lambda>i. unat (parent (bin_word N h hdr stride i (o_info (np_layout N)))) - 1)
       (new_len N h es bad lim hdr stride) (unat (bin_word N h hdr stride 0 (o_offset (np_layout N))))"

text \<open>Every partition starts before the last 12 blocks and finds the good blocks that it needs in front of them.\<close>

definition room_for ::
  "'f new_pit \<Rightarrow> (addr \<Rightarrow> u8) \<Rightarrow> nat \<Rightarrow> (nat \<Rightarrow> bool) \<Rightarrow> nat \<Rightarrow> nat \<Rightarrow> nat \<Rightarrow> (nat \<Rightarrow> nat) \<Rightarrow> nat \<Rightarrow> bool" where
  "room_for N h es bad lim hdr stride ofs i \<longleftrightarrow> ofs i div es \<le> lim \<and>
     blocks_for es (part_bytes N h hdr stride i) \<le> good_count bad (ofs i div es) lim"

definition items_upto ::
  "'f new_pit \<Rightarrow> ('f mtd_world \<Rightarrow> bool) \<Rightarrow> ('f mtd_world \<Rightarrow> u8 list) \<Rightarrow> ('f mtd_world \<Rightarrow> 'r) \<Rightarrow> 'f mtd_world
    \<Rightarrow> nat \<Rightarrow> nat \<Rightarrow> nat \<Rightarrow> (nat \<Rightarrow> nat) \<Rightarrow> (nat \<Rightarrow> nat) \<Rightarrow> nat \<Rightarrow> 'f mtd_world \<Rightarrow> bool" where
  "items_upto N I C R w0 hdr stride nr ofs len i w \<longleftrightarrow>
     I w \<and> C w = C w0 \<and> R w = R w0 \<and>
     (\<forall>a. \<not> (np_adpt N \<le> a \<and> a < np_adpt N + (hdr + nr * stride)) \<longrightarrow> mem w a = mem w0 a) \<and>
     table_at (np_layout N) (np_ver N) (mem w) (np_adpt N) hdr stride \<and>
     items_done (np_layout N) (np_adpt N + hdr) stride ofs len
       (\<lambda>l. bin_word N (mem w0) hdr stride l (o_info (np_layout N))) i (mem w)"

lemma place_inside: "i < nr \<Longrightarrow> q \<le> stride \<Longrightarrow> hdr + i * stride + q \<le> hdr + nr * stride" for i nr stride q hdr :: nat
  using mult_le_mono1 [of "Suc i" nr stride] by simp

lemma bin_word_same:
  assumes "\<forall>a. \<not> (np_adpt N \<le> a \<and> a < np_adpt N + (hdr + nr * stride)) \<longrightarrow> h a = h0 a"
    and "apart (np_adpt N) (hdr + nr * stride) (np_bin N) (hdr + nr * stride)" and "i < nr" and "q + 4 \<le> stride"
  shows "bin_word N h hdr stride i q = bin_word N h0 hdr stride i q"
proof -
  have "apart (np_adpt N) (hdr + nr * stride) (np_bin N + hdr + i * stride + q) 4"
    using place_inside [OF assms(3,4), of hdr] by (intro apart_sub [OF assms(2)]) simp_all
  then show ?thesis using load_outside [OF assms(1)] by (simp add: ld32_def)
qed

lemma scan_part:
  assumes g: "geometry m n j ws" and rb: "reports_bad I C R (2 ^ j) bad ops"
    and lim: "lim * 2 ^ j \<le> n" "case limit of None \<Rightarrow> True | Some l \<Rightarrow> lim * 2 ^ j \<le> unat l"
    and off: "unat off div 2 ^ j \<le> lim"
    and room: "blocks_for (2 ^ j) (unat u4Size) \<le> good_count bad (unat off div 2 ^ j) lim" and w: "I w" "length (C w) = n"
  shows "\<exists>b w'. scan_blocks m ops limit u4Size off 0 0 w = Some (b, w') \<and>
    unat b = bads_taken bad lim (unat off div 2 ^ j) (blocks_for (2 ^ j) (unat u4Size)) \<and> keeps I C R w (C w) (mem w) w'"
proof -
  note geo = geometryD [OF g]
  let ?T = "blocks_for (2 ^ j) (unat u4Size)"
  have "lim * 1 \<le> lim * 2 ^ j" by (intro mult_le_mono) simp_all
  then have "lim \<le> 2 ^ 31" using lim(1) geo(9) by (simp only: mult_1_right)
  then have l: "lim < 2 ^ 32" by simp
  have "?T \<le> lim" using room good_count_le [of bad "unat off div 2 ^ j" lim] by linarith
  then have "?T * 2 ^ j \<le> n" using lim(1) mult_le_mono1 le_trans by blast
  then have "?T * 2 ^ j < 2 ^ 32" using geo(9) by simp
  then show ?thesis
    using scan_blocks_counts [OF g rb lim refl, of u4Size w off "unat off div 2 ^ j" 0 0] off room w l by simp
qed

lemma size_word:
  assumes g: "geometry m n j ws" and b: "unat b = c" and sz: "unat u4Size + c * 2 ^ j \<le> n"
  shows "unat (u4Size + b * erasesize m) = unat u4Size + c * 2 ^ j"
proof -
  note geo = geometryD [OF g]
  have "unat u4Size + c * 2 ^ j < 2 ^ 32" using sz geo(9) by simp
  moreover from this have "unat (b * erasesize m) = c * 2 ^ j" using b geo(4) by (simp add: unat_word_ariths)
  ultimately show ?thesis by (simp add: unat_add_32)
qed

lemma scan_limit_blocks:
  assumes g: "geometry m n j ws" and n: "12 * 2 ^ j \<le> n"
  shows "(n div 2 ^ j - 12) * 2 ^ j \<le> unat (scan_limit m)" "(n div 2 ^ j - 12) * 2 ^ j \<le> n"
proof -
  note geo = geometryD [OF g]
  have "(12 :: nat) * 2 ^ j < 2 ^ 32" using n geo(9) by simp
  then have "unat (12 * erasesize m) = 12 * 2 ^ j" using geo(4) by (simp add: unat_word_ariths)
  then have "unat (ucast (12 * erasesize m) :: u64) = 12 * 2 ^ j" by simp
  moreover from this have "ucast (12 * erasesize m) \<le> mtd_size m" using n geo(10) by (simp add: word_le_nat_alt)
  ultimately have "unat (scan_limit m) = n - 12 * 2 ^ j" using geo(10) by (simp add: scan_limit_def unat_sub)
  moreover have "(n div 2 ^ j - 12) * 2 ^ j = n - 12 * 2 ^ j" using geo(8) by (simp add: diff_mult_distrib)
  ultimately show "(n div 2 ^ j - 12) * 2 ^ j \<le> unat (scan_limit m)" "(n div 2 ^ j - 12) * 2 ^ j \<le> n" by simp_all
qed

text \<open>The offsets and sizes as far as they are needed never leave the device.\<close>

lemma new_len_fits:
  assumes g: "geometry m n j ws" and n: "12 * 2 ^ j \<le> n" and room: "room_for N h (2 ^ j) bad (n div 2 ^ j - 12) hdr stride ofs i"
  shows "ofs i + new_len N h (2 ^ j) bad (n div 2 ^ j - 12) hdr stride i (ofs i) \<le> n"
proof -
  have "0 < (2 :: nat) ^ j" by simp
  from new_size_fits(1) [OF this room [unfolded room_for_def, THEN conjunct1] room [unfolded room_for_def, THEN conjunct2]]
  have "ofs i + new_len N h (2 ^ j) bad (n div 2 ^ j - 12) hdr stride i (ofs i) \<le> (n div 2 ^ j - 12 + 2) * 2 ^ j"
    unfolding new_len_def .
  also have "\<dots> \<le> n div 2 ^ j * 2 ^ j"
  proof (rule mult_le_mono1)
    have "12 \<le> n div 2 ^ j" using n by (simp add: less_eq_div_iff_mult_less_eq)
    then show "n div 2 ^ j - 12 + 2 \<le> n div 2 ^ j" by linarith
  qed
  also have "\<dots> = n" using geometryD(8) [OF g] by simp
  finally show ?thesis .
qed

lemma next_offset_place:
  fixes N :: "'f new_pit" and w0 :: "'f mtd_world" and bad :: "nat \<Rightarrow> bool" and n j hdr stride nr :: nat
  assumes g: "geometry (np_info N) n j ws"
    and ad: "adaptable N (mem w0) hdr stride nr parent" and n: "12 * 2 ^ j \<le> n"
  defines "lim \<equiv> n div 2 ^ j - 12"
  defines "len \<equiv> new_len N (mem w0) (2 ^ j) bad lim hdr stride" and "ofs \<equiv> new_ofs N (mem w0) (2 ^ j) bad lim hdr stride parent"
  assumes room: "\<And>i. i < nr \<Longrightarrow> room_for N (mem w0) (2 ^ j) bad lim hdr stride ofs i"
    and i: "0 < i" "i < nr" and w: "items_upto N I C R w0 hdr stride nr ofs (\<lambda>i. len i (ofs i)) i w"
  shows "unat (next_offset N (mem w) (of_nat i)) = ofs i"
proof -
  note geo = geometryD [OF g]
  let ?L = "np_layout N" and ?ver = "np_ver N" and ?tot = "hdr + nr * stride"
  from ad have L: "layout_ok ?L ?ver" and tb: "table_at ?L ?ver (mem w0) (np_bin N) hdr stride"
    and nr: "?tot < 2 ^ 32" "nr < 2 ^ 32 - 1" and ap: "apart (np_adpt N) ?tot (np_bin N) ?tot"
    and par: "\<And>h p. u4_get_parent_part_id ?L h p = parent (ld32 h (p + o_info ?L))"
    and ids: "\<And>i. i < nr \<Longrightarrow> part_kind N (mem w0) hdr stride i = 4 \<Longrightarrow>
        1 \<le> unat (parent (bin_word N (mem w0) hdr stride i (o_info ?L))) \<and>
        unat (parent (bin_word N (mem w0) hdr stride i (o_info ?L))) \<le> Suc i"
    by (simp_all add: adaptable_def Let_def)
  from tb have st: "copy_len ?ver \<le> stride" "copy_len ?ver \<le> hdr" by (simp_all add: table_at_def)
  have q: "o_info ?L + 4 \<le> stride" using L st by (simp add: layout_ok_def)
  from w have tw: "table_at ?L ?ver (mem w) (np_adpt N) hdr stride"
    and out: "\<forall>a. \<not> (np_adpt N \<le> a \<and> a < np_adpt N + ?tot) \<longrightarrow> mem w a = mem w0 a"
    and dn: "items_done ?L (np_adpt N + hdr) stride ofs (\<lambda>i. len i (ofs i)) (\<lambda>l. bin_word N (mem w0) hdr stride l (o_info ?L)) i (mem w)"
    by (simp_all add: items_upto_def)
  have tbw: "table_at ?L ?ver (mem w) (np_bin N) hdr stride"
    by (rule table_at_cong [OF tb L]) (use out ap i in \<open>auto simp: apart_def\<close>)
  obtain i' where i': "i = Suc i'" using i(1) by (cases i) simp_all
  have at: "adpt_item N (mem w) (of_nat l) = np_adpt N + hdr + l * stride" if "l < i" for l
    using item_place [OF tw _ nr, of l] that i(2) by simp
  have src: "ld32 (mem w) (bin_item N (mem w) (of_nat i) + o_info ?L) = bin_word N (mem w0) hdr stride i (o_info ?L)"
    using item_place [OF tbw i(2) nr] bin_word_same [OF out ap i(2) q] by simp
  have im: "of_nat i - 1 = (of_nat i' :: u32)" by (simp add: i')
  have fin: "ld32 (mem w) (adpt_item N (mem w) (of_nat l) + o_info ?L) = bin_word N (mem w0) hdr stride l (o_info ?L)"
    "unat (ld32 (mem w) (adpt_item N (mem w) (of_nat l) + o_offset ?L)) = ofs l"
    "unat (ld32 (mem w) (adpt_item N (mem w) (of_nat l) + o_size ?L)) = len l (ofs l)" if "l < i" for l
    using dn [unfolded items_done_def, rule_format, OF that] unfolding at [OF that] by (simp_all add: Let_def)
  have sum: "unat (ld32 (mem w) (adpt_item N (mem w) (of_nat l) + o_offset ?L) + ld32 (mem w) (adpt_item N (mem w) (of_nat l) + o_size ?L))
      = ofs l + len l (ofs l)" if "l < i" for l
  proof -
    have "l < nr" using that i(2) by simp
    from new_len_fits [OF g n room [OF this, unfolded lim_def], folded lim_def] have "ofs l + len l (ofs l) \<le> n" by (simp add: len_def)
    then have "ofs l + len l (ofs l) < 2 ^ 32" using geo(9) by simp
    then show ?thesis using fin [OF that] by (simp add: unat_add_32)
  qed
  have l: "i' < i" "i' < nr" using i i' by simp_all
  have ofs_i: "ofs i = (if part_kind N (mem w0) hdr stride i = 4
      then if part_kind N (mem w0) hdr stride i' = 4 then ofs i' + len i' (ofs i') else ofs i'
      else if part_kind N (mem w0) hdr stride i' = 4 \<and> unat (parent (bin_word N (mem w0) hdr stride i' (o_info ?L))) - 1 \<le> i'
           then let p = unat (parent (bin_word N (mem w0) hdr stride i' (o_info ?L))) - 1 in ofs p + len p (ofs p)
           else ofs i' + len i' (ofs i'))"
    unfolding i' ofs_def new_ofs_def len_def Let_def by (subst new_place.simps) (rule refl)
  show ?thesis
  proof (cases "part_kind N (mem w0) hdr stride i \<noteq> 4 \<and> part_kind N (mem w0) hdr stride i' = 4")
    case True
    define P where "P = parent (bin_word N (mem w0) hdr stride i' (o_info ?L))"
    have P: "1 \<le> unat P" "unat P \<le> Suc i'" using ids [OF l(2)] True by (simp_all add: P_def)
    then have "P - 1 = of_nat (unat P - 1)" by (simp add: of_nat_diff)
    moreover have "unat P - 1 < i" "unat P - 1 \<le> i'" using P i' by simp_all
    ultimately show ?thesis using True sum [of "unat P - 1"] unfolding next_offset_def Let_def im src fin(1) [OF l(1)] par ofs_i
      by (simp add: P_def [symmetric])
  next
    case False
    then show ?thesis unfolding next_offset_def Let_def im src fin(1) [OF l(1)] ofs_i
      using sum [OF l(1)] fin(2) [OF l(1)] by auto
  qed
qed

lemma next_item_done:
  fixes N :: "'f new_pit" and w0 :: "'f mtd_world" and bad :: "nat \<Rightarrow> bool" and n j hdr stride nr :: nat
  assumes g: "geometry (np_info N) n j ws" and rb: "reports_bad I C R (2 ^ j) bad (np_ops N)" and mf: "mem_free I C R"
    and ad: "adaptable N (mem w0) hdr stride nr parent" and n: "12 * 2 ^ j \<le> n" "length (C w0) = n"
  defines "lim \<equiv> n div 2 ^ j - 12"
  defines "len \<equiv> new_len N (mem w0) (2 ^ j) bad lim hdr stride" and "ofs \<equiv> new_ofs N (mem w0) (2 ^ j) bad lim hdr stride parent"
  assumes room: "\<And>i. i < nr \<Longrightarrow> room_for N (mem w0) (2 ^ j) bad lim hdr stride ofs i"
    and i: "0 < i" "i < nr" and w: "items_upto N I C R w0 hdr stride nr ofs (\<lambda>i. len i (ofs i)) i w"
  shows "\<exists>w'. next_item N (of_nat i) w = Some w' \<and> items_upto N I C R w0 hdr stride nr ofs (\<lambda>i. len i (ofs i)) (Suc i) w'"
proof -
  note geo = geometryD [OF g] and lim = scan_limit_blocks [OF g n(1), folded lim_def]
  let ?es = "2 ^ j :: nat" and ?L = "np_layout N" and ?ver = "np_ver N" and ?tot = "hdr + nr * stride"
  from ad have L: "layout_ok ?L ?ver" and tb: "table_at ?L ?ver (mem w0) (np_bin N) hdr stride"
    and nr: "?tot < 2 ^ 32" "nr < 2 ^ 32 - 1" and ap: "apart (np_adpt N) ?tot (np_bin N) ?tot"
    by (simp_all add: adaptable_def)
  from tb have st: "copy_len ?ver \<le> stride" "copy_len ?ver \<le> hdr" by (simp_all add: table_at_def)
  have q: "o_info ?L + 4 \<le> stride" "o_offset ?L + 4 \<le> stride" "o_size ?L + 4 \<le> stride"
    using L st by (simp_all add: layout_ok_def)
  from w have w': "I w" "C w = C w0" "R w = R w0" and tw: "table_at ?L ?ver (mem w) (np_adpt N) hdr stride"
    and out: "\<forall>a. \<not> (np_adpt N \<le> a \<and> a < np_adpt N + ?tot) \<longrightarrow> mem w a = mem w0 a"
    and dn: "items_done ?L (np_adpt N + hdr) stride ofs (\<lambda>i. len i (ofs i)) (\<lambda>l. bin_word N (mem w0) hdr stride l (o_info ?L)) i (mem w)"
    by (simp_all add: items_upto_def)
  have tbw: "table_at ?L ?ver (mem w) (np_bin N) hdr stride"
    by (rule table_at_cong [OF tb L]) (use out ap i in \<open>auto simp: apart_def\<close>)
  define d where "d = np_adpt N + hdr + i * stride"
  define s where "s = np_bin N + hdr + i * stride"
  have places: "adpt_item N (mem w) (of_nat i) = d" "bin_item N (mem w) (of_nat i) = s"
    unfolding d_def s_def using item_place [OF tw i(2) nr] item_place [OF tbw i(2) nr] by simp_all
  define P where "P = (\<lambda>w :: 'f mtd_world. ld32 (mem w) (s + o_size ?L) = bin_word N (mem w0) hdr stride i (o_size ?L) \<and>
    ld32 (mem w) (s + o_info ?L) = bin_word N (mem w0) hdr stride i (o_info ?L))"
  have bw: "P w'" if "\<forall>a. \<not> (np_adpt N \<le> a \<and> a < np_adpt N + ?tot) \<longrightarrow> mem w' a = mem w0 a" for w' :: "'f mtd_world"
    unfolding P_def s_def using bin_word_same [OF that ap i(2)] q by simp
  define v where "v = next_offset N (mem w) (of_nat i)"
  have v: "unat v = ofs i"
    using next_offset_place [where bad = bad, OF g ad n(1), folded lim_def, folded len_def ofs_def, OF room i w] by (simp add: v_def)
  note rm = room [OF i(2), unfolded room_for_def]
  define sz where "sz = bin_word N (mem w0) hdr stride i (o_size ?L)"
  define kind where "kind = part_kind N (mem w0) hdr stride i"
  have len: "len i (ofs i) = new_size ?es bad lim (CONFIG_NOR_BOOT ?L) i kind (unat sz) (ofs i)"
    by (simp add: len_def new_len_def sz_def kind_def)
  have fits: "ofs i + len i (ofs i) \<le> n"
    using new_len_fits [OF g n(1) room [OF i(2), unfolded lim_def], folded lim_def] by (simp add: len_def)
  have ins: "d + copy_len ?ver \<le> np_adpt N + ?tot" "np_adpt N + hdr \<le> d"
    using place_inside [OF i(2) st(1), of hdr] by (simp_all add: d_def)
  define w1 where "w1 = st32 (d + o_offset ?L) v w"
  have w1: "mem w1 = store (mem w) (d + o_offset ?L) (le_bytes v)" "I w1" "C w1 = C w0" "R w1 = R w0"
    using w' by (simp_all add: w1_def mem_effects rest_effects [OF mf])
  have out1: "\<forall>a. \<not> (np_adpt N \<le> a \<and> a < np_adpt N + ?tot) \<longrightarrow> mem w1 a = mem w0 a"
    using out ins L by (auto simp: w1(1) store_def layout_ok_def)
  note pw1 = bw [OF out1, unfolded P_def]
  define noscan where "noscan = CONFIG_NOR_BOOT ?L"
  define bads where "bads = bads_taken bad lim (ofs i div ?es) (blocks_for ?es (unat sz))"
  obtain b w2 where sc: "(if noscan then Some (0, w1) else scan_blocks (np_info N) (np_ops N) (Some (scan_limit (np_info N))) sz v 0 0 w1) = Some (b, w2)"
    "unat b = (if noscan then 0 else bads)" "keeps I C R w1 (C w1) (mem w1) w2"
  proof (cases noscan)
    case True
    show ?thesis by (rule that [of 0 w1]) (use True w1(2) in \<open>simp_all add: keeps_def\<close>)
  next
    case False
    from scan_part [OF g rb lim(2), of "Some (scan_limit (np_info N))" v sz w1] lim(1) rm w1 n v
    obtain b w2 where "scan_blocks (np_info N) (np_ops N) (Some (scan_limit (np_info N))) sz v 0 0 w1 = Some (b, w2)"
      "unat b = bads" "keeps I C R w1 (C w1) (mem w1) w2" by (auto simp: sz_def bads_def)
    with False show ?thesis by (intro that [of b w2]) simp_all
  qed
  note k2 = keepsD [OF sc(3)]
  define bb where "bb = (if kind = 4 then 0 else if kind = 3 then b + 1 else b)"
  define x where "x = sz + bb * erasesize (np_info N)"
  define c where "c = (if kind = 4 then 0 else (if noscan then 0 else bads) + (if kind = 3 then 1 else 0))"
  have len: "len i (ofs i) = unat sz + c * ?es" using i(1) unfolding len new_size_def c_def noscan_def bads_def by simp
  have ux: "unat x = len i (ofs i)"
    unfolding x_def len
  proof (rule size_word [OF g])
    have ge: "c * ?es \<le> n" using fits len by simp
    moreover have "c * 1 \<le> c * ?es" by (intro mult_le_mono) simp_all
    ultimately have "c \<le> 2 ^ 31" using geo(9) by (simp only: mult_1_right)
    then have "c < 2 ^ 32" by simp
    then show "unat bb = c" using sc(2) by (auto simp: bb_def c_def unat_add_32)
    show "unat sz + c * ?es \<le> n" using fits len by simp
  qed
  define w3 where "w3 = st32 (d + o_offset ?L) v (i4CopyPartItem d s ?ver w2)"
  define w5 where "w5 = st32 (d + o_size ?L) x w3"
  have m5: "mem w5 = store (store (store (mem w1) d (load (mem w1) s (copy_len ?ver))) (d + o_offset ?L) (le_bytes v))
      (d + o_size ?L) (le_bytes x)"
    by (simp add: w5_def w3_def mem_effects k2)
  note is5 = item_stored(5-8) [OF L, where h = "mem w1" and d = d and s = s and v = v and x = x, folded m5]
  have out3: "\<forall>a. \<not> (np_adpt N \<le> a \<and> a < np_adpt N + ?tot) \<longrightarrow> mem w3 a = mem w0 a"
    using out1 ins L by (auto simp: w3_def mem_effects k2 store_def layout_ok_def)
  note pw3 = bw [OF out3, unfolded P_def]
  have rd: "ld32 (mem w1) (d + o_offset ?L) = v" "ld32 (mem w1) (s + o_size ?L) = sz"
    using pw1 by (simp_all add: w1(1) ld32_same sz_def)
  have rd3: "ld32 (mem w3) (s + o_size ?L) = sz" "ISUBIVOLUME (ld32 (mem w3) (s + o_info ?L)) = kind"
    using pw3 by (simp_all add: sz_def kind_def)
  have "next_item N (of_nat i) w = Some w5"
    unfolding next_item_def Let_def places v_def [symmetric] w1_def [symmetric] noscan_def [symmetric] rd sc(1)
      bind.bind_lunit prod.case w3_def [symmetric] rd3 bb_def [symmetric] x_def [symmetric] w5_def [symmetric] by (rule refl)
  moreover have "items_upto N I C R w0 hdr stride nr ofs (\<lambda>i. len i (ofs i)) (Suc i) w5"
    unfolding items_upto_def
  proof (intro conjI)
    show "I w5" "C w5 = C w0" "R w5 = R w0" using k2 w1 by (simp_all add: w5_def w3_def rest_effects [OF mf])
    have o5: "mem w5 a = mem w a" if "\<not> (d \<le> a \<and> a < d + copy_len ?ver)" for a
    proof -
      have "mem w1 a = mem w a" using that L by (auto simp: w1(1) store_def layout_ok_def)
      then show ?thesis using is5(4) [OF that] by simp
    qed
    then show "\<forall>a. \<not> (np_adpt N \<le> a \<and> a < np_adpt N + ?tot) \<longrightarrow> mem w5 a = mem w0 a"
      using out ins by auto
    show "table_at ?L ?ver (mem w5) (np_adpt N) hdr stride"
      by (rule table_at_cong [OF tw L]) (use o5 ins in auto)
    show "items_done ?L (np_adpt N + hdr) stride ofs (\<lambda>i. len i (ofs i)) (\<lambda>l. bin_word N (mem w0) hdr stride l (o_info ?L)) (Suc i) (mem w5)"
    proof (rule items_done_add [OF L dn st(1)])
      show "mem w5 a = mem w a" if "\<not> (np_adpt N + hdr + i * stride \<le> a \<and> a < np_adpt N + hdr + i * stride + copy_len ?ver)" for a
        using that unfolding d_def [symmetric] by (rule o5)
      show "ld32 (mem w5) (np_adpt N + hdr + i * stride + o_info ?L) = bin_word N (mem w0) hdr stride i (o_info ?L)"
        unfolding d_def [symmetric] using is5(1) pw1 by simp
      show "unat (ld32 (mem w5) (np_adpt N + hdr + i * stride + o_offset ?L)) = ofs i"
        unfolding d_def [symmetric] using is5(2) v by simp
      show "unat (ld32 (mem w5) (np_adpt N + hdr + i * stride + o_size ?L)) = len i (ofs i)"
        unfolding d_def [symmetric] using is5(3) ux by simp
    qed
  qed
  ultimately show ?thesis by blast
qed

lemma header_done:
  assumes mf: "mem_free I C R" and ad: "adaptable N (mem w0) hdr stride nr parent" and w: "I w0"
  shows "items_upto N I C R w0 hdr stride nr ofs len 0 (i4CopyPartItem (np_adpt N) (np_bin N) (np_ver N) w0)"
proof -
  let ?L = "np_layout N" and ?ver = "np_ver N" and ?w = "i4CopyPartItem (np_adpt N) (np_bin N) (np_ver N) w0"
  from ad have L: "layout_ok ?L ?ver" and tb: "table_at ?L ?ver (mem w0) (np_bin N) hdr stride" by (simp_all add: adaptable_def)
  have "table_at ?L ?ver (mem ?w) (np_adpt N) hdr stride"
  proof (cases ?ver)
    case V1
    with L have "o_header_len ?L + 4 \<le> copy_len ?ver" "o_item_len ?L + 4 \<le> copy_len ?ver"
      by (simp_all add: layout_ok_def copy_len_def)
    then have "ld32 (mem ?w) (np_adpt N + o_header_len ?L) = ld32 (mem w0) (np_bin N + o_header_len ?L)"
      "ld32 (mem ?w) (np_adpt N + o_item_len ?L) = ld32 (mem w0) (np_bin N + o_item_len ?L)"
      by (simp_all add: mem_effects ld32_copied)
    with V1 tb show ?thesis by (simp add: table_at_def)
  qed (use tb in \<open>simp_all add: table_at_def\<close>)
  moreover have "copy_len ?ver \<le> hdr" using tb by (simp add: table_at_def)
  ultimately show ?thesis
    using w by (simp add: items_upto_def items_done_def rest_effects [OF mf]) (auto simp: mem_effects store_def)
qed

lemma first_item_done:
  fixes N :: "'f new_pit" and w0 w :: "'f mtd_world" and bad :: "nat \<Rightarrow> bool" and n j hdr stride nr :: nat
  assumes g: "geometry (np_info N) n j ws" and rb: "reports_bad I C R (2 ^ j) bad (np_ops N)" and mf: "mem_free I C R"
    and ad: "adaptable N (mem w0) hdr stride nr parent" and n: "12 * 2 ^ j \<le> n" "length (C w0) = n"
  defines "lim \<equiv> n div 2 ^ j - 12"
  defines "len \<equiv> new_len N (mem w0) (2 ^ j) bad lim hdr stride" and "ofs \<equiv> new_ofs N (mem w0) (2 ^ j) bad lim hdr stride parent"
  assumes room: "\<And>i. i < nr \<Longrightarrow> room_for N (mem w0) (2 ^ j) bad lim hdr stride ofs i"
    and w: "items_upto N I C R w0 hdr stride nr ofs (\<lambda>i. len i (ofs i)) 0 w"
  shows "\<exists>w'. first_item N w = Some w' \<and> items_upto N I C R w0 hdr stride nr ofs (\<lambda>i. len i (ofs i)) 1 w'"
proof -
  note geo = geometryD [OF g] and lim = scan_limit_blocks [OF g n(1), folded lim_def]
  let ?es = "2 ^ j :: nat" and ?L = "np_layout N" and ?ver = "np_ver N" and ?tot = "hdr + nr * stride"
  from ad have L: "layout_ok ?L ?ver" and tb: "table_at ?L ?ver (mem w0) (np_bin N) hdr stride"
    and nr: "?tot < 2 ^ 32" "nr < 2 ^ 32 - 1" "0 < nr" and ap: "apart (np_adpt N) ?tot (np_bin N) ?tot"
    by (simp_all add: adaptable_def)
  from tb have st: "copy_len ?ver \<le> stride" "copy_len ?ver \<le> hdr" by (simp_all add: table_at_def)
  have q: "o_info ?L + 4 \<le> stride" "o_offset ?L + 4 \<le> stride" "o_size ?L + 4 \<le> stride"
    using L st by (simp_all add: layout_ok_def)
  from w have w': "I w" "C w = C w0" "R w = R w0" and tw: "table_at ?L ?ver (mem w) (np_adpt N) hdr stride"
    and out: "\<forall>a. \<not> (np_adpt N \<le> a \<and> a < np_adpt N + ?tot) \<longrightarrow> mem w a = mem w0 a"
    and dn: "items_done ?L (np_adpt N + hdr) stride ofs (\<lambda>i. len i (ofs i)) (\<lambda>l. bin_word N (mem w0) hdr stride l (o_info ?L)) 0 (mem w)"
    by (simp_all add: items_upto_def)
  have tbw: "table_at ?L ?ver (mem w) (np_bin N) hdr stride"
    by (rule table_at_cong [OF tb L]) (use out ap nr in \<open>auto simp: apart_def\<close>)
  define d where "d = np_adpt N + hdr"
  define s where "s = np_bin N + hdr"
  have places: "adpt_item N (mem w) 0 = d" "bin_item N (mem w) 0 = s"
    using item_place [OF tw nr(3,1,2)] item_place [OF tbw nr(3,1,2)] by (simp_all add: d_def s_def)
  define P where "P = (\<lambda>w :: 'f mtd_world. \<forall>q. q + 4 \<le> stride \<longrightarrow> ld32 (mem w) (s + q) = bin_word N (mem w0) hdr stride 0 q)"
  have bw: "P w'" if "\<forall>a. \<not> (np_adpt N \<le> a \<and> a < np_adpt N + ?tot) \<longrightarrow> mem w' a = mem w0 a" for w' :: "'f mtd_world"
    unfolding P_def s_def using bin_word_same [OF that ap nr(3)] by simp
  note pw = bw [OF out, unfolded P_def, rule_format]
  note rm = room [OF nr(3), unfolded room_for_def]
  define sz where "sz = bin_word N (mem w0) hdr stride 0 (o_size ?L)"
  define v where "v = bin_word N (mem w0) hdr stride 0 (o_offset ?L)"
  define kind where "kind = part_kind N (mem w0) hdr stride 0"
  have v: "unat v = ofs 0" by (simp add: v_def ofs_def new_ofs_def new_place.simps)
  have fits: "ofs 0 + len 0 (ofs 0) \<le> n"
    using new_len_fits [OF g n(1) room [OF nr(3), unfolded lim_def], folded lim_def] by (simp add: len_def)
  define bads where "bads = bads_taken bad lim (ofs 0 div ?es) (blocks_for ?es (unat sz))"
  have len: "len 0 (ofs 0) = (if kind = 4 then unat sz else unat sz + bads * ?es)"
    by (simp add: len_def new_len_def new_size_def sz_def kind_def bads_def)
  obtain b w2 where sc: "scan_blocks (np_info N) (np_ops N) None sz v 0 0 w = Some (b, w2)"
    "unat b = bads" "keeps I C R w (C w) (mem w) w2"
    using scan_part [OF g rb lim(2), of None v sz w] rm w' n v by (auto simp: sz_def bads_def)
  note k2 = keepsD [OF sc(3)]
  define x where "x = (if kind = 4 then sz else sz + b * erasesize (np_info N))"
  have ux: "unat x = len 0 (ofs 0)"
    unfolding x_def len using size_word [OF g sc(2), of sz] fits len by (cases "kind = 4") simp_all
  have ins: "d + copy_len ?ver \<le> np_adpt N + ?tot" "np_adpt N + hdr \<le> d"
    using place_inside [OF nr(3) st(1), of hdr] by (simp_all add: d_def)
  define w3 where "w3 = i4CopyPartItem d s ?ver w2"
  define w5 where "w5 = (if kind = 4 then w3 else st32 (d + o_size ?L) x w3)"
  have m3: "mem w3 = store (mem w) d (load (mem w) s (copy_len ?ver))" by (simp add: w3_def mem_effects k2)
  have m5: "kind \<noteq> 4 \<Longrightarrow> mem w5 = store (store (mem w) d (load (mem w) s (copy_len ?ver))) (d + o_size ?L) (le_bytes x)"
    by (simp add: w5_def m3 mem_effects)
  have inL: "o_info ?L + 4 \<le> copy_len ?ver" "o_offset ?L + 4 \<le> copy_len ?ver" "o_size ?L + 4 \<le> copy_len ?ver"
    using L by (simp_all add: layout_ok_def)
  have is5: "ld32 (mem w5) (d + o_info ?L) = ld32 (mem w) (s + o_info ?L)"
    "ld32 (mem w5) (d + o_offset ?L) = ld32 (mem w) (s + o_offset ?L)" "ld32 (mem w5) (d + o_size ?L) = x"
    "\<And>a. \<not> (d \<le> a \<and> a < d + copy_len ?ver) \<Longrightarrow> mem w5 a = mem w a"
  proof -
    consider "kind = 4" | "kind \<noteq> 4" by blast
    then have "ld32 (mem w5) (d + o_info ?L) = ld32 (mem w) (s + o_info ?L) \<and>
      ld32 (mem w5) (d + o_offset ?L) = ld32 (mem w) (s + o_offset ?L) \<and> ld32 (mem w5) (d + o_size ?L) = x \<and>
      (\<forall>a. \<not> (d \<le> a \<and> a < d + copy_len ?ver) \<longrightarrow> mem w5 a = mem w a)"
    proof cases
      case 1
      then show ?thesis using pw [OF q(3)] inL by (simp add: w5_def m3 x_def sz_def ld32_copied store_other)
    next
      case 2
      from item_stored(1-4) [OF L, where h = "mem w" and d = d and s = s and x = x, folded m5 [OF 2]] show ?thesis by blast
    qed
    then show "ld32 (mem w5) (d + o_info ?L) = ld32 (mem w) (s + o_info ?L)"
      "ld32 (mem w5) (d + o_offset ?L) = ld32 (mem w) (s + o_offset ?L)" "ld32 (mem w5) (d + o_size ?L) = x"
      "\<And>a. \<not> (d \<le> a \<and> a < d + copy_len ?ver) \<Longrightarrow> mem w5 a = mem w a" by blast+
  qed
  have out3: "\<forall>a. \<not> (np_adpt N \<le> a \<and> a < np_adpt N + ?tot) \<longrightarrow> mem w3 a = mem w0 a"
    using out ins by (auto simp: m3 store_def)
  note pw3 = bw [OF out3, unfolded P_def, rule_format]
  have rd: "ld32 (mem w) (s + o_size ?L) = sz" "ld32 (mem w) (s + o_offset ?L) = v"
    using pw [OF q(3)] pw [OF q(2)] by (simp_all add: sz_def v_def)
  have rd3: "ld32 (mem w3) (s + o_size ?L) = sz" "ISUBIVOLUME (ld32 (mem w3) (d + o_info ?L)) = kind"
    using pw3 [OF q(3)] pw [OF q(1)] inL(1) by (simp_all add: sz_def kind_def m3 ld32_copied)
  have "first_item N w = Some w5"
    unfolding first_item_def Let_def places rd sc(1) bind.bind_lunit prod.case w3_def [symmetric] rd3
    by (simp add: w5_def x_def)
  moreover have "items_upto N I C R w0 hdr stride nr ofs (\<lambda>i. len i (ofs i)) (Suc 0) w5"
    unfolding items_upto_def
  proof (intro conjI)
    show "I w5" "C w5 = C w0" "R w5 = R w0" using k2 w' by (cases "kind = 4", simp_all add: w5_def w3_def rest_effects [OF mf])+
    show "\<forall>a. \<not> (np_adpt N \<le> a \<and> a < np_adpt N + ?tot) \<longrightarrow> mem w5 a = mem w0 a"
      using out ins is5(4) by auto
    show "table_at ?L ?ver (mem w5) (np_adpt N) hdr stride"
      by (rule table_at_cong [OF tw L]) (use is5(4) ins in auto)
    show "items_done ?L (np_adpt N + hdr) stride ofs (\<lambda>i. len i (ofs i)) (\<lambda>l. bin_word N (mem w0) hdr stride l (o_info ?L)) (Suc 0) (mem w5)"
      by (rule items_done_add [OF L dn st(1)], unfold mult_0 add_0_right d_def [symmetric])
        (use is5 pw [OF q(1)] rd ux v in simp_all)
  qed
  ultimately show ?thesis by simp
qed

lemma next_items_done:
  fixes N :: "'f new_pit" and w0 w :: "'f mtd_world" and bad :: "nat \<Rightarrow> bool" and n j hdr stride nr :: nat
  assumes g: "geometry (np_info N) n j ws" and rb: "reports_bad I C R (2 ^ j) bad (np_ops N)" and mf: "mem_free I C R"
    and ad: "adaptable N (mem w0) hdr stride nr parent" and n: "12 * 2 ^ j \<le> n" "length (C w0) = n"
  defines "lim \<equiv> n div 2 ^ j - 12"
  defines "len \<equiv> new_len N (mem w0) (2 ^ j) bad lim hdr stride" and "ofs \<equiv> new_ofs N (mem w0) (2 ^ j) bad lim hdr stride parent"
  assumes room: "\<And>i. i < nr \<Longrightarrow> room_for N (mem w0) (2 ^ j) bad lim hdr stride ofs i"
  shows "0 < i \<Longrightarrow> i \<le> nr \<Longrightarrow> items_upto N I C R w0 hdr stride nr ofs (\<lambda>i. len i (ofs i)) i w \<Longrightarrow>
    \<exists>w'. next_items N [i..<nr] w = Some w' \<and> items_upto N I C R w0 hdr stride nr ofs (\<lambda>i. len i (ofs i)) nr w'"
proof (induction "nr - i" arbitrary: i w)
  case (Suc x)
  then have i: "i < nr" by simp
  from next_item_done [where bad = bad, OF g rb mf ad n, folded lim_def, folded len_def ofs_def, OF room Suc.prems(1) i Suc.prems(3)]
  obtain w1 where w1: "next_item N (of_nat i) w = Some w1" "items_upto N I C R w0 hdr stride nr ofs (\<lambda>i. len i (ofs i)) (Suc i) w1" by blast
  have "x = nr - Suc i" using Suc.hyps(2) by simp
  from Suc.hyps(1) [OF this _ _ w1(2)] i w1(1) show ?case by (simp add: upt_conv_Cons)
qed simp

lemma head_tail_done:
  fixes T H :: u32
  assumes mf: "mem_free I C R" and ad: "adaptable N (mem w0) hdr stride nr parent" and w: "items_upto N I C R w0 hdr stride nr ofs len nr w"
  defines "w' \<equiv> snd (u4SetPartTail (np_layout N) (np_adpt N) (of_nat nr) (np_ver N) T (snd (u4SetPartHead (np_adpt N) (np_ver N) H w)))"
  shows "I w'" "C w' = C w0" "R w' = R w0" "table_at (np_layout N) (np_ver N) (mem w') (np_adpt N) hdr stride"
    "items_done (np_layout N) (np_adpt N + hdr) stride ofs len
       (\<lambda>l. bin_word N (mem w0) hdr stride l (o_info (np_layout N))) nr (mem w')"
proof -
  let ?L = "np_layout N" and ?ver = "np_ver N"
  from ad have L: "layout_ok ?L ?ver" and nr: "nr < 2 ^ 32 - 1" by (simp_all add: adaptable_def)
  from w have tw: "table_at ?L ?ver (mem w) (np_adpt N) hdr stride" and I: "I w" "C w = C w0" "R w = R w0"
    and dn: "items_done ?L (np_adpt N + hdr) stride ofs len (\<lambda>l. bin_word N (mem w0) hdr stride l (o_info ?L)) nr (mem w)"
    by (simp_all add: items_upto_def)
  have v: "I w' \<and> C w' = C w0 \<and> R w' = R w0 \<and>
      (\<forall>a. np_adpt N + 8 \<le> a \<longrightarrow> a < np_adpt N + hdr \<longrightarrow> ?ver = V1 \<longrightarrow> mem w' a = mem w a) \<and>
      (\<forall>a. np_adpt N + hdr \<le> a \<longrightarrow> a < np_adpt N + hdr + nr * stride \<longrightarrow> mem w' a = mem w a)"
  proof (cases ?ver)
    case V0
    then have h: "hdr = item_bytes ?L" "stride = item_bytes ?L" "32 \<le> hdr" using tw by (simp_all add: table_at_def copy_len_def)
    have "unat (of_nat nr + 1 :: u32) = nr + 1"
      using nr by (simp add: unat_word_ariths unsigned_of_nat take_bit_nat_eq_self)
    then have "item_bytes ?L * unat (of_nat nr + 1 :: u32) = hdr + nr * stride" using h by (simp add: mult.commute)
    with V0 I h show ?thesis
      by (auto simp: w'_def u4SetPartTail_def u4SetPartHead_def rest_fill_words [OF mf] fill_words_other)
  next
    case V1
    then have "40 \<le> hdr" using tw by (simp add: table_at_def copy_len_def)
    with V1 I show ?thesis
      by (auto simp: w'_def u4SetPartTail_def u4SetPartHead_def rest_effects [OF mf] mem_effects store_other)
  next
    case V_ERR
    with tw show ?thesis by (simp add: table_at_def)
  qed
  then show "I w'" "C w' = C w0" "R w' = R w0" by simp_all
  show "table_at ?L ?ver (mem w') (np_adpt N) hdr stride"
  proof (cases "?ver = V1")
    case True
    then show ?thesis using v by (intro table_at_cong [OF tw L]) simp
  next
    case False
    then show ?thesis using tw by (cases ?ver) (simp_all add: table_at_def)
  qed
  have "copy_len ?ver \<le> stride" using tw by (simp add: table_at_def)
  then show "items_done ?L (np_adpt N + hdr) stride ofs len
       (\<lambda>l. bin_word N (mem w0) hdr stride l (o_info ?L)) nr (mem w')"
    using v by (intro items_done_cong [OF L dn]) auto
qed

text \<open>C8: On a flash where every partition finds the good blocks that it needs in front of the 12 last ones, steps 0
  to 3 of \<open>i4SetNewFlashPIT\<close> return and do not touch the flash.  The new table has the same partitions with the
  offsets \<open>new_ofs\<close> and the sizes \<open>new_len\<close>.  A main partition starts at the end of the main partition in front of it,
  or, when a UBI volume is in front of it, at the end of the volume's parent; a volume starts at the end of the volume in front of it,
  or at the start of the main partition in front of it.  A volume keeps its size; the blocks of a main partition contain as
  many good ones as the original partition needs (with \<open>CONFIG_NOR_BOOT\<close> only those of the first one, the only one that is
  scanned).  The parent of a volume, which the module of the part table finds, is taken to be told by the
  information word.\<close>

theorem adaptive_table:
  fixes N :: "'f new_pit" and w :: "'f mtd_world" and bad :: "nat \<Rightarrow> bool" and n j hdr stride nr :: nat and parent :: "u32 \<Rightarrow> u32"
  defines "L \<equiv> np_layout N" and "lim \<equiv> n div 2 ^ j - 12"
  defines "len \<equiv> new_len N (mem w) (2 ^ j) bad lim hdr stride" and "ofs \<equiv> new_ofs N (mem w) (2 ^ j) bad lim hdr stride parent"
    and "vol \<equiv> \<lambda>i. part_kind N (mem w) hdr stride i = 4"
    and "par \<equiv> \<lambda>i. unat (parent (bin_word N (mem w) hdr stride i (o_info (np_layout N)))) - 1"
  assumes "geometry (np_info N) n j ws" and "reports_bad I C R (2 ^ j) bad (np_ops N)" and "mem_free I C R"
    and "adaptable N (mem w) hdr stride nr parent" and "12 * 2 ^ j \<le> n" and "length (C w) = n" and "I w"
    and "\<forall>i<nr. room_for N (mem w) (2 ^ j) bad lim hdr stride ofs i"
  shows "\<exists>w'. make_adaptive N (of_nat nr) w = Some w' \<and> I w' \<and> C w' = C w \<and> R w' = R w \<and>
    (let field = \<lambda>q i. ld32 (mem w') (adpt_item N (mem w') (of_nat i) + q);
         start = \<lambda>i. unat (field (o_offset L) i); size = \<lambda>i. unat (field (o_size L) i) in
     (\<forall>i<nr. field (o_info L) i = bin_word N (mem w) hdr stride i (o_info L) \<and> start i = ofs i \<and> size i = len i (ofs i) \<and>
        (vol i \<longrightarrow> size i = part_bytes N (mem w) hdr stride i) \<and>
        (\<not> vol i \<and> \<not> (CONFIG_NOR_BOOT L \<and> 0 < i) \<longrightarrow>
           blocks_for (2 ^ j) (part_bytes N (mem w) hdr stride i)
             \<le> good_count bad (start i div 2 ^ j) (blocks_for (2 ^ j) (start i + size i)))) \<and>
     (\<forall>i. Suc i < nr \<longrightarrow> start (Suc i) =
        (if vol (Suc i) then if vol i then start i + size i else start i
         else if vol i then start (par i) + size (par i) else start i + size i)))"
proof -
  note g = assms(7) and rb = assms(8) and mf = assms(9) and ad = assms(10) and n = assms(11,12) and room = assms(14) [rule_format]
  from ad have nr: "0 < nr" "nr < 2 ^ 32 - 1" "hdr + nr * stride < 2 ^ 32" by (simp_all add: adaptable_def)
  let ?w1 = "i4CopyPartItem (np_adpt N) (np_bin N) (np_ver N) w"
  note folds = lim_def [symmetric] len_def [symmetric] ofs_def [symmetric]
  have "items_upto N I C R w hdr stride nr ofs (\<lambda>i. len i (ofs i)) 0 ?w1" by (rule header_done [OF mf ad assms(13)])
  from first_item_done [where bad = bad, OF g rb mf ad n, unfolded folds, OF room this]
  obtain w2 where w2: "first_item N ?w1 = Some w2" "items_upto N I C R w hdr stride nr ofs (\<lambda>i. len i (ofs i)) 1 w2" by blast
  have "1 \<le> nr" using nr(1) by simp
  from next_items_done [where bad = bad, OF g rb mf ad n, unfolded folds, OF room zero_less_one this w2(2)]
  obtain w3 where w3: "next_items N [1..<nr] w2 = Some w3" "items_upto N I C R w hdr stride nr ofs (\<lambda>i. len i (ofs i)) nr w3" by blast
  define w4 where "w4 = snd (u4SetPartTail L (np_adpt N) (of_nat nr) (np_ver N) (ADPT_TAIL_SIG L)
    (snd (u4SetPartHead (np_adpt N) (np_ver N) (ADPT_HEAD_SIG L) w3)))"
  note ht = head_tail_done [OF mf ad w3(2), of "ADPT_TAIL_SIG L" "ADPT_HEAD_SIG L", folded L_def, folded w4_def]
  have un: "unat (of_nat nr :: u32) = nr" using nr(2) by (simp add: unsigned_of_nat take_bit_nat_eq_self)
  have "make_adaptive N (of_nat nr) w = Some w4"
    unfolding make_adaptive_def w4_def L_def un using w2(1) w3(1) by (simp add: Let_def)
  moreover have item: "ld32 (mem w4) (adpt_item N (mem w4) (of_nat i) + o_info L) = bin_word N (mem w) hdr stride i (o_info L)"
    "unat (ld32 (mem w4) (adpt_item N (mem w4) (of_nat i) + o_offset L)) = ofs i"
    "unat (ld32 (mem w4) (adpt_item N (mem w4) (of_nat i) + o_size L)) = len i (ofs i)" if "i < nr" for i
    using ht(5) [unfolded items_done_def, rule_format, OF that] item_place [OF ht(4) that nr(3,2)] by (simp_all add: Let_def L_def)
  moreover have "vol i \<longrightarrow> len i (ofs i) = part_bytes N (mem w) hdr stride i" for i
    by (simp add: len_def new_len_def new_size_def vol_def)
  moreover have "blocks_for (2 ^ j) (part_bytes N (mem w) hdr stride i)
      \<le> good_count bad (ofs i div 2 ^ j) (blocks_for (2 ^ j) (ofs i + len i (ofs i)))"
    if "i < nr" "\<not> vol i \<and> \<not> (CONFIG_NOR_BOOT L \<and> 0 < i)" for i
    using room [OF that(1)] that(2) unfolding room_for_def len_def new_len_def vol_def L_def by (intro new_size_fits(2)) simp_all
  moreover have le: "par i \<le> i" if "vol i" "i < nr" for i
  proof -
    have "unat (parent (bin_word N (mem w) hdr stride i (o_info (np_layout N)))) \<le> Suc i"
      using ad that unfolding adaptable_def Let_def vol_def by blast
    then show ?thesis by (simp add: par_def)
  qed
  moreover have "ofs (Suc i) = (if vol (Suc i) then if vol i then ofs i + len i (ofs i) else ofs i
      else if vol i then ofs (par i) + len (par i) (ofs (par i)) else ofs i + len i (ofs i))" if "Suc i < nr" for i
  proof -
    have "vol i \<Longrightarrow> par i \<le> i" using le that by simp
    moreover have "ofs = new_place vol par len (unat (bin_word N (mem w) hdr stride 0 (o_offset L)))"
      by (simp add: ofs_def new_ofs_def len_def vol_def par_def L_def fun_eq_iff)
    ultimately show ?thesis by (simp add: new_place.simps)
  qed
  moreover have "par i < nr" if "vol i" "Suc i < nr" for i using le [OF that(1)] that(2) by simp
  ultimately show ?thesis using ht(1-3) by (intro exI [of _ w4]) (simp add: Let_def del: of_nat_Suc)
qed

section \<open>A table on a small flash\<close>

definition demo_layout :: pit_layout where
  "demo_layout = \<lparr>item_bytes = 32, new_item_bytes = 40, o_name = 0, o_id = 16, o_info = 20, o_offset = 24, o_size = 28,
     o_header_len = 8, o_item_num = 16, o_item_len = 12, HEAD_SIG = 0x11111111, TAIL_SIG = 0x22222222,
     ADPT_HEAD_SIG = 0x33333333, ADPT_TAIL_SIG = 0x44444444, PART_TBL_ITEM_NR_MAX = 4, SEARCH_PART_TBL_START = 0,
     SEARCH_PART_TBL_END = 32, ADPT_PIT_OFFSET = 8, u4_get_parent_part_id = (\<lambda>h p. 1), CONFIG_NOR_BOOT = False\<rparr>"

text \<open>A table of the second format: a partition of two blocks, a UBI device of one block with the volumes of 4 and
  3 bytes, and a partition of five bytes.  The parent of a volume is in the bits of \<open>GETMTDID\<close>.\<close>

definition demo_parent :: "u32 \<Rightarrow> u32" where
  "demo_parent x = drop_bit 16 x AND 0x3F"

definition demo_table_words :: "u32 list" where
  "demo_table_words = [0x11111111, 0x11111111, 40, 40, 5, 0, 0, 0, 0, 0,
     0x61, 0, 0, 0, 1, 0, 0, 16, 0, 0,  0x62, 0, 0, 0, 2, 0x3000, 16, 8, 0, 0,
     0x63, 0, 0, 0, 3, 0x24000, 0, 4, 0, 0,  0x64, 0, 0, 0, 4, 0x24000, 0, 3, 0, 0,  0x65, 0, 0, 0, 5, 0, 24, 5, 0, 0]"

definition demo_pit_mem :: "addr \<Rightarrow> u8" where
  "demo_pit_mem = store (\<lambda>_. 0) 1000 (concat (map le_bytes demo_table_words))"

definition demo_pit_world :: "(addr \<Rightarrow> u8 list) mtd_world" where
  "demo_pit_world = ram_world\<lparr>flash := (\<lambda>s. replicate 160 0), mem := demo_pit_mem\<rparr>"

definition demo_new_pit :: "(addr \<Rightarrow> u8 list) new_pit" where
  "demo_new_pit = \<lparr>np_layout = demo_layout\<lparr>PART_TBL_ITEM_NR_MAX := 8, u4_get_parent_part_id := (\<lambda>h p. demo_parent (ld32 h (p + 20)))\<rparr>,
     np_info = chip_info\<lparr>mtd_size := 160\<rparr>, np_ops = chip_ops (\<lambda>b. b = 1), np_ver = V1, np_adpt = 2000, np_bin = 1000\<rparr>"

lemma all_less_5: "(\<forall>i<5. P (i :: nat)) \<longleftrightarrow> P 0 \<and> P 1 \<and> P 2 \<and> P 3 \<and> P 4"
  by (auto simp: numeral_eq_Suc less_Suc_eq)

lemma demo_fields: "ld32 demo_pit_mem 1008 = 40" "ld32 demo_pit_mem 1012 = 40" "ld32 demo_pit_mem 1064 = 0"
  "ld32 demo_pit_mem 1060 = 0" "ld32 demo_pit_mem 1100 = 0x3000" "ld32 demo_pit_mem 1140 = 0x24000"
  "ld32 demo_pit_mem 1180 = 0x24000" "ld32 demo_pit_mem 1220 = 0"
  "ld32 demo_pit_mem 1068 = 16" "ld32 demo_pit_mem 1108 = 8" "ld32 demo_pit_mem 1148 = 4" "ld32 demo_pit_mem 1188 = 3"
  "ld32 demo_pit_mem 1228 = 5"
  by code_simp+

lemma demo_kinds: "part_kind demo_new_pit demo_pit_mem 40 40 0 = 0" "part_kind demo_new_pit demo_pit_mem 40 40 1 = 3"
  "part_kind demo_new_pit demo_pit_mem 40 40 2 = 4" "part_kind demo_new_pit demo_pit_mem 40 40 3 = 4"
  "part_kind demo_new_pit demo_pit_mem 40 40 4 = 0"
  by (simp_all add: demo_new_pit_def demo_layout_def demo_fields ISUBIVOLUME_def drop_bit_eq_div)

lemma demo_sizes: "part_bytes demo_new_pit demo_pit_mem 40 40 0 = 16" "part_bytes demo_new_pit demo_pit_mem 40 40 1 = 8"
  "part_bytes demo_new_pit demo_pit_mem 40 40 2 = 4" "part_bytes demo_new_pit demo_pit_mem 40 40 3 = 3"
  "part_bytes demo_new_pit demo_pit_mem 40 40 4 = 5"
  by (simp_all add: demo_new_pit_def demo_layout_def demo_fields)

lemma demo_parents: "unat (demo_parent (bin_word demo_new_pit demo_pit_mem 40 40 2 (o_info (np_layout demo_new_pit)))) = 2"
  "unat (demo_parent (bin_word demo_new_pit demo_pit_mem 40 40 3 (o_info (np_layout demo_new_pit)))) = 2"
  by (simp_all add: demo_new_pit_def demo_layout_def demo_fields demo_parent_def drop_bit_eq_div)

abbreviation demo_len :: "nat \<Rightarrow> nat \<Rightarrow> nat" where
  "demo_len \<equiv> new_len demo_new_pit demo_pit_mem 8 (\<lambda>b. b = 1) 8 40 40"

abbreviation demo_ofs :: "nat \<Rightarrow> nat" where
  "demo_ofs \<equiv> new_ofs demo_new_pit demo_pit_mem 8 (\<lambda>b. b = 1) 8 40 40 demo_parent"

lemma demo_lengths: "demo_len 0 0 = 24" "demo_len 1 24 = 16" "demo_len 2 24 = 4" "demo_len 3 28 = 3" "demo_len 4 40 = 5"
  unfolding new_len_def new_size_def demo_kinds demo_sizes by (simp_all add: blocks_for_def take_good.simps)

lemma demo_offsets: "demo_ofs 0 = 0" "demo_ofs 1 = 24" "demo_ofs 2 = 24" "demo_ofs 3 = 28" "demo_ofs 4 = 40"
proof -
  have step: "demo_ofs (Suc i) =
     (if part_kind demo_new_pit demo_pit_mem 40 40 (Suc i) = 4
      then if part_kind demo_new_pit demo_pit_mem 40 40 i = 4 then demo_ofs i + demo_len i (demo_ofs i) else demo_ofs i
      else if part_kind demo_new_pit demo_pit_mem 40 40 i = 4 \<and>
             unat (demo_parent (bin_word demo_new_pit demo_pit_mem 40 40 i (o_info (np_layout demo_new_pit)))) - 1 \<le> i
           then let p = unat (demo_parent (bin_word demo_new_pit demo_pit_mem 40 40 i (o_info (np_layout demo_new_pit)))) - 1 in
             demo_ofs p + demo_len p (demo_ofs p)
           else demo_ofs i + demo_len i (demo_ofs i))" for i
    unfolding new_ofs_def Let_def by (subst new_place.simps) (rule refl)
  have n: "Suc 0 = 1" "Suc 1 = 2" "Suc 2 = 3" "Suc 3 = 4" by simp_all
  show o0: "demo_ofs 0 = 0" by (simp add: new_ofs_def new_place.simps demo_new_pit_def demo_layout_def demo_fields)
  show o1: "demo_ofs 1 = 24" using step [of 0, unfolded n demo_kinds o0 demo_lengths] by simp
  show o2: "demo_ofs 2 = 24" using step [of 1, unfolded n demo_kinds o1 demo_lengths] by simp
  show o3: "demo_ofs 3 = 28" using step [of 2, unfolded n demo_kinds o2 demo_lengths] by simp
  show "demo_ofs 4 = 40"
    using step [of 3, unfolded n demo_kinds demo_parents Let_def] by (simp add: o1 [unfolded One_nat_def] demo_lengths [unfolded One_nat_def])
qed

lemma demo_adaptable: "adaptable demo_new_pit demo_pit_mem 40 40 5 demo_parent"
proof -
  have "\<forall>i<5. part_kind demo_new_pit demo_pit_mem 40 40 i = 4 \<longrightarrow>
      (let id = unat (demo_parent (bin_word demo_new_pit demo_pit_mem 40 40 i (o_info (np_layout demo_new_pit)))) in 1 \<le> id \<and> id \<le> Suc i)"
    unfolding all_less_5 demo_kinds demo_parents by simp
  then show ?thesis unfolding adaptable_def
    by (intro conjI) (simp_all add: demo_new_pit_def layout_ok_def demo_layout_def copy_len_def apart_def table_at_def demo_fields)
qed

lemma demo_room: "\<forall>i<5. room_for demo_new_pit demo_pit_mem 8 (\<lambda>b. b = 1) 8 40 40 demo_ofs i"
  unfolding all_less_5 room_for_def demo_offsets demo_sizes by (simp add: blocks_for_def good_count_def upt_rec)

theorem adaptive_table_witness:
  "\<exists>w'. make_adaptive demo_new_pit 5 demo_pit_world = Some w' \<and> flash w' 1 = replicate 160 0 \<and>
     unat (ld32 (mem w') (adpt_item demo_new_pit (mem w') 0 + 28)) = 24 \<and>
     unat (ld32 (mem w') (adpt_item demo_new_pit (mem w') 3 + 24)) = 28 \<and>
     unat (ld32 (mem w') (adpt_item demo_new_pit (mem w') 4 + 24)) = 40"
proof -
  have g: "geometry (np_info demo_new_pit) 160 3 4" by (simp add: demo_new_pit_def geometry_def chip_info_def)
  have rb: "reports_bad (\<lambda>w. True) (\<lambda>w. flash w 1) (\<lambda>w. ()) (2 ^ 3) (\<lambda>b. b = 1) (np_ops demo_new_pit)"
    by (simp add: demo_new_pit_def reports_bad_def call_isbad_def chip_ops_def keeps_def)
  have mf: "mem_free (\<lambda>w. True) (\<lambda>w :: (addr \<Rightarrow> u8 list) mtd_world. flash w 1) (\<lambda>w. ())" by (simp add: mem_free_def)
  have m: "mem demo_pit_world = demo_pit_mem" by (simp add: demo_pit_world_def)
  have e: "(2 :: nat) ^ 3 = 8" "160 div 8 - 12 = (8 :: nat)" by simp_all
  have f: "flash demo_pit_world 1 = replicate 160 0" by (simp add: demo_pit_world_def)
  have h: "12 * 2 ^ 3 \<le> (160 :: nat)" "length (flash demo_pit_world 1) = 160" unfolding f by simp_all
  note at = adaptive_table [where C = "\<lambda>w. flash w 1" and I = "\<lambda>w. True" and R = "\<lambda>w. ()" and parent = demo_parent,
    OF g rb mf _ h TrueI, unfolded m e, OF demo_adaptable demo_room, unfolded Let_def f]
  have q: "o_offset (np_layout demo_new_pit) = 24" "o_size (np_layout demo_new_pit) = 28"
    by (simp_all add: demo_new_pit_def demo_layout_def)
  let ?item = "\<lambda>w'. adpt_item demo_new_pit (mem w')"
  from at [unfolded q] obtain w' where w': "make_adaptive demo_new_pit (of_nat 5) demo_pit_world = Some w'" "flash w' 1 = replicate 160 0"
    "\<forall>i<5. unat (ld32 (mem w') (?item w' (of_nat i) + 24)) = demo_ofs i \<and>
       unat (ld32 (mem w') (?item w' (of_nat i) + 28)) = demo_len i (demo_ofs i)" by metis
  from w'(3) [unfolded all_less_5 demo_offsets demo_lengths]
  have "unat (ld32 (mem w') (?item w' 0 + 28)) = 24 \<and> unat (ld32 (mem w') (?item w' 3 + 24)) = 28 \<and>
      unat (ld32 (mem w') (?item w' 4 + 24)) = 40"
    unfolding of_nat_numeral semiring_1_class.of_nat_0 by (elim conjE) (intro conjI)
  with w'(1,2) show ?thesis unfolding of_nat_numeral by blast
qed

section \<open>Counting the partitions of a table of the first format\<close>

lemma fold_last_match:
  "(\<And>i. i < M \<Longrightarrow> P i \<longleftrightarrow> i = k) \<Longrightarrow>
   fold (\<lambda>i len. if P i then f i else len) [0..<M] x = (if k < M then f k else x)"
proof (induction M)
  case (Suc M)
  then have "fold (\<lambda>i len. if P i then f i else len) [0..<M] x = (if k < M then f k else x)" by simp
  with Suc.prems [of M] show ?case by auto
qed simp

text \<open>The bytes of a head record and a tail record \<open>nr\<close> records behind it.\<close>

lemma v0_head_tail:
  fixes L :: pit_layout and pit nr :: nat and T H :: u32 and w :: "'f mtd_world"
  assumes ib: "32 \<le> item_bytes L" and nr: "nr < 2 ^ 32 - 1"
  defines "w' \<equiv> snd (u4SetPartTail L pit (of_nat nr) V0 T (snd (u4SetPartHead pit V0 H w)))"
  shows "i < 8 \<Longrightarrow> ld32 (mem w') (pit + 4 * i) = H"
    "i < 8 \<Longrightarrow> ld32 (mem w') (pit + (nr + 1) * item_bytes L + 4 * i) = T"
proof -
  have "unat (of_nat nr + 1 :: u32) = nr + 1"
    using nr by (simp add: unat_word_ariths unsigned_of_nat take_bit_nat_eq_self)
  then have w': "w' = fill_words (pit + (nr + 1) * item_bytes L) 8 T (fill_words pit 8 H w)"
    by (simp add: w'_def u4SetPartTail_def u4SetPartHead_def mult.commute)
  show "ld32 (mem w') (pit + (nr + 1) * item_bytes L + 4 * i) = T" if "i < 8"
    unfolding w' by (rule fill_words_at [OF that])
  show "ld32 (mem w') (pit + 4 * i) = H" if "i < 8"
  proof -
    have "ld32 (mem w') (pit + 4 * i) = ld32 (mem (fill_words pit 8 H w)) (pit + 4 * i)"
      unfolding w' ld32_def using that ib by (intro arg_cong [where f = le_word] load_cong fill_words_other) auto
    then show ?thesis by (simp add: fill_words_at [OF that])
  qed
qed

text \<open>C39: A table of the first format with \<open>nr\<close> partitions between the head record and the tail record that
  \<open>u4SetPartHead\<close> and \<open>u4SetPartTail\<close> write is counted by \<open>u4GetPartNum\<close> as having \<open>nr + 1\<close> partitions: the
  index of the tail record includes the head, and the last partition that \<open>pr_get_pit_item_by_idx\<close> gives is the tail.\<close>

theorem v0_part_num_counts_head:
  fixes L :: pit_layout and pit nr :: nat and T H :: u32 and w :: "'f mtd_world"
  assumes ib: "32 \<le> item_bytes L"
    and fields: "\<forall>q\<in>{o_id L, o_info L, o_offset L, o_size L}. q < 32 \<and> 4 dvd q"
    and nr: "nr + 1 < PART_TBL_ITEM_NR_MAX L" "nr < 2 ^ 32 - 1"
  defines "w' \<equiv> snd (u4SetPartTail L pit (of_nat nr) V0 T (snd (u4SetPartHead pit V0 H w)))"
  assumes others: "\<forall>i<PART_TBL_ITEM_NR_MAX L. i \<noteq> nr + 1 \<longrightarrow> \<not> is_tail L (mem w') (pit + i * item_bytes L) T"
  shows "u4GetPartNum L (mem w') pit H T = of_nat (nr + 1) \<and>
    is_tail L (mem w') (pr_get_pit_item_by_idx L (mem w') pit (of_nat nr) V0) T"
proof -
  note ht = v0_head_tail [OF ib nr(2), where pit = pit and T = T and H = H and w = w, folded w'_def]
  have "ld32 (mem w') pit = H" "ld32 (mem w') (pit + 4) = H" "ld32 (mem w') (pit + 8) = H" "ld32 (mem w') (pit + 12) = H"
    using ht(1) [of 0] ht(1) [of 1] ht(1) [of 2] ht(1) [of 3] by simp_all
  then have v: "i4CheckPITVer (mem w') pit H = V0" by (simp add: i4CheckPITVer_def)
  have t: "is_tail L (mem w') (pit + (nr + 1) * item_bytes L) T"
  proof -
    have "ld32 (mem w') (pit + (nr + 1) * item_bytes L + q) = T" if "q < 32" "4 dvd q" for q
      using ht(2) [of "q div 4"] that by auto
    with fields show ?thesis by (simp add: is_tail_def)
  qed
  have "is_tail L (mem w') (pit + i * item_bytes L) T \<longleftrightarrow> i = nr + 1" if "i < PART_TBL_ITEM_NR_MAX L" for i
    using t others that by auto
  then have "v0_part_num L (mem w') pit T = of_nat (nr + 1)"
    unfolding v0_part_num_def using nr(1) by (subst fold_last_match [where k = "nr + 1"]) simp_all
  moreover have "unat (of_nat nr + 1 :: u32) = nr + 1"
    using nr by (simp add: unat_word_ariths unsigned_of_nat take_bit_nat_eq_self)
  then have "pr_get_pit_item_by_idx L (mem w') pit (of_nat nr) V0 = pit + (nr + 1) * item_bytes L"
    by (simp add: pr_get_pit_item_by_idx_def mult.commute)
  ultimately show ?thesis using v t by (simp add: u4GetPartNum_def)
qed

theorem v0_part_num_counts_head_witness:
  "let w' = snd (u4SetPartTail demo_layout 1000 1 V0 0x22222222 (snd (u4SetPartHead 1000 V0 0x11111111 demo_pit_world)))
   in u4GetPartNum demo_layout (mem w') 1000 0x11111111 0x22222222 = 2"
proof -
  let ?w = "snd (u4SetPartTail demo_layout 1000 (of_nat 1) V0 0x22222222 (snd (u4SetPartHead 1000 V0 0x11111111 demo_pit_world)))"
  have h: "32 \<le> item_bytes demo_layout" "1 + 1 < PART_TBL_ITEM_NR_MAX demo_layout" "(1 :: nat) < 2 ^ 32 - 1"
    "\<forall>q\<in>{o_id demo_layout, o_info demo_layout, o_offset demo_layout, o_size demo_layout}. q < 32 \<and> 4 dvd q"
    by (simp_all add: demo_layout_def)
  have "\<not> is_tail demo_layout (mem ?w) 1000 0x22222222 \<and> \<not> is_tail demo_layout (mem ?w) 1032 0x22222222 \<and>
      \<not> is_tail demo_layout (mem ?w) 1096 0x22222222" by code_simp
  then have "\<forall>i<PART_TBL_ITEM_NR_MAX demo_layout. i \<noteq> 1 + 1 \<longrightarrow>
      \<not> is_tail demo_layout (mem ?w) (1000 + i * item_bytes demo_layout) 0x22222222"
    by (auto simp: demo_layout_def less_4_iff)
  from v0_part_num_counts_head [OF h(1,4,2,3) this] show ?thesis by simp
qed

end
