(* ===== verification/MtdParts.thy ===== *)
theory MtdParts
  imports EnvStore MtdCore
begin

text \<open>
  The partition tables of \<open>common/cmd_mtdparts.c\<close>: \<open>mtdids\<close> names the flash devices, the list
  \<open>devices\<close> holds for each device its partitions sorted by offset, and the variables \<open>mtdids\<close>,
  \<open>mtdparts\<close>, \<open>partition\<close>, \<open>mtddevnum\<close> and \<open>mtddevname\<close> of the environment mirror them.  This theory
  models the functions below the commands; \<open>MtdPartsCmd\<close> has the parsers of whole variables and
  the commands.

  Devices are heap objects (\<open>dev_heap\<close>), a pointer to one is its address and a dereference after
  \<open>free\<close> is the fault \<open>None\<close>; partitions and ids are records that carry their address, as pointers to
  them are compared.  The environment is that of \<open>EnvStore\<close> and the registry of flash devices that of
  \<open>MtdCore\<close>.  \<open>malloc\<close> hands out fresh addresses and \<open>malloc_ok\<close> tells which calls succeed.  Console
  output is left out, except for \<open>list_partitions\<close>, whose value is what it prints.
\<close>

section \<open>State\<close>

record part_info =
  p_addr :: addr
  p_name :: string
  auto_name :: bool
  p_size :: u32
  p_offset :: u32
  mask_flags :: u32
  sector_size :: u32

record mtdids =
  id_addr :: addr
  id_type :: u8
  id_num :: u8
  id_size :: u32
  mtd_id :: string

record mtd_device =
  dev_id :: addr
  num_parts :: u16
  dev_parts :: "part_info list"

record mtd_cfg =
  ecfg :: env_cfg
  mtdids_default :: "string option"
  mtdparts_default :: "string option"
  malloc_ok :: "nat \<Rightarrow> bool"
  null_store_ok :: bool

record mtd_state =
  ids :: "mtdids list"
  devices :: "addr list"
  dev_heap :: "addr \<Rightarrow> mtd_device option"
  current_mtd_dev :: "addr option"
  current_mtd_partnum :: u8
  last_ids :: string
  last_parts :: string
  last_partition :: string
  heap_next :: nat
  initialized :: bool
  env :: env_state
  core :: mtd_core

definition MTD_DEV_TYPE_NOR :: u8 where "MTD_DEV_TYPE_NOR = 1"
definition MTD_DEV_TYPE_NAND :: u8 where "MTD_DEV_TYPE_NAND = 2"
definition MTD_DEV_TYPE_ONENAND :: u8 where "MTD_DEV_TYPE_ONENAND = 4"

definition MTD_DEV_TYPE :: "u8 \<Rightarrow> string" where
  "MTD_DEV_TYPE t = (if t = MTD_DEV_TYPE_NAND then ''nand''
     else if t = MTD_DEV_TYPE_ONENAND then ''onenand'' else ''nor'')"

definition SIZE_REMAINING :: u32 where "SIZE_REMAINING = 0xFFFFFFFF"
definition OFFSET_NOT_SPECIFIED :: u32 where "OFFSET_NOT_SPECIFIED = 0xFFFFFFFF"
definition MIN_PART_SIZE :: u32 where "MIN_PART_SIZE = 4096"
definition MTDIDS_MAXLEN :: nat where "MTDIDS_MAXLEN = 128"
definition MTDPARTS_MAXLEN :: nat where "MTDPARTS_MAXLEN = 1024"
definition PARTITION_MAXLEN :: nat where "PARTITION_MAXLEN = 16"

section \<open>Sizes as text\<close>

definition memsize_parse :: "mtd_cfg \<Rightarrow> string \<Rightarrow> u32 \<times> string" where
  "memsize_parse cfg s =
     (let (ret, p) = simple_strtoul (ecfg cfg) s 0 in
      if chr0 p \<in> {CHR ''G'', CHR ''g''} then (push_bit 10 (push_bit 10 (push_bit 10 ret)), tl p)
      else if chr0 p \<in> {CHR ''M'', CHR ''m''} then (push_bit 10 (push_bit 10 ret), tl p)
      else if chr0 p \<in> {CHR ''K'', CHR ''k''} then (push_bit 10 ret, tl p)
      else (ret, p))"

definition SIZE_GB :: u32 where "SIZE_GB = 1024 * 1024 * 1024"
definition SIZE_MB :: u32 where "SIZE_MB = 1024 * 1024"
definition SIZE_KB :: u32 where "SIZE_KB = 1024"

definition memsize_format :: "u32 \<Rightarrow> string" where
  "memsize_format sz =
     (if sz mod SIZE_GB = 0 then dec (unat (sz div SIZE_GB)) @ ''g''
      else if sz mod SIZE_MB = 0 then dec (unat (sz div SIZE_MB)) @ ''m''
      else if sz mod SIZE_KB = 0 then dec (unat (sz div SIZE_KB)) @ ''k''
      else dec (unat sz))"

section \<open>The environment mirror\<close>

definition env_set :: "mtd_cfg \<Rightarrow> mtd_state \<Rightarrow> string \<Rightarrow> string option \<Rightarrow> mtd_state option" where
  "env_set cfg st name v =
     do { (rc, e) \<leftarrow> setenv (ecfg cfg) (env st) name v; Some (st\<lparr>env := e\<rparr>) }"

definition id_at :: "mtd_state \<Rightarrow> addr \<Rightarrow> mtdids option" where
  "id_at st a = find (\<lambda>i. id_addr i = a) (ids st)"

definition mtd_part_info :: "mtd_device \<Rightarrow> u32 \<Rightarrow> part_info option" where
  "mtd_part_info dev part_num =
     (if ucast (num_parts dev) \<le> part_num then None
      else if unat part_num < length (dev_parts dev) then Some (dev_parts dev ! unat part_num)
      else None)"

text \<open>The loop over \<open>devices\<close>: \<open>Some None\<close> when the current device is not in the list.\<close>

fun count_before :: "mtd_state \<Rightarrow> addr \<Rightarrow> u16 \<Rightarrow> addr list \<Rightarrow> u16 option option" where
  "count_before st cur n [] = Some None"
| "count_before st cur n (a # as) =
     (if a = cur then Some (Some (n + ucast (current_mtd_partnum st)))
      else do { d \<leftarrow> dev_heap st a; count_before st cur (n + num_parts d) as })"

definition index_partitions :: "mtd_cfg \<Rightarrow> mtd_state \<Rightarrow> mtd_state option" where
  "index_partitions cfg st =
     (case current_mtd_dev st of
        None \<Rightarrow>
          do { st \<leftarrow> env_set cfg st ''mtddevnum'' None;
               env_set cfg st ''mtddevname'' None }
      | Some cur \<Rightarrow>
          do { n \<leftarrow> count_before st cur 0 (devices st);
               st \<leftarrow> (case n of None \<Rightarrow> Some st
                     | Some n \<Rightarrow> env_set cfg st ''mtddevnum'' (Some (dec (unat n))));
               d \<leftarrow> dev_heap st cur;
               part \<leftarrow> mtd_part_info d (ucast (current_mtd_partnum st));
               env_set cfg st ''mtddevname'' (Some (p_name part)) })"

definition partition_text :: "mtdids \<Rightarrow> u8 \<Rightarrow> string" where
  "partition_text i partnum =
     MTD_DEV_TYPE (id_type i) @ dec (unat (id_num i)) @ CHR '','' # dec (unat partnum)"

definition current_save :: "mtd_cfg \<Rightarrow> mtd_state \<Rightarrow> mtd_state option" where
  "current_save cfg st =
     (case current_mtd_dev st of
        Some cur \<Rightarrow>
          do { d \<leftarrow> dev_heap st cur;
               i \<leftarrow> id_at st (dev_id d);
               let buf = partition_text i (current_mtd_partnum st);
               st \<leftarrow> env_set cfg st ''partition'' (Some buf);
               index_partitions cfg (st\<lparr>last_partition := buf\<rparr>) }
      | None \<Rightarrow>
          do { st \<leftarrow> env_set cfg st ''partition'' None;
               index_partitions cfg (st\<lparr>last_partition := []\<rparr>) })"

section \<open>Validation\<close>

text \<open>The two scans over the erase regions: does some block start at \<open>t\<close>?  The second component is
  \<open>start\<close> after the loops.\<close>

fun block_scan :: "nat \<Rightarrow> u32 \<Rightarrow> u32 \<Rightarrow> u32 \<Rightarrow> bool \<times> u32" where
  "block_scan 0 t start esize = (False, start)"
| "block_scan (Suc n) t start esize =
     (if t = start then (True, start) else block_scan n t (start + esize) esize)"

fun region_scan :: "erase_region list \<Rightarrow> u32 \<Rightarrow> u32 \<Rightarrow> bool \<times> u32" where
  "region_scan [] t start = (False, start)"
| "region_scan (r # rs) t start =
     (let (found, start) = block_scan (unat (er_numblocks r)) t (ucast (er_offset r)) (er_erasesize r)
      in if found then (True, start) else region_scan rs t start)"

definition aligned_regions :: "erase_region list \<Rightarrow> u32 \<Rightarrow> u32 \<Rightarrow> bool" where
  "aligned_regions rs offset sz =
     (if \<not> fst (region_scan rs offset 0) then False
      else let (found, start) = region_scan rs (offset + sz) 0 in found \<or> offset + sz = start)"

definition part_validate_eraseblock ::
  "mtd_state \<Rightarrow> mtdids \<Rightarrow> part_info \<Rightarrow> (int \<times> part_info \<times> mtd_state) option" where
  "part_validate_eraseblock st i part =
     do { (r, c) \<leftarrow> get_mtd_device_nm (core st) (MTD_DEV_TYPE (id_type i) @ dec (unat (id_num i)));
          let st = st\<lparr>core := c\<rparr>;
          case r of Inl e \<Rightarrow> Some (1, part, st)
          | Inr a \<Rightarrow>
              do { m \<leftarrow> mtd_objs c a;
                   let part = part\<lparr>sector_size := erasesize m\<rparr>;
                   if numeraseregions m = 0
                   then if erasesize m = 0 then None
                     else if p_offset part mod erasesize m \<noteq> 0 then Some (1, part, st)
                     else if p_size part mod erasesize m \<noteq> 0 then Some (1, part, st)
                     else Some (0, part, st)
                   else if aligned_regions (eraseregions m) (p_offset part) (p_size part)
                     then Some (0, part, st)
                     else Some (1, part, st) } }"

definition part_validate ::
  "mtd_state \<Rightarrow> mtdids \<Rightarrow> part_info \<Rightarrow> (int \<times> part_info \<times> mtd_state) option" where
  "part_validate st i part =
     (let part = (if p_size part = SIZE_REMAINING then part\<lparr>p_size := id_size i - p_offset part\<rparr> else part) in
      if p_offset part > id_size i then Some (1, part, st)
      else if p_offset part + p_size part \<le> p_offset part then Some (1, part, st)
      else if p_offset part + p_size part > id_size i then Some (1, part, st)
      else part_validate_eraseblock st i part)"

section \<open>The list of devices\<close>

definition dev_put :: "mtd_state \<Rightarrow> addr \<Rightarrow> mtd_device \<Rightarrow> mtd_state" where
  "dev_put st a d = st\<lparr>dev_heap := (dev_heap st)(a \<mapsto> d)\<rparr>"

definition malloc :: "mtd_cfg \<Rightarrow> mtd_state \<Rightarrow> addr option \<times> mtd_state" where
  "malloc cfg st =
     ((if malloc_ok cfg (heap_next st) then Some (heap_next st) else None),
      st\<lparr>heap_next := heap_next st + 1\<rparr>)"

text \<open>\<open>device_del\<close>: \<open>dev\<close> may be outside the list, then only its memory is freed.\<close>

definition device_del :: "mtd_cfg \<Rightarrow> mtd_state \<Rightarrow> addr \<Rightarrow> (int \<times> mtd_state) option" where
  "device_del cfg st dev =
     do { d \<leftarrow> dev_heap st dev;
          let st = st\<lparr>devices := removeAll dev (devices st), dev_heap := (dev_heap st)(dev := None)\<rparr>;
          if Some dev = current_mtd_dev st
          then do { let st = (case devices st of
                        [] \<Rightarrow> st\<lparr>current_mtd_dev := None\<rparr>
                      | a # _ \<Rightarrow> st\<lparr>current_mtd_dev := Some a, current_mtd_partnum := 0\<rparr>);
                    st \<leftarrow> current_save cfg st;
                    Some (0, st) }
          else do { st \<leftarrow> index_partitions cfg st; Some (0, st) } }"

definition device_delall :: "mtd_state \<Rightarrow> int \<times> mtd_state" where
  "device_delall st =
     (0, st\<lparr>devices := [], dev_heap := (\<lambda>a. if a \<in> set (devices st) then None else dev_heap st a)\<rparr>)"

definition mtd_devices_init :: "mtd_cfg \<Rightarrow> mtd_state \<Rightarrow> (int \<times> mtd_state) option" where
  "mtd_devices_init cfg st =
     do { st \<leftarrow> current_save cfg (st\<lparr>last_parts := [], current_mtd_dev := None\<rparr>);
          Some (device_delall st) }"

fun device_find_in :: "mtd_state \<Rightarrow> u8 \<Rightarrow> u8 \<Rightarrow> addr list \<Rightarrow> addr option option" where
  "device_find_in st type num [] = Some None"
| "device_find_in st type num (a # as) =
     do { d \<leftarrow> dev_heap st a;
          i \<leftarrow> id_at st (dev_id d);
          if id_type i = type \<and> id_num i = num then Some (Some a)
          else device_find_in st type num as }"

definition device_find :: "mtd_state \<Rightarrow> u8 \<Rightarrow> u8 \<Rightarrow> addr option option" where
  "device_find st type num = device_find_in st type num (devices st)"

definition device_add :: "mtd_cfg \<Rightarrow> mtd_state \<Rightarrow> addr \<Rightarrow> mtd_state option" where
  "device_add cfg st dev =
     (if devices st = []
      then current_save cfg (st\<lparr>current_mtd_dev := Some dev, current_mtd_partnum := 0, devices := [dev]\<rparr>)
      else index_partitions cfg (st\<lparr>devices := devices st @ [dev]\<rparr>))"

definition id_find :: "mtd_state \<Rightarrow> u8 \<Rightarrow> u8 \<Rightarrow> mtdids option" where
  "id_find st type num = find (\<lambda>i. id_type i = type \<and> id_num i = num) (ids st)"

text \<open>\<open>id_find_by_mtd_id (s, n)\<close>, where \<open>s\<close> is not terminated after \<open>n\<close> characters.\<close>

definition id_find_by_mtd_id :: "mtd_state \<Rightarrow> string \<Rightarrow> nat \<Rightarrow> mtdids option" where
  "id_find_by_mtd_id st s n = find (\<lambda>i. n = length (mtd_id i) \<and> strncmp_eq n (mtd_id i) s) (ids st)"

section \<open>The list of partitions\<close>

text \<open>The loop of \<open>part_sort_add\<close>: \<open>Inl\<close> is the refusal of a second partition at offset 0, else the
  position to insert at and the partition there, if any.\<close>

fun sort_scan :: "u32 \<Rightarrow> nat \<Rightarrow> part_info list \<Rightarrow> (unit + nat \<times> part_info option)" where
  "sort_scan offset i [] = Inr (i, None)"
| "sort_scan offset i (p # ps) =
     (if offset = p_offset p \<and> p_offset p = 0 then Inl ()
      else if offset \<le> p_offset p then Inr (i, Some p)
      else sort_scan offset (i + 1) ps)"

definition insert_at :: "nat \<Rightarrow> 'a \<Rightarrow> 'a list \<Rightarrow> 'a list" where
  "insert_at i x xs = take i xs @ x # drop i xs"

definition part_sort_add ::
  "mtd_cfg \<Rightarrow> mtd_state \<Rightarrow> addr \<Rightarrow> part_info \<Rightarrow> (int \<times> mtd_state) option" where
  "part_sort_add cfg st dev part =
     do { d \<leftarrow> dev_heap st dev;
          if dev_parts d = []
          then do { st \<leftarrow> index_partitions cfg
                      (dev_put st dev (d\<lparr>dev_parts := [part], num_parts := num_parts d + 1\<rparr>));
                    Some (0, st) }
          else do {
            curr_pi \<leftarrow> (if Some dev = current_mtd_dev st
              then do { cd \<leftarrow> dev_heap st dev;
                        Some (mtd_part_info cd (ucast (current_mtd_partnum st))) }
              else Some None);
            case sort_scan (p_offset part) 0 (dev_parts d) of
              Inl _ \<Rightarrow> Some (1, st)
            | Inr (i, at) \<Rightarrow>
                do { let st = dev_put st dev
                       (d\<lparr>dev_parts := insert_at i part (dev_parts d), num_parts := num_parts d + 1\<rparr>);
                     st \<leftarrow> (case (at, curr_pi) of
                         (Some pi, Some cp) \<Rightarrow>
                           if p_offset pi \<le> p_offset cp
                           then current_save cfg (st\<lparr>current_mtd_partnum := current_mtd_partnum st + 1\<rparr>)
                           else index_partitions cfg st
                       | _ \<Rightarrow> index_partitions cfg st);
                     Some (0, st) } } }"

definition part_add ::
  "mtd_cfg \<Rightarrow> mtd_state \<Rightarrow> addr \<Rightarrow> part_info \<Rightarrow> (int \<times> mtd_state) option" where
  "part_add cfg st dev part =
     do { d \<leftarrow> dev_heap st dev;
          i \<leftarrow> id_at st (dev_id d);
          (rc, part, st) \<leftarrow> part_validate st i part;
          if rc \<noteq> 0 then Some (1, st)
          else do { (rc, st) \<leftarrow> part_sort_add cfg st dev part;
                    if rc \<noteq> 0 then Some (1, st) else Some (0, st) } }"

definition part_del ::
  "mtd_cfg \<Rightarrow> mtd_state \<Rightarrow> addr \<Rightarrow> part_info \<Rightarrow> (int \<times> mtd_state) option" where
  "part_del cfg st dev part =
     do { d \<leftarrow> dev_heap st dev;
          if num_parts d = 1 then device_del cfg st dev
          else do {
            let curr_pi = (if Some dev = current_mtd_dev st
              then mtd_part_info d (ucast (current_mtd_partnum st)) else None);
            let st = (case curr_pi of
                None \<Rightarrow> st
              | Some cp \<Rightarrow>
                  if p_addr cp = p_addr part then st\<lparr>current_mtd_partnum := 0\<rparr>
                  else if p_offset part \<le> p_offset cp
                  then st\<lparr>current_mtd_partnum := current_mtd_partnum st - 1\<rparr>
                  else st);
            let st = dev_put st dev
              (d\<lparr>dev_parts := filter (\<lambda>p. p_addr p \<noteq> p_addr part) (dev_parts d), num_parts := num_parts d - 1\<rparr>);
            st \<leftarrow> (if curr_pi \<noteq> None then current_save cfg st else index_partitions cfg st);
            Some (0, st) } }"

section \<open>Parsing one partition and one device\<close>

text \<open>\<open>part_parse\<close>: \<open>None\<close> in the first component is the return value 1; the callers then use neither
  the position nor the partition.\<close>

definition part_options :: "string \<Rightarrow> u32 \<times> string" where
  "part_options p = (if strncmp_eq 2 p ''ro'' then (1, drop 2 p) else (0, p))"

definition part_name_of :: "string \<Rightarrow> (string option \<times> string) option" where
  "part_name_of p =
     (if chr0 p = CHR ''(''
      then case strchr (tl p) (CHR '')'') of
          None \<Rightarrow> None
        | Some q \<Rightarrow>
            let name = take (length (tl p) - length q) (tl p) in
            if name = [] then None else Some (Some name, tl q)
      else Some (None, p))"

definition part_parse ::
  "mtd_cfg \<Rightarrow> mtd_state \<Rightarrow> string \<Rightarrow> (string \<times> part_info) option \<times> mtd_state" where
  "part_parse cfg st partdef =
     (let (sz, p) = (if chr0 partdef = CHR ''-'' then (SIZE_REMAINING, tl partdef)
                       else memsize_parse cfg partdef) in
      if chr0 partdef \<noteq> CHR ''-'' \<and> sz < MIN_PART_SIZE then (None, st)
      else let (offset, p) = (if chr0 p = CHR ''@'' then memsize_parse cfg (tl p)
                              else (OFFSET_NOT_SPECIFIED, p)) in
      case part_name_of p of
        None \<Rightarrow> (None, st)
      | Some (name, p) \<Rightarrow>
          let (flags, p) = part_options p in
          if chr0 p = CHR '','' \<and> sz = SIZE_REMAINING then (None, st)
          else if chr0 p \<notin> {CHR '','', CHR '';'', NUL} then (None, st)
          else let ret = (if chr0 p = CHR '','' then tl p else p) in
            case malloc cfg st of
              (None, st) \<Rightarrow> (None, st)
            | (Some a, st) \<Rightarrow>
                (Some (ret, \<lparr>p_addr = a,
                   p_name = (case name of Some n \<Rightarrow> n
                             | None \<Rightarrow> ''0x'' @ hex8 sz @ ''@0x'' @ hex8 offset),
                   auto_name = (name = None), p_size = sz, p_offset = offset,
                   mask_flags = flags, sector_size = 0\<rparr>), st))"

text \<open>The loop of \<open>device_parse\<close>; a first component \<open>None\<close> is \<open>err = 1\<close>.\<close>

partial_function (option) device_parse_loop ::
  "mtd_cfg \<Rightarrow> mtdids \<Rightarrow> mtd_state \<Rightarrow> string \<Rightarrow> u32 \<Rightarrow> part_info list \<Rightarrow> u16 \<Rightarrow>
   ((string \<times> part_info list \<times> u16) option \<times> mtd_state) option" where
  "device_parse_loop cfg i st p offset tmp_list n =
     (if p = [] \<or> hd p = CHR '';'' then Some (Some (p, tmp_list, n), st)
      else case part_parse cfg st p of
        (None, st) \<Rightarrow> Some (None, st)
      | (Some (p, part), st) \<Rightarrow>
          do { let offset = (if p_offset part = OFFSET_NOT_SPECIFIED then offset else p_offset part);
               let part = part\<lparr>p_offset := offset\<rparr>;
               (rc, part, st) \<leftarrow> part_validate st i part;
               if rc \<noteq> 0 then Some (None, st)
               else device_parse_loop cfg i st p (offset + p_size part) (tmp_list @ [part]) (n + 1) })"

declare device_parse_loop.simps [code]

text \<open>Moving the partitions from \<open>tmp_list\<close> to the new device.\<close>

fun move_parts ::
  "mtd_cfg \<Rightarrow> mtd_state \<Rightarrow> addr \<Rightarrow> part_info list \<Rightarrow> (int \<times> mtd_state) option" where
  "move_parts cfg st dev [] = Some (0, st)"
| "move_parts cfg st dev (part # tmp_list) =
     do { (rc, st) \<leftarrow> part_sort_add cfg st dev part;
          if rc \<noteq> 0 then do { (_, st) \<leftarrow> device_del cfg st dev; Some (1, st) }
          else move_parts cfg st dev tmp_list }"

text \<open>Where the partitions of a device that exists already end.\<close>

definition parse_offset :: "mtd_state \<Rightarrow> mtdids \<Rightarrow> u32 option" where
  "parse_offset st i =
     do { found \<leftarrow> device_find st (id_type i) (id_num i);
          case found of None \<Rightarrow> Some 0
          | Some a \<Rightarrow>
              do { d \<leftarrow> dev_heap st a;
                   if dev_parts d = [] then None
                   else Some (p_offset (last (dev_parts d)) + p_size (last (dev_parts d))) } }"

definition device_build ::
  "mtd_cfg \<Rightarrow> mtd_state \<Rightarrow> mtdids \<Rightarrow> part_info list \<Rightarrow> string \<Rightarrow> ((string \<times> addr) option \<times> mtd_state) option"
where
  "device_build cfg st i tmp_list p =
     (let ret = (if chr0 p = CHR '';'' then tl p else p) in
      case malloc cfg st of
        (None, st) \<Rightarrow> Some (None, st)
      | (Some dev, st) \<Rightarrow>
          do { let st = dev_put st dev \<lparr>dev_id = id_addr i, num_parts = 0, dev_parts = []\<rparr>;
               (rc, st) \<leftarrow> move_parts cfg st dev tmp_list;
               Some (if rc \<noteq> 0 then None else Some (ret, dev), st) })"

text \<open>\<open>ret_null\<close> tells that the caller passes \<open>NULL\<close> for \<open>ret\<close>.\<close>

definition device_parse ::
  "mtd_cfg \<Rightarrow> mtd_state \<Rightarrow> string \<Rightarrow> bool \<Rightarrow> ((string \<times> addr) option \<times> mtd_state) option" where
  "device_parse cfg st mtd_dev ret_null =
     (if ret_null \<and> \<not> null_store_ok cfg then None
      else case strchr mtd_dev (CHR '':'') of
        None \<Rightarrow> Some (None, st)
      | Some q \<Rightarrow>
          (case id_find_by_mtd_id st mtd_dev (length mtd_dev - length q) of
             None \<Rightarrow> Some (None, st)
           | Some i \<Rightarrow>
               do { let p = tl q;
                    offset \<leftarrow> parse_offset st i;
                    if p = [] \<or> hd p = CHR '';'' then Some (None, st)
                    else do {
                      (r, st) \<leftarrow> device_parse_loop cfg i st p offset [] 0;
                      case r of None \<Rightarrow> Some (None, st)
                      | Some (p, tmp_list, n) \<Rightarrow>
                          if n = 0 then Some (None, st)
                          else device_build cfg st i tmp_list p } }))"

section \<open>An instance\<close>

text \<open>The documented behaviour of \<open>simple_strtoul (s, &end, 0)\<close>, for the examples below: digits of base
  16 after \<open>0x\<close>, of base 8 after \<open>0\<close>, else of base 10.\<close>

definition digit_value :: "char \<Rightarrow> nat" where
  "digit_value c = (let n = of_char c :: nat in
     if 48 \<le> n \<and> n \<le> 57 then n - 48 else if 97 \<le> n \<and> n \<le> 102 then n - 87
     else if 65 \<le> n \<and> n \<le> 70 then n - 55 else 99)"

fun read_digits :: "nat \<Rightarrow> u32 \<Rightarrow> string \<Rightarrow> u32 \<times> string" where
  "read_digits b acc [] = (acc, [])"
| "read_digits b acc (c # s) =
     (if digit_value c < b then read_digits b (of_nat b * acc + of_nat (digit_value c)) s else (acc, c # s))"

definition demo_strtoul :: "string \<Rightarrow> nat \<Rightarrow> u32 \<times> string" where
  "demo_strtoul s b =
     (if b = 0 then if take 2 s = ''0x'' then read_digits 16 0 (drop 2 s)
        else if take 1 s = ''0'' then read_digits 8 0 (drop 1 s)
        else read_digits 10 0 s
      else read_digits b 0 s)"

definition demo_mtd_cfg :: mtd_cfg where
  "demo_mtd_cfg = \<lparr>ecfg = demo_cfg\<lparr>simple_strtoul := demo_strtoul, CONFIG_ENV_SIZE := 400\<rparr>,
     mtdids_default = Some ''nand0=flash'', mtdparts_default = Some ''mtdparts=flash:64k(boot)ro,-(root)'',
     malloc_ok = (\<lambda>_. True), null_store_ok = False\<rparr>"

definition demo_mtd_env :: "string list \<Rightarrow> env_state" where
  "demo_mtd_env es = demo_env\<lparr>env_data := enc es @ replicate (400 - length (enc es)) NUL\<rparr>"

definition demo_mtd_state :: "string list \<Rightarrow> mtd_state" where
  "demo_mtd_state es = \<lparr>ids = [], devices = [], dev_heap = (\<lambda>_. None), current_mtd_dev = None,
     current_mtd_partnum = 0, last_ids = [], last_parts = [], last_partition = [], heap_next = 0,
     initialized = False, env = demo_mtd_env es,
     core = \<lparr>mtd_table = [Some 5], mtd_objs = [5 \<mapsto> demo_mtd ''nand0'']\<rparr>\<rparr>"

section \<open>Effects on the environment\<close>

definition env_change :: "mtd_cfg \<Rightarrow> string set \<Rightarrow> env_state \<Rightarrow> env_state \<Rightarrow> bool" where
  "env_change cfg S e e' \<longleftrightarrow> env_wf (ecfg cfg) e' \<and>
     (\<forall>m. name_ok m \<longrightarrow> m \<notin> S \<longrightarrow> getenv (ecfg cfg) e' m = getenv (ecfg cfg) e m)"

lemma env_change_trans:
  "env_change cfg S e e' \<Longrightarrow> env_change cfg T e' e'' \<Longrightarrow> env_change cfg (S \<union> T) e e''"
  by (auto simp: env_change_def)

lemma env_change_mono: "env_change cfg S e e' \<Longrightarrow> S \<subseteq> T \<Longrightarrow> env_change cfg T e e'"
  by (auto simp: env_change_def)

lemma env_change_wf: "env_change cfg S e e' \<Longrightarrow> env_wf (ecfg cfg) e'"
  by (simp add: env_change_def)

definition index_vars :: "string set" where
  "index_vars = {''mtddevnum'', ''mtddevname''}"

lemma mtd_names:
  "name_ok ''mtddevnum'' \<and> plain_name ''mtddevnum''" "name_ok ''mtddevname'' \<and> plain_name ''mtddevname''"
  "name_ok ''partition'' \<and> plain_name ''partition''" "name_ok ''mtdparts'' \<and> plain_name ''mtdparts''"
  "name_ok ''mtdids'' \<and> plain_name ''mtdids''"
  by (simp_all add: name_ok_def plain_name_def console_of_def)

lemma env_set_ok:
  assumes "env_wf (ecfg cfg) (env st)" and "name_ok n \<and> plain_name n" and "value_ok v"
  obtains e where "env_set cfg st n v = Some (st\<lparr>env := e\<rparr>)" and "env_change cfg {n} (env st) e"
    and "getenv (ecfg cfg) e n = Some v \<or> getenv (ecfg cfg) e n = Some None"
proof -
  obtain rc e where e: "setenv (ecfg cfg) (env st) n v = Some (rc, e)" "env_wf (ecfg cfg) e"
    "\<And>m. name_ok m \<Longrightarrow> m \<noteq> n \<Longrightarrow> getenv (ecfg cfg) e m = getenv (ecfg cfg) (env st) m"
    "getenv (ecfg cfg) e n = Some (if rc = 0 then v else None)"
    using es.set_plain [OF assms(1) _ _ assms(3), of n] assms(2) by metis
  have "env_set cfg st n v = Some (st\<lparr>env := e\<rparr>)" using e(1) by (simp add: env_set_def)
  moreover have "env_change cfg {n} (env st) e" using e(2,3) by (simp add: env_change_def)
  ultimately show ?thesis using that e(4) by (cases "rc = 0") auto
qed

lemma env_set_state: "env_set cfg st n v = Some st' \<Longrightarrow> \<exists>e. st' = st\<lparr>env := e\<rparr>"
  by (auto simp: env_set_def split: Option.bind_splits)

lemma NUL_dec: "NUL \<notin> set (dec n)"
  using dec_digits [of n] by (auto simp: list_all_iff is_digit_def)

lemma NUL_partition_text: "NUL \<notin> set (partition_text i n)"
  by (simp add: partition_text_def MTD_DEV_TYPE_def NUL_dec)

definition cur_part :: "mtd_state \<Rightarrow> part_info option" where
  "cur_part st = do { c \<leftarrow> current_mtd_dev st; d \<leftarrow> dev_heap st c;
                      mtd_part_info d (ucast (current_mtd_partnum st)) }"

text \<open>What \<open>index_partitions\<close> relies on: the listed devices are there, and the current partition is.\<close>

definition cur_ok :: "mtd_state \<Rightarrow> bool" where
  "cur_ok st \<longleftrightarrow> (\<forall>a\<in>set (devices st). dev_heap st a \<noteq> None) \<and>
     (current_mtd_dev st \<noteq> None \<longrightarrow> (\<exists>p. cur_part st = Some p \<and> NUL \<notin> set (p_name p)))"

lemma count_before_total:
  "\<forall>a\<in>set as. dev_heap st a \<noteq> None \<Longrightarrow> count_before st c n as \<noteq> None"
  by (induction as arbitrary: n) auto

lemma cur_part_env [simp]: "cur_part (st\<lparr>env := e\<rparr>) = cur_part st"
  by (simp add: cur_part_def)

lemma index_partitions_ok:
  assumes wf: "env_wf (ecfg cfg) (env st)" and ok: "cur_ok st"
  obtains e where "index_partitions cfg st = Some (st\<lparr>env := e\<rparr>)" and "env_change cfg index_vars (env st) e"
proof (cases "current_mtd_dev st")
  case None
  obtain e1 where e1: "env_set cfg st ''mtddevnum'' None = Some (st\<lparr>env := e1\<rparr>)"
      "env_change cfg {''mtddevnum''} (env st) e1"
    by (rule env_set_ok [OF wf mtd_names(1), of None]) (simp_all add: value_ok_def)
  obtain e2 where e2: "env_set cfg (st\<lparr>env := e1\<rparr>) ''mtddevname'' None = Some (st\<lparr>env := e2\<rparr>)"
      "env_change cfg {''mtddevname''} e1 e2"
    by (rule env_set_ok [of cfg "st\<lparr>env := e1\<rparr>", OF _ mtd_names(2), of None])
      (use env_change_wf [OF e1(2)] in \<open>simp_all add: value_ok_def\<close>)
  have "index_partitions cfg st = Some (st\<lparr>env := e2\<rparr>)"
    using None e1(1) e2(1) by (simp add: index_partitions_def)
  moreover have "env_change cfg index_vars (env st) e2"
    using env_change_trans [OF e1(2) e2(2)] by (simp add: index_vars_def insert_commute)
  ultimately show ?thesis by (rule that)
next
  case (Some cur)
  obtain p d where p: "dev_heap st cur = Some d" "mtd_part_info d (ucast (current_mtd_partnum st)) = Some p"
      "NUL \<notin> set (p_name p)"
    using ok Some by (auto simp: cur_ok_def cur_part_def split: Option.bind_splits)
  obtain n where n: "count_before st cur 0 (devices st) = Some n"
    using count_before_total [of "devices st" st cur 0] ok by (auto simp: cur_ok_def)
  obtain e1 where e1: "(case n of None \<Rightarrow> Some st
      | Some n \<Rightarrow> env_set cfg st ''mtddevnum'' (Some (dec (unat n)))) = Some (st\<lparr>env := e1\<rparr>)"
      "env_change cfg {''mtddevnum''} (env st) e1"
  proof (cases n)
    case None
    then show ?thesis using that [of "env st"] wf by (simp add: env_change_def)
  next
    case (Some k)
    show ?thesis
      by (rule env_set_ok [OF wf mtd_names(1), of "Some (dec (unat k))"])
        (use that Some in \<open>simp_all add: value_ok_def NUL_dec\<close>)
  qed
  obtain e2 where e2: "env_set cfg (st\<lparr>env := e1\<rparr>) ''mtddevname'' (Some (p_name p)) = Some (st\<lparr>env := e2\<rparr>)"
      "env_change cfg {''mtddevname''} e1 e2"
    by (rule env_set_ok [of cfg "st\<lparr>env := e1\<rparr>", OF _ mtd_names(2), of "Some (p_name p)"])
      (use env_change_wf [OF e1(2)] p(3) in \<open>simp_all add: value_ok_def\<close>)
  have "index_partitions cfg st = Some (st\<lparr>env := e2\<rparr>)"
    using Some n e1(1) e2(1) p by (simp add: index_partitions_def)
  moreover have "env_change cfg index_vars (env st) e2"
    using env_change_trans [OF e1(2) e2(2)] by (simp add: index_vars_def insert_commute)
  ultimately show ?thesis by (rule that)
qed

definition cur_id_ok :: "mtd_state \<Rightarrow> bool" where
  "cur_id_ok st \<longleftrightarrow> (\<forall>c d. current_mtd_dev st = Some c \<longrightarrow> dev_heap st c = Some d \<longrightarrow> id_at st (dev_id d) \<noteq> None)"

text \<open>The text that \<open>current_save\<close> stores.\<close>

definition cur_text :: "mtd_state \<Rightarrow> string option" where
  "cur_text st = do { c \<leftarrow> current_mtd_dev st; d \<leftarrow> dev_heap st c; i \<leftarrow> id_at st (dev_id d);
                      Some (partition_text i (current_mtd_partnum st)) }"

lemma current_save_ok:
  assumes wf: "env_wf (ecfg cfg) (env st)" and ok: "cur_ok st" "cur_id_ok st"
  obtains e where "current_save cfg st =
      Some (st\<lparr>last_partition := (case cur_text st of None \<Rightarrow> [] | Some t \<Rightarrow> t), env := e\<rparr>)"
    and "env_change cfg (insert ''partition'' index_vars) (env st) e"
    and "getenv (ecfg cfg) e ''partition'' \<in> {Some (cur_text st), Some None}"
proof -
  let ?l = "case cur_text st of None \<Rightarrow> [] | Some t \<Rightarrow> t"
  have none: "current_mtd_dev st = None \<longleftrightarrow> cur_text st = None"
    using ok by (auto simp: cur_text_def cur_id_ok_def cur_ok_def cur_part_def split: Option.bind_splits)
  have val: "value_ok (cur_text st)"
    by (auto simp: value_ok_def cur_text_def NUL_partition_text split: option.splits Option.bind_splits)
  obtain e1 where e1: "env_set cfg st ''partition'' (cur_text st) = Some (st\<lparr>env := e1\<rparr>)"
      "env_change cfg {''partition''} (env st) e1"
      "getenv (ecfg cfg) e1 ''partition'' = Some (cur_text st) \<or> getenv (ecfg cfg) e1 ''partition'' = Some None"
    by (rule env_set_ok [OF wf mtd_names(3) val])
  let ?st = "st\<lparr>env := e1, last_partition := ?l\<rparr>"
  have wf1: "env_wf (ecfg cfg) (env ?st)" using env_change_wf [OF e1(2)] by simp
  have ok1: "cur_ok ?st" using ok(1) by (simp add: cur_ok_def cur_part_def)
  obtain e where e: "index_partitions cfg ?st = Some (?st\<lparr>env := e\<rparr>)" "env_change cfg index_vars e1 e"
    using index_partitions_ok [OF wf1 ok1] by auto
  have "current_save cfg st = index_partitions cfg ?st"
  proof (cases "current_mtd_dev st")
    case None
    with none e1(1) show ?thesis by (simp add: current_save_def)
  next
    case (Some c)
    then obtain d i where "dev_heap st c = Some d" "id_at st (dev_id d) = Some i"
        "cur_text st = Some (partition_text i (current_mtd_partnum st))"
      using none by (auto simp: cur_text_def split: Option.bind_splits)
    with Some e1(1) show ?thesis by (simp add: current_save_def Let_def)
  qed
  also have "\<dots> = Some (st\<lparr>last_partition := ?l, env := e\<rparr>)" using e(1) by simp
  finally have run: "current_save cfg st = Some (st\<lparr>last_partition := ?l, env := e\<rparr>)" .
  have ch: "env_change cfg (insert ''partition'' index_vars) (env st) e"
    using env_change_trans [OF e1(2) e(2)] by simp
  have "getenv (ecfg cfg) e ''partition'' = getenv (ecfg cfg) e1 ''partition''"
    using e(2) mtd_names(3) by (simp add: env_change_def index_vars_def)
  then have get: "getenv (ecfg cfg) e ''partition'' \<in> {Some (cur_text st), Some None}" using e1(3) by auto
  show ?thesis by (rule that [OF run ch get])
qed

section \<open>Sizes as text: laws\<close>

text \<open>What the code relies on of \<open>simple_strtoul\<close>: it reads the decimal text of a number up to a
  character that cannot continue it.\<close>

definition reads_decimal :: "(string \<Rightarrow> nat \<Rightarrow> u32 \<times> string) \<Rightarrow> bool" where
  "reads_decimal f \<longleftrightarrow> (\<forall>w rest. \<not> is_digit (chr0 rest) \<longrightarrow> chr0 rest \<noteq> CHR ''x'' \<longrightarrow> chr0 rest \<noteq> CHR ''X'' \<longrightarrow>
     f (dec (unat w) @ rest) 0 = (w, rest))"

text \<open>What may follow a size.\<close>

definition ends_size :: "string \<Rightarrow> bool" where
  "ends_size s \<longleftrightarrow> chr0 s \<in> {CHR ''@'', CHR ''('', CHR ''r'', CHR '','', CHR '';'', NUL}"

lemma ends_sizeD: "ends_size s \<Longrightarrow> \<not> is_digit (chr0 s) \<and>
    chr0 s \<notin> {CHR ''x'', CHR ''X'', CHR ''G'', CHR ''g'', CHR ''M'', CHR ''m'', CHR ''K'', CHR ''k''}"
  by (auto simp: ends_size_def is_digit_def)

lemma push_bit_10: "push_bit 10 (w :: u32) = w * 1024"
  by (simp add: push_bit_eq_mult mult.commute)

lemma div_mult_cancel: "(w :: u32) mod k = 0 \<Longrightarrow> w div k * k = w"
  by (metis add.right_neutral div_mult_mod_eq)

lemma memsize_parse_format:
  assumes "reads_decimal (simple_strtoul (ecfg cfg))" and "ends_size rest"
  shows "memsize_parse cfg (memsize_format w @ rest) = (w, rest)"
proof -
  note rest = ends_sizeD [OF assms(2)]
  have rd: "simple_strtoul (ecfg cfg) (dec (unat v) @ r) 0 = (v, r)"
    if "\<not> is_digit (chr0 r)" "chr0 r \<noteq> CHR ''x''" "chr0 r \<noteq> CHR ''X''" for v r
    using assms(1) that by (auto simp: reads_decimal_def)
  have g: "\<not> is_digit (CHR ''g'')" "\<not> is_digit (CHR ''m'')" "\<not> is_digit (CHR ''k'')"
    by (simp_all add: is_digit_def)
  consider (g) "w mod SIZE_GB = 0" | (m) "w mod SIZE_GB \<noteq> 0" "w mod SIZE_MB = 0"
    | (k) "w mod SIZE_GB \<noteq> 0" "w mod SIZE_MB \<noteq> 0" "w mod SIZE_KB = 0"
    | (b) "w mod SIZE_GB \<noteq> 0" "w mod SIZE_MB \<noteq> 0" "w mod SIZE_KB \<noteq> 0" by blast
  then show ?thesis
  proof cases
    case g
    with rd [of "''g'' @ rest" "w div SIZE_GB"] \<open>\<not> is_digit (CHR ''g'')\<close> div_mult_cancel [OF g] show ?thesis
      by (simp add: memsize_parse_def memsize_format_def push_bit_10 mult.assoc SIZE_GB_def)
  next
    case m
    with rd [of "''m'' @ rest" "w div SIZE_MB"] g div_mult_cancel [OF m(2)] show ?thesis
      by (simp add: memsize_parse_def memsize_format_def push_bit_10 mult.assoc SIZE_MB_def)
  next
    case k
    with rd [of "''k'' @ rest" "w div SIZE_KB"] g div_mult_cancel [OF k(3)] show ?thesis
      by (simp add: memsize_parse_def memsize_format_def push_bit_10 SIZE_KB_def)
  next
    case b
    with rd [of rest w] rest show ?thesis by (simp add: memsize_parse_def memsize_format_def)
  qed
qed

text \<open>C27: \<open>memsize_parse\<close> reads back exactly what \<open>memsize_format\<close> wrote, for every 32-bit size and
  everything that may follow a size in \<open>mtdparts\<close>.\<close>

theorem memsize_roundtrip:
  assumes "reads_decimal (simple_strtoul (ecfg cfg))" and "ends_size rest"
  shows "memsize_parse cfg (memsize_format w @ rest) = (w, rest)"
  by (rule memsize_parse_format [OF assms])

text \<open>The instance of the examples has this property.\<close>

lemma read_digits_digits:
  assumes "list_all is_digit ds" and "\<not> is_digit (chr0 rest)"
  shows "read_digits 10 acc (ds @ rest) =
    (foldl (\<lambda>a c. 10 * a + of_nat (digit_value c)) acc ds, rest)"
  using assms
proof (induction ds arbitrary: acc)
  case Nil
  then show ?case
    by (cases rest) (auto simp: is_digit_def digit_value_def Let_def)
next
  case (Cons c ds)
  then show ?case by (auto simp: is_digit_def digit_value_def Let_def)
qed

lemma digit_value_digit: "n < 10 \<Longrightarrow> digit_value (digit n) = n"
  by (simp add: digit_value_def digit_def Let_def)

lemma foldl_dec: "foldl (\<lambda>a c. 10 * a + of_nat (digit_value c)) (0 :: u32) (dec n) = of_nat n"
proof (induction n rule: dec.induct)
  case (1 n)
  show ?case
  proof (cases "n < 10")
    case True
    then show ?thesis by (subst dec.simps) (simp add: digit_value_digit)
  next
    case False
    have "10 * (of_nat (n div 10) :: u32) + of_nat (n mod 10) = of_nat (10 * (n div 10) + n mod 10)"
      by (simp only: of_nat_add of_nat_mult of_nat_numeral)
    with False 1 show ?thesis by (subst dec.simps) (simp add: digit_value_digit)
  qed
qed

lemma hd_dec: "dec n \<noteq> [] \<and> (hd (dec n) = CHR ''0'' \<longrightarrow> dec n = ''0'')"
proof (induction n rule: dec.induct)
  case (1 n)
  show ?case
  proof (cases "n < 10")
    case True
    then show ?thesis by (subst (1 2 3) dec.simps) (auto simp: digit_def)
  next
    case False
    then have "n div 10 > 0" by simp
    moreover have "dec (n div 10) = ''0'' \<Longrightarrow> n div 10 = 0"
    proof (cases "n div 10 < 10")
      case True
      assume "dec (n div 10) = ''0''"
      with True have "digit (n div 10) = CHR ''0''" by (simp add: dec.simps)
      with True show ?thesis using digit_value_digit [of "n div 10"] by (simp add: digit_value_def)
    next
      case False
      assume "dec (n div 10) = ''0''"
      with False have "dec (n div 10 div 10) = []" by (subst (asm) dec.simps) (simp add: append_eq_Cons_conv)
      then show ?thesis by simp
    qed
    ultimately show ?thesis using False 1 by (subst (1 2 3) dec.simps) auto
  qed
qed

lemma demo_reads_decimal: "reads_decimal demo_strtoul"
  unfolding reads_decimal_def
proof (intro allI impI)
  fix w :: u32 and rest
  assume rest: "\<not> is_digit (chr0 rest)" "chr0 rest \<noteq> CHR ''x''" "chr0 rest \<noteq> CHR ''X''"
  let ?d = "dec (unat w)"
  have all: "read_digits 10 0 (?d @ rest) = (w, rest)"
    using read_digits_digits [OF dec_digits rest(1), of 0 "unat w"] foldl_dec [of "unat w"] by simp
  show "demo_strtoul (?d @ rest) 0 = (w, rest)"
  proof (cases "hd ?d = CHR ''0''")
    case True
    then have d: "?d = ''0''" using hd_dec by blast
    have "take 1 rest \<noteq> ''x''" using rest by (cases rest) auto
    moreover have "read_digits 8 0 rest = (0, rest)"
      using rest(1) by (cases rest) (auto simp: is_digit_def digit_value_def Let_def)
    moreover have "w = 0" using foldl_dec [of "unat w"] d by (simp add: digit_value_def)
    ultimately show ?thesis unfolding d by (simp add: demo_strtoul_def numeral_2_eq_2)
  next
    case False
    obtain c d' where "?d = c # d'" using dec_nonempty by (cases ?d) auto
    with False all show ?thesis by (simp add: demo_strtoul_def numeral_2_eq_2)
  qed
qed

theorem memsize_roundtrip_witness:
  "memsize_parse demo_mtd_cfg (memsize_format 0x30000 @ ''(boot)ro'') = (0x30000, ''(boot)ro'')"
  by (rule memsize_roundtrip) (simp_all add: demo_mtd_cfg_def demo_reads_decimal ends_size_def)

section \<open>Validation: laws\<close>

definition region_starts :: "erase_region \<Rightarrow> u32 set" where
  "region_starts r = (\<lambda>k. ucast (er_offset r) + of_nat k * er_erasesize r) ` {..<unat (er_numblocks r)}"

definition region_end :: "erase_region \<Rightarrow> u32" where
  "region_end r = ucast (er_offset r) + er_numblocks r * er_erasesize r"

text \<open>Where a partition may start and end on a device.\<close>

definition aligned_on :: "mtd_info \<Rightarrow> u32 \<Rightarrow> u32 \<Rightarrow> bool" where
  "aligned_on m off sz \<longleftrightarrow>
     (if eraseregions m = [] then unat off mod unat (erasesize m) = 0 \<and> unat sz mod unat (erasesize m) = 0
      else off \<in> \<Union> (region_starts ` set (eraseregions m)) \<and>
        (off + sz \<in> \<Union> (region_starts ` set (eraseregions m)) \<or> off + sz = region_end (last (eraseregions m))))"

lemma block_scan_eq: "block_scan n t s e =
    (if \<exists>k<n. t = s + of_nat k * e then (True, t) else (False, s + of_nat n * e))"
proof (induction n arbitrary: s)
  case (Suc n)
  have "(\<exists>k<Suc n. t = s + of_nat k * e) \<longleftrightarrow> t = s \<or> (\<exists>k<n. t = s + e + of_nat k * e)"
  proof
    assume "\<exists>k<Suc n. t = s + of_nat k * e"
    then obtain k where "k < Suc n" "t = s + of_nat k * e" by blast
    then show "t = s \<or> (\<exists>k<n. t = s + e + of_nat k * e)"
      by (cases k) (auto simp: algebra_simps)
  next
    assume "t = s \<or> (\<exists>k<n. t = s + e + of_nat k * e)"
    then show "\<exists>k<Suc n. t = s + of_nat k * e"
    proof
      assume "\<exists>k<n. t = s + e + of_nat k * e"
      then obtain k where "k < n" "t = s + of_nat (Suc k) * e" by (auto simp: algebra_simps)
      then show ?thesis by blast
    qed auto
  qed
  with Suc.IH [of "s + e"] show ?case by (auto simp: algebra_simps)
qed simp

lemma region_scan_eq: "region_scan rs t s =
    (if t \<in> \<Union> (region_starts ` set rs) then (True, t)
     else (False, if rs = [] then s else region_end (last rs)))"
proof (induction rs arbitrary: s)
  case (Cons r rs)
  have "block_scan (unat (er_numblocks r)) t (ucast (er_offset r)) (er_erasesize r) =
      (if t \<in> region_starts r then (True, t) else (False, region_end r))"
    by (auto simp: block_scan_eq region_starts_def region_end_def)
  then show ?case using Cons.IH by auto
qed simp

lemma aligned_regions_iff: "rs \<noteq> [] \<Longrightarrow> aligned_regions rs off sz \<longleftrightarrow>
    off \<in> \<Union> (region_starts ` set rs) \<and>
    (off + sz \<in> \<Union> (region_starts ` set rs) \<or> off + sz = region_end (last rs))"
  by (auto simp: aligned_regions_def region_scan_eq)

text \<open>\<open>p_size\<close> once \<open>-\<close> is resolved.\<close>

definition real_size :: "mtdids \<Rightarrow> part_info \<Rightarrow> u32" where
  "real_size i part = (if p_size part = SIZE_REMAINING then id_size i - p_offset part else p_size part)"

lemma in_range_iff:
  "\<not> off > s \<and> \<not> off + sz \<le> off \<and> \<not> off + sz > s \<longleftrightarrow> sz \<noteq> 0 \<and> unat off + unat sz \<le> unat s"
  for off sz s :: u32
  by unat_arith

lemma part_validate_eraseblock_eq:
  assumes "get_mtd_device_nm (core st) (MTD_DEV_TYPE (id_type i) @ dec (unat (id_num i))) = Some (Inr a, c)"
    and "mtd_objs c a = Some m" and "erasesize m \<noteq> 0"
  shows "part_validate_eraseblock st i part =
    Some (if aligned_on m (p_offset part) (p_size part) then 0 else 1,
      part\<lparr>sector_size := erasesize m\<rparr>, st\<lparr>core := c\<rparr>)"
proof (cases "eraseregions m = []")
  case True
  have "w mod erasesize m = 0 \<longleftrightarrow> unat w mod unat (erasesize m) = 0" for w
    by (metis unat_0 unat_mod word_unat_eq_iff)
  with True assms show ?thesis
    by (auto simp: part_validate_eraseblock_def aligned_on_def Let_def)
next
  case False
  with assms show ?thesis
    by (auto simp: part_validate_eraseblock_def aligned_on_def aligned_regions_iff Let_def)
qed

lemma part_validate_cases:
  assumes "get_mtd_device_nm (core st) (MTD_DEV_TYPE (id_type i) @ dec (unat (id_num i))) = Some (Inr a, c)"
    and "mtd_objs c a = Some m" and "erasesize m \<noteq> 0"
  shows "part_validate st i part =
    (if real_size i part \<noteq> 0 \<and> unat (p_offset part) + unat (real_size i part) \<le> unat (id_size i)
     then Some (if aligned_on m (p_offset part) (real_size i part) then 0 else 1,
       part\<lparr>p_size := real_size i part, sector_size := erasesize m\<rparr>, st\<lparr>core := c\<rparr>)
     else Some (1, part\<lparr>p_size := real_size i part\<rparr>, st))"
proof -
  define q where "q = part\<lparr>p_size := real_size i part\<rparr>"
  have q: "(if p_size part = SIZE_REMAINING then part\<lparr>p_size := id_size i - p_offset part\<rparr> else part) = q"
    by (simp add: q_def real_size_def)
  have f: "p_offset q = p_offset part" "p_size q = real_size i part" by (simp_all add: q_def)
  show ?thesis
  proof (cases "real_size i part \<noteq> 0 \<and> unat (p_offset part) + unat (real_size i part) \<le> unat (id_size i)")
    case True
    then have "\<not> p_offset q > id_size i" "\<not> p_offset q + p_size q \<le> p_offset q"
        "\<not> p_offset q + p_size q > id_size i"
      using in_range_iff [where off = "p_offset q" and sz = "p_size q" and s = "id_size i"] unfolding f by auto
    then have "part_validate st i part = part_validate_eraseblock st i q"
      unfolding part_validate_def q Let_def by simp
    with part_validate_eraseblock_eq [OF assms, of q] True f show ?thesis by (auto simp: q_def)
  next
    case False
    then have "p_offset q > id_size i \<or> p_offset q + p_size q \<le> p_offset q \<or> p_offset q + p_size q > id_size i"
      using in_range_iff [where off = "p_offset q" and sz = "p_size q" and s = "id_size i"]
      unfolding f by blast
    then have "part_validate st i part = Some (1, q, st)"
      unfolding part_validate_def q Let_def by auto
    with False show ?thesis unfolding q_def by auto
  qed
qed

text \<open>C23: \<open>part_validate\<close> accepts a partition exactly when, in unbounded arithmetic, it is not empty,
  ends within the device and starts and ends at erase block boundaries; the size that \<open>-\<close> stands for is
  the rest of the device.  An accepted partition keeps its offset and gets the device's erase size.\<close>

theorem part_validate_spec:
  assumes "get_mtd_device_nm (core st) (MTD_DEV_TYPE (id_type i) @ dec (unat (id_num i))) = Some (Inr a, c)"
    and "mtd_objs c a = Some m" and "erasesize m \<noteq> 0"
  shows "\<exists>rc part' st'. part_validate st i part = Some (rc, part', st') \<and>
    (rc = 0 \<longleftrightarrow> real_size i part \<noteq> 0 \<and>
       unat (p_offset part) + unat (real_size i part) \<le> unat (id_size i) \<and>
       aligned_on m (p_offset part) (real_size i part)) \<and>
    (rc = 0 \<longrightarrow> part' = part\<lparr>p_size := real_size i part, sector_size := erasesize m\<rparr> \<and> st' = st\<lparr>core := c\<rparr>)"
  using part_validate_cases [OF assms, of part] by auto

text \<open>The loops rely only on this much of it.\<close>

lemma part_validate_fields:
  assumes "part_validate st i part = Some (rc, part', st')"
  shows "p_offset part' = p_offset part \<and> p_name part' = p_name part \<and> p_addr part' = p_addr part \<and>
    auto_name part' = auto_name part \<and> mask_flags part' = mask_flags part \<and> (\<exists>c. st' = st\<lparr>core := c\<rparr>)"
  using assms unfolding part_validate_def part_validate_eraseblock_def Let_def
  by (auto split: if_splits Option.bind_splits sum.splits intro: exI [of _ "core st"])

definition demo_id :: mtdids where
  "demo_id = \<lparr>id_addr = 0, id_type = 2, id_num = 0, id_size = 0x100000, mtd_id = ''flash''\<rparr>"

definition demo_part :: "addr \<Rightarrow> string \<Rightarrow> u32 \<Rightarrow> u32 \<Rightarrow> part_info" where
  "demo_part a name sz off = \<lparr>p_addr = a, p_name = name, auto_name = False, p_size = sz, p_offset = off,
     mask_flags = 0, sector_size = 0x10000\<rparr>"

lemma dec_0: "dec 0 = ''0''"
  by code_simp

theorem part_validate_spec_witness:
  "\<exists>st'. part_validate (demo_mtd_state []) demo_id (demo_part 7 ''root'' SIZE_REMAINING 0x30000) =
    Some (0, demo_part 7 ''root'' 0xD0000 0x30000, st')"
proof -
  obtain c where c: "get_mtd_device_nm (core (demo_mtd_state [])) (MTD_DEV_TYPE (id_type demo_id) @
      dec (unat (id_num demo_id))) = Some (Inr 5, c)" "mtd_objs c 5 = Some (demo_mtd ''nand0''\<lparr>usecount := 1\<rparr>)"
    by (simp add: get_mtd_device_nm_def mtd_set_def demo_mtd_state_def demo_mtd_def demo_id_def
        MTD_DEV_TYPE_def MTD_DEV_TYPE_NAND_def dec_0)
  have "erasesize (demo_mtd ''nand0''\<lparr>usecount := 1\<rparr>) \<noteq> 0" by (simp add: demo_mtd_def)
  from part_validate_spec [OF c this, of "demo_part 7 ''root'' SIZE_REMAINING 0x30000"]
  show ?thesis
    by (auto simp: real_size_def demo_part_def demo_id_def aligned_on_def demo_mtd_def SIZE_REMAINING_def)
qed

section \<open>The invariant of the tables\<close>

definition dev_ok :: "mtd_state \<Rightarrow> mtd_device \<Rightarrow> bool" where
  "dev_ok st d \<longleftrightarrow> dev_parts d \<noteq> [] \<and> unat (num_parts d) = length (dev_parts d) \<and>
     sorted (map p_offset (dev_parts d)) \<and> distinct (map p_addr (dev_parts d)) \<and>
     (\<forall>p\<in>set (dev_parts d). NUL \<notin> set (p_name p)) \<and> id_at st (dev_id d) \<noteq> None"

definition mtd_inv :: "mtd_cfg \<Rightarrow> mtd_state \<Rightarrow> bool" where
  "mtd_inv cfg st \<longleftrightarrow> env_wf (ecfg cfg) (env st) \<and> distinct (devices st) \<and>
     (\<forall>a\<in>set (devices st). \<exists>d. dev_heap st a = Some d \<and> dev_ok st d) \<and>
     (\<forall>c. current_mtd_dev st = Some c \<longrightarrow> c \<in> set (devices st) \<and>
        (\<exists>d. dev_heap st c = Some d \<and> unat (current_mtd_partnum st) < length (dev_parts d)))"

lemma unat_ucast_8_32: "unat (ucast (w :: u8) :: u32) = unat w"
  by transfer simp

lemma unat_ucast_16_32: "unat (ucast (w :: u16) :: u32) = unat w"
  by transfer simp

lemma mtd_part_info_nth:
  assumes "unat (num_parts d) = length (dev_parts d)"
  shows "mtd_part_info d (ucast (n :: u8)) =
    (if unat n < length (dev_parts d) then Some (dev_parts d ! unat n) else None)"
  using assms by (auto simp: mtd_part_info_def word_le_nat_alt unat_ucast_8_32 unat_ucast_16_32)

lemma cur_part_nth:
  assumes "current_mtd_dev st = Some c" and "dev_heap st c = Some d"
    and "unat (num_parts d) = length (dev_parts d)" and "unat (current_mtd_partnum st) < length (dev_parts d)"
  shows "cur_part st = Some (dev_parts d ! unat (current_mtd_partnum st))"
  using assms by (simp add: cur_part_def mtd_part_info_nth)

lemma mtd_invD:
  assumes "mtd_inv cfg st"
  shows "env_wf (ecfg cfg) (env st)" "distinct (devices st)"
    "a \<in> set (devices st) \<Longrightarrow> \<exists>d. dev_heap st a = Some d \<and> dev_ok st d"
    "current_mtd_dev st = Some c \<Longrightarrow> c \<in> set (devices st) \<and> (\<exists>d. dev_heap st c = Some d \<and> dev_ok st d \<and>
      unat (current_mtd_partnum st) < length (dev_parts d))"
  using assms by (fastforce simp: mtd_inv_def)+

lemma mtd_inv_cur:
  assumes "mtd_inv cfg st"
  shows "cur_ok st" "cur_id_ok st"
proof -
  show "cur_ok st" unfolding cur_ok_def
  proof (intro conjI ballI impI)
    fix a assume "a \<in> set (devices st)"
    from mtd_invD(3) [OF assms this] show "dev_heap st a \<noteq> None" by auto
  next
    assume "current_mtd_dev st \<noteq> None"
    then obtain c where c: "current_mtd_dev st = Some c" by blast
    from mtd_invD(4) [OF assms c] obtain d where d: "dev_heap st c = Some d" "dev_ok st d"
      "unat (current_mtd_partnum st) < length (dev_parts d)" by blast
    then have "cur_part st = Some (dev_parts d ! unat (current_mtd_partnum st))"
      using cur_part_nth [OF c d(1)] by (simp add: dev_ok_def)
    moreover have "NUL \<notin> set (p_name (dev_parts d ! unat (current_mtd_partnum st)))"
      using d(2,3) by (simp add: dev_ok_def)
    ultimately show "\<exists>p. cur_part st = Some p \<and> NUL \<notin> set (p_name p)" by blast
  qed
  show "cur_id_ok st" unfolding cur_id_ok_def
  proof (intro allI impI)
    fix c d assume "current_mtd_dev st = Some c" "dev_heap st c = Some d"
    with mtd_invD(4) [OF assms this(1)] show "id_at st (dev_id d) \<noteq> None" by (auto simp: dev_ok_def)
  qed
qed

text \<open>The invariant does not look at the texts, and of the environment only at its format.\<close>

lemma id_at_simps [simp]:
  "id_at (st\<lparr>env := e\<rparr>) a = id_at st a" "id_at (st\<lparr>last_partition := l\<rparr>) a = id_at st a"
  "id_at (st\<lparr>last_parts := l\<rparr>) a = id_at st a" "id_at (st\<lparr>core := c\<rparr>) a = id_at st a"
  "id_at (st\<lparr>current_mtd_partnum := n\<rparr>) a = id_at st a" "id_at (st\<lparr>current_mtd_dev := cd\<rparr>) a = id_at st a"
  "id_at (st\<lparr>devices := ds\<rparr>) a = id_at st a" "id_at (st\<lparr>dev_heap := h\<rparr>) a = id_at st a"
  "id_at (st\<lparr>heap_next := k\<rparr>) a = id_at st a"
  by (simp_all add: id_at_def)

lemma dev_ok_simps [simp]:
  "dev_ok (st\<lparr>env := e\<rparr>) d = dev_ok st d" "dev_ok (st\<lparr>last_partition := l\<rparr>) d = dev_ok st d"
  "dev_ok (st\<lparr>last_parts := l\<rparr>) d = dev_ok st d" "dev_ok (st\<lparr>core := c\<rparr>) d = dev_ok st d"
  "dev_ok (st\<lparr>current_mtd_partnum := n\<rparr>) d = dev_ok st d" "dev_ok (st\<lparr>current_mtd_dev := cd\<rparr>) d = dev_ok st d"
  "dev_ok (st\<lparr>devices := ds\<rparr>) d = dev_ok st d" "dev_ok (st\<lparr>dev_heap := h\<rparr>) d = dev_ok st d"
  "dev_ok (st\<lparr>heap_next := k\<rparr>) d = dev_ok st d"
  by (simp_all add: dev_ok_def)

lemma mtd_inv_env: "mtd_inv cfg st \<Longrightarrow> env_wf (ecfg cfg) e \<Longrightarrow> mtd_inv cfg (st\<lparr>env := e\<rparr>)"
  by (simp add: mtd_inv_def)

lemma mtd_inv_texts:
  "mtd_inv cfg (st\<lparr>last_partition := l\<rparr>) \<longleftrightarrow> mtd_inv cfg st"
  "mtd_inv cfg (st\<lparr>last_parts := l\<rparr>) \<longleftrightarrow> mtd_inv cfg st"
  "mtd_inv cfg (st\<lparr>core := c\<rparr>) \<longleftrightarrow> mtd_inv cfg st"
  by (simp_all add: mtd_inv_def)

text \<open>The two ways in which the operations end: \<open>index_partitions\<close> or \<open>current_save\<close>, in a state that
  satisfies the invariant.  \<open>same_tables\<close> says that only texts and the environment differ.\<close>

definition same_tables :: "mtd_state \<Rightarrow> mtd_state \<Rightarrow> bool" where
  "same_tables st st' \<longleftrightarrow> ids st' = ids st \<and> devices st' = devices st \<and> dev_heap st' = dev_heap st \<and>
     current_mtd_dev st' = current_mtd_dev st \<and> current_mtd_partnum st' = current_mtd_partnum st \<and>
     last_parts st' = last_parts st \<and> heap_next st' = heap_next st \<and> core st' = core st"

lemma same_tables_cur: "same_tables st st' \<Longrightarrow> cur_part st' = cur_part st"
  by (simp add: same_tables_def cur_part_def)

lemma index_partitions_inv:
  assumes "mtd_inv cfg st"
  obtains st' where "index_partitions cfg st = Some st'" and "mtd_inv cfg st'" and "same_tables st st'"
    and "env_change cfg (insert ''partition'' index_vars) (env st) (env st')"
proof -
  obtain e where e: "index_partitions cfg st = Some (st\<lparr>env := e\<rparr>)" "env_change cfg index_vars (env st) e"
    by (rule index_partitions_ok [OF mtd_invD(1) [OF assms] mtd_inv_cur(1) [OF assms]])
  moreover have "mtd_inv cfg (st\<lparr>env := e\<rparr>)" by (rule mtd_inv_env [OF assms env_change_wf [OF e(2)]])
  moreover have "env_change cfg (insert ''partition'' index_vars) (env st) e"
    by (rule env_change_mono [OF e(2)]) blast
  ultimately show ?thesis using that [of "st\<lparr>env := e\<rparr>"] by (simp add: same_tables_def)
qed

lemma current_save_inv:
  assumes "mtd_inv cfg st"
  obtains st' where "current_save cfg st = Some st'" and "mtd_inv cfg st'" and "same_tables st st'"
    and "env_change cfg (insert ''partition'' index_vars) (env st) (env st')"
    and "getenv (ecfg cfg) (env st') ''partition'' \<in> {Some (cur_text st), Some None}"
proof -
  let ?l = "case cur_text st of None \<Rightarrow> [] | Some t \<Rightarrow> t"
  obtain e where e: "current_save cfg st = Some (st\<lparr>last_partition := ?l, env := e\<rparr>)"
      "env_change cfg (insert ''partition'' index_vars) (env st) e"
      "getenv (ecfg cfg) e ''partition'' \<in> {Some (cur_text st), Some None}"
    by (rule current_save_ok [OF mtd_invD(1) [OF assms] mtd_inv_cur [OF assms]])
  moreover have "mtd_inv cfg (st\<lparr>last_partition := ?l, env := e\<rparr>)"
    using mtd_inv_env [OF _ env_change_wf [OF e(2)], of "st\<lparr>last_partition := ?l\<rparr>"] assms
    by (simp add: mtd_inv_texts)
  ultimately show ?thesis using that [of "st\<lparr>last_partition := ?l, env := e\<rparr>"]
    by (simp add: same_tables_def)
qed

section \<open>Adding a partition\<close>

lemma sort_scan_Inr:
  "sort_scan off i ps = Inr (j, at) \<Longrightarrow> \<exists>k. j = i + k \<and> k \<le> length ps \<and>
     (\<forall>p\<in>set (take k ps). p_offset p < off) \<and> at = (if k < length ps then Some (ps ! k) else None) \<and>
     (k < length ps \<longrightarrow> off \<le> p_offset (ps ! k))"
proof (induction off i ps rule: sort_scan.induct)
  case (2 off i p ps)
  show ?case
  proof (cases "off \<le> p_offset p")
    case True
    with 2 show ?thesis by (auto split: if_splits intro!: exI [of _ 0])
  next
    case False
    with 2 obtain k where "j = i + 1 + k" "k \<le> length ps" "\<forall>p\<in>set (take k ps). p_offset p < off"
      "at = (if k < length ps then Some (ps ! k) else None)" "k < length ps \<longrightarrow> off \<le> p_offset (ps ! k)"
      by (auto split: if_splits)
    with False show ?thesis by (intro exI [of _ "Suc k"]) auto
  qed
qed auto

lemma sort_scan_Inl: "sort_scan off i ps = Inl u \<longleftrightarrow> off = 0 \<and> ps \<noteq> [] \<and> p_offset (hd ps) = 0"
proof (induction off i ps rule: sort_scan.induct)
  case (2 off i p ps)
  then show ?case by (cases "off = 0") auto
qed auto

lemma mset_insert_at: "k \<le> length xs \<Longrightarrow> mset (insert_at k x xs) = add_mset x (mset xs)"
  by (metis append_take_drop_id insert_at_def mset_append mset.simps(2) union_mset_add_mset_right)

lemma set_insert_at: "k \<le> length xs \<Longrightarrow> set (insert_at k x xs) = insert x (set xs)"
  using mset_insert_at [of k xs x] by (metis set_mset_add_mset_insert set_mset_mset)

lemma length_insert_at: "k \<le> length xs \<Longrightarrow> length (insert_at k x xs) = Suc (length xs)"
  by (simp add: insert_at_def)

lemma nth_insert_at: "k \<le> length xs \<Longrightarrow> n < length xs \<Longrightarrow>
    insert_at k x xs ! (if k \<le> n then Suc n else n) = xs ! n"
  by (auto simp: insert_at_def nth_append min_def nth_Cons' Suc_diff_le)

lemma sorted_insert_at:
  assumes "sorted (map p_offset ps)" and "k \<le> length ps" and "\<forall>p\<in>set (take k ps). p_offset p < p_offset q"
    and "k < length ps \<longrightarrow> p_offset q \<le> p_offset (ps ! k)"
  shows "sorted (map p_offset (insert_at k q ps))"
proof -
  have "sorted (map p_offset (take k ps) @ map p_offset (drop k ps))"
    using assms(1) by (simp flip: map_append)
  moreover have "\<forall>p\<in>set (drop k ps). p_offset q \<le> p_offset p"
  proof (cases "k < length ps")
    case True
    then have "drop k ps = ps ! k # drop (Suc k) ps" by (simp add: Cons_nth_drop_Suc)
    with calculation assms(4) True show ?thesis by (auto simp: sorted_append)
  qed simp
  ultimately show ?thesis using assms(3)
    by (auto simp: insert_at_def sorted_append)
qed

lemma dev_ok_insert:
  assumes "dev_ok st d" and "k \<le> length (dev_parts d)" and "\<forall>p\<in>set (take k (dev_parts d)). p_offset p < p_offset q"
    and "k < length (dev_parts d) \<longrightarrow> p_offset q \<le> p_offset (dev_parts d ! k)"
    and "p_addr q \<notin> p_addr ` set (dev_parts d)" and "NUL \<notin> set (p_name q)" and "length (dev_parts d) < 255"
  shows "dev_ok st (d\<lparr>dev_parts := insert_at k q (dev_parts d), num_parts := num_parts d + 1\<rparr>)"
proof -
  have n: "unat (num_parts d) = length (dev_parts d)" using assms(1) by (simp add: dev_ok_def)
  have "unat (num_parts d + 1) = length (dev_parts d) + 1"
    using n assms(7) by (simp add: unat_word_ariths(1))
  moreover have "distinct (map p_addr (insert_at k q (dev_parts d)))"
  proof -
    have "distinct (map p_addr (take k (dev_parts d) @ drop k (dev_parts d)))"
      using assms(1) by (simp add: dev_ok_def)
    moreover have "set (take k (dev_parts d)) \<union> set (drop k (dev_parts d)) = set (dev_parts d)"
      by (metis append_take_drop_id set_append)
    ultimately show ?thesis using assms(5) unfolding insert_at_def map_append distinct_append list.map
      by auto
  qed
  ultimately show ?thesis using assms
    by (simp add: dev_ok_def set_insert_at length_insert_at sorted_insert_at) (simp add: insert_at_def)
qed

lemma mtd_inv_put:
  assumes inv: "mtd_inv cfg st" and dev: "dev \<in> set (devices st)" "dev_ok st d"
    and cur: "if current_mtd_dev st = Some dev then unat n < length (dev_parts d) else n = current_mtd_partnum st"
  shows "mtd_inv cfg (dev_put st dev d\<lparr>current_mtd_partnum := n\<rparr>)"
  unfolding mtd_inv_def
proof (intro conjI ballI allI impI)
  show "env_wf (ecfg cfg) (env (dev_put st dev d\<lparr>current_mtd_partnum := n\<rparr>))"
    "distinct (devices (dev_put st dev d\<lparr>current_mtd_partnum := n\<rparr>))"
    using mtd_invD(1,2) [OF inv] by (simp_all add: dev_put_def)
  fix a assume "a \<in> set (devices (dev_put st dev d\<lparr>current_mtd_partnum := n\<rparr>))"
  then show "\<exists>d'. dev_heap (dev_put st dev d\<lparr>current_mtd_partnum := n\<rparr>) a = Some d' \<and>
      dev_ok (dev_put st dev d\<lparr>current_mtd_partnum := n\<rparr>) d'"
    using mtd_invD(3) [OF inv, of a] dev(2) by (cases "a = dev") (simp_all add: dev_put_def)
next
  fix c assume "current_mtd_dev (dev_put st dev d\<lparr>current_mtd_partnum := n\<rparr>) = Some c"
  then have c: "current_mtd_dev st = Some c" by (simp add: dev_put_def)
  from mtd_invD(4) [OF inv c] show "c \<in> set (devices (dev_put st dev d\<lparr>current_mtd_partnum := n\<rparr>))"
    by (simp add: dev_put_def)
  from mtd_invD(4) [OF inv c] cur c
  show "\<exists>d'. dev_heap (dev_put st dev d\<lparr>current_mtd_partnum := n\<rparr>) c = Some d' \<and>
      unat (current_mtd_partnum (dev_put st dev d\<lparr>current_mtd_partnum := n\<rparr>)) < length (dev_parts d')"
    by (auto simp: dev_put_def)
qed

lemma part_sort_add_eq:
  assumes "dev_heap st dev = Some d" and "dev_parts d \<noteq> []"
    and "sort_scan (p_offset part) 0 (dev_parts d) = Inr (k, at)"
  defines "cpi \<equiv> (if Some dev = current_mtd_dev st then mtd_part_info d (ucast (current_mtd_partnum st)) else None)"
    and "st1 \<equiv> dev_put st dev (d\<lparr>dev_parts := insert_at k part (dev_parts d), num_parts := num_parts d + 1\<rparr>)"
  shows "part_sort_add cfg st dev part =
    do { st \<leftarrow> (if \<exists>pi cp. at = Some pi \<and> cpi = Some cp \<and> p_offset pi \<le> p_offset cp
                then current_save cfg (st1\<lparr>current_mtd_partnum := current_mtd_partnum st + 1\<rparr>)
                else index_partitions cfg st1);
         Some (0, st) }"
  using assms(1-3) unfolding part_sort_add_def cpi_def st1_def Let_def
  by (auto simp: dev_put_def split: option.splits)

text \<open>C19: \<open>part_sort_add\<close> puts a partition into the list of a device of the table: the list stays sorted by
  offset and has the new partition besides the old ones, \<open>num_parts\<close> follows, the other devices do not
  change, and \<open>current_mtd_partnum\<close> is adjusted so that the current partition is the same one as
  before.  Only a second partition at offset 0 is refused, and then nothing changes.\<close>

theorem part_sort_add_keeps:
  assumes inv: "mtd_inv cfg st" and dev: "dev \<in> set (devices st)" "dev_heap st dev = Some d"
    and len: "length (dev_parts d) < 255"
    and new: "p_addr part \<notin> p_addr ` set (dev_parts d)" "NUL \<notin> set (p_name part)"
  shows "if p_offset part = 0 \<and> p_offset (hd (dev_parts d)) = 0 then part_sort_add cfg st dev part = Some (1, st)
    else \<exists>st' d'. part_sort_add cfg st dev part = Some (0, st') \<and> mtd_inv cfg st' \<and>
      dev_heap st' = (dev_heap st)(dev \<mapsto> d') \<and> devices st' = devices st \<and>
      mset (dev_parts d') = add_mset part (mset (dev_parts d)) \<and> dev_id d' = dev_id d \<and>
      current_mtd_dev st' = current_mtd_dev st \<and> cur_part st' = cur_part st"
proof -
  have dok: "dev_ok st d" using mtd_invD(3) [OF inv dev(1)] dev(2) by auto
  then have ne: "dev_parts d \<noteq> []" and np: "unat (num_parts d) = length (dev_parts d)"
    and sorted: "sorted (map p_offset (dev_parts d))" by (simp_all add: dev_ok_def)
  show ?thesis
  proof (cases "sort_scan (p_offset part) 0 (dev_parts d)")
    case (Inl u)
    then have "p_offset part = 0 \<and> p_offset (hd (dev_parts d)) = 0" using sort_scan_Inl by blast
    with Inl dev ne show ?thesis by (simp add: part_sort_add_def)
  next
    case (Inr kat)
    obtain k at where scan: "sort_scan (p_offset part) 0 (dev_parts d) = Inr (k, at)"
      using Inr by (cases kat) auto
    then have no: "\<not> (p_offset part = 0 \<and> p_offset (hd (dev_parts d)) = 0)"
      using sort_scan_Inl [of "p_offset part" 0 "dev_parts d"] ne by auto
    from sort_scan_Inr [OF scan] have k: "k \<le> length (dev_parts d)"
      "\<forall>p\<in>set (take k (dev_parts d)). p_offset p < p_offset part"
      "at = (if k < length (dev_parts d) then Some (dev_parts d ! k) else None)"
      "k < length (dev_parts d) \<longrightarrow> p_offset part \<le> p_offset (dev_parts d ! k)" by auto
    define d' where "d' = d\<lparr>dev_parts := insert_at k part (dev_parts d), num_parts := num_parts d + 1\<rparr>"
    have dok': "dev_ok st d'"
      unfolding d'_def by (rule dev_ok_insert [OF dok k(1,2,4) new len])
    have len': "length (dev_parts d') = Suc (length (dev_parts d))"
      by (simp add: d'_def length_insert_at [OF k(1)])
    let ?n = "unat (current_mtd_partnum st)"
    define inc where "inc \<longleftrightarrow> current_mtd_dev st = Some dev \<and> k \<le> ?n"
    define m where "m = (if inc then current_mtd_partnum st + 1 else current_mtd_partnum st)"
    have n: "?n < length (dev_parts d)" if "current_mtd_dev st = Some dev"
      using mtd_invD(4) [OF inv that] dev(2) by auto
    have m: "unat m = (if inc then Suc ?n else ?n)"
      using n len by (auto simp: m_def inc_def unat_word_ariths(1))
    define st1 where "st1 = dev_put st dev d'\<lparr>current_mtd_partnum := m\<rparr>"
    have inv1: "mtd_inv cfg st1" unfolding st1_def
      by (rule mtd_inv_put [OF inv dev(1) dok']) (use n len' m in \<open>auto simp: inc_def m_def\<close>)
    have cur1: "cur_part st1 = cur_part st"
    proof (cases "current_mtd_dev st = Some dev")
      case True
      have "cur_part st1 = Some (dev_parts d' ! unat m)"
        using cur_part_nth [of st1 dev d'] True dok' n [OF True] len' m
        by (simp add: st1_def dev_put_def dev_ok_def)
      also have "\<dots> = Some (dev_parts d ! ?n)"
        using nth_insert_at [OF k(1) n [OF True], of part] m True by (simp add: d'_def inc_def)
      also have "\<dots> = cur_part st" using cur_part_nth [OF True dev(2) np n [OF True]] by simp
      finally show ?thesis .
    next
      case False
      then show ?thesis by (auto simp: cur_part_def st1_def dev_put_def m_def inc_def split: option.splits Option.bind_splits)
    qed
    let ?cpi = "if Some dev = current_mtd_dev st then mtd_part_info d (ucast (current_mtd_partnum st)) else None"
    have "(\<exists>pi cp. at = Some pi \<and> ?cpi = Some cp \<and> p_offset pi \<le> p_offset cp) \<longleftrightarrow> inc"
    proof (cases "current_mtd_dev st = Some dev")
      case True
      have "p_offset (dev_parts d ! k) \<le> p_offset (dev_parts d ! ?n) \<longleftrightarrow> k \<le> ?n" if "k < length (dev_parts d)"
      proof
        assume "k \<le> ?n"
        then show "p_offset (dev_parts d ! k) \<le> p_offset (dev_parts d ! ?n)"
          using sorted_nth_mono [OF sorted, of k ?n] n [OF True] that by simp
      next
        assume le: "p_offset (dev_parts d ! k) \<le> p_offset (dev_parts d ! ?n)"
        show "k \<le> ?n"
        proof (rule ccontr)
          assume "\<not> k \<le> ?n"
          then have "dev_parts d ! ?n \<in> set (take k (dev_parts d))"
            using k(1) by (auto simp: in_set_conv_nth intro!: exI [of _ ?n])
          with k(2,4) that le show False by (meson leD le_less_trans order_trans)
        qed
      qed
      with True n [OF True] k(3) show ?thesis by (auto simp: mtd_part_info_nth [OF np] inc_def)
    qed (auto simp: inc_def)
    then have "part_sort_add cfg st dev part =
        do { st \<leftarrow> (if inc then current_save cfg st1 else index_partitions cfg st1); Some (0, st) }"
      unfolding part_sort_add_eq [OF dev(2) ne scan] d'_def [symmetric] by (simp add: st1_def m_def dev_put_def)
    moreover obtain st' where "(if inc then current_save cfg st1 else index_partitions cfg st1) = Some st'"
        "mtd_inv cfg st'" "same_tables st1 st'"
    proof (cases inc)
      case True
      then show ?thesis using current_save_inv [OF inv1] that by auto
    next
      case False
      then show ?thesis using index_partitions_inv [OF inv1] that by auto
    qed
    moreover from this(3) have "cur_part st' = cur_part st" using same_tables_cur cur1 by simp
    ultimately show ?thesis using no
      by (auto simp: same_tables_def st1_def dev_put_def d'_def mset_insert_at [OF k(1)])
  qed
qed

text \<open>A table with one device whose partitions are given, the first being the current one.\<close>

definition demo_table :: "part_info list \<Rightarrow> u8 \<Rightarrow> mtd_state" where
  "demo_table ps n = (demo_mtd_state [])\<lparr>ids := [demo_id], devices := [9],
     dev_heap := [9 \<mapsto> \<lparr>dev_id = 0, num_parts = of_nat (length ps), dev_parts = ps\<rparr>],
     current_mtd_dev := Some 9, current_mtd_partnum := n, heap_next := 20, initialized := True\<rparr>"

lemma demo_env_repr: "\<forall>e\<in>set es. entry_ok e \<Longrightarrow> distinct (map entry_name es) \<Longrightarrow> length (enc es) + 2 \<le> 400 \<Longrightarrow>
    env_repr (env_buf (demo_mtd_env es)) es"
  unfolding env_repr_def
  by (intro conjI exI [of _ "replicate (399 - length (enc es)) NUL"])
    (auto simp: demo_mtd_env_def demo_env_def env_buf_def hd_replicate simp flip: replicate_Suc)

lemma demo_table_inv:
  assumes "ps \<noteq> []" and "length ps < 256" and "sorted (map p_offset ps)" and "distinct (map p_addr ps)"
    and "\<forall>p\<in>set ps. NUL \<notin> set (p_name p)" and "unat n < length ps"
  shows "mtd_inv demo_mtd_cfg (demo_table ps n)"
proof -
  have "env_wf (ecfg demo_mtd_cfg) (demo_mtd_env [])"
    using demo_env_repr [of "[]"]
    by (auto simp: env_wf_def demo_mtd_cfg_def demo_mtd_env_def demo_env_def env_buf_def)
  moreover have "unat (of_nat (length ps) :: u16) = length ps"
    using assms(2) by (simp add: unsigned_of_nat take_bit_nat_eq_self)
  ultimately show ?thesis using assms
    by (simp add: mtd_inv_def dev_ok_def demo_table_def demo_mtd_state_def id_at_def demo_id_def)
qed

abbreviation (input) demo_three :: "part_info list" where
  "demo_three \<equiv> [demo_part 1 ''boot'' 0x10000 0, demo_part 2 ''k'' 0x20000 0x10000, demo_part 3 ''root'' 0x10000 0x40000]"

theorem part_sort_add_keeps_witness:
  "\<exists>st'. part_sort_add demo_mtd_cfg (demo_table demo_three 2) 9 (demo_part 4 ''new'' 0x10000 0x30000) = Some (0, st') \<and>
    cur_part st' = Some (demo_part 3 ''root'' 0x10000 0x40000)"
proof -
  let ?st = "demo_table demo_three 2"
  have inv: "mtd_inv demo_mtd_cfg ?st" by (rule demo_table_inv) (simp_all add: demo_part_def)
  have d: "9 \<in> set (devices ?st)" "dev_heap ?st 9 = Some \<lparr>dev_id = 0, num_parts = 3, dev_parts = demo_three\<rparr>"
    by (simp_all add: demo_table_def)
  let ?d = "\<lparr>dev_id = 0, num_parts = 3, dev_parts = demo_three\<rparr>" and ?p = "demo_part 4 ''new'' 0x10000 0x30000"
  have c: "cur_part ?st = Some (demo_part 3 ''root'' 0x10000 0x40000)"
    by (simp add: cur_part_def demo_table_def mtd_part_info_def)
  have "length (dev_parts ?d) < 255" "p_addr ?p \<notin> p_addr ` set (dev_parts ?d)" "NUL \<notin> set (p_name ?p)"
    by (simp_all add: demo_part_def)
  note * = part_sort_add_keeps [OF inv d this]
  have "\<not> (p_offset ?p = 0 \<and> p_offset (hd (dev_parts ?d)) = 0)" by (simp add: demo_part_def)
  from * [unfolded if_not_P [OF this] c] show ?thesis by blast
qed

section \<open>Deleting a partition\<close>

lemma id_at_put [simp]: "id_at (dev_put st a d) b = id_at st b"
  by (simp add: dev_put_def)

lemma device_del_inv:
  assumes inv: "mtd_inv cfg st" and dev: "dev \<in> set (devices st)"
  shows "\<exists>st'. device_del cfg st dev = Some (0, st') \<and> mtd_inv cfg st' \<and>
    devices st' = remove1 dev (devices st) \<and> dev_heap st' = (dev_heap st)(dev := None) \<and>
    (if current_mtd_dev st = Some dev
     then current_mtd_dev st' = (if devices st' = [] then None else Some (hd (devices st'))) \<and>
       (devices st' \<noteq> [] \<longrightarrow> current_mtd_partnum st' = 0)
     else cur_part st' = cur_part st \<and> current_mtd_dev st' = current_mtd_dev st)"
proof -
  obtain d where d: "dev_heap st dev = Some d" using mtd_invD(3) [OF inv dev] by blast
  define ds where "ds = remove1 dev (devices st)"
  have ds: "removeAll dev (devices st) = ds" "distinct ds" "set ds = set (devices st) - {dev}"
    using mtd_invD(2) [OF inv] by (auto simp: ds_def distinct_remove1_removeAll [symmetric])
  define st1 where "st1 = st\<lparr>devices := ds, dev_heap := (dev_heap st)(dev := None)\<rparr>"
  have listed: "\<exists>d. dev_heap st1 a = Some d \<and> dev_ok st1 d" if "a \<in> set ds" for a
    using mtd_invD(3) [OF inv, of a] that ds(3) by (auto simp: st1_def)
  have wf: "env_wf (ecfg cfg) (env st1)" using mtd_invD(1) [OF inv] by (simp add: st1_def)
  show ?thesis
  proof (cases "current_mtd_dev st = Some dev")
    case True
    define st2 where "st2 = (case ds of [] \<Rightarrow> st1\<lparr>current_mtd_dev := None\<rparr>
        | a # _ \<Rightarrow> st1\<lparr>current_mtd_dev := Some a, current_mtd_partnum := 0\<rparr>)"
    have st2: "devices st2 = ds" "dev_heap st2 = (dev_heap st)(dev := None)"
      "current_mtd_dev st2 = (if ds = [] then None else Some (hd ds))"
      "ds \<noteq> [] \<longrightarrow> current_mtd_partnum st2 = 0"
      by (auto simp: st2_def st1_def split: list.splits)
    have "mtd_inv cfg st2" unfolding mtd_inv_def
    proof (intro conjI ballI allI impI)
      show "env_wf (ecfg cfg) (env st2)" using wf by (simp add: st2_def split: list.splits)
      show "distinct (devices st2)" using ds(2) st2(1) by simp
      show "\<exists>d. dev_heap st2 a = Some d \<and> dev_ok st2 d" if "a \<in> set (devices st2)" for a
        using listed [of a] that st2(1,2) by (auto simp: st2_def st1_def split: list.splits)
      fix c assume c: "current_mtd_dev st2 = Some c"
      then have "ds \<noteq> []" "c = hd ds" using st2(3) by (auto split: if_splits)
      then have "c \<in> set ds" by simp
      then show "c \<in> set (devices st2)" using st2(1) by simp
      from listed [OF \<open>c \<in> set ds\<close>] st2(4) \<open>ds \<noteq> []\<close>
      show "\<exists>d. dev_heap st2 c = Some d \<and> unat (current_mtd_partnum st2) < length (dev_parts d)"
        by (auto simp: st2(2) st1_def dev_ok_def)
    qed
    then obtain st' where "current_save cfg st2 = Some st'" "mtd_inv cfg st'" "same_tables st2 st'"
      by (rule current_save_inv)
    moreover have "device_del cfg st dev = do { st \<leftarrow> current_save cfg st2; Some (0, st) }"
      using d True by (cases ds) (simp_all add: device_del_def Let_def ds(1) st2_def st1_def)
    ultimately show ?thesis using True st2 by (auto simp: same_tables_def ds_def)
  next
    case False
    have "mtd_inv cfg st1" unfolding mtd_inv_def
    proof (intro conjI ballI allI impI)
      show "env_wf (ecfg cfg) (env st1)" by (rule wf)
      show "distinct (devices st1)" using ds(2) by (simp add: st1_def)
      show "\<exists>d. dev_heap st1 a = Some d \<and> dev_ok st1 d" if "a \<in> set (devices st1)" for a
        using listed [of a] that by (simp add: st1_def)
      fix c assume c: "current_mtd_dev st1 = Some c"
      then have "current_mtd_dev st = Some c" by (simp add: st1_def)
      with mtd_invD(4) [OF inv this] False ds(3) show "c \<in> set (devices st1)"
        "\<exists>d. dev_heap st1 c = Some d \<and> unat (current_mtd_partnum st1) < length (dev_parts d)"
        by (auto simp: st1_def)
    qed
    then obtain st' where st': "index_partitions cfg st1 = Some st'" "mtd_inv cfg st'" "same_tables st1 st'"
      by (rule index_partitions_inv)
    moreover have "device_del cfg st dev = do { st \<leftarrow> index_partitions cfg st1; Some (0, st) }"
      using d not_sym [OF False] by (simp add: device_del_def Let_def ds(1) st1_def)
    moreover have "cur_part st1 = cur_part st" using False
      by (auto simp: cur_part_def st1_def split: Option.bind_splits)
    ultimately show ?thesis using False same_tables_cur [OF st'(3)]
      by (auto simp: same_tables_def st1_def ds_def)
  qed
qed

lemma dev_put_partnum:
  "dev_put (st\<lparr>current_mtd_partnum := n\<rparr>) a d = dev_put st a d\<lparr>current_mtd_partnum := n\<rparr>"
  by (simp add: dev_put_def)

lemma filter_fresh: "p_addr x \<notin> p_addr ` set xs \<Longrightarrow> filter (\<lambda>p. p_addr p \<noteq> p_addr x) xs = xs"
  by (induction xs) auto

lemma filter_addr_mid:
  "distinct (map p_addr (xs @ x # ys)) \<Longrightarrow> filter (\<lambda>p. p_addr p \<noteq> p_addr x) (xs @ x # ys) = xs @ ys"
  by (simp add: filter_fresh disjoint_iff)

lemma filter_addr:
  assumes "distinct (map p_addr ps)" and "k < length ps"
  shows "filter (\<lambda>p. p_addr p \<noteq> p_addr (ps ! k)) ps = take k ps @ drop (Suc k) ps"
  using filter_addr_mid [of "take k ps" "ps ! k" "drop (Suc k) ps"] assms(1)
  unfolding id_take_nth_drop [OF assms(2), symmetric] by blast

lemma nth_delete: "k < length xs \<Longrightarrow> n < length xs \<Longrightarrow> n \<noteq> k \<Longrightarrow>
    (take k xs @ drop (Suc k) xs) ! (if k < n then n - 1 else n) = xs ! n"
  by (auto simp: nth_append min_def)

lemma length_delete: "k < length xs \<Longrightarrow> length (take k xs @ drop (Suc k) xs) = length xs - 1"
  by simp

lemma dev_ok_delete:
  assumes "dev_ok st d" and "k < length (dev_parts d)" and "length (dev_parts d) \<noteq> 1"
  defines "d' \<equiv> d\<lparr>dev_parts := take k (dev_parts d) @ drop (Suc k) (dev_parts d), num_parts := num_parts d - 1\<rparr>"
  shows "dev_ok st d'" and "length (dev_parts d') = length (dev_parts d) - 1"
proof -
  let ?ps = "dev_parts d"
  have ps: "?ps = take k ?ps @ ?ps ! k # drop (Suc k) ?ps" by (rule id_take_nth_drop [OF assms(2)])
  have len: "length (take k ?ps @ drop (Suc k) ?ps) = length ?ps - 1" by (rule length_delete [OF assms(2)])
  then show "length (dev_parts d') = length (dev_parts d) - 1" by (simp add: d'_def)
  have n: "unat (num_parts d) = length ?ps" using assms(1) by (simp add: dev_ok_def)
  then have "num_parts d \<noteq> 0" using assms(2) by auto
  then have "unat (num_parts d - 1) = length ?ps - 1" using n by (simp add: unat_minus_one)
  moreover have "sorted (map p_offset (take k ?ps @ ?ps ! k # drop (Suc k) ?ps))"
    "distinct (map p_addr (take k ?ps @ ?ps ! k # drop (Suc k) ?ps))"
    unfolding ps [symmetric] using assms(1) by (simp_all add: dev_ok_def)
  moreover have "set (take k ?ps) \<subseteq> set ?ps" "set (drop (Suc k) ?ps) \<subseteq> set ?ps"
    by (simp_all add: set_take_subset set_drop_subset)
  moreover have "take k ?ps @ drop (Suc k) ?ps \<noteq> []"
  proof -
    have "length (take k ?ps @ drop (Suc k) ?ps) \<noteq> 0" unfolding len using assms(2,3) by linarith
    then show ?thesis by (metis list.size(3))
  qed
  ultimately show "dev_ok st d'" using assms(1) len
    unfolding dev_ok_def d'_def by (auto simp: sorted_append)
qed

text \<open>C21: \<open>part_del\<close> of a partition of a device of the table whose offset no other partition of the device
  has.  With the last partition the device goes as well.  Otherwise exactly this partition
  disappears, the other devices do not change, and the current partition stays the same one, or
  becomes the first of the device when it was the deleted one.\<close>

theorem part_del_keeps:
  assumes inv: "mtd_inv cfg st" and dev: "dev \<in> set (devices st)" "dev_heap st dev = Some d"
    and k: "k < length (dev_parts d)"
    and uniq: "\<forall>j < length (dev_parts d). j \<noteq> k \<longrightarrow> p_offset (dev_parts d ! j) \<noteq> p_offset (dev_parts d ! k)"
  shows "\<exists>st'. part_del cfg st dev (dev_parts d ! k) = Some (0, st') \<and> mtd_inv cfg st' \<and>
    (if length (dev_parts d) = 1
     then devices st' = remove1 dev (devices st) \<and> dev_heap st' = (dev_heap st)(dev := None)
     else devices st' = devices st \<and> current_mtd_dev st' = current_mtd_dev st \<and>
       (\<exists>d'. dev_heap st' = (dev_heap st)(dev \<mapsto> d') \<and> dev_id d' = dev_id d \<and>
         dev_parts d' = take k (dev_parts d) @ drop (Suc k) (dev_parts d) \<and>
         cur_part st' = (if current_mtd_dev st = Some dev \<and> unat (current_mtd_partnum st) = k
           then Some (hd (dev_parts d')) else cur_part st)))"
proof -
  have dok: "dev_ok st d" using mtd_invD(3) [OF inv dev(1)] dev(2) by auto
  then have np: "unat (num_parts d) = length (dev_parts d)" and ad: "distinct (map p_addr (dev_parts d))"
    and sorted: "sorted (map p_offset (dev_parts d))" by (simp_all add: dev_ok_def)
  have one: "num_parts d = 1 \<longleftrightarrow> length (dev_parts d) = 1"
    using np by (metis unat_1 word_unat_eq_iff)
  show ?thesis
  proof (cases "length (dev_parts d) = 1")
    case True
    with device_del_inv [OF inv dev(1)] one dev(2) show ?thesis by (auto simp: part_del_def)
  next
    case False
    let ?n = "unat (current_mtd_partnum st)"
    let ?part = "dev_parts d ! k"
    define cur where "cur \<longleftrightarrow> current_mtd_dev st = Some dev"
    have n: "?n < length (dev_parts d)" if cur
      using mtd_invD(4) [OF inv, of dev] that dev(2) by (auto simp: cur_def)
    define d' where "d' = d\<lparr>dev_parts := take k (dev_parts d) @ drop (Suc k) (dev_parts d),
        num_parts := num_parts d - 1\<rparr>"
    have d': "dev_ok st d'" "length (dev_parts d') = length (dev_parts d) - 1"
      using dev_ok_delete [OF dok k False] by (simp_all add: d'_def)
    define m where "m = (if cur \<and> ?n = k then 0 else if cur \<and> k < ?n then current_mtd_partnum st - 1
        else current_mtd_partnum st)"
    have m: "unat m = (if cur \<and> ?n = k then 0 else if cur \<and> k < ?n then ?n - 1 else ?n)"
    proof -
      have "k < ?n \<Longrightarrow> current_mtd_partnum st \<noteq> 0" by auto
      then show ?thesis by (auto simp: m_def unat_minus_one)
    qed
    define st1 where "st1 = dev_put st dev d'\<lparr>current_mtd_partnum := m\<rparr>"
    have mlen: "unat m < length (dev_parts d')" if cur
      using n [OF that] m d'(2) k False that by auto
    have inv1: "mtd_inv cfg st1" unfolding st1_def
      by (rule mtd_inv_put [OF inv dev(1) d'(1)]) (use mlen in \<open>auto simp: cur_def m_def\<close>)
    have cur1: "cur_part st1 = (if cur \<and> ?n = k then Some (hd (dev_parts d')) else cur_part st)"
    proof (cases cur)
      case True
      have "dev_parts d' \<noteq> []" using d'(1) by (simp add: dev_ok_def)
      have "cur_part st1 = Some (dev_parts d' ! unat m)"
        using cur_part_nth [of st1 dev d'] True d'(1) mlen
        by (simp add: st1_def dev_put_def dev_ok_def cur_def)
      also have "\<dots> = (if ?n = k then Some (hd (dev_parts d')) else Some (dev_parts d ! ?n))"
        using nth_delete [OF k n [OF True]] m True \<open>dev_parts d' \<noteq> []\<close>
        by (auto simp: d'_def hd_conv_nth)
      finally show ?thesis using cur_part_nth [OF _ dev(2) np n] True by (simp add: cur_def)
    next
      case False
      then show ?thesis
        by (auto simp: cur_part_def st1_def dev_put_def m_def cur_def split: option.splits Option.bind_splits)
    qed
    have same: "p_addr (dev_parts d ! ?n) = p_addr ?part \<longleftrightarrow> ?n = k"
      and before: "p_offset ?part \<le> p_offset (dev_parts d ! ?n) \<longleftrightarrow> k \<le> ?n" if cur
    proof -
      show "p_addr (dev_parts d ! ?n) = p_addr ?part \<longleftrightarrow> ?n = k"
        using ad n [OF that] k by (auto simp: distinct_conv_nth)
      have mono: "i \<le> j \<Longrightarrow> j < length (dev_parts d) \<Longrightarrow> p_offset (dev_parts d ! i) \<le> p_offset (dev_parts d ! j)"
        for i j using sorted_nth_mono [OF sorted, of i j] by simp
      show "p_offset ?part \<le> p_offset (dev_parts d ! ?n) \<longleftrightarrow> k \<le> ?n"
        using mono [of k ?n] mono [of ?n k] uniq n [OF that] k by (metis antisym nat_le_linear)
    qed
    let ?curr = "if Some dev = current_mtd_dev st then mtd_part_info d (ucast (current_mtd_partnum st)) else None"
    have curr: "?curr = (if cur then Some (dev_parts d ! ?n) else None)"
      using n mtd_part_info_nth [OF np] by (auto simp: cur_def)
    have m': "m = (if cur then if p_addr (dev_parts d ! ?n) = p_addr ?part then 0
        else if p_offset ?part \<le> p_offset (dev_parts d ! ?n) then current_mtd_partnum st - 1
        else current_mtd_partnum st else current_mtd_partnum st)"
      using same before by (auto simp: m_def)
    have "part_del cfg st dev ?part =
        do { st \<leftarrow> (if cur then current_save cfg st1 else index_partitions cfg st1); Some (0, st) }"
      using one False unfolding part_del_def dev(2) Option.bind.bind_lunit Let_def curr filter_addr [OF ad k]
      by (auto simp: st1_def m' d'_def dev_put_partnum [symmetric] simp del: One_nat_def)
    moreover obtain st' where "(if cur then current_save cfg st1 else index_partitions cfg st1) = Some st'"
        "mtd_inv cfg st'" "same_tables st1 st'"
    proof (cases cur)
      case True
      then show ?thesis using current_save_inv [OF inv1] that by auto
    next
      case False
      then show ?thesis using index_partitions_inv [OF inv1] that by auto
    qed
    moreover from this(3) have "cur_part st' = cur_part st1" by (rule same_tables_cur)
    ultimately show ?thesis using False cur1
      by (auto simp: same_tables_def st1_def dev_put_def d'_def cur_def)
  qed
qed

theorem part_del_keeps_witness:
  "\<exists>st'. part_del demo_mtd_cfg (demo_table demo_three 2) 9 (demo_part 2 ''k'' 0x20000 0x10000) = Some (0, st') \<and>
    cur_part st' = Some (demo_part 3 ''root'' 0x10000 0x40000)"
proof -
  let ?st = "demo_table demo_three 2" and ?d = "\<lparr>dev_id = 0, num_parts = 3, dev_parts = demo_three\<rparr>"
  have inv: "mtd_inv demo_mtd_cfg ?st" by (rule demo_table_inv) (simp_all add: demo_part_def)
  have d: "9 \<in> set (devices ?st)" "dev_heap ?st 9 = Some ?d" by (simp_all add: demo_table_def)
  have k: "1 < length (dev_parts ?d)" by simp
  have c: "cur_part ?st = Some (demo_part 3 ''root'' 0x10000 0x40000)"
    by (simp add: cur_part_def demo_table_def mtd_part_info_def)
  have u: "\<forall>j < length (dev_parts ?d). j \<noteq> 1 \<longrightarrow> p_offset (dev_parts ?d ! j) \<noteq> p_offset (dev_parts ?d ! 1)"
    by (simp add: demo_part_def less_Suc_eq)
  have "length (dev_parts ?d) \<noteq> 1" "\<not> (current_mtd_dev ?st = Some 9 \<and> unat (current_mtd_partnum ?st) = 1)"
    by (simp_all add: demo_table_def)
  from part_del_keeps [OF inv d k u, unfolded if_not_P [OF this(1)] if_not_P [OF this(2)] c] show ?thesis
    by auto
qed

text \<open>C36: two partitions of a device can have the same offset.  When the first partition of the current
  device is the current one and another partition with its offset is deleted, the code takes it for
  one in front of the current partition and decrements \<open>current_mtd_partnum\<close> from 0 to 255;
  \<open>index_partitions\<close> then dereferences the null pointer that \<open>mtd_part_info\<close> returns (the fault
  \<open>None\<close>).\<close>

theorem part_del_same_offset_faults:
  assumes inv: "mtd_inv cfg st" and dev: "dev \<in> set (devices st)" "dev_heap st dev = Some d"
    and cur: "current_mtd_dev st = Some dev" "current_mtd_partnum st = 0"
    and k: "0 < k" "k < length (dev_parts d)" "length (dev_parts d) < 256"
    and same: "p_offset (dev_parts d ! k) = p_offset (dev_parts d ! 0)"
  shows "part_del cfg st dev (dev_parts d ! k) = None"
proof -
  have dok: "dev_ok st d" using mtd_invD(3) [OF inv dev(1)] dev(2) by auto
  then have np: "unat (num_parts d) = length (dev_parts d)" and ad: "distinct (map p_addr (dev_parts d))"
    by (simp_all add: dev_ok_def)
  have one: "num_parts d \<noteq> 1" using np k by auto
  have curr: "mtd_part_info d (ucast (current_mtd_partnum st)) = Some (dev_parts d ! 0)"
    using mtd_part_info_nth [OF np, of 0] k cur(2) by auto
  have "0 < length (dev_parts d)" using k by linarith
  with nth_eq_iff_index_eq [OF ad, of 0 k] k have ne: "p_addr (dev_parts d ! 0) \<noteq> p_addr (dev_parts d ! k)"
    by simp
  define d' where "d' = d\<lparr>dev_parts := take k (dev_parts d) @ drop (Suc k) (dev_parts d), num_parts := num_parts d - 1\<rparr>"
  have d': "dev_ok st d'" "length (dev_parts d') = length (dev_parts d) - 1"
    using dev_ok_delete [OF dok k(2)] k by (simp_all add: d'_def)
  define st1 where "st1 = dev_put (st\<lparr>current_mtd_partnum := - 1\<rparr>) dev d'"
  have del: "part_del cfg st dev (dev_parts d ! k) = do { st \<leftarrow> current_save cfg st1; Some (0, st) }"
    unfolding part_del_def dev(2) Option.bind.bind_lunit Let_def filter_addr [OF ad k(2)]
    using one ne curr cur same by (simp add: st1_def d'_def)
  have st1: "dev_heap st1 dev = Some d'" "current_mtd_dev st1 = Some dev" "current_mtd_partnum st1 = - 1"
    "env st1 = env st" by (simp_all add: st1_def dev_put_def cur)
  have "unat (- 1 :: u8) = 255" by (simp add: unsigned_minus_1_eq_mask mask_eq_exp_minus_1)
  then have none: "mtd_part_info d' (ucast (current_mtd_partnum st1)) = None"
    using mtd_part_info_nth [of d' "- 1"] d' k(3) st1(3) by (simp add: dev_ok_def)
  obtain i where i: "id_at st1 (dev_id d') = Some i"
    using d'(1) by (auto simp: dev_ok_def st1_def dev_put_def)
  obtain e where e: "env_set cfg st1 ''partition'' (Some (partition_text i (- 1))) = Some (st1\<lparr>env := e\<rparr>)"
    "env_change cfg {''partition''} (env st1) e"
    by (rule env_set_ok [of cfg st1, OF _ mtd_names(3), of "Some (partition_text i (- 1))"])
      (use mtd_invD(1) [OF inv] st1(4) in \<open>simp_all add: value_ok_def NUL_partition_text\<close>)
  define st2 where "st2 = st1\<lparr>env := e, last_partition := partition_text i (- 1)\<rparr>"
  have "current_save cfg st1 = index_partitions cfg st2"
    by (simp add: current_save_def st1 i Let_def e(1) [unfolded st1(3)] st2_def)
  also have "\<dots> = None"
    using none by (auto simp: index_partitions_def st2_def st1 split: option.splits Option.bind_splits
      dest!: env_set_state)
  finally show ?thesis using del by simp
qed

theorem part_del_same_offset_faults_witness:
  "part_del demo_mtd_cfg (demo_table [demo_part 1 ''a'' 0x10000 0x20000, demo_part 2 ''b'' 0x20000 0x20000] 0) 9
     (demo_part 2 ''b'' 0x20000 0x20000) = None"
proof -
  let ?ps = "[demo_part 1 ''a'' 0x10000 0x20000, demo_part 2 ''b'' 0x20000 0x20000]"
  let ?st = "demo_table ?ps 0" and ?d = "\<lparr>dev_id = 0, num_parts = 2, dev_parts = ?ps\<rparr>"
  have inv: "mtd_inv demo_mtd_cfg ?st" by (rule demo_table_inv) (simp_all add: demo_part_def)
  have d: "9 \<in> set (devices ?st)" "dev_heap ?st 9 = Some ?d" "current_mtd_dev ?st = Some 9"
    "current_mtd_partnum ?st = 0" by (simp_all add: demo_table_def)
  have k: "0 < (1 :: nat)" "1 < length (dev_parts ?d)" "length (dev_parts ?d) < 256"
    "p_offset (dev_parts ?d ! 1) = p_offset (dev_parts ?d ! 0)" by (simp_all add: demo_part_def)
  from part_del_same_offset_faults [OF inv d k] show ?thesis by simp
qed

end
