(* ===== verification/MtdPartsCmd.thy ===== *)
theory MtdPartsCmd
  imports MtdParts
begin

text \<open>
  The second half of \<open>common/cmd_mtdparts.c\<close>: parsing the variables \<open>mtdids\<close> and \<open>mtdparts\<close>, writing
  \<open>mtdparts\<close> back from the list of devices, looking up a partition by name or number, and the
  commands \<open>chpart\<close> and \<open>mtdparts\<close> with the initialisation that both start with.
\<close>

section \<open>Device ids\<close>

definition mtd_id_type :: "string \<Rightarrow> (u8 \<times> string) option" where
  "mtd_id_type s =
     (if strncmp_eq 4 s ''nand'' then Some (MTD_DEV_TYPE_NAND, drop 4 s)
      else if strncmp_eq 3 s ''nor'' then Some (MTD_DEV_TYPE_NOR, drop 3 s)
      else if strncmp_eq 7 s ''onenand'' then Some (MTD_DEV_TYPE_ONENAND, drop 7 s)
      else None)"

text \<open>\<open>mtd_id_parse\<close>: \<open>None\<close> is the return value 1; else what follows, the type and the number.\<close>

definition mtd_id_parse :: "mtd_cfg \<Rightarrow> string \<Rightarrow> (string \<times> u8 \<times> u8) option" where
  "mtd_id_parse cfg s =
     (case mtd_id_type s of None \<Rightarrow> None
      | Some (dev_type, p) \<Rightarrow>
          if \<not> is_digit (chr0 p) then None
          else let (v, p) = simple_strtoul (ecfg cfg) p 0 in Some (p, dev_type, ucast v))"

definition mtd_device_validate :: "mtd_state \<Rightarrow> u8 \<Rightarrow> u8 \<Rightarrow> (u32 option \<times> mtd_state) option" where
  "mtd_device_validate st type num =
     do { (r, c) \<leftarrow> get_mtd_device_nm (core st) (MTD_DEV_TYPE type @ dec (unat num));
          let st = st\<lparr>core := c\<rparr>;
          case r of Inl e \<Rightarrow> Some (None, st)
          | Inr a \<Rightarrow> do { m \<leftarrow> mtd_objs c a; Some (Some (ucast (mtd_size m)), st) } }"

section \<open>Writing \<open>mtdparts\<close>\<close>

text \<open>The writer of \<open>generate_mtdparts\<close> is the text stored so far and \<open>maxlen\<close>.  \<open>Some None\<close> is the jump
  to \<open>cleanup\<close>; a store behind the \<open>cap\<close> bytes of the buffer is a fault.\<close>

type_synonym writer = "string \<times> u32"

definition emit :: "nat \<Rightarrow> string \<Rightarrow> writer \<Rightarrow> writer option option" where
  "emit cap s w =
     (if of_nat (length s) > snd w then Some None
      else if length (fst w) + length s > cap then None
      else Some (Some (fst w @ s, snd w - of_nat (length s))))"

definition andthen :: "'a option option \<Rightarrow> ('a \<Rightarrow> 'b option option) \<Rightarrow> 'b option option" where
  "andthen r f = do { x \<leftarrow> r; case x of None \<Rightarrow> Some None | Some w \<Rightarrow> f w }"

definition gap_before :: "part_info option \<Rightarrow> part_info \<Rightarrow> bool" where
  "gap_before prev part =
     (case prev of None \<Rightarrow> p_offset part \<noteq> 0
      | Some q \<Rightarrow> p_offset q + p_size q \<noteq> p_offset part)"

definition gen_part :: "nat \<Rightarrow> part_info option \<Rightarrow> bool \<Rightarrow> part_info \<Rightarrow> writer \<Rightarrow> writer option option" where
  "gen_part cap prev sep part w =
     andthen (emit cap (memsize_format (p_size part)) w) (\<lambda>w.
     andthen (if gap_before prev part
              then emit cap (CHR ''@'' # memsize_format (p_offset part)) w else Some (Some w)) (\<lambda>w.
     andthen (if auto_name part then Some (Some w)
              else emit cap (CHR ''('' # p_name part @ '')'') w) (\<lambda>w.
     andthen (if mask_flags part \<noteq> 0 then emit cap ''ro'' w else Some (Some w)) (\<lambda>w.
     if sep then emit cap '','' w else Some (Some w)))))"

text \<open>\<open>n\<close> is \<open>dev->num_parts\<close>, \<open>cnt\<close> is \<open>part_cnt\<close>.\<close>

fun gen_parts ::
  "nat \<Rightarrow> u16 \<Rightarrow> u32 \<Rightarrow> part_info option \<Rightarrow> part_info list \<Rightarrow> writer \<Rightarrow> writer option option" where
  "gen_parts cap n cnt prev [] w = Some (Some w)"
| "gen_parts cap n cnt prev (p # ps) w =
     andthen (gen_part cap prev (ucast n > cnt + 1) p w) (gen_parts cap n (cnt + 1) (Some p) ps)"

fun gen_devices :: "nat \<Rightarrow> mtd_state \<Rightarrow> addr list \<Rightarrow> writer \<Rightarrow> writer option option" where
  "gen_devices cap st [] w = Some (Some w)"
| "gen_devices cap st (a # as) w =
     do { d \<leftarrow> dev_heap st a;
          i \<leftarrow> id_at st (dev_id d);
          andthen (emit cap (mtd_id i @ '':'') w) (\<lambda>w.
          andthen (gen_parts cap (num_parts d) 0 None (dev_parts d) w) (\<lambda>w.
          andthen (if as \<noteq> [] then emit cap '';'' w else Some (Some w))
            (gen_devices cap st as))) }"

text \<open>The text that \<open>buf\<close> holds afterwards, \<open>None\<close> for the return value 1; \<open>buflen\<close> is the size
  of \<open>buf\<close> in the calls of the code.\<close>

definition generate_mtdparts :: "mtd_state \<Rightarrow> nat \<Rightarrow> string option option" where
  "generate_mtdparts st buflen =
     (if devices st = [] then Some (Some [])
      else if buflen < 10 then None
      else do { r \<leftarrow> gen_devices buflen st (devices st) (''mtdparts='', of_nat buflen - 1);
                case r of None \<Rightarrow> Some None
                | Some (p, maxlen) \<Rightarrow> if length p < buflen then Some (Some p) else None })"

definition generate_mtdparts_save :: "mtd_cfg \<Rightarrow> mtd_state \<Rightarrow> (int \<times> mtd_state) option" where
  "generate_mtdparts_save cfg st =
     do { r \<leftarrow> generate_mtdparts st MTDPARTS_MAXLEN;
          case r of
            None \<Rightarrow> do { st \<leftarrow> env_set cfg (st\<lparr>last_parts := []\<rparr>) ''mtdparts'' None; Some (1, st) }
          | Some buf \<Rightarrow>
              do { let st = st\<lparr>last_parts := buf\<rparr>;
                   st \<leftarrow> (if buf \<noteq> [] then env_set cfg st ''mtdparts'' (Some buf)
                         else env_set cfg st ''mtdparts'' None);
                   Some (0, st) } }"

section \<open>Looking up a partition\<close>

fun find_name :: "string \<Rightarrow> u8 \<Rightarrow> part_info list \<Rightarrow> (u8 \<times> part_info) option" where
  "find_name name n [] = None"
| "find_name name n (p # ps) = (if p_name p = name then Some (n, p) else find_name name (n + 1) ps)"

fun find_by_name ::
  "mtd_state \<Rightarrow> string \<Rightarrow> addr list \<Rightarrow> (addr \<times> u8 \<times> part_info) option option" where
  "find_by_name st name [] = Some None"
| "find_by_name st name (a # as) =
     do { d \<leftarrow> dev_heap st a;
          case find_name name 0 (dev_parts d) of
            Some (n, p) \<Rightarrow> Some (Some (a, n, p))
          | None \<Rightarrow> find_by_name st name as }"

text \<open>\<open>find_dev_and_part\<close>: device, partition number and partition, or \<open>None\<close> for the return value 1.\<close>

definition find_dev_and_part ::
  "mtd_cfg \<Rightarrow> mtd_state \<Rightarrow> string \<Rightarrow> (addr \<times> u8 \<times> part_info) option option" where
  "find_dev_and_part cfg st ident =
     do { r \<leftarrow> find_by_name st ident (devices st);
          case r of Some x \<Rightarrow> Some (Some x)
          | None \<Rightarrow>
              (case mtd_id_parse cfg ident of None \<Rightarrow> Some None
               | Some (p, type, dnum) \<Rightarrow>
                   if chr0 p \<noteq> CHR '','' \<or> tl p = [] then Some None
                   else let (v, p) = simple_strtoul (ecfg cfg) (tl p) 0; pnum = (ucast v :: u8) in
                     if p \<noteq> [] then Some None
                     else do { found \<leftarrow> device_find st type dnum;
                       case found of None \<Rightarrow> Some None
                       | Some a \<Rightarrow>
                           do { d \<leftarrow> dev_heap st a;
                                case mtd_part_info d (ucast pnum) of None \<Rightarrow> Some None
                                | Some part \<Rightarrow> Some (Some (a, pnum, part)) } }) }"

definition delete_partition :: "mtd_cfg \<Rightarrow> mtd_state \<Rightarrow> string \<Rightarrow> (int \<times> mtd_state) option" where
  "delete_partition cfg st ident =
     do { r \<leftarrow> find_dev_and_part cfg st ident;
          case r of None \<Rightarrow> Some (1, st)
          | Some (dev, pnum, part) \<Rightarrow>
              do { (rc, st) \<leftarrow> part_del cfg st dev part;
                   if rc \<noteq> 0 then Some (1, st)
                   else do { (rc, st) \<leftarrow> generate_mtdparts_save cfg st;
                             Some (if rc \<noteq> 0 then 1 else 0, st) } } }"

section \<open>Parsing the variables\<close>

text \<open>The loop of \<open>parse_mtdparts\<close>; the result is \<open>err\<close>.\<close>

partial_function (option) parse_devices ::
  "mtd_cfg \<Rightarrow> mtd_state \<Rightarrow> string \<Rightarrow> (int \<times> mtd_state) option" where
  "parse_devices cfg st p =
     (if p = [] then Some (0, st)
      else do { (r, st) \<leftarrow> device_parse cfg st p False;
        case r of None \<Rightarrow> Some (1, st)
        | Some (p, dev) \<Rightarrow>
            do { d \<leftarrow> dev_heap st dev;
                 i \<leftarrow> id_at st (dev_id d);
                 found \<leftarrow> device_find st (id_type i) (id_num i);
                 if found \<noteq> None then Some (1, st)
                 else parse_devices cfg (st\<lparr>devices := devices st @ [dev]\<rparr>) p } })"

declare parse_devices.simps [code]

text \<open>The argument of \<open>parse_mtdparts\<close> is not used: the variable is read again.\<close>

definition parse_mtdparts :: "mtd_cfg \<Rightarrow> mtd_state \<Rightarrow> (int \<times> mtd_state) option" where
  "parse_mtdparts cfg st =
     do { (rc, st) \<leftarrow> mtd_devices_init cfg st;
          if rc \<noteq> 0 then Some (1, st)
          else do {
            v \<leftarrow> getenv (ecfg cfg) (env st) ''mtdparts'';
            p \<leftarrow> v;
            if \<not> strncmp_eq 9 p ''mtdparts='' then Some (1, st)
            else if drop 9 p = [] then Some (1, snd (device_delall st))
            else do { (err, st) \<leftarrow> parse_devices cfg st (drop 9 p);
                      if err = 1 then Some (1, snd (device_delall st)) else Some (0, st) } } }"

text \<open>One round of the loop of \<open>parse_mtdids\<close>: \<open>Inl True\<close> is the early \<open>return 1\<close>, \<open>Inl False\<close> a \<open>break\<close>
  with \<open>ret = 1\<close>, and \<open>Inr\<close> the position behind the entry (\<open>None\<close> for a null pointer).\<close>

definition parse_mtdid ::
  "mtd_cfg \<Rightarrow> mtd_state \<Rightarrow> string \<Rightarrow> ((bool + string option) \<times> mtd_state) option" where
  "parse_mtdid cfg st p =
     (case mtd_id_parse cfg p of None \<Rightarrow> Some (Inl False, st)
      | Some (p, type, num) \<Rightarrow>
          if chr0 p \<noteq> CHR ''='' then Some (Inl False, st)
          else do {
            let mtd_id = tl p;
            (r, st) \<leftarrow> mtd_device_validate st type num;
            case r of None \<Rightarrow> Some (Inl True, st)
            | Some sz \<Rightarrow>
                let (name, next_p) = (case strchr mtd_id (CHR '','') of
                      Some q \<Rightarrow> (take (length mtd_id - length q) mtd_id, Some (tl q))
                    | None \<Rightarrow> (mtd_id, None)) in
                if id_find st type num \<noteq> None then Some (Inl False, st)
                else (case malloc cfg st of
                    (None, st) \<Rightarrow> Some (Inl False, st)
                  | (Some a, st) \<Rightarrow>
                      Some (Inr next_p, st\<lparr>ids := ids st @
                        [\<lparr>id_addr = a, id_type = type, id_num = num, id_size = sz, mtd_id = name\<rparr>]\<rparr>)) })"

partial_function (option) parse_mtdids_loop ::
  "mtd_cfg \<Rightarrow> mtd_state \<Rightarrow> string option \<Rightarrow> int \<Rightarrow> (int \<times> mtd_state) option" where
  "parse_mtdids_loop cfg st p ret =
     (if p = None \<or> p = Some [] then Some (if ret = 1 then 1 else 0, if ret = 1 then st\<lparr>ids := []\<rparr> else st)
      else do { (r, st) \<leftarrow> parse_mtdid cfg st (the p);
                case r of Inl early \<Rightarrow> Some (1, if early then st else st\<lparr>ids := []\<rparr>)
                | Inr p \<Rightarrow> parse_mtdids_loop cfg st p 0 })"

declare parse_mtdids_loop.simps [code]

definition parse_mtdids :: "mtd_cfg \<Rightarrow> mtd_state \<Rightarrow> string \<Rightarrow> (int \<times> mtd_state) option" where
  "parse_mtdids cfg st ids_text =
     parse_mtdids_loop cfg (st\<lparr>ids := [], last_ids := []\<rparr>) (Some ids_text) 1"

section \<open>Initialisation\<close>

text \<open>\<open>mtdparts_init\<close> keeps the pointer that \<open>getenv\<close> returned for \<open>mtdparts\<close>, an index into the
  environment, while later calls rewrite the environment; \<open>env_str\<close> reads what is there at that time.\<close>

definition env_str :: "mtd_state \<Rightarrow> nat \<Rightarrow> string option" where
  "env_str st a = cstr_at (env_buf (env st)) a"

definition init_lists :: "mtd_state \<Rightarrow> mtd_state" where
  "init_lists st =
     (if initialized st then st
      else st\<lparr>ids := [], devices := [], last_ids := [], last_parts := [], last_partition := [],
              initialized := True\<rparr>)"

text \<open>The first half, up to the parsed ids: \<open>Inl rc\<close> is a return, else \<open>ids_changed\<close>.\<close>

definition init_ids ::
  "mtd_cfg \<Rightarrow> mtd_state \<Rightarrow> nat option \<Rightarrow> ((int + bool) \<times> mtd_state) option" where
  "init_ids cfg st parts =
     do { v \<leftarrow> getenv (ecfg cfg) (env st) ''mtdids'';
          case (case v of None \<Rightarrow> mtdids_default cfg | Some s \<Rightarrow> Some s) of
            None \<Rightarrow> Some (Inl 1, st)
          | Some ids_text \<Rightarrow>
              do { st \<leftarrow> (if v = None then env_set cfg st ''mtdids'' (Some ids_text) else Some st);
                   if length ids_text > MTDIDS_MAXLEN - 1 then Some (Inl 1, st)
                   else do {
                     len \<leftarrow> (case parts of None \<Rightarrow> Some 0
                       | Some a \<Rightarrow> do { s \<leftarrow> env_str st a; Some (length s) });
                     if len > MTDPARTS_MAXLEN - 1 then Some (Inl 1, st)
                     else if last_ids st \<noteq> [] \<and> last_ids st = ids_text then Some (Inr False, st)
                     else do { (rc, st) \<leftarrow> parse_mtdids cfg st ids_text;
                       if rc \<noteq> 0
                       then do { (_, st) \<leftarrow> mtd_devices_init cfg st; Some (Inl 1, st) }
                       else Some (Inr True, st\<lparr>last_ids := take MTDIDS_MAXLEN ids_text\<rparr>) } } } }"

definition init_parts ::
  "mtd_cfg \<Rightarrow> mtd_state \<Rightarrow> nat option \<Rightarrow> bool \<Rightarrow> (int \<times> mtd_state) option" where
  "init_parts cfg st parts ids_changed =
     (case parts of None \<Rightarrow> Some (0, st)
      | Some a \<Rightarrow>
          do { s \<leftarrow> env_str st a;
               if last_parts st = [] \<or> last_parts st \<noteq> s \<or> ids_changed
               then do { (rc, st) \<leftarrow> parse_mtdparts cfg st;
                 if rc \<noteq> 0 then Some (1, st)
                 else case devices st of [] \<Rightarrow> Some (1, st)
                   | d # _ \<Rightarrow>
                       do { s \<leftarrow> env_str st a;
                            st \<leftarrow> current_save cfg (st\<lparr>last_parts := take MTDPARTS_MAXLEN s,
                              current_mtd_dev := Some d, current_mtd_partnum := 0\<rparr>);
                            Some (0, st) } }
               else Some (0, st) })"

definition init_current ::
  "mtd_cfg \<Rightarrow> mtd_state \<Rightarrow> nat option \<Rightarrow> string \<Rightarrow> (int \<times> mtd_state) option" where
  "init_current cfg st parts tmp_ep =
     (if parts = None
      then if last_parts st \<noteq> [] then mtd_devices_init cfg st else Some (0, st)
      else if tmp_ep \<noteq> [] \<and> tmp_ep \<noteq> last_partition st
      then if length tmp_ep \<ge> PARTITION_MAXLEN then None
        else do { r \<leftarrow> find_dev_and_part cfg st tmp_ep;
             case r of None \<Rightarrow> Some (0, st)
             | Some (cdev, pnum, p) \<Rightarrow>
                 do { st \<leftarrow> current_save cfg
                        (st\<lparr>current_mtd_dev := Some cdev, current_mtd_partnum := pnum\<rparr>);
                      Some (0, st) } }
      else do { v \<leftarrow> getenv (ecfg cfg) (env st) ''partition'';
           if v = None then do { st \<leftarrow> current_save cfg st; Some (0, st) } else Some (0, st) })"

definition mtdparts_init :: "mtd_cfg \<Rightarrow> mtd_state \<Rightarrow> (int \<times> mtd_state) option" where
  "mtdparts_init cfg st =
     do { let st = init_lists st;
          parts \<leftarrow> getenv_addr (ecfg cfg) (env st) ''mtdparts'';
          cp \<leftarrow> getenv (ecfg cfg) (env st) ''partition'';
          let tmp_ep = (case cp of None \<Rightarrow> [] | Some s \<Rightarrow> take PARTITION_MAXLEN s);
          (r, st) \<leftarrow> init_ids cfg st parts;
          case r of Inl rc \<Rightarrow> Some (rc, st)
          | Inr ids_changed \<Rightarrow>
              do { (rc, st) \<leftarrow> init_parts cfg st parts ids_changed;
                   if rc \<noteq> 0 then Some (1, st) else init_current cfg st parts tmp_ep } }"

section \<open>The commands\<close>

definition do_chpart :: "mtd_cfg \<Rightarrow> mtd_state \<Rightarrow> string list \<Rightarrow> (int \<times> mtd_state) option" where
  "do_chpart cfg st argv =
     do { (rc, st) \<leftarrow> mtdparts_init cfg st;
          if rc \<noteq> 0 then Some (1, st)
          else if length argv < 2 then Some (1, st)
          else do { r \<leftarrow> find_dev_and_part cfg st (argv ! 1);
            case r of None \<Rightarrow> Some (1, st)
            | Some (dev, pnum, part) \<Rightarrow>
                do { st \<leftarrow> current_save cfg
                       (st\<lparr>current_mtd_dev := Some dev, current_mtd_partnum := pnum\<rparr>);
                     Some (0, st) } } }"

text \<open>\<open>list_partitions\<close>: what it prints of each device and of the active partition.\<close>

definition list_device ::
  "mtd_state \<Rightarrow> addr \<Rightarrow> (mtdids \<times> u16 \<times> (string \<times> u32 \<times> u32 \<times> u32) list) option" where
  "list_device st a =
     do { d \<leftarrow> dev_heap st a;
          i \<leftarrow> id_at st (dev_id d);
          Some (i, num_parts d,
            map (\<lambda>p. (p_name p, p_size p, p_offset p, mask_flags p)) (dev_parts d)) }"

fun list_devices ::
  "mtd_state \<Rightarrow> addr list \<Rightarrow> (mtdids \<times> u16 \<times> (string \<times> u32 \<times> u32 \<times> u32) list) list option" where
  "list_devices st [] = Some []"
| "list_devices st (a # as) =
     do { l \<leftarrow> list_device st a; ls \<leftarrow> list_devices st as; Some (l # ls) }"

definition list_partitions ::
  "mtd_state \<Rightarrow> ((mtdids \<times> u16 \<times> (string \<times> u32 \<times> u32 \<times> u32) list) list \<times>
     (string \<times> part_info) option) option" where
  "list_partitions st =
     do { ls \<leftarrow> list_devices st (devices st);
          act \<leftarrow> (case current_mtd_dev st of None \<Rightarrow> Some None
            | Some cur \<Rightarrow>
                do { d \<leftarrow> dev_heap st cur;
                     case mtd_part_info d (ucast (current_mtd_partnum st)) of
                       None \<Rightarrow> Some None
                     | Some part \<Rightarrow>
                         do { i \<leftarrow> id_at st (dev_id d);
                              Some (Some (partition_text i (current_mtd_partnum st), part)) } });
          Some (ls, act) }"

definition PART_ADD_DESC_MAXLEN :: nat where "PART_ADD_DESC_MAXLEN = 64"

text \<open>\<open>mtdparts add\<close>: \<open>argv[5]\<close> is a null pointer when there are five words.  \<open>len\<close> is an 8-bit
  sum; \<open>sprintf\<close> beyond the 64 bytes of \<open>tmpbuf\<close> is a fault.\<close>

definition add_len :: "mtdids \<Rightarrow> string list \<Rightarrow> u8" where
  "add_len i argv =
     of_nat (length (mtd_id i) + 1) + of_nat (length (argv ! 3)) + of_nat (length (argv ! 4) + 2)
     + (if length argv = 6 \<and> length (argv ! 5) = 2 then 2 else 0)"

definition add_text :: "mtdids \<Rightarrow> string list \<Rightarrow> string" where
  "add_text i argv = mtd_id i @ '':'' @ argv ! 3 @ ''('' @ argv ! 4 @ '')'' @
     (if length argv = 6 then argv ! 5 else [])"

definition mtdparts_add :: "mtd_cfg \<Rightarrow> mtd_state \<Rightarrow> string list \<Rightarrow> (int \<times> mtd_state) option" where
  "mtdparts_add cfg st argv =
     (case mtd_id_parse cfg (argv ! 2) of None \<Rightarrow> Some (1, st)
      | Some (_, type, num) \<Rightarrow>
          (case id_find st type num of None \<Rightarrow> Some (1, st)
           | Some i \<Rightarrow>
               if unat (add_len i argv) \<ge> PART_ADD_DESC_MAXLEN then Some (1, st)
               else if length (add_text i argv) \<ge> PART_ADD_DESC_MAXLEN then None
               else do { (r, st) \<leftarrow> device_parse cfg st (add_text i argv) True;
                 case r of None \<Rightarrow> Some (1, st)
                 | Some (_, dev) \<Rightarrow>
                     do { d \<leftarrow> dev_heap st dev;
                          i \<leftarrow> id_at st (dev_id d);
                          found \<leftarrow> device_find st (id_type i) (id_num i);
                          (rc, st) \<leftarrow> (case found of
                              None \<Rightarrow> do { st \<leftarrow> device_add cfg st dev; Some (0 :: int, st) }
                            | Some dev_tmp \<Rightarrow>
                                (case dev_parts d of [] \<Rightarrow> None
                                 | p # _ \<Rightarrow>
                                     do { (rc, st) \<leftarrow> part_add cfg st dev_tmp p;
                                          if rc \<noteq> 0 then device_del cfg st dev \<bind> (\<lambda>(_, st). Some (1, st))
                                          else Some (0, st) }));
                          if rc \<noteq> 0 then Some (1, st)
                          else do { (rc, st) \<leftarrow> generate_mtdparts_save cfg st;
                                    Some (if rc \<noteq> 0 then 1 else 0, st) } } }))"

definition do_mtdparts :: "mtd_cfg \<Rightarrow> mtd_state \<Rightarrow> string list \<Rightarrow> (int \<times> mtd_state) option" where
  "do_mtdparts cfg st argv =
     (if length argv = 2 \<and> argv ! 1 = ''default''
      then do { st \<leftarrow> env_set cfg st ''mtdids'' (mtdids_default cfg);
                st \<leftarrow> env_set cfg st ''mtdparts'' (mtdparts_default cfg);
                st \<leftarrow> env_set cfg st ''partition'' None;
                (_, st) \<leftarrow> mtdparts_init cfg st;
                Some (0, st) }
      else if length argv = 2 \<and> argv ! 1 = ''delall''
      then do { (_, st) \<leftarrow> mtdparts_init cfg st;
                st \<leftarrow> env_set cfg st ''mtdparts'' None;
                mtd_devices_init cfg st }
      else do { (rc, st) \<leftarrow> mtdparts_init cfg st;
        if rc \<noteq> 0 then Some (1, st)
        else if length argv = 1 then do { _ \<leftarrow> list_partitions st; Some (0, st) }
        else if (length argv = 5 \<or> length argv = 6) \<and> argv ! 1 = ''add'' then mtdparts_add cfg st argv
        else if length argv = 3 \<and> argv ! 1 = ''del'' then delete_partition cfg st (argv ! 2)
        else Some (1, st) })"

end
