(* ===== verification/MtdPartsLaws.thy ===== *)
theory MtdPartsLaws
  imports MtdPartsCmd
begin

text \<open>
  What the parser and the writer of \<open>mtdparts\<close> do: the text that \<open>generate_mtdparts\<close> stores and
  how much of the buffer it uses, that parsing it gives the same partitions back, that the parser's
  loop ends, how a partition is found by name or number, and what \<open>mtdparts add\<close> does with its
  arguments.
\<close>

section \<open>The text of a partition list\<close>

definition part_text :: "part_info option \<Rightarrow> part_info \<Rightarrow> string" where
  "part_text prev p = memsize_format (p_size p) @
     (if gap_before prev p then CHR ''@'' # memsize_format (p_offset p) else []) @
     (if auto_name p then [] else CHR ''('' # p_name p @ '')'') @
     (if mask_flags p \<noteq> 0 then ''ro'' else [])"

fun parts_text :: "part_info option \<Rightarrow> part_info list \<Rightarrow> string" where
  "parts_text prev [] = []"
| "parts_text prev (p # ps) = part_text prev p @ (if ps = [] then [] else '','') @ parts_text (Some p) ps"

fun devices_text :: "(mtdids \<times> part_info list) list \<Rightarrow> string" where
  "devices_text [] = []"
| "devices_text ((i, ps) # ds) =
     mtd_id i @ '':'' @ parts_text None ps @ (if ds = [] then [] else '';'') @ devices_text ds"

text \<open>What a step of the writer that has the text \<open>s\<close> to store does: it stores it and counts it off
  \<open>maxlen\<close>, when \<open>maxlen\<close> allows that and the buffer has the room; the code only tests the former.\<close>

definition writes :: "nat \<Rightarrow> string \<Rightarrow> writer \<Rightarrow> writer option option \<Rightarrow> bool" where
  "writes cap s w r \<longleftrightarrow>
     (if length s \<le> unat (snd w)
      then if length (fst w) + length s \<le> cap
        then \<exists>m. r = Some (Some (fst w @ s, m)) \<and> unat m + length s = unat (snd w)
        else r = None
      else r = Some None \<or> r = None)"

lemma emit_writes: "length s < 2 ^ 32 \<Longrightarrow> writes cap s w (emit cap s w)"
proof -
  assume len: "length s < 2 ^ 32"
  then have s: "unat (of_nat (length s) :: u32) = length s"
    by (simp add: unsigned_of_nat take_bit_nat_eq_self)
  then have "of_nat (length s) > snd w \<longleftrightarrow> \<not> length s \<le> unat (snd w)"
    by (auto simp: word_less_nat_alt)
  moreover have "unat (snd w - of_nat (length s)) + length s = unat (snd w)" if "length s \<le> unat (snd w)"
    using that s by (simp add: unat_sub word_le_nat_alt)
  ultimately show ?thesis by (auto simp: writes_def emit_def)
qed

lemma writes_nil: "length (fst w) \<le> cap \<Longrightarrow> writes cap [] w (Some (Some w))"
  by (cases w) (auto simp: writes_def)

lemma writes_room: "writes cap s w (Some (Some v)) \<Longrightarrow> length (fst v) \<le> cap"
  by (auto simp: writes_def split: if_splits)

lemma andthen_simps [simp]:
  "andthen None f = None" "andthen (Some None) f = Some None" "andthen (Some (Some v)) f = f v"
  by (simp_all add: andthen_def)

lemma andthen_writes:
  assumes "writes cap s w r" and "\<And>v. length (fst v) \<le> cap \<Longrightarrow> writes cap t v (f v)"
  shows "writes cap (s @ t) w (andthen r f)"
proof (cases "length s \<le> unat (snd w) \<and> length (fst w) + length s \<le> cap")
  case True
  with assms(1) obtain m where "r = Some (Some (fst w @ s, m))" "unat m + length s = unat (snd w)"
    by (auto simp: writes_def)
  with assms(2) [of "(fst w @ s, m)"] True show ?thesis
    by (auto simp: writes_def split: if_splits)
next
  case False
  with assms(1) have "r = None \<or> (r = Some None \<and> \<not> length s \<le> unat (snd w))"
    by (auto simp: writes_def split: if_splits)
  with False assms(1) show ?thesis by (auto simp: writes_def split: if_splits)
qed

lemma emit_if_writes:
  assumes "length s < 2 ^ 32" and "length (fst w) \<le> cap"
  shows "writes cap (if b then s else []) w (if b then emit cap s w else Some (Some w))"
  using assms emit_writes [of s cap w] by (auto simp: writes_nil)

lemma length_dec: "n < 10 ^ k \<Longrightarrow> 0 < k \<Longrightarrow> length (dec n) \<le> k"
proof (induction n arbitrary: k rule: dec.induct)
  case (1 n)
  show ?case
  proof (cases "n < 10")
    case True
    then show ?thesis using 1 by (subst dec.simps) simp
  next
    case False
    then obtain j where j: "k = Suc j" "0 < j" using 1(2,3) by (cases k; cases "k - 1") auto
    then have "n div 10 < 10 ^ j" using 1(2) by (simp add: less_mult_imp_div_less mult.commute)
    with 1(1) [OF False this j(2)] False j(1) show ?thesis by (subst dec.simps) simp
  qed
qed

lemma length_dec_word: "length (dec (unat (w :: u32))) \<le> 10"
proof (rule length_dec)
  have "unat w < 2 ^ LENGTH(32)" by (rule unsigned_less)
  then show "unat w < 10 ^ 10" by simp
qed simp

lemma length_memsize_format: "length (memsize_format w) \<le> 11"
  using length_dec_word [of "w div SIZE_GB"] length_dec_word [of "w div SIZE_MB"]
    length_dec_word [of "w div SIZE_KB"] length_dec_word [of w]
  by (auto simp: memsize_format_def)

lemma gen_part_writes:
  assumes "length (p_name p) < 2 ^ 31" and "length (fst w) \<le> cap"
  shows "writes cap (part_text prev p @ (if sep then '','' else [])) w (gen_part cap prev sep p w)"
proof -
  have small: "length (memsize_format v) < 2 ^ 32" "length (CHR ''@'' # memsize_format v) < 2 ^ 32" for v
    using length_memsize_format [of v] by simp_all
  have name: "length (CHR ''('' # p_name p @ '')'') < 2 ^ 32" using assms(1) by simp
  have nm: "writes cap (if auto_name p then [] else CHR ''('' # p_name p @ '')'') v
      (if auto_name p then Some (Some v) else emit cap (CHR ''('' # p_name p @ '')'') v)"
    if "length (fst v) \<le> cap" for v
    using emit_writes [OF name] that by (simp add: writes_nil)
  have "writes cap (memsize_format (p_size p) @
      (if gap_before prev p then CHR ''@'' # memsize_format (p_offset p) else []) @
      (if auto_name p then [] else CHR ''('' # p_name p @ '')'') @
      (if mask_flags p \<noteq> 0 then ''ro'' else []) @ (if sep then '','' else [])) w (gen_part cap prev sep p w)"
    unfolding gen_part_def
    by (intro andthen_writes emit_writes emit_if_writes nm small) simp_all
  then show ?thesis by (simp only: part_text_def append_assoc)
qed

lemma gen_parts_writes:
  assumes "unat n = unat cnt + length ps" and "\<forall>p\<in>set ps. length (p_name p) < 2 ^ 31" and "length (fst w) \<le> cap"
  shows "writes cap (parts_text prev ps) w (gen_parts cap n cnt prev ps w)"
  using assms
proof (induction ps arbitrary: cnt prev w)
  case Nil
  then show ?case by (simp add: writes_nil)
next
  case (Cons p ps)
  have "unat n < 2 ^ LENGTH(16)" by (rule unsigned_less)
  then have c1: "unat (cnt + 1) = unat cnt + 1" using Cons.prems(1) by (simp add: unat_word_ariths(1))
  then have sep: "ucast n > cnt + 1 \<longleftrightarrow> ps \<noteq> []"
    using Cons.prems(1) by (simp add: word_less_nat_alt unat_ucast_16_32)
  have "writes cap ((part_text prev p @ (if ps \<noteq> [] then '','' else [])) @ parts_text (Some p) ps) w
      (gen_parts cap n cnt prev (p # ps) w)"
    unfolding gen_parts.simps sep
    by (rule andthen_writes [OF gen_part_writes Cons.IH]) (use Cons.prems c1 in auto)
  then show ?case by (cases "ps = []") simp_all
qed

text \<open>The devices of a table, in order, with their ids.\<close>

fun device_views :: "mtd_state \<Rightarrow> addr list \<Rightarrow> (mtdids \<times> part_info list) list option" where
  "device_views st [] = Some []"
| "device_views st (a # as) =
     do { d \<leftarrow> dev_heap st a; i \<leftarrow> id_at st (dev_id d); vs \<leftarrow> device_views st as; Some ((i, dev_parts d) # vs) }"

definition texts_small :: "(mtdids \<times> part_info list) list \<Rightarrow> bool" where
  "texts_small ds \<longleftrightarrow> (\<forall>(i, ps)\<in>set ds. length (mtd_id i) < 2 ^ 31 \<and> (\<forall>p\<in>set ps. length (p_name p) < 2 ^ 31))"

definition counts_ok :: "mtd_state \<Rightarrow> addr list \<Rightarrow> bool" where
  "counts_ok st as \<longleftrightarrow> (\<forall>a\<in>set as. \<forall>d. dev_heap st a = Some d \<longrightarrow> unat (num_parts d) = length (dev_parts d))"

lemma gen_devices_writes:
  assumes "device_views st as = Some ds" and "counts_ok st as" and "texts_small ds" and "length (fst w) \<le> cap"
  shows "writes cap (devices_text ds) w (gen_devices cap st as w)"
  using assms
proof (induction as arbitrary: w ds)
  case Nil
  then show ?case by (simp add: writes_nil)
next
  case (Cons a as)
  from Cons.prems(1) obtain d i ds' where d: "dev_heap st a = Some d" "id_at st (dev_id d) = Some i"
    "device_views st as = Some ds'" "ds = (i, dev_parts d) # ds'" by (auto split: Option.bind_splits)
  have as: "as \<noteq> [] \<longleftrightarrow> ds' \<noteq> []" using d(3) by (cases as) (auto split: Option.bind_splits)
  have np: "unat (num_parts d) = unat (0 :: u32) + length (dev_parts d)"
    using Cons.prems(2) d(1) by (simp add: counts_ok_def)
  have small: "length (mtd_id i @ '':'') < 2 ^ 32" "\<forall>p\<in>set (dev_parts d). length (p_name p) < 2 ^ 31" "texts_small ds'"
    using Cons.prems(3) d(4) by (auto simp: texts_small_def)
  have counts: "counts_ok st as" using Cons.prems(2) by (simp add: counts_ok_def)
  have "writes cap ((mtd_id i @ '':'') @ (parts_text None (dev_parts d) @
      ((if as \<noteq> [] then '';'' else []) @ devices_text ds'))) w (gen_devices cap st (a # as) w)"
    unfolding gen_devices.simps d(1,2) Option.bind.bind_lunit
    by (intro andthen_writes emit_writes emit_if_writes gen_parts_writes Cons.IH small d(3) counts np) simp_all
  then show ?case using as d(4) by (cases "ds' = []") simp_all
qed

lemma generate_mtdparts_writes:
  assumes "devices st \<noteq> []" and "device_views st (devices st) = Some ds" and "counts_ok st (devices st)"
    and "texts_small ds" and "10 \<le> n" and "n < 2 ^ 31"
  obtains r :: "writer option option" where "generate_mtdparts st n = do { x \<leftarrow> r;
      case x of None \<Rightarrow> Some None | Some (p, maxlen) \<Rightarrow> if length p < n then Some (Some p) else None }"
    and "if length (devices_text ds) \<le> n - 1
      then if 9 + length (devices_text ds) \<le> n
        then \<exists>m. r = Some (Some (''mtdparts='' @ devices_text ds, m)) else r = None
      else r = Some None \<or> r = None"
proof -
  let ?w = "(''mtdparts='', of_nat n - 1 :: u32)"
  define r where "r = gen_devices n st (devices st) ?w"
  have "unat (of_nat n - 1 :: u32) = n - 1"
    using assms(5,6) by (simp add: unat_sub word_le_nat_alt unsigned_of_nat take_bit_nat_eq_self)
  moreover have "writes n (devices_text ds) ?w r" unfolding r_def
    by (rule gen_devices_writes [OF assms(2,3,4)]) (use assms(5) in simp)
  ultimately have w: "if length (devices_text ds) \<le> n - 1
      then if 9 + length (devices_text ds) \<le> n
        then \<exists>m. r = Some (Some (''mtdparts='' @ devices_text ds, m)) else r = None
      else r = Some None \<or> r = None"
    by (auto simp: writes_def split: if_splits)
  have "generate_mtdparts st n = do { x \<leftarrow> r;
      case x of None \<Rightarrow> Some None | Some (p, maxlen) \<Rightarrow> if length p < n then Some (Some p) else None }"
    using assms(1,5) by (simp add: generate_mtdparts_def r_def)
  then show ?thesis using w by (rule that)
qed

text \<open>C35: the text of \<open>generate_mtdparts\<close>, and its bound: \<open>maxlen\<close> starts as \<open>buflen - 1\<close> although nine
  bytes are already used by \<open>mtdparts=\<close>, so for a list of devices whose text has between \<open>buflen - 9\<close> and
  \<open>buflen - 1\<close> characters the code stores behind the end of the buffer (the fault \<open>None\<close>).\<close>

theorem generate_mtdparts_text:
  assumes "devices st \<noteq> []" and "device_views st (devices st) = Some ds" and "counts_ok st (devices st)"
    and "texts_small ds" and "10 \<le> n" and "n < 2 ^ 31"
  shows "generate_mtdparts st n \<in>
    (if length (devices_text ds) + 9 < n then {Some (Some (''mtdparts='' @ devices_text ds))}
     else if length (devices_text ds) < n then {None} else {Some None, None})"
  by (rule generate_mtdparts_writes [OF assms]) (use assms(5) in \<open>auto split: if_splits\<close>)

text \<open>The instance: 15 characters of devices in a buffer of 24 bytes.\<close>

theorem generate_mtdparts_text_witness:
  "generate_mtdparts (demo_table [demo_part 1 ''boot'' 0x10000 0] 0) 24 = None"
proof -
  let ?st = "demo_table [demo_part 1 ''boot'' 0x10000 0] 0"
  let ?ds = "[(demo_id, [demo_part 1 ''boot'' 0x10000 0])]"
  have views: "device_views ?st (devices ?st) = Some ?ds"
    by (simp add: demo_table_def id_at_def demo_id_def)
  have "devices ?st \<noteq> []" "counts_ok ?st (devices ?st)" "texts_small ?ds"
    by (simp_all add: demo_table_def counts_ok_def texts_small_def demo_id_def demo_part_def)
  moreover have "length (devices_text ?ds) = 15" by code_simp
  ultimately show ?thesis using generate_mtdparts_text [OF _ views, of 24] by simp
qed

section \<open>Parsing what was written\<close>

definition view :: "part_info \<Rightarrow> string \<times> bool \<times> u32 \<times> u32 \<times> u32" where
  "view p = (p_name p, auto_name p, p_size p, p_offset p, mask_flags p)"

text \<open>The partitions whose text can be read back: named by the user, and not smaller than the parser
  allows.\<close>

definition printable :: "part_info \<Rightarrow> bool" where
  "printable p \<longleftrightarrow> \<not> auto_name p \<and> p_name p \<noteq> [] \<and> CHR '')'' \<notin> set (p_name p) \<and>
     MIN_PART_SIZE \<le> p_size p \<and> p_size p \<noteq> SIZE_REMAINING \<and> p_offset p \<noteq> OFFSET_NOT_SPECIFIED \<and>
     mask_flags p \<in> {0, 1}"

lemma dec_hd: "is_digit (hd (dec n))"
  using dec_digits [of n] dec_nonempty [of n] by (metis hd_in_set list_all_iff)

lemma chr0_append: "s \<noteq> [] \<Longrightarrow> chr0 (s @ t) = hd s"
  by (cases s) auto

lemma chr0_memsize_format: "is_digit (chr0 (memsize_format w @ s))"
  by (simp add: memsize_format_def chr0_append dec_hd)

lemma strchr_name: "c \<notin> set n \<Longrightarrow> strchr (n @ c # s) c = Some (c # s)"
  by (auto simp: strchr_Some_iff)

lemma part_name_of_text:
  "n \<noteq> [] \<Longrightarrow> CHR '')'' \<notin> set n \<Longrightarrow> part_name_of (CHR ''('' # n @ CHR '')'' # s) = Some (Some n, s)"
  by (simp add: part_name_of_def strchr_name Let_def)

lemma part_options_text:
  assumes "chr0 s \<in> {CHR '','', CHR '';'', NUL}" and "f \<in> {0, 1}"
  shows "part_options ((if f \<noteq> 0 then ''ro'' else []) @ s) = (f, s)"
proof -
  have "\<not> strncmp_eq 2 s ''ro''" using assms(1) by (cases s) (auto simp: numeral_2_eq_2)
  moreover have "strncmp_eq 2 (''ro'' @ s) ''ro''" by (simp add: numeral_2_eq_2)
  ultimately show ?thesis using assms(2) by (auto simp: part_options_def)
qed

lemma part_parse_text:
  assumes cfg: "reads_decimal (simple_strtoul (ecfg cfg))" "\<forall>k. malloc_ok cfg k"
    and p: "printable p" and rest: "chr0 rest \<in> {CHR '','', CHR '';'', NUL}"
  shows "part_parse cfg st (part_text prev p @ rest) =
    (Some (if chr0 rest = CHR '','' then tl rest else rest,
      p\<lparr>p_addr := heap_next st, p_offset := (if gap_before prev p then p_offset p else OFFSET_NOT_SPECIFIED),
        sector_size := 0\<rparr>), st\<lparr>heap_next := heap_next st + 1\<rparr>)"
proof -
  define C where "C = (if mask_flags p \<noteq> 0 then ''ro'' else []) @ rest"
  define B where "B = CHR ''('' # p_name p @ CHR '')'' # C"
  define A where "A = (if gap_before prev p then CHR ''@'' # memsize_format (p_offset p) else []) @ B"
  have tx: "part_text prev p @ rest = memsize_format (p_size p) @ A"
    using p by (simp add: part_text_def A_def B_def C_def printable_def)
  have d: "chr0 (part_text prev p @ rest) \<noteq> CHR ''-''"
    using chr0_memsize_format [of "p_size p" A] by (auto simp: tx is_digit_def)
  have "ends_size A" "ends_size B" by (simp_all add: ends_size_def A_def B_def)
  then have sz: "memsize_parse cfg (part_text prev p @ rest) = (p_size p, A)"
    and off: "memsize_parse cfg (memsize_format (p_offset p) @ B) = (p_offset p, B)"
    using memsize_parse_format [OF cfg(1)] tx by auto
  have at: "(if chr0 A = CHR ''@'' then memsize_parse cfg (tl A) else (OFFSET_NOT_SPECIFIED, A)) =
      (if gap_before prev p then p_offset p else OFFSET_NOT_SPECIFIED, B)"
    using off by (auto simp: A_def B_def)
  have nm: "part_name_of B = Some (Some (p_name p), C)"
    unfolding B_def by (rule part_name_of_text) (use p in \<open>auto simp: printable_def\<close>)
  have opt: "part_options C = (mask_flags p, rest)"
    unfolding C_def by (rule part_options_text [OF rest]) (use p in \<open>auto simp: printable_def\<close>)
  have size: "\<not> p_size p < MIN_PART_SIZE" "p_size p \<noteq> SIZE_REMAINING" "\<not> auto_name p"
    using p by (auto simp: printable_def)
  have m: "malloc cfg st = (Some (heap_next st), st\<lparr>heap_next := heap_next st + 1\<rparr>)"
    using cfg(2) by (simp add: malloc_def)
  show ?thesis
    unfolding part_parse_def if_not_P [OF d] sz Let_def case_prod_conv at nm option.case opt m
    using d size rest by (cases p) auto
qed

text \<open>The flash device \<open>nm\<close> is in the registry, with these erase blocks.\<close>

definition flash_at :: "mtd_core \<Rightarrow> string \<Rightarrow> mtd_info \<Rightarrow> bool" where
  "flash_at c nm m \<longleftrightarrow> (\<exists>a m'. find_nm c nm (mtd_table c) = Some (Some a) \<and> mtd_objs c a = Some m' \<and>
     erasesize m' = erasesize m \<and> eraseregions m' = eraseregions m)"

lemma find_nm_usecount:
  "mtd_objs c a = Some m \<Longrightarrow> find_nm (mtd_set c a (m\<lparr>usecount := k\<rparr>)) nm t = find_nm c nm t"
proof (induction t)
  case (Cons x t)
  show ?case
  proof (cases x)
    case (Some b)
    with Cons show ?thesis by (cases "mtd_objs c b") (auto simp: mtd_set_def)
  qed (use Cons in simp)
qed simp

lemma get_nm_flash:
  assumes "flash_at c nm m"
  shows "\<exists>a c' m'. get_mtd_device_nm c nm = Some (Inr a, c') \<and> mtd_objs c' a = Some m' \<and>
    erasesize m' = erasesize m \<and> eraseregions m' = eraseregions m \<and>
    (\<forall>nm m. flash_at c nm m \<longrightarrow> flash_at c' nm m)"
proof -
  obtain a m' where a: "find_nm c nm (mtd_table c) = Some (Some a)" "mtd_objs c a = Some m'"
    "erasesize m' = erasesize m" "eraseregions m' = eraseregions m" using assms by (auto simp: flash_at_def)
  define c' where "c' = mtd_set c a (m'\<lparr>usecount := usecount m' + 1\<rparr>)"
  have get: "get_mtd_device_nm c nm = Some (Inr a, c')" using a by (simp add: get_mtd_device_nm_def c'_def)
  have keep: "flash_at c' nm2 m2" if fl: "flash_at c nm2 m2" for nm2 m2
  proof -
    obtain b mb where b: "find_nm c nm2 (mtd_table c) = Some (Some b)" "mtd_objs c b = Some mb"
      "erasesize mb = erasesize m2" "eraseregions mb = eraseregions m2" using fl by (auto simp: flash_at_def)
    have "find_nm c' nm2 (mtd_table c') = Some (Some b)"
      using b(1) find_nm_usecount [OF a(2)] by (simp add: c'_def) (simp add: mtd_set_def)
    moreover have "\<exists>x. mtd_objs c' b = Some x \<and> erasesize x = erasesize m2 \<and> eraseregions x = eraseregions m2"
      using a(2) b by (cases "a = b") (auto simp: c'_def mtd_set_def)
    ultimately show ?thesis by (auto simp: flash_at_def)
  qed
  have "mtd_objs c' a = Some (m'\<lparr>usecount := usecount m' + 1\<rparr>)" by (simp add: c'_def mtd_set_def)
  with get keep a(3,4) show ?thesis
    by (intro exI [of _ a] exI [of _ c'] exI [of _ "m'\<lparr>usecount := usecount m' + 1\<rparr>"]) simp
qed

abbreviation (input) id_name :: "mtdids \<Rightarrow> string" where
  "id_name i \<equiv> MTD_DEV_TYPE (id_type i) @ dec (unat (id_num i))"

text \<open>A partition that the parser accepts on the device \<open>i\<close>.\<close>

definition fits :: "mtdids \<Rightarrow> mtd_info \<Rightarrow> part_info \<Rightarrow> bool" where
  "fits i m p \<longleftrightarrow> unat (p_offset p) + unat (p_size p) \<le> unat (id_size i) \<and> p_size p \<noteq> 0 \<and>
     p_size p \<noteq> SIZE_REMAINING \<and> aligned_on m (p_offset p) (p_size p)"

lemma fits_accepted:
  assumes "flash_at (core st) (id_name i) m" and "erasesize m \<noteq> 0" and "fits i m p"
  shows "\<exists>c. part_validate st i p = Some (0, p\<lparr>sector_size := erasesize m\<rparr>, st\<lparr>core := c\<rparr>) \<and>
    (\<forall>nm m. flash_at (core st) nm m \<longrightarrow> flash_at c nm m)"
proof -
  obtain a c' m' where get: "get_mtd_device_nm (core st) (id_name i) = Some (Inr a, c')" "mtd_objs c' a = Some m'"
    "erasesize m' = erasesize m" "eraseregions m' = eraseregions m"
    "\<forall>nm m. flash_at (core st) nm m \<longrightarrow> flash_at c' nm m"
    using get_nm_flash [OF assms(1)] by blast
  have "aligned_on m' (p_offset p) (p_size p) = aligned_on m (p_offset p) (p_size p)"
    unfolding aligned_on_def get(3,4) ..
  then have "real_size i p = p_size p" "aligned_on m' (p_offset p) (p_size p)"
    using assms(3) by (simp_all add: fits_def real_size_def)
  moreover have "erasesize m' \<noteq> 0" using get(3) assms(2) by simp
  note part_validate_cases [OF get(1,2) this, of p]
  ultimately have "part_validate st i p = Some (0, p\<lparr>p_size := p_size p, sector_size := erasesize m'\<rparr>, st\<lparr>core := c'\<rparr>)"
    using assms(3) by (simp add: fits_def)
  then show ?thesis using get(3,5) by auto
qed

definition block_end :: "part_info option \<Rightarrow> u32" where
  "block_end prev = (case prev of None \<Rightarrow> 0 | Some q \<Rightarrow> p_offset q + p_size q)"

lemma gap_before_iff: "gap_before prev p \<longleftrightarrow> p_offset p \<noteq> block_end prev"
  by (auto simp: gap_before_def block_end_def split: option.splits)

text \<open>What the loop of \<open>device_parse\<close> makes of the text of a list of partitions: the same partitions, at
  fresh addresses.\<close>

definition reread :: "nat \<Rightarrow> mtd_info \<Rightarrow> part_info list \<Rightarrow> part_info list" where
  "reread k m ps = map (\<lambda>(p, a). p\<lparr>p_addr := a, sector_size := erasesize m\<rparr>) (zip ps [k..<k + length ps])"

lemma reread_Cons: "reread k m (p # ps) = p\<lparr>p_addr := k, sector_size := erasesize m\<rparr> # reread (k + 1) m ps"
  by (simp add: reread_def upt_conv_Cons del: upt_Suc)

lemma reread_fields: "map view (reread k m ps) = map view ps" "map p_offset (reread k m ps) = map p_offset ps"
  "map p_addr (reread k m ps) = [k..<k + length ps]" "length (reread k m ps) = length ps"
proof -
  have "map view (reread k m ps) = map view ps \<and> map p_offset (reread k m ps) = map p_offset ps \<and>
      map p_addr (reread k m ps) = [k..<k + length ps]"
  proof (induction ps arbitrary: k)
    case (Cons p ps)
    then show ?case by (simp add: reread_Cons view_def upt_conv_Cons del: upt_Suc)
  qed (simp add: reread_def)
  then show "map view (reread k m ps) = map view ps" "map p_offset (reread k m ps) = map p_offset ps"
    "map p_addr (reread k m ps) = [k..<k + length ps]" by simp_all
qed (simp add: reread_def)

lemma device_parse_loop_step:
  assumes "s \<noteq> []" and "hd s \<noteq> CHR '';''" and "part_parse cfg st s = (Some (r, q), st1)"
    and "(if p_offset q = OFFSET_NOT_SPECIFIED then offset else p_offset q) = off"
    and "part_validate st1 i (q\<lparr>p_offset := off\<rparr>) = Some (0, q', st2)"
  shows "device_parse_loop cfg i st s offset tmp n =
    device_parse_loop cfg i st2 r (off + p_size q') (tmp @ [q']) (n + 1)"
  using assms by (subst device_parse_loop.simps) (simp add: Let_def)

lemma device_parse_loop_text:
  assumes cfg: "reads_decimal (simple_strtoul (ecfg cfg))" "\<forall>k. malloc_ok cfg k"
    and ps: "\<forall>p\<in>set ps. printable p \<and> fits i m p" and m: "erasesize m \<noteq> 0"
    and rest: "rest = [] \<or> hd rest = CHR '';''"
  shows "flash_at (core st) (id_name i) m \<Longrightarrow>
    \<exists>c. device_parse_loop cfg i st (parts_text prev ps @ rest) (block_end prev) tmp n =
      Some (Some (rest, tmp @ reread (heap_next st) m ps, n + of_nat (length ps)),
        st\<lparr>heap_next := heap_next st + length ps, core := c\<rparr>) \<and>
      (\<forall>nm m. flash_at (core st) nm m \<longrightarrow> flash_at c nm m)"
  using ps
proof (induction ps arbitrary: st prev tmp n)
  case Nil
  then show ?case using rest
    by (subst device_parse_loop.simps) (auto simp: reread_def intro!: exI [of _ "core st"])
next
  case (Cons p ps)
  have p: "printable p" "fits i m p" using Cons.prems(2) by auto
  define more where "more = (if ps = [] then [] else '','') @ parts_text (Some p) ps @ rest"
  have text_eq: "parts_text prev (p # ps) @ rest = part_text prev p @ more" by (simp add: more_def)
  have more: "chr0 more \<in> {CHR '','', CHR '';'', NUL}"
    using rest by (cases rest) (auto simp: more_def)
  have ret: "(if chr0 more = CHR '','' then tl more else more) = parts_text (Some p) ps @ rest"
    using rest by (cases rest) (auto simp: more_def)
  have first: "is_digit (chr0 (part_text prev p @ more))"
    unfolding part_text_def append_assoc by (rule chr0_memsize_format)
  then have go: "\<not> (part_text prev p @ more = [] \<or> hd (part_text prev p @ more) = CHR '';'')"
    by (cases "part_text prev p @ more") (auto simp: is_digit_def)
  let ?p = "p\<lparr>p_addr := heap_next st, p_offset := (if gap_before prev p then p_offset p else OFFSET_NOT_SPECIFIED),
      sector_size := 0\<rparr>"
  have parse: "part_parse cfg st (part_text prev p @ more) =
      (Some (parts_text (Some p) ps @ rest, ?p), st\<lparr>heap_next := heap_next st + 1\<rparr>)"
    using part_parse_text [OF cfg p(1) more] ret by simp
  have off: "(if p_offset ?p = OFFSET_NOT_SPECIFIED then block_end prev else p_offset ?p) = p_offset p"
    using p(1) by (auto simp: gap_before_iff printable_def)
  let ?q = "p\<lparr>p_addr := heap_next st, sector_size := 0\<rparr>"
  have q: "?p\<lparr>p_offset := p_offset p\<rparr> = ?q" by simp
  obtain c1 where c1: "part_validate (st\<lparr>heap_next := heap_next st + 1\<rparr>) i ?q =
      Some (0, ?q\<lparr>sector_size := erasesize m\<rparr>, st\<lparr>heap_next := heap_next st + 1, core := c1\<rparr>)"
      "\<forall>nm m. flash_at (core st) nm m \<longrightarrow> flash_at c1 nm m"
    using fits_accepted [of "st\<lparr>heap_next := heap_next st + 1\<rparr>" i m ?q] Cons.prems(1) p(2) m
    by (auto simp: fits_def)
  let ?st1 = "st\<lparr>heap_next := heap_next st + 1, core := c1\<rparr>" and ?r = "p\<lparr>p_addr := heap_next st, sector_size := erasesize m\<rparr>"
  have step: "device_parse_loop cfg i st (parts_text prev (p # ps) @ rest) (block_end prev) tmp n =
      device_parse_loop cfg i ?st1 (parts_text (Some p) ps @ rest) (block_end (Some p)) (tmp @ [?r]) (n + 1)"
    unfolding text_eq
    using device_parse_loop_step [OF _ _ parse off, of i "?q\<lparr>sector_size := erasesize m\<rparr>" ?st1 tmp n] go c1(1)
    by (simp add: q block_end_def)
  obtain c2 where "device_parse_loop cfg i ?st1 (parts_text (Some p) ps @ rest) (block_end (Some p)) (tmp @ [?r]) (n + 1) =
      Some (Some (rest, (tmp @ [?r]) @ reread (heap_next st + 1) m ps, n + 1 + of_nat (length ps)),
        st\<lparr>heap_next := heap_next st + 1 + length ps, core := c2\<rparr>)"
      "\<forall>nm m. flash_at c1 nm m \<longrightarrow> flash_at c2 nm m"
    using Cons.IH [of ?st1 "Some p" "tmp @ [?r]" "n + 1"] Cons.prems c1(2) by auto
  with step c1(2) show ?case by (auto simp: reread_Cons algebra_simps intro!: exI [of _ c2])
qed

text \<open>Building the device: the partitions arrive in strictly ascending order, so each goes to the end.\<close>

lemma sort_scan_end: "\<forall>p\<in>set ps. p_offset p < off \<Longrightarrow> sort_scan off i ps = Inr (i + length ps, None)"
  by (induction ps arbitrary: i) auto

lemma move_parts_sorted:
  assumes "env_wf (ecfg cfg) (env st)" and "cur_ok st" and "dev \<notin> set (devices st)"
    and "current_mtd_dev st \<noteq> Some dev" and "dev_heap st dev = Some d"
    and "sorted_wrt (<) (map p_offset (dev_parts d @ ps))"
  shows "\<exists>e. env_change cfg index_vars (env st) e \<and> move_parts cfg st dev ps =
    Some (0, dev_put st dev (d\<lparr>dev_parts := dev_parts d @ ps, num_parts := num_parts d + of_nat (length ps)\<rparr>)\<lparr>env := e\<rparr>)"
  using assms
proof (induction ps arbitrary: st d)
  case Nil
  then have "dev_put st dev d\<lparr>env := env st\<rparr> = st" by (simp add: dev_put_def fun_upd_idem)
  with Nil show ?case by (intro exI [of _ "env st"]) (simp add: env_change_def)
next
  case (Cons p ps)
  let ?d = "d\<lparr>dev_parts := dev_parts d @ [p], num_parts := num_parts d + 1\<rparr>"
  let ?st = "dev_put st dev ?d"
  have cur: "cur_part ?st = cur_part st"
    using Cons.prems(4) by (auto simp: cur_part_def dev_put_def split: Option.bind_splits)
  have ok: "cur_ok ?st" using Cons.prems(2,3) cur by (auto simp: cur_ok_def dev_put_def)
  have wf: "env_wf (ecfg cfg) (env ?st)" using Cons.prems(1) by (simp add: dev_put_def)
  obtain e1 where e1: "index_partitions cfg ?st = Some (?st\<lparr>env := e1\<rparr>)" "env_change cfg index_vars (env st) e1"
    using index_partitions_ok [OF wf ok] by (auto simp: dev_put_def)
  have before: "\<forall>q\<in>set (dev_parts d). p_offset q < p_offset p"
    using Cons.prems(6) by (auto simp: sorted_wrt_append)
  have add: "part_sort_add cfg st dev p = Some (0, ?st\<lparr>env := e1\<rparr>)"
  proof (cases "dev_parts d = []")
    case True
    with Cons.prems(5) e1(1) show ?thesis by (simp add: part_sort_add_def)
  next
    case False
    have ne: "(Some dev = current_mtd_dev st) = False" using Cons.prems(4) by auto
    show ?thesis
      using part_sort_add_eq [OF Cons.prems(5) False sort_scan_end [OF before]] e1(1)
      by (simp add: insert_at_def)
  qed
  have "\<exists>e. env_change cfg index_vars (env (?st\<lparr>env := e1\<rparr>)) e \<and> move_parts cfg (?st\<lparr>env := e1\<rparr>) dev ps =
      Some (0, dev_put (?st\<lparr>env := e1\<rparr>) dev (?d\<lparr>dev_parts := dev_parts ?d @ ps,
        num_parts := num_parts ?d + of_nat (length ps)\<rparr>)\<lparr>env := e\<rparr>)"
  proof (rule Cons.IH)
    show "env_wf (ecfg cfg) (env (?st\<lparr>env := e1\<rparr>))" using env_change_wf [OF e1(2)] by simp
    show "cur_ok (?st\<lparr>env := e1\<rparr>)" using ok by (simp add: cur_ok_def)
    show "sorted_wrt (<) (map p_offset (dev_parts ?d @ ps))" using Cons.prems(6) by simp
  qed (use Cons.prems(3,4) in \<open>simp_all add: dev_put_def\<close>)
  then obtain e2 where e2: "env_change cfg index_vars e1 e2" "move_parts cfg (?st\<lparr>env := e1\<rparr>) dev ps =
      Some (0, dev_put (?st\<lparr>env := e1\<rparr>) dev (?d\<lparr>dev_parts := dev_parts ?d @ ps,
        num_parts := num_parts ?d + of_nat (length ps)\<rparr>)\<lparr>env := e2\<rparr>)" by auto
  have "env_change cfg index_vars (env st) e2" using env_change_trans [OF e1(2) e2(1)] by simp
  with e2(2) add show ?case by (intro exI [of _ e2]) (simp add: dev_put_def algebra_simps)
qed

definition fresh_ok :: "mtd_state \<Rightarrow> bool" where
  "fresh_ok st \<longleftrightarrow> (\<forall>a. heap_next st \<le> a \<longrightarrow> a \<notin> set (devices st) \<and> current_mtd_dev st \<noteq> Some a)"

definition device_ok :: "mtd_state \<Rightarrow> mtdids \<Rightarrow> mtd_info \<Rightarrow> part_info list \<Rightarrow> bool" where
  "device_ok st i m ps \<longleftrightarrow> i \<in> set (ids st) \<and> CHR '':'' \<notin> set (mtd_id i) \<and>
     ps \<noteq> [] \<and> length ps < 2 ^ 16 \<and> (\<forall>p\<in>set ps. printable p \<and> fits i m p) \<and>
     sorted_wrt (<) (map p_offset ps) \<and> erasesize m \<noteq> 0"

definition ids_ok :: "mtd_state \<Rightarrow> bool" where
  "ids_ok st \<longleftrightarrow> distinct (map mtd_id (ids st)) \<and> distinct (map id_addr (ids st)) \<and>
     distinct (map (\<lambda>i. (id_type i, id_num i)) (ids st))"

lemma find_distinct:
  assumes "distinct (map f xs)" and "x \<in> set xs" and "P x" and "\<forall>y\<in>set xs. P y \<longrightarrow> f y = f x"
  shows "find P xs = Some x"
proof -
  have "y = x" if "y \<in> set xs" "P y" for y
    using assms that by (metis distinct_map inj_onD)
  moreover obtain y where "find P xs = Some y" using assms(2,3) by (cases "find P xs") (auto simp: find_None_iff)
  moreover from this have "y \<in> set xs" "P y" by (auto simp: find_Some_iff)
  ultimately show ?thesis by blast
qed

lemma strncmp_eq_append: "strncmp_eq (length k) k (k @ s)"
  by (induction k) auto

lemma id_find_by_mtd_id_text:
  assumes "ids_ok st" and "i \<in> set (ids st)"
  shows "id_find_by_mtd_id st (mtd_id i @ s) (length (mtd_id i)) = Some i"
  unfolding id_find_by_mtd_id_def
proof (rule find_distinct [where f = mtd_id])
  show "distinct (map mtd_id (ids st))" using assms(1) by (simp add: ids_ok_def)
  show "length (mtd_id i) = length (mtd_id i) \<and> strncmp_eq (length (mtd_id i)) (mtd_id i) (mtd_id i @ s)"
    by (simp add: strncmp_eq_append)
  show "\<forall>j\<in>set (ids st). length (mtd_id i) = length (mtd_id j) \<and>
      strncmp_eq (length (mtd_id i)) (mtd_id j) (mtd_id i @ s) \<longrightarrow> mtd_id j = mtd_id i"
  proof (intro ballI impI)
    fix j assume "length (mtd_id i) = length (mtd_id j) \<and> strncmp_eq (length (mtd_id i)) (mtd_id j) (mtd_id i @ s)"
    then show "mtd_id j = mtd_id i" using strncmp_eq_length [of "mtd_id j" "[]" "mtd_id i @ s"] by auto
  qed
qed (rule assms(2))

lemma id_at_mem: "ids_ok st \<Longrightarrow> i \<in> set (ids st) \<Longrightarrow> id_at st (id_addr i) = Some i"
  unfolding id_at_def by (rule find_distinct [where f = id_addr]) (auto simp: ids_ok_def)

lemma device_parse_parts:
  assumes cfg: "\<forall>k. malloc_ok cfg k" and dev: "device_ok st i m ps" and ids: "ids_ok st"
    and new: "device_find st (id_type i) (id_num i) = Some None"
    and st: "env_wf (ecfg cfg) (env st)" "cur_ok st" "fresh_ok st"
    and rest: "rest = [] \<or> hd rest = CHR '';''" and s: "is_digit (chr0 s)"
    and loop: "device_parse_loop cfg i st s (block_end None) [] 0 =
      Some (Some (rest, reread (heap_next st) m ps, of_nat (length ps)), st\<lparr>heap_next := heap_next st + length ps, core := c\<rparr>)"
  shows "\<exists>e. env_change cfg index_vars (env st) e \<and>
    device_parse cfg st (mtd_id i @ '':'' @ s) False =
      Some (Some (if rest = [] then [] else tl rest, heap_next st + length ps),
        st\<lparr>heap_next := heap_next st + length ps + 1, core := c,
           dev_heap := (dev_heap st)(heap_next st + length ps \<mapsto>
             \<lparr>dev_id = id_addr i, num_parts = of_nat (length ps), dev_parts = reread (heap_next st) m ps\<rparr>),
           env := e\<rparr>)"
proof -
  have i: "i \<in> set (ids st)" "CHR '':'' \<notin> set (mtd_id i)" "ps \<noteq> []" "length ps < 2 ^ 16"
    "\<forall>p\<in>set ps. printable p \<and> fits i m p" "sorted_wrt (<) (map p_offset ps)" "erasesize m \<noteq> 0"
    using dev by (auto simp: device_ok_def)
  let ?s = s
  have colon: "strchr (mtd_id i @ '':'' @ ?s) (CHR '':'') = Some (CHR '':'' # ?s)"
    using strchr_name [OF i(2)] by simp
  have found: "id_find_by_mtd_id st (mtd_id i @ '':'' @ ?s) (length (mtd_id i @ '':'' @ ?s) - length (CHR '':'' # ?s)) = Some i"
    using id_find_by_mtd_id_text [OF ids i(1)] by simp
  have off: "parse_offset st i = Some (block_end None)" using new by (simp add: parse_offset_def block_end_def)
  from s have go: "\<not> (?s = [] \<or> hd ?s = CHR '';'')" by (cases ?s) (auto simp: is_digit_def)
  have n0: "(of_nat (length ps) :: u16) \<noteq> 0"
  proof -
    have "unat (of_nat (length ps) :: u16) = length ps" using i(4) by (simp add: unsigned_of_nat take_bit_nat_eq_self)
    then show ?thesis using i(3) by auto
  qed
  define a where "a = heap_next st + length ps"
  define d0 where "d0 = \<lparr>dev_id = id_addr i, num_parts = 0, dev_parts = []\<rparr>"
  define st1 where "st1 = st\<lparr>core := c, heap_next := a + 1\<rparr>"
  define st2 where "st2 = dev_put st1 a d0"
  have a: "a \<notin> set (devices st)" "current_mtd_dev st \<noteq> Some a" using st(3) by (auto simp: fresh_ok_def a_def)
  have "cur_part st2 = cur_part st"
    using a(2) by (auto simp: cur_part_def st2_def st1_def dev_put_def split: Option.bind_splits)
  then have cur2: "cur_ok st2" using st(2) a(1) by (auto simp: cur_ok_def st2_def st1_def dev_put_def)
  have s2: "env_wf (ecfg cfg) (env st2)" "a \<notin> set (devices st2)" "current_mtd_dev st2 \<noteq> Some a"
    "dev_heap st2 a = Some d0" using a st(1) by (simp_all add: st2_def st1_def dev_put_def)
  obtain e where e: "env_change cfg index_vars (env st2) e" "move_parts cfg st2 a (reread (heap_next st) m ps) =
      Some (0, dev_put st2 a (d0\<lparr>dev_parts := dev_parts d0 @ reread (heap_next st) m ps,
        num_parts := num_parts d0 + of_nat (length (reread (heap_next st) m ps))\<rparr>)\<lparr>env := e\<rparr>)"
    using move_parts_sorted [OF s2(1) cur2 s2(2-4), of "reread (heap_next st) m ps"] i(6)
    by (auto simp: d0_def reread_fields)
  have build: "device_build cfg (st\<lparr>heap_next := a, core := c\<rparr>) i (reread (heap_next st) m ps) rest =
      Some (Some (if rest = [] then [] else tl rest, a), dev_put st2 a (d0\<lparr>dev_parts := reread (heap_next st) m ps,
        num_parts := of_nat (length ps)\<rparr>)\<lparr>env := e\<rparr>)"
    using cfg e(2) rest
    by (cases rest) (simp_all add: device_build_def malloc_def Let_def st2_def st1_def d0_def reread_fields)
  have run: "device_parse cfg st (mtd_id i @ '':'' @ ?s) False =
      device_build cfg (st\<lparr>heap_next := a, core := c\<rparr>) i (reread (heap_next st) m ps) rest"
    unfolding device_parse_def colon option.case found list.sel Let_def off Option.bind.bind_lunit if_not_P [OF go]
      loop prod.case a_def using n0 by simp
  have "dev_put st2 a (d0\<lparr>dev_parts := reread (heap_next st) m ps, num_parts := of_nat (length ps)\<rparr>)\<lparr>env := e\<rparr> =
      st\<lparr>heap_next := a + 1, core := c, dev_heap := (dev_heap st)(a \<mapsto>
        \<lparr>dev_id = id_addr i, num_parts = of_nat (length ps), dev_parts = reread (heap_next st) m ps\<rparr>), env := e\<rparr>"
    by (simp add: st2_def st1_def dev_put_def d0_def)
  note run [unfolded build this]
  moreover have "env_change cfg index_vars (env st) e" using e(1) by (simp add: st2_def st1_def dev_put_def)
  ultimately show ?thesis unfolding a_def by blast
qed

lemma device_parse_text:
  assumes cfg: "reads_decimal (simple_strtoul (ecfg cfg))" "\<forall>k. malloc_ok cfg k"
    and dev: "device_ok st i m ps" "flash_at (core st) (id_name i) m" and ids: "ids_ok st"
    and new: "device_find st (id_type i) (id_num i) = Some None"
    and st: "env_wf (ecfg cfg) (env st)" "cur_ok st" "fresh_ok st"
    and rest: "rest = [] \<or> hd rest = CHR '';''"
  shows "\<exists>e c. env_change cfg index_vars (env st) e \<and> (\<forall>nm m. flash_at (core st) nm m \<longrightarrow> flash_at c nm m) \<and>
    device_parse cfg st (mtd_id i @ '':'' @ parts_text None ps @ rest) False =
      Some (Some (if rest = [] then [] else tl rest, heap_next st + length ps),
        st\<lparr>heap_next := heap_next st + length ps + 1, core := c,
           dev_heap := (dev_heap st)(heap_next st + length ps \<mapsto>
             \<lparr>dev_id = id_addr i, num_parts = of_nat (length ps), dev_parts = reread (heap_next st) m ps\<rparr>),
           env := e\<rparr>)"
proof -
  have ps: "ps \<noteq> []" "\<forall>p\<in>set ps. printable p \<and> fits i m p" "erasesize m \<noteq> 0" using dev(1) by (auto simp: device_ok_def)
  then obtain p ps' where "ps = p # ps'" by (cases ps) auto
  then have dg: "is_digit (chr0 (parts_text None ps @ rest))"
    unfolding parts_text.simps part_text_def append_assoc by (simp only: parts_text.simps part_text_def append_assoc chr0_memsize_format)
  obtain c where c: "device_parse_loop cfg i st (parts_text None ps @ rest) (block_end None) [] 0 =
      Some (Some (rest, [] @ reread (heap_next st) m ps, 0 + of_nat (length ps)),
        st\<lparr>heap_next := heap_next st + length ps, core := c\<rparr>)" "\<forall>nm m. flash_at (core st) nm m \<longrightarrow> flash_at c nm m"
    using device_parse_loop_text [OF cfg ps(2,3) rest dev(2)] by blast
  note loop = c(1) [unfolded append_Nil add_0]
  show ?thesis using device_parse_parts [OF cfg(2) dev(1) ids new st rest dg loop] c(2) by blast
qed

lemma device_find_in_cong:
  assumes "\<forall>a\<in>set as. dev_heap st' a = dev_heap st a" and "ids st' = ids st"
  shows "device_find_in st' t n as = device_find_in st t n as"
  using assms by (induction as) (auto simp: id_at_def intro!: Option.bind_cong)

lemma device_find_in_append:
  "device_find_in st t n as = Some None \<Longrightarrow> device_find_in st t n (as @ bs) = device_find_in st t n bs"
  by (induction as) (auto split: Option.bind_splits if_splits)

definition readable :: "mtd_state \<Rightarrow> (mtdids \<Rightarrow> mtd_info) \<Rightarrow> (mtdids \<times> part_info list) list \<Rightarrow> bool" where
  "readable st fl ds \<longleftrightarrow> distinct (map fst ds) \<and> (\<forall>(i, ps)\<in>set ds. device_ok st i (fl i) ps \<and>
     flash_at (core st) (id_name i) (fl i) \<and> device_find st (id_type i) (id_num i) = Some None)"

definition ready :: "mtd_cfg \<Rightarrow> mtd_state \<Rightarrow> bool" where
  "ready cfg st \<longleftrightarrow> ids_ok st \<and> env_wf (ecfg cfg) (env st) \<and> cur_ok st \<and> fresh_ok st"

definition views :: "(mtdids \<times> part_info list) list \<Rightarrow> (mtdids \<times> (string \<times> bool \<times> u32 \<times> u32 \<times> u32) list) list" where
  "views ds = map (\<lambda>(i, ps). (i, map view ps)) ds"

lemma device_views_cong:
  assumes "\<forall>a\<in>set as. dev_heap st' a = dev_heap st a" and "ids st' = ids st"
  shows "device_views st' as = device_views st as"
  using assms by (induction as) (auto simp: id_at_def intro!: Option.bind_cong)

text \<open>One round of the loop of \<open>parse_mtdparts\<close>.\<close>

lemma parse_devices_step:
  assumes cfg: "reads_decimal (simple_strtoul (ecfg cfg))" "\<forall>k. malloc_ok cfg k"
    and st: "ready cfg st" "readable st fl ((i, ps) # ds)"
  defines "k \<equiv> heap_next st + length ps"
  shows "\<exists>st2. parse_devices cfg st (devices_text ((i, ps) # ds)) = parse_devices cfg st2 (devices_text ds) \<and>
    ready cfg st2 \<and> readable st2 fl ds \<and> devices st2 = devices st @ [k] \<and> heap_next st2 = k + 1 \<and> ids st2 = ids st \<and>
    dev_heap st2 = (dev_heap st)(k \<mapsto> \<lparr>dev_id = id_addr i, num_parts = of_nat (length ps),
      dev_parts = reread (heap_next st) (fl i) ps\<rparr>) \<and> current_mtd_dev st2 = current_mtd_dev st"
proof -
  have i: "device_ok st i (fl i) ps" "flash_at (core st) (id_name i) (fl i)"
    "device_find st (id_type i) (id_num i) = Some None" using st(2) by (auto simp: readable_def)
  have r: "ids_ok st" "env_wf (ecfg cfg) (env st)" "cur_ok st" "fresh_ok st"
    using st(1) by (auto simp: ready_def)
  define rest where "rest = (if ds = [] then [] else CHR '';'' # devices_text ds)"
  have rest: "rest = [] \<or> hd rest = CHR '';''" "(if rest = [] then [] else tl rest) = devices_text ds"
    by (auto simp: rest_def)
  have text_eq: "devices_text ((i, ps) # ds) = mtd_id i @ '':'' @ parts_text None ps @ rest" by (simp add: rest_def)
  let ?d = "\<lparr>dev_id = id_addr i, num_parts = of_nat (length ps), dev_parts = reread (heap_next st) (fl i) ps\<rparr>"
  obtain e c where e: "env_change cfg index_vars (env st) e" "\<forall>nm m. flash_at (core st) nm m \<longrightarrow> flash_at c nm m"
    and run: "device_parse cfg st (devices_text ((i, ps) # ds)) False = Some (Some (devices_text ds, k),
        st\<lparr>heap_next := k + 1, core := c, dev_heap := (dev_heap st)(k \<mapsto> ?d), env := e\<rparr>)"
    using device_parse_text [OF cfg i(1,2) r(1) i(3) r(2-4) rest(1)] unfolding rest(2) k_def text_eq by blast
  define st1 where "st1 = st\<lparr>heap_next := k + 1, core := c, dev_heap := (dev_heap st)(k \<mapsto> ?d), env := e\<rparr>"
  define st2 where "st2 = st1\<lparr>devices := devices st1 @ [k]\<rparr>"
  have k: "k \<notin> set (devices st)" "current_mtd_dev st \<noteq> Some k" using r(4) by (auto simp: fresh_ok_def k_def)
  have same: "device_find_in st1 t n (devices st) = device_find_in st t n (devices st)" for t n
    by (rule device_find_in_cong) (use k in \<open>auto simp: st1_def\<close>)
  have imem: "i \<in> set (ids st)" using i(1) by (simp add: device_ok_def)
  have idk: "id_at st1 (id_addr i) = Some i" using id_at_mem [OF r(1) imem] by (simp add: st1_def)
  have "parse_devices cfg st (devices_text ((i, ps) # ds)) = parse_devices cfg st2 (devices_text ds)"
    using run idk same i(3)
    by (subst parse_devices.simps) (simp add: text_eq st1_def [symmetric], simp add: st1_def device_find_def st2_def)
  moreover have "ready cfg st2"
  proof -
    have "cur_part st2 = cur_part st"
      using k by (auto simp: cur_part_def st2_def st1_def split: Option.bind_splits)
    then show ?thesis using r env_change_wf [OF e(1)] k
      by (auto simp: ready_def ids_ok_def cur_ok_def fresh_ok_def st2_def st1_def k_def)
  qed
  moreover have "readable st2 fl ds"
  proof -
    have "device_ok st2 j (fl j) qs \<and> flash_at (core st2) (id_name j) (fl j) \<and>
        device_find st2 (id_type j) (id_num j) = Some None" if "(j, qs) \<in> set ds" for j qs
    proof -
      have j: "device_ok st j (fl j) qs" "flash_at (core st) (id_name j) (fl j)"
        "device_find st (id_type j) (id_num j) = Some None" "j \<noteq> i"
        using that st(2) by (force simp: readable_def)+
      then have "j \<in> set (ids st)" by (simp add: device_ok_def)
      then have ne: "\<not> (id_type i = id_type j \<and> id_num i = id_num j)"
        using r(1) imem j(4) by (auto simp: ids_ok_def distinct_map inj_on_def)
      have "device_find_in st2 (id_type j) (id_num j) (devices st) = Some None"
        using j(3) device_find_in_cong [of "devices st" st2 st] k by (simp add: st2_def st1_def device_find_def)
      then have "device_find st2 (id_type j) (id_num j) = Some None"
        using device_find_in_append [of st2 "id_type j" "id_num j" "devices st" "[k]"] ne idk
        by (simp add: device_find_def st2_def) (simp add: st1_def)
      with j e(2) show ?thesis by (simp add: device_ok_def st2_def st1_def)
    qed
    then show ?thesis using st(2) by (auto simp: readable_def)
  qed
  ultimately show ?thesis by (intro exI [of _ st2]) (simp add: st2_def st1_def)
qed

lemma parse_devices_text:
  assumes cfg: "reads_decimal (simple_strtoul (ecfg cfg))" "\<forall>k. malloc_ok cfg k"
  shows "ready cfg st \<Longrightarrow> readable st fl ds \<Longrightarrow>
    \<exists>st' new vs. parse_devices cfg st (devices_text ds) = Some (0, st') \<and> devices st' = devices st @ new \<and>
      ids st' = ids st \<and> device_views st' new = Some vs \<and> views vs = views ds \<and> env_wf (ecfg cfg) (env st') \<and>
      (\<forall>a < heap_next st. dev_heap st' a = dev_heap st a) \<and> current_mtd_dev st' = current_mtd_dev st"
proof (induction ds arbitrary: st)
  case Nil
  then show ?case by (subst parse_devices.simps) (auto simp: views_def ready_def)
next
  case (Cons x ds)
  obtain i ps where x: "x = (i, ps)" by (cases x)
  let ?k = "heap_next st + length ps"
  let ?d = "\<lparr>dev_id = id_addr i, num_parts = of_nat (length ps), dev_parts = reread (heap_next st) (fl i) ps\<rparr>"
  obtain st2 where st2: "parse_devices cfg st (devices_text ((i, ps) # ds)) = parse_devices cfg st2 (devices_text ds)"
    "ready cfg st2" "readable st2 fl ds" "devices st2 = devices st @ [?k]" "heap_next st2 = ?k + 1" "ids st2 = ids st"
    "dev_heap st2 = (dev_heap st)(?k \<mapsto> ?d)" "current_mtd_dev st2 = current_mtd_dev st"
    using parse_devices_step [OF cfg Cons.prems(1), of fl i ps ds] Cons.prems(2) x by blast
  obtain st' new vs where st': "parse_devices cfg st2 (devices_text ds) = Some (0, st')"
    "devices st' = devices st2 @ new" "ids st' = ids st2" "device_views st' new = Some vs" "views vs = views ds"
    "env_wf (ecfg cfg) (env st')" "\<forall>a < heap_next st2. dev_heap st' a = dev_heap st2 a"
    "current_mtd_dev st' = current_mtd_dev st2"
    using Cons.IH [OF st2(2,3)] by blast
  have i: "ids_ok st" "i \<in> set (ids st)"
    using Cons.prems x by (auto simp: ready_def readable_def device_ok_def)
  have "id_at st' (id_addr i) = Some i" using id_at_mem [OF i] st'(3) st2(6) by (simp add: id_at_def)
  then have "device_views st' (?k # new) = Some ((i, reread (heap_next st) (fl i) ps) # vs)"
    using st'(4,7) st2(5,7) by simp
  moreover have "views ((i, reread (heap_next st) (fl i) ps) # vs) = views (x # ds)"
    using st'(5) by (simp add: views_def x reread_fields)
  moreover have "\<forall>a < heap_next st. dev_heap st' a = dev_heap st a" using st'(7) st2(5,7) by auto
  moreover have "devices st' = devices st @ ?k # new" using st'(2) st2(4) by simp
  ultimately show ?case using st2(1,6,8) st'(1,3,6,8) x by auto
qed

text \<open>C17: what \<open>generate_mtdparts\<close> writes for a table of user-named, aligned partitions with
  ascending offsets, the loop of \<open>parse_mtdparts\<close> reads back: parsing the text after
  \<open>mtdparts=\<close> with the same ids and an empty list succeeds, and gives the same devices in the same
  order with the same partitions (name, size, offset and flags).\<close>

theorem mtdparts_roundtrip:
  assumes cfg: "reads_decimal (simple_strtoul (ecfg cfg))" "\<forall>k. malloc_ok cfg k"
    and old: "devices st0 \<noteq> []" "device_views st0 (devices st0) = Some ds" "counts_ok st0 (devices st0)" "texts_small ds"
      "10 \<le> n" "n < 2 ^ 31" "generate_mtdparts st0 n = Some (Some s)"
    and st: "ready cfg st" "readable st fl ds" "devices st = []"
  shows "\<exists>st' vs. take 9 s = ''mtdparts='' \<and> parse_devices cfg st (drop 9 s) = Some (0, st') \<and>
    device_views st' (devices st') = Some vs \<and> views vs = views ds"
proof -
  obtain r :: "writer option option" where r: "generate_mtdparts st0 n = do { x \<leftarrow> r;
      case x of None \<Rightarrow> Some None | Some (p, maxlen) \<Rightarrow> if length p < n then Some (Some p) else None }"
    "if length (devices_text ds) \<le> n - 1
      then if 9 + length (devices_text ds) \<le> n
        then \<exists>m. r = Some (Some (''mtdparts='' @ devices_text ds, m)) else r = None
      else r = Some None \<or> r = None"
    by (rule generate_mtdparts_writes [OF old(1-6)])
  have "s = ''mtdparts='' @ devices_text ds"
  proof -
    obtain p m where "r = Some (Some (p, m))" "s = p"
      using r(1) old(7) by (auto split: Option.bind_splits option.splits if_splits)
    with r(2) show ?thesis by (auto split: if_splits)
  qed
  then show ?thesis using parse_devices_text [OF cfg st(1,2)] st(3) by auto
qed

text \<open>The instance: two partitions with a gap in front of the second.\<close>

abbreviation (input) demo_two :: "part_info list" where
  "demo_two \<equiv> [demo_part 1 ''boot'' 0x10000 0, demo_part 2 ''root'' 0x20000 0x30000]"

definition demo_empty :: mtd_state where
  "demo_empty = (demo_mtd_state [])\<lparr>ids := [demo_id], heap_next := 20, initialized := True\<rparr>"

lemma demo_empty_find: "device_find demo_empty t n = Some None"
  by (simp add: device_find_def demo_empty_def demo_mtd_state_def)

lemma demo_flash: "flash_at (core demo_empty) (id_name demo_id) (demo_mtd ''nand0'')"
  by (simp add: flash_at_def demo_empty_def demo_mtd_state_def demo_mtd_def demo_id_def MTD_DEV_TYPE_def
      MTD_DEV_TYPE_NAND_def dec_0)

lemma demo_ready: "ready demo_mtd_cfg demo_empty"
proof -
  have "env_wf (ecfg demo_mtd_cfg) (env demo_empty)"
    using demo_env_repr [of "[]"]
    by (auto simp: env_wf_def demo_mtd_cfg_def demo_mtd_env_def demo_env_def env_buf_def demo_empty_def demo_mtd_state_def)
  then show ?thesis
    by (simp add: ready_def ids_ok_def cur_ok_def fresh_ok_def demo_empty_def demo_mtd_state_def)
qed

lemma demo_fits: "\<forall>p\<in>set demo_two. printable p \<and> fits demo_id (demo_mtd ''nand0'') p"
  by (simp add: printable_def fits_def demo_part_def demo_id_def aligned_on_def demo_mtd_def
      MIN_PART_SIZE_def SIZE_REMAINING_def OFFSET_NOT_SPECIFIED_def)

theorem mtdparts_roundtrip_witness:
  "\<exists>st' vs. parse_devices demo_mtd_cfg demo_empty ''flash:64k(boot),128k@192k(root)'' = Some (0, st') \<and>
    device_views st' (devices st') = Some vs \<and> views vs = views [(demo_id, demo_two)]"
proof -
  let ?st0 = "demo_table demo_two 0" and ?ds = "[(demo_id, demo_two)]"
  let ?s = "''mtdparts=flash:64k(boot),128k@192k(root)''"
  have cfg: "reads_decimal (simple_strtoul (ecfg demo_mtd_cfg))" "\<forall>k. malloc_ok demo_mtd_cfg k"
    by (simp_all add: demo_mtd_cfg_def demo_reads_decimal)
  have old: "devices ?st0 \<noteq> []" "device_views ?st0 (devices ?st0) = Some ?ds" "counts_ok ?st0 (devices ?st0)" "texts_small ?ds"
    by (simp_all add: demo_table_def id_at_def demo_id_def counts_ok_def texts_small_def demo_part_def)
  have gen: "generate_mtdparts ?st0 1024 = Some (Some ?s)" by code_simp
  have "device_ok demo_empty demo_id (demo_mtd ''nand0'') demo_two"
    using demo_fits by (simp add: device_ok_def demo_empty_def) (simp add: demo_id_def demo_mtd_def demo_part_def)
  then have "readable demo_empty (\<lambda>_. demo_mtd ''nand0'') ?ds"
    using demo_flash demo_empty_find by (simp add: readable_def)
  from mtdparts_roundtrip [OF cfg old _ _ gen demo_ready this] show ?thesis
    by (simp add: demo_empty_def demo_mtd_state_def)
qed

section \<open>The parsers return\<close>

text \<open>What they rely on of \<open>simple_strtoul\<close>: it returns a position in its argument, and a value other than 0
  only when it has read something.\<close>

definition strtoul_advances :: "(string \<Rightarrow> nat \<Rightarrow> u32 \<times> string) \<Rightarrow> bool" where
  "strtoul_advances f \<longleftrightarrow> (\<forall>s v r. f s 0 = (v, r) \<longrightarrow> length r \<le> length s \<and> (v \<noteq> 0 \<longrightarrow> length r < length s))"

text \<open>Every device of the registry exists and has an erase size.\<close>

definition flashes_ok :: "mtd_core \<Rightarrow> bool" where
  "flashes_ok c \<longleftrightarrow> (\<forall>a. Some a \<in> set (mtd_table c) \<longrightarrow> (\<exists>m. mtd_objs c a = Some m \<and> erasesize m \<noteq> 0))"

lemma find_nm_total: "\<forall>a. Some a \<in> set t \<longrightarrow> mtd_objs c a \<noteq> None \<Longrightarrow> find_nm c nm t \<noteq> None"
proof (induction t)
  case (Cons x t)
  then show ?case by (cases x) auto
qed simp

lemma get_nm_total:
  assumes "flashes_ok c"
  obtains r c' where "get_mtd_device_nm c nm = Some (r, c')" and "flashes_ok c'"
    and "\<forall>a. r = Inr a \<longrightarrow> (\<exists>m. mtd_objs c' a = Some m \<and> erasesize m \<noteq> 0)"
proof -
  obtain f where f: "find_nm c nm (mtd_table c) = Some f"
    using find_nm_total [of "mtd_table c" c nm] assms by (force simp: flashes_ok_def)
  show ?thesis
  proof (cases f)
    case None
    with f that [of "Inl ENODEV" c] assms show ?thesis by (simp add: get_mtd_device_nm_def)
  next
    case (Some a)
    with f find_nm_Some have "Some a \<in> set (mtd_table c)" by blast
    then obtain m where m: "mtd_objs c a = Some m" "erasesize m \<noteq> 0" using assms by (auto simp: flashes_ok_def)
    have "flashes_ok (mtd_set c a (m\<lparr>usecount := usecount m + 1\<rparr>))"
      using assms m by (auto simp: flashes_ok_def mtd_set_def)
    with f Some m that [of "Inr a" "mtd_set c a (m\<lparr>usecount := usecount m + 1\<rparr>)"] show ?thesis
      by (simp add: get_mtd_device_nm_def) (simp add: mtd_set_def)
  qed
qed

lemma part_validate_total:
  assumes "flashes_ok (core st)"
  obtains rc p' st' where "part_validate st i p = Some (rc, p', st')" and "flashes_ok (core st')"
proof -
  obtain r c' where g: "get_mtd_device_nm (core st) (id_name i) = Some (r, c')" "flashes_ok c'"
    "\<forall>a. r = Inr a \<longrightarrow> (\<exists>m. mtd_objs c' a = Some m \<and> erasesize m \<noteq> 0)"
    by (rule get_nm_total [OF assms])
  have "\<exists>rc p' st'. part_validate_eraseblock st i q = Some (rc, p', st') \<and> flashes_ok (core st')" for q
    using g by (cases r) (auto simp: part_validate_eraseblock_def Let_def)
  then have "\<exists>rc p' st'. part_validate st i p = Some (rc, p', st') \<and> flashes_ok (core st')"
    using assms by (simp add: part_validate_def Let_def)
  then show ?thesis using that by blast
qed

lemma memsize_parse_advances:
  assumes "strtoul_advances (simple_strtoul (ecfg cfg))" and "memsize_parse cfg s = (v, r)"
  shows "length r \<le> length s \<and> (v \<noteq> 0 \<longrightarrow> length r < length s)"
proof -
  obtain w p where w: "simple_strtoul (ecfg cfg) s 0 = (w, p)" by fastforce
  then have "length p \<le> length s" "w \<noteq> 0 \<longrightarrow> length p < length s"
    using assms(1) by (auto simp: strtoul_advances_def)
  moreover have "r = p \<and> v = w \<or> r = tl p \<and> p \<noteq> []"
    using assms(2) w by (cases p) (auto simp: memsize_parse_def split: if_splits)
  ultimately show ?thesis by (cases p) auto
qed

lemma part_name_of_shorter: "part_name_of p = Some (n, r) \<Longrightarrow> length r \<le> length p"
  by (auto simp: part_name_of_def Let_def strchr_Some_iff split: if_splits option.splits)

lemma part_parse_advances:
  assumes "strtoul_advances (simple_strtoul (ecfg cfg))" and "s \<noteq> []" and "part_parse cfg st s = (Some (r, p), st')"
  shows "length r < length s \<and> core st' = core st"
proof -
  obtain sz p1 where 1: "(if chr0 s = CHR ''-'' then (SIZE_REMAINING, tl s) else memsize_parse cfg s) = (sz, p1)" by fastforce
  obtain off p2 where 2: "(if chr0 p1 = CHR ''@'' then memsize_parse cfg (tl p1) else (OFFSET_NOT_SPECIFIED, p1)) = (off, p2)"
    by fastforce
  have big: "\<not> (chr0 s \<noteq> CHR ''-'' \<and> sz < MIN_PART_SIZE)"
    using assms(3) by (auto simp: part_parse_def 1)
  then obtain n p3 where 3: "part_name_of p2 = Some (n, p3)"
    using assms(3) by (auto simp: part_parse_def 1 2 split: option.splits if_splits)
  obtain f p4 where 4: "part_options p3 = (f, p4)" by fastforce
  have l1: "length p1 < length s"
  proof (cases "chr0 s = CHR ''-''")
    case True
    then show ?thesis using 1 assms(2) by (cases s) auto
  next
    case False
    then have "sz \<noteq> 0" using big by (auto simp: MIN_PART_SIZE_def)
    then show ?thesis using memsize_parse_advances [OF assms(1)] 1 False by (auto split: if_splits)
  qed
  have l2: "length p2 \<le> length p1"
    using 2 memsize_parse_advances [OF assms(1), of "tl p1" off p2] by (auto split: if_splits)
  have l4: "length p4 \<le> length p3" using 4 by (auto simp: part_options_def split: if_splits)
  have "(r = tl p4 \<or> r = p4) \<and> core st' = core st"
    using assms(3) big unfolding part_parse_def 1 Let_def prod.case 2 3 option.case 4
    by (auto simp: malloc_def split: if_splits)
  with l1 l2 l4 part_name_of_shorter [OF 3] show ?thesis by auto
qed

lemma device_parse_loop_total:
  assumes "strtoul_advances (simple_strtoul (ecfg cfg))"
  shows "flashes_ok (core st) \<Longrightarrow> device_parse_loop cfg i st s off tmp n \<noteq> None"
proof (induction s arbitrary: st off tmp n rule: length_induct)
  case (1 s)
  show ?case
  proof (cases "s = [] \<or> hd s = CHR '';''")
    case True
    then show ?thesis by (subst device_parse_loop.simps) simp
  next
    case False
    obtain q st1 where q: "part_parse cfg st s = (q, st1)" by fastforce
    show ?thesis
    proof (cases q)
      case None
      with q False show ?thesis by (subst device_parse_loop.simps) simp
    next
      case (Some rp)
      obtain r p where rp: "rp = (r, p)" by fastforce
      have short: "length r < length s" "core st1 = core st"
        using part_parse_advances [OF assms _ q [unfolded Some rp]] False by auto
      define o' where "o' = (if p_offset p = OFFSET_NOT_SPECIFIED then off else p_offset p)"
      obtain rc p' st2 where v: "part_validate st1 i (p\<lparr>p_offset := o'\<rparr>) = Some (rc, p', st2)" "flashes_ok (core st2)"
        by (rule part_validate_total [of st1 i "p\<lparr>p_offset := o'\<rparr>"]) (use short(2) 1(2) in simp_all)
      have "device_parse_loop cfg i st2 r (o' + p_size p') (tmp @ [p']) (n + 1) \<noteq> None"
        using 1(1) short(1) v(2) by blast
      then show ?thesis using False q Some rp v(1)
        by (subst device_parse_loop.simps) (simp add: Let_def o'_def)
    qed
  qed
qed

lemma mtd_id_parse_advances:
  assumes "strtoul_advances (simple_strtoul (ecfg cfg))" and "mtd_id_parse cfg s = Some (r, t, n)"
  shows "length r < length s"
proof -
  obtain p where p: "mtd_id_type s = Some (t, p)" "is_digit (chr0 p)" "simple_strtoul (ecfg cfg) p 0 = (fst (simple_strtoul (ecfg cfg) p 0), r)"
    using assms(2) by (auto simp: mtd_id_parse_def split: option.splits if_splits prod.splits)
  have "length p < length s \<or> s = []"
    using p(1) by (auto simp: mtd_id_type_def split: if_splits)
  moreover have "s \<noteq> []" using p(1,2) by (auto simp: mtd_id_type_def is_digit_def split: if_splits)
  moreover have "length r \<le> length p" using assms(1) p(3) by (auto simp: strtoul_advances_def)
  ultimately show ?thesis by auto
qed

lemma parse_mtdid_total:
  assumes "strtoul_advances (simple_strtoul (ecfg cfg))" and "flashes_ok (core st)" and "s \<noteq> []"
  obtains r st' where "parse_mtdid cfg st s = Some (r, st')" and "flashes_ok (core st')"
    and "\<forall>t. r = Inr (Some t) \<longrightarrow> length t < length s"
proof (cases "mtd_id_parse cfg s")
  case None
  with that [of "Inl False" st] assms(2) show ?thesis by (simp add: parse_mtdid_def)
next
  case (Some x)
  obtain p type num where x: "x = (p, type, num)" by (cases x)
  have p: "length p < length s" using mtd_id_parse_advances [OF assms(1)] Some x by simp
  show ?thesis
  proof (cases "chr0 p = CHR ''=''")
    case False
    with Some x that [of "Inl False" st] assms(2) show ?thesis by (simp add: parse_mtdid_def)
  next
    case True
    obtain r c' where g: "get_mtd_device_nm (core st) (MTD_DEV_TYPE type @ dec (unat num)) = Some (r, c')"
        "flashes_ok c'" "\<forall>a. r = Inr a \<longrightarrow> (\<exists>m. mtd_objs c' a = Some m \<and> erasesize m \<noteq> 0)"
      by (rule get_nm_total [OF assms(2)])
    then obtain v where v: "mtd_device_validate st type num = Some (v, st\<lparr>core := c'\<rparr>)"
      by (cases r) (auto simp: mtd_device_validate_def Let_def)
    have next_p: "length (tl q) < length s" if "strchr (tl p) (CHR '','') = Some q" for q
      using that p by (auto simp: strchr_Some_iff) (metis One_nat_def Suc_pred add_Suc_right
        length_append length_tl less_trans list.size(4) not_add_less2 not_less_eq nat_neq_iff add.commute diff_le_self le_less_trans)
    show ?thesis
    proof (cases v)
      case None
      with Some x True v g(2) that [of "Inl True" "st\<lparr>core := c'\<rparr>"] show ?thesis by (simp add: parse_mtdid_def)
    next
      case (Some sz)
      define st1 where "st1 = st\<lparr>core := c'\<rparr>"
      have "\<exists>r st'. parse_mtdid cfg st s = Some (r, st') \<and> flashes_ok (core st') \<and>
          (\<forall>t. r = Inr (Some t) \<longrightarrow> length t < length s)"
        using \<open>mtd_id_parse cfg s = Some x\<close> x True v Some g(2) next_p
        by (auto simp: parse_mtdid_def Let_def malloc_def split: option.splits)
      then show ?thesis using that by blast
    qed
  qed
qed

lemma parse_mtdids_loop_total:
  assumes "strtoul_advances (simple_strtoul (ecfg cfg))"
  shows "flashes_ok (core st) \<Longrightarrow> parse_mtdids_loop cfg st p ret \<noteq> None"
proof (induction "case p of None \<Rightarrow> 0 | Some s \<Rightarrow> length s" arbitrary: p st ret rule: less_induct)
  case less
  show ?case
  proof (cases "p = None \<or> p = Some []")
    case True
    then show ?thesis by (subst parse_mtdids_loop.simps) auto
  next
    case False
    then obtain s where s: "p = Some s" "s \<noteq> []" by auto
    obtain r st' where r: "parse_mtdid cfg st s = Some (r, st')" "flashes_ok (core st')"
        "\<forall>t. r = Inr (Some t) \<longrightarrow> length t < length s"
      by (rule parse_mtdid_total [OF assms less.prems s(2)])
    show ?thesis
    proof (cases r)
      case (Inl b)
      with r(1) s show ?thesis by (subst parse_mtdids_loop.simps) simp
    next
      case (Inr q)
      have "(case q of None \<Rightarrow> 0 | Some t \<Rightarrow> length t) < length s" using r(3) Inr s(2) by (cases q) auto
      then have "parse_mtdids_loop cfg st' q 0 \<noteq> None" using less.hyps [of q st' 0] r(2) s(1) by simp
      with r(1) s Inr show ?thesis by (subst parse_mtdids_loop.simps) simp
    qed
  qed
qed

text \<open>C25: the loops over \<open>mtdids\<close> and over the partitions of a device return for every text: each round
  moves the position forward, whatever the partitions are and whether they are accepted or not.\<close>

theorem parsers_return:
  assumes "strtoul_advances (simple_strtoul (ecfg cfg))" and "flashes_ok (core st)"
  shows "parse_mtdids cfg st s \<noteq> None \<and> device_parse_loop cfg i st s off tmp n \<noteq> None"
  using parse_mtdids_loop_total [OF assms(1)] device_parse_loop_total [OF assms] assms(2)
  by (simp add: parse_mtdids_def)

lemma read_digits_advances: "read_digits b acc s = (v, r) \<Longrightarrow> length r \<le> length s \<and> (length r = length s \<longrightarrow> v = acc)"
  by (induction b acc s rule: read_digits.induct) (fastforce split: if_splits)+

lemma demo_strtoul_advances: "strtoul_advances demo_strtoul"
  unfolding strtoul_advances_def
proof (intro allI impI)
  fix s v r assume r: "demo_strtoul s 0 = (v, r)"
  have len: "take k s = t \<Longrightarrow> length t = k \<Longrightarrow> k \<le> length s" for k and t :: string by auto
  have "\<exists>b k. read_digits b 0 (drop k s) = (v, r) \<and> k \<le> length s"
  proof (cases "take 2 s = ''0x''")
    case True
    with r len [OF True] show ?thesis by (intro exI [of _ 16] exI [of _ 2]) (simp add: demo_strtoul_def)
  next
    case no_hex: False
    show ?thesis
    proof (cases "take 1 s = ''0''")
      case True
      with r no_hex len [OF True] show ?thesis by (intro exI [of _ 8] exI [of _ 1]) (simp add: demo_strtoul_def)
    next
      case False
      with r no_hex show ?thesis by (intro exI [of _ 10] exI [of _ 0]) (simp add: demo_strtoul_def)
    qed
  qed
  then obtain b k where "read_digits b 0 (drop k s) = (v, r)" "k \<le> length s" by blast
  with read_digits_advances [OF this(1)] show "length r \<le> length s \<and> (v \<noteq> 0 \<longrightarrow> length r < length s)"
    by (cases "k = 0") auto
qed

theorem parsers_return_witness:
  "parse_mtdids demo_mtd_cfg demo_empty ''nand0=flash,nor7='' \<noteq> None"
proof -
  have "strtoul_advances (simple_strtoul (ecfg demo_mtd_cfg))"
    by (simp add: demo_mtd_cfg_def demo_strtoul_advances)
  moreover have "flashes_ok (core demo_empty)"
    by (simp add: flashes_ok_def demo_empty_def demo_mtd_state_def demo_mtd_def)
  ultimately show ?thesis using parsers_return by blast
qed

section \<open>The variable \<open>partition\<close>\<close>

lemma MTD_DEV_TYPE_parse: "t \<in> {MTD_DEV_TYPE_NOR, MTD_DEV_TYPE_NAND, MTD_DEV_TYPE_ONENAND} \<Longrightarrow>
    mtd_id_type (MTD_DEV_TYPE t @ s) = Some (t, s)"
  by (auto simp: MTD_DEV_TYPE_def mtd_id_type_def MTD_DEV_TYPE_NOR_def MTD_DEV_TYPE_NAND_def
      MTD_DEV_TYPE_ONENAND_def numeral_eq_Suc)

lemma reads_u8:
  assumes "reads_decimal f" and "\<not> is_digit (chr0 r)" and "chr0 r \<noteq> CHR ''x''" and "chr0 r \<noteq> CHR ''X''"
  shows "f (dec (unat (n :: u8)) @ r) 0 = (ucast n, r)"
proof -
  have "f (dec (unat (ucast n :: u32)) @ r) 0 = (ucast n, r)" using assms by (auto simp: reads_decimal_def)
  then show ?thesis by (simp add: unat_ucast_8_32)
qed

lemma ucast_ucast_8: "(ucast (ucast (n :: u8) :: u32) :: u8) = n"
  by transfer simp

lemma find_name_none: "find_name nm k ps = None \<longleftrightarrow> nm \<notin> p_name ` set ps"
  by (induction ps arbitrary: k) auto

lemma find_by_name_none:
  assumes "device_views st as = Some ds" and "\<forall>(i, ps)\<in>set ds. nm \<notin> p_name ` set ps"
  shows "find_by_name st nm as = Some None"
  using assms
proof (induction as arbitrary: ds)
  case (Cons a as)
  from Cons.prems(1) obtain d i ds' where d: "dev_heap st a = Some d" "device_views st as = Some ds'"
    "ds = (i, dev_parts d) # ds'" by (auto split: Option.bind_splits)
  with Cons.prems(2) have "find_name nm 0 (dev_parts d) = None" by (simp add: find_name_none)
  with d Cons show ?case by simp
qed simp

lemma device_find_in_found:
  assumes "device_views st as = Some ds" and "a \<in> set as" and "dev_heap st a = Some d" and "id_at st (dev_id d) = Some i"
    and "\<forall>b\<in>set as. \<forall>d' j. dev_heap st b = Some d' \<longrightarrow> id_at st (dev_id d') = Some j \<longrightarrow>
      id_type j = id_type i \<longrightarrow> id_num j = id_num i \<longrightarrow> b = a"
  shows "device_find_in st (id_type i) (id_num i) as = Some (Some a)"
  using assms
proof (induction as arbitrary: ds)
  case (Cons b as)
  from Cons.prems(1) obtain d' j ds' where d': "dev_heap st b = Some d'" "id_at st (dev_id d') = Some j"
    "device_views st as = Some ds'" by (auto split: Option.bind_splits)
  show ?case
  proof (cases "id_type j = id_type i \<and> id_num j = id_num i")
    case True
    have "b = a" by (rule Cons.prems(5) [rule_format, OF _ d'(1,2)]) (use True in simp_all)
    with True d'(1,2) show ?thesis by simp
  next
    case False
    have "a \<in> set as" using Cons.prems(2-4) d' False by auto
    moreover have "\<forall>b\<in>set as. \<forall>d' j. dev_heap st b = Some d' \<longrightarrow> id_at st (dev_id d') = Some j \<longrightarrow>
        id_type j = id_type i \<longrightarrow> id_num j = id_num i \<longrightarrow> b = a"
      using Cons.prems(5) by (meson list.set_intros(2))
    ultimately have "device_find_in st (id_type i) (id_num i) as = Some (Some a)"
      by (rule Cons.IH [OF d'(3) _ Cons.prems(3,4)])
    then show ?thesis using d'(1,2) False by auto
  qed
qed simp

text \<open>\<open>find_dev_and_part\<close> reads back what \<open>current_save\<close> stores in \<open>partition\<close>: the text made of a
  device and a partition number leads to that device and that partition, unless some partition
  has this text for a name.\<close>

lemma find_partition_text:
  assumes cfg: "reads_decimal (simple_strtoul (ecfg cfg))"
    and views: "device_views st (devices st) = Some ds" "counts_ok st (devices st)"
    and a: "a \<in> set (devices st)" "dev_heap st a = Some d" "id_at st (dev_id d) = Some i"
      "id_type i \<in> {MTD_DEV_TYPE_NOR, MTD_DEV_TYPE_NAND, MTD_DEV_TYPE_ONENAND}"
    and uniq: "\<forall>b\<in>set (devices st). \<forall>d' j. dev_heap st b = Some d' \<longrightarrow> id_at st (dev_id d') = Some j \<longrightarrow>
      id_type j = id_type i \<longrightarrow> id_num j = id_num i \<longrightarrow> b = a"
    and n: "unat n < length (dev_parts d)"
    and names: "\<forall>(j, ps)\<in>set ds. partition_text i n \<notin> p_name ` set ps"
  shows "find_dev_and_part cfg st (partition_text i n) = Some (Some (a, n, dev_parts d ! unat n))"
proof -
  have np: "unat (num_parts d) = length (dev_parts d)" using views(2) a(1,2) by (simp add: counts_ok_def)
  have d0: "is_digit (chr0 (dec k @ s))" for k s by (simp add: chr0_append dec_hd)
  have s1: "simple_strtoul (ecfg cfg) (dec (unat (id_num i)) @ CHR '','' # dec (unat n)) 0 =
      (ucast (id_num i), CHR '','' # dec (unat n))"
    by (rule reads_u8 [OF cfg]) (simp_all add: is_digit_def)
  have s2: "simple_strtoul (ecfg cfg) (dec (unat n)) 0 = (ucast n, [])"
    using reads_u8 [OF cfg, of "[]" n] by (simp add: is_digit_def)
  have parse: "mtd_id_parse cfg (partition_text i n) = Some (CHR '','' # dec (unat n), id_type i, id_num i)"
    using MTD_DEV_TYPE_parse [OF a(4)] d0
    by (simp add: mtd_id_parse_def partition_text_def s1 ucast_ucast_8)
  have dev: "device_find st (id_type i) (id_num i) = Some (Some a)"
    unfolding device_find_def by (rule device_find_in_found [OF views(1) a(1-3) uniq])
  show ?thesis
    using find_by_name_none [OF views(1) names] parse dev a(2) n mtd_part_info_nth [OF np, of n]
    by (simp add: find_dev_and_part_def s2 ucast_ucast_8)
qed

lemma find_partition_text_witness:
  "find_dev_and_part demo_mtd_cfg (demo_table demo_two 0) (partition_text demo_id 1) =
    Some (Some (9, 1, demo_part 2 ''root'' 0x20000 0x30000))"
proof -
  let ?st = "demo_table demo_two 0" and ?d = "\<lparr>dev_id = 0, num_parts = 2, dev_parts = demo_two\<rparr>"
  have cfg: "reads_decimal (simple_strtoul (ecfg demo_mtd_cfg))"
    by (simp add: demo_mtd_cfg_def demo_reads_decimal)
  have views: "device_views ?st (devices ?st) = Some [(demo_id, demo_two)]" "counts_ok ?st (devices ?st)"
    by (simp_all add: demo_table_def id_at_def demo_id_def counts_ok_def)
  have a: "9 \<in> set (devices ?st)" "dev_heap ?st 9 = Some ?d" "id_at ?st (dev_id ?d) = Some demo_id"
      "id_type demo_id \<in> {MTD_DEV_TYPE_NOR, MTD_DEV_TYPE_NAND, MTD_DEV_TYPE_ONENAND}"
    by (simp_all add: demo_table_def id_at_def demo_id_def MTD_DEV_TYPE_NAND_def)
  have "\<forall>b\<in>set (devices ?st). \<forall>d' j. dev_heap ?st b = Some d' \<longrightarrow> id_at ?st (dev_id d') = Some j \<longrightarrow>
      id_type j = id_type demo_id \<longrightarrow> id_num j = id_num demo_id \<longrightarrow> b = 9" "unat (1 :: u8) < length (dev_parts ?d)"
    by (simp_all add: demo_table_def)
  moreover have "\<forall>(j, ps)\<in>set [(demo_id, demo_two)]. partition_text demo_id 1 \<notin> p_name ` set ps"
    by (simp add: partition_text_def demo_part_def MTD_DEV_TYPE_def demo_id_def MTD_DEV_TYPE_NAND_def)
  ultimately show ?thesis using find_partition_text [OF cfg views a] by simp
qed

section \<open>\<open>mtdparts add\<close>\<close>

text \<open>\<open>mtdparts add\<close> with a known device passes \<open>NULL\<close> for \<open>ret\<close> to \<open>device_parse\<close>, which stores to
  it; unless that store is harmless on the board this is a fault.  Before that, the length test does not
  count a sixth word of a length other than 2, so \<open>sprintf\<close> overflows the 64 bytes of
  \<open>tmpbuf\<close> although the test has passed.  A text that the test rejects leaves the tables alone.\<close>

lemma mtdparts_add_faults:
  assumes "mtd_id_parse cfg (argv ! 2) = Some (r, type, num)" and "id_find st type num = Some i"
    and "64 \<le> length (add_text i argv) \<or> \<not> null_store_ok cfg"
  shows "mtdparts_add cfg st argv = (if 64 \<le> unat (add_len i argv) then Some (1, st) else None)"
  using assms by (auto simp: mtdparts_add_def device_parse_def PART_ADD_DESC_MAXLEN_def)

lemma mtdparts_add_faults_witness:
  "mtdparts_add (demo_mtd_cfg\<lparr>null_store_ok := True\<rparr>) demo_empty
    [''mtdparts'', ''add'', ''nand0'', ''64k'', ''x'', replicate 60 (CHR ''r'')] = None"
proof -
  let ?argv = "[''mtdparts'', ''add'', ''nand0'', ''64k'', ''x'', replicate 60 (CHR ''r'')]"
  let ?cfg = "demo_mtd_cfg\<lparr>null_store_ok := True\<rparr>"
  have "mtd_id_parse ?cfg (?argv ! 2) = Some ([], 2, 0)" by code_simp
  moreover have "id_find demo_empty 2 0 = Some demo_id" by (simp add: id_find_def demo_empty_def demo_id_def)
  moreover have "unat (add_len demo_id ?argv) = 12" "length (add_text demo_id ?argv) = 72" by code_simp+
  ultimately show ?thesis using mtdparts_add_faults [of ?cfg ?argv "[]" 2 0 demo_empty demo_id] by simp
qed

end
