(* ===== verification/PitEnv.thy ===== *)
theory PitEnv
  imports PitTableLaws MtdPartsLaws
begin

text \<open>
  The text of \<open>mtdparts\<close> that \<open>i4SetEnv\<close> (\<open>PitTable\<close>) puts into the environment, read back by the parser of
  \<open>common/cmd_mtdparts.c\<close> (\<open>MtdParts\<close>).
\<close>

section \<open>The text\<close>

definition item_text :: "part_info \<Rightarrow> string" where
  "item_text p = dec (unat (drop_bit 10 (p_size p))) @ ''K('' @ p_name p @ ''),''"

abbreviation pit_text :: "part_info list \<Rightarrow> string" where
  "pit_text ps \<equiv> concat (map item_text ps)"

lemma memsize_parse_K:
  assumes "reads_decimal (simple_strtoul (ecfg cfg))" and "p_size p mod 1024 = 0"
  shows "memsize_parse cfg (dec (unat (drop_bit 10 (p_size p))) @ ''K'' @ rest) = (p_size p, rest)"
proof -
  have "\<not> is_digit (CHR ''K'')" by (simp add: is_digit_def)
  then have "simple_strtoul (ecfg cfg) (dec (unat (drop_bit 10 (p_size p))) @ ''K'' @ rest) 0 =
      (drop_bit 10 (p_size p), ''K'' @ rest)"
    using assms(1) by (simp add: reads_decimal_def)
  moreover have "drop_bit 10 (p_size p) * 1024 = p_size p"
    using div_mult_cancel [OF assms(2)] by (simp add: drop_bit_eq_div)
  ultimately show ?thesis by (simp add: memsize_parse_def push_bit_10)
qed

lemma part_parse_item:
  assumes cfg: "reads_decimal (simple_strtoul (ecfg cfg))" "\<forall>k. malloc_ok cfg k"
    and p: "printable p" "mask_flags p = 0" "p_size p mod 1024 = 0"
  shows "part_parse cfg st (item_text p @ rest) =
    (Some (rest, p\<lparr>p_addr := heap_next st, p_offset := OFFSET_NOT_SPECIFIED, sector_size := 0\<rparr>),
     st\<lparr>heap_next := heap_next st + 1\<rparr>)"
proof -
  define C where "C = CHR '','' # rest"
  define B where "B = CHR ''('' # p_name p @ CHR '')'' # C"
  have tx: "item_text p @ rest = dec (unat (drop_bit 10 (p_size p))) @ ''K'' @ B"
    by (simp add: item_text_def B_def C_def)
  have "is_digit (chr0 (item_text p @ rest))"
    unfolding tx by (simp add: chr0_append dec_hd)
  then have d: "chr0 (item_text p @ rest) \<noteq> CHR ''-''" by (auto simp: is_digit_def)
  have sz: "memsize_parse cfg (item_text p @ rest) = (p_size p, B)"
    unfolding tx by (rule memsize_parse_K [OF cfg(1) p(3)])
  have nm: "part_name_of B = Some (Some (p_name p), C)"
    unfolding B_def by (rule part_name_of_text) (use p in \<open>auto simp: printable_def\<close>)
  have opt: "part_options C = (0, C)" using part_options_text [of C 0] by (simp add: C_def)
  have size: "\<not> p_size p < MIN_PART_SIZE" "p_size p \<noteq> SIZE_REMAINING" "\<not> auto_name p"
    using p by (auto simp: printable_def)
  have m: "malloc cfg st = (Some (heap_next st), st\<lparr>heap_next := heap_next st + 1\<rparr>)"
    using cfg(2) by (simp add: malloc_def)
  have at: "(if chr0 B = CHR ''@'' then memsize_parse cfg (tl B) else (OFFSET_NOT_SPECIFIED, B)) = (OFFSET_NOT_SPECIFIED, B)"
    by (simp add: B_def)
  have C: "chr0 C = CHR '',''" "tl C = rest" by (simp_all add: C_def)
  have q: "\<lparr>p_addr = heap_next st, p_name = p_name p, auto_name = False, p_size = p_size p, p_offset = OFFSET_NOT_SPECIFIED,
      mask_flags = 0, sector_size = 0\<rparr> = p\<lparr>p_addr := heap_next st, p_offset := OFFSET_NOT_SPECIFIED, sector_size := 0\<rparr>"
    using size(3) p(2) by (cases p) simp
  show ?thesis
    unfolding part_parse_def if_not_P [OF d] sz Let_def case_prod_conv at nm option.case opt m C
    using size q by simp
qed

text \<open>Partitions in a row without gaps.\<close>

fun in_row :: "part_info option \<Rightarrow> part_info list \<Rightarrow> bool" where
  "in_row prev [] = True"
| "in_row prev (p # ps) = (p_offset p = block_end prev \<and> in_row (Some p) ps)"

lemma device_parse_loop_items:
  assumes cfg: "reads_decimal (simple_strtoul (ecfg cfg))" "\<forall>k. malloc_ok cfg k"
    and ps: "\<forall>p\<in>set ps. printable p \<and> fits i m p \<and> mask_flags p = 0 \<and> p_size p mod 1024 = 0" and m: "erasesize m \<noteq> 0"
  shows "flash_at (core st) (id_name i) m \<Longrightarrow> in_row prev ps \<Longrightarrow>
    \<exists>c. device_parse_loop cfg i st (pit_text ps) (block_end prev) tmp n =
      Some (Some ([], tmp @ reread (heap_next st) m ps, n + of_nat (length ps)),
        st\<lparr>heap_next := heap_next st + length ps, core := c\<rparr>) \<and>
      (\<forall>nm m. flash_at (core st) nm m \<longrightarrow> flash_at c nm m)"
  using ps
proof (induction ps arbitrary: st prev tmp n)
  case Nil
  have "device_parse_loop cfg i st [] (block_end prev) tmp n = Some (Some ([], tmp, n), st)"
    by (subst device_parse_loop.simps) (rule if_P, simp)
  then show ?case by (intro exI [of _ "core st"]) (simp add: reread_def)
next
  case (Cons p ps)
  have p: "printable p" "fits i m p" "mask_flags p = 0" "p_size p mod 1024 = 0" "p_offset p = block_end prev"
    using Cons.prems(2,3) by auto
  have "is_digit (chr0 (item_text p @ pit_text ps))"
    by (simp add: item_text_def chr0_append dec_hd)
  then have go: "\<not> (item_text p @ pit_text ps = [] \<or> hd (item_text p @ pit_text ps) = CHR '';'')"
    by (cases "item_text p @ pit_text ps") (auto simp: is_digit_def)
  let ?p = "p\<lparr>p_addr := heap_next st, p_offset := OFFSET_NOT_SPECIFIED, sector_size := 0\<rparr>"
  let ?q = "p\<lparr>p_addr := heap_next st, sector_size := 0\<rparr>"
  have parse: "part_parse cfg st (item_text p @ pit_text ps) = (Some (pit_text ps, ?p), st\<lparr>heap_next := heap_next st + 1\<rparr>)"
    by (rule part_parse_item [OF cfg p(1,3,4)])
  have off: "(if p_offset ?p = OFFSET_NOT_SPECIFIED then block_end prev else p_offset ?p) = p_offset p"
    using p(5) by simp
  have q: "?p\<lparr>p_offset := p_offset p\<rparr> = ?q" by simp
  obtain c1 where c1: "part_validate (st\<lparr>heap_next := heap_next st + 1\<rparr>) i ?q =
      Some (0, ?q\<lparr>sector_size := erasesize m\<rparr>, st\<lparr>heap_next := heap_next st + 1, core := c1\<rparr>)"
      "\<forall>nm m. flash_at (core st) nm m \<longrightarrow> flash_at c1 nm m"
    using fits_accepted [of "st\<lparr>heap_next := heap_next st + 1\<rparr>" i m ?q] Cons.prems(1) p(2) m
    by (auto simp: fits_def)
  let ?st1 = "st\<lparr>heap_next := heap_next st + 1, core := c1\<rparr>" and ?r = "p\<lparr>p_addr := heap_next st, sector_size := erasesize m\<rparr>"
  have step: "device_parse_loop cfg i st (item_text p @ pit_text ps) (block_end prev) tmp n =
      device_parse_loop cfg i ?st1 (pit_text ps) (block_end (Some p)) (tmp @ [?r]) (n + 1)"
    using device_parse_loop_step [OF _ _ parse off, of i "?q\<lparr>sector_size := erasesize m\<rparr>" ?st1 tmp n] go c1(1)
    by (simp add: q block_end_def)
  obtain c2 where "device_parse_loop cfg i ?st1 (pit_text ps) (block_end (Some p)) (tmp @ [?r]) (n + 1) =
      Some (Some ([], (tmp @ [?r]) @ reread (heap_next st + 1) m ps, n + 1 + of_nat (length ps)),
        st\<lparr>heap_next := heap_next st + 1 + length ps, core := c2\<rparr>)"
      "\<forall>nm m. flash_at c1 nm m \<longrightarrow> flash_at c2 nm m"
    using Cons.IH [of ?st1 "Some p" "tmp @ [?r]" "n + 1"] Cons.prems c1(2) by auto
  with step c1(2) show ?case by (auto simp: reread_Cons algebra_simps intro!: exI [of _ c2])
qed

lemma parse_items:
  assumes cfg: "reads_decimal (simple_strtoul (ecfg cfg))" "\<forall>k. malloc_ok cfg k"
    and st: "ready cfg st" "devices st = []" "device_ok st i m ps" "flash_at (core st) (id_name i) m"
    and ps: "in_row None ps" "\<forall>p\<in>set ps. mask_flags p = 0 \<and> p_size p mod 1024 = 0"
  shows "\<exists>st' vs. parse_devices cfg st (mtd_id i @ '':'' @ pit_text ps) = Some (0, st') \<and>
    device_views st' (devices st') = Some vs \<and> views vs = views [(i, ps)]"
proof -
  have r: "ids_ok st" "env_wf (ecfg cfg) (env st)" "cur_ok st" "fresh_ok st" using st(1) by (auto simp: ready_def)
  have ok: "i \<in> set (ids st)" "\<forall>p\<in>set ps. printable p \<and> fits i m p" "erasesize m \<noteq> 0" "ps \<noteq> []"
    using st(3) by (auto simp: device_ok_def)
  have all: "\<forall>p\<in>set ps. printable p \<and> fits i m p \<and> mask_flags p = 0 \<and> p_size p mod 1024 = 0"
    using ok(2) ps(2) by auto
  obtain c where c: "device_parse_loop cfg i st (pit_text ps) (block_end None) [] 0 =
      Some (Some ([], reread (heap_next st) m ps, of_nat (length ps)), st\<lparr>heap_next := heap_next st + length ps, core := c\<rparr>)"
    using device_parse_loop_items [OF cfg all ok(3) st(4) ps(1), of "[]" 0] by auto
  have dg: "is_digit (chr0 (pit_text ps))" using ok(4) by (cases ps) (simp_all add: item_text_def chr0_append dec_hd)
  have new: "device_find st (id_type i) (id_num i) = Some None" using st(2) by (simp add: device_find_def)
  define k where "k = heap_next st + length ps"
  define st1 where "st1 = (\<lambda>e. st\<lparr>heap_next := k + 1, core := c, dev_heap := (dev_heap st)(k \<mapsto>
     \<lparr>dev_id = id_addr i, num_parts = of_nat (length ps), dev_parts = reread (heap_next st) m ps\<rparr>), env := e\<rparr>)"
  have "([] :: char list) = [] \<or> hd [] = CHR '';''" by simp
  from device_parse_parts [OF cfg(2) st(3) r(1) new r(2-4) this dg c] obtain e where
    e: "device_parse cfg st (mtd_id i @ '':'' @ pit_text ps) False = Some (Some ([], k), st1 e)"
    unfolding st1_def k_def by auto
  have id: "id_at (st1 e) (id_addr i) = Some i" using id_at_mem [OF r(1) ok(1)] by (simp add: st1_def id_at_def)
  let ?st2 = "st1 e\<lparr>devices := devices (st1 e) @ [k]\<rparr>"
  have none: "device_find (st1 e) (id_type i) (id_num i) = Some None" using st(2) by (simp add: st1_def device_find_def)
  have "dev_heap (st1 e) k = Some \<lparr>dev_id = id_addr i, num_parts = of_nat (length ps), dev_parts = reread (heap_next st) m ps\<rparr>"
    by (simp add: st1_def)
  then have "parse_devices cfg st (mtd_id i @ '':'' @ pit_text ps) = parse_devices cfg ?st2 []"
    using e id none by (subst parse_devices.simps) simp
  also have "\<dots> = Some (0, ?st2)" by (subst parse_devices.simps) simp
  finally have "parse_devices cfg st (mtd_id i @ '':'' @ pit_text ps) = Some (0, ?st2)" .
  moreover have "device_views ?st2 (devices ?st2) = Some [(i, reread (heap_next st) m ps)]"
    using id st(2) by (simp add: st1_def id_at_def)
  moreover have "views [(i, reread (heap_next st) m ps)] = views [(i, ps)]" by (simp add: views_def reread_fields)
  ultimately show ?thesis by blast
qed

section \<open>From the table to the environment and back\<close>

lemma mem_str_no_NUL: "mem_str h p = Some s \<Longrightarrow> NUL \<notin> set s"
proof (induction s arbitrary: p)
  case (Cons c s)
  then have p: "h p \<noteq> 0" "mem_str h (p + 1) = Some s" "c = char_of (unat (h p))"
    using mem_str.simps [of h p] by (simp_all split: if_splits Option.bind_splits)
  have "unat (h p) < 256" using unsigned_less [of "h p"] by simp
  then have "of_char c = unat (h p)" using p(3) by simp
  moreover have "unat (h p) \<noteq> 0" using p(1) by (simp add: unat_eq_0)
  ultimately have "c \<noteq> NUL" by auto
  with Cons.IH [OF p(2)] show ?case by simp
qed simp

text \<open>The items of the table that are not UBI volumes are the partitions \<open>ps\<close>.\<close>

definition shows_items ::
  "pit_layout \<Rightarrow> (addr \<Rightarrow> u8) \<Rightarrow> addr \<Rightarrow> pit_ver \<Rightarrow> nat list \<Rightarrow> part_info list \<Rightarrow> bool" where
  "shows_items L h pit ver is ps \<longleftrightarrow>
     list_all2 (\<lambda>i p. let item = pr_get_pit_item_by_idx L h pit (of_nat i) ver in
         mem_str h (item + o_name L) = Some (p_name p) \<and> ld32 h (item + o_size L) = p_size p)
       (filter (\<lambda>i. ISUBIVOLUME (ld32 h (pr_get_pit_item_by_idx L h pit (of_nat i) ver + o_info L)) \<noteq> 4) is) ps"

lemma env_items_text:
  "shows_items L h pit ver is ps \<Longrightarrow> length buf + length (pit_text ps) < 1024 \<Longrightarrow>
   env_items L h pit ver is buf = Some (buf @ pit_text ps)"
proof (induction L h pit ver "is" buf arbitrary: ps rule: env_items.induct)
  case (1 L h pit ver buf)
  then show ?case by (simp add: shows_items_def)
next
  case (2 L h pit ver i "is" buf)
  let ?item = "pr_get_pit_item_by_idx L h pit (of_nat i) ver"
  show ?case
  proof (cases "ISUBIVOLUME (ld32 h (?item + o_info L)) = 4")
    case True
    with "2.prems"(1) have "shows_items L h pit ver is ps" by (simp add: shows_items_def)
    from "2.IH"(2) [OF refl _ this "2.prems"(2)] True show ?thesis by simp
  next
    case False
    with "2.prems"(1) obtain p qs where ps: "ps = p # qs" "mem_str h (?item + o_name L) = Some (p_name p)"
      "ld32 h (?item + o_size L) = p_size p" "shows_items L h pit ver is qs"
      by (auto simp: shows_items_def list_all2_Cons1 Let_def)
    have t: "dec (unat (drop_bit 10 (ld32 h (?item + o_size L)))) @ ''K('' @ p_name p @ ''),'' = item_text p"
      by (simp add: item_text_def ps(3))
    have len: "\<not> (1024 \<le> length (item_text p) \<or> 1024 \<le> length buf + length (item_text p))"
      "length (buf @ item_text p) + length (pit_text qs) < 1024"
      using "2.prems"(2) ps(1) by simp_all
    have "env_items L h pit ver is (buf @ item_text p) = Some ((buf @ item_text p) @ pit_text qs)"
      by (rule "2.IH"(1) [OF refl False ps(2) t [symmetric] len(1) ps(4) len(2)])
    then show ?thesis
      unfolding env_items.simps Let_def ps(2) Option.bind.bind_lunit t if_not_P [OF len(1)] using False ps(1) by simp
  qed
qed

lemma setenv_rc:
  assumes "env_wf cfg st" and "name_ok n" and "value_ok (Some v)" and "setenv cfg st n (Some v) = Some (rc, st')"
  shows "rc \<in> {0, 1}"
proof -
  obtain es where es: "env_repr (env_buf st) es" using assms(1) by (auto simp: env_wf_def)
  have "do_setenv_internal cfg st [''setenv'', n, v] = Some (rc, st')" using assms(4) by (simp add: setenv_def)
  from do_setenv_internal_cases [OF this es assms(2)] assms(3) show ?thesis
    by (auto simp: values_ok_def value_ok_def split: if_splits)
qed

lemma i4SetEnv_runs:
  assumes env: "env_wf cfg st" and nr: "nr < 2 ^ 32"
    and items: "shows_items L h pit ver [0..<nr] ps" and len: "length (pit_text ps) < 1003"
  defines "t \<equiv> ''mtdparts=mt85xx_nand:'' @ pit_text ps"
  shows "\<exists>rc1 st1 rc st'. setenv cfg st ''mtdparts'' (Some t) = Some (rc1, st1) \<and>
    i4SetEnv L cfg ver h pit (of_nat nr) st = Some (rc, st') \<and> env_wf cfg st' \<and>
    getenv cfg st' ''mtdparts'' = Some (if rc1 = 0 then Some t else None) \<and>
    getenv cfg st' ''mtdids'' = Some (if rc = 0 then Some ''nand0=mt85xx_nand'' else None)"
proof -
  have "NUL \<notin> set (item_text p)" if p: "p \<in> set ps" for p
  proof -
    obtain i where "mem_str h i = Some (p_name p)"
      using items p unfolding shows_items_def list_all2_conv_all_nth by (auto simp: Let_def in_set_conv_nth)
    then show ?thesis using mem_str_no_NUL NUL_dec by (auto simp: item_text_def)
  qed
  then have "NUL \<notin> set t" by (auto simp: t_def)
  then have vt: "value_ok (Some t)" by (simp add: value_ok_def)
  have vi: "value_ok (Some ''nand0=mt85xx_nand'')" by (simp add: value_ok_def)
  have tx: "env_items L h pit ver [0..<unat (of_nat nr :: u32)] ''mtdparts=mt85xx_nand:'' = Some t"
    using env_items_text [OF items, of "''mtdparts=mt85xx_nand:''"] len nr
    by (simp add: t_def unsigned_of_nat take_bit_nat_eq_self)
  obtain rc1 st1 where s1: "setenv cfg st ''mtdparts'' (Some t) = Some (rc1, st1)" "env_wf cfg st1"
    "getenv cfg st1 ''mtdparts'' = Some (if rc1 = 0 then Some t else None)"
    using es.set_plain [OF env conjunct1 [OF mtd_names(4)] conjunct2 [OF mtd_names(4)] vt] by blast
  have "rc1 \<noteq> -1" using setenv_rc [OF env _ vt s1(1)] mtd_names(4) by auto
  obtain rc st' where s2: "setenv cfg st1 ''mtdids'' (Some ''nand0=mt85xx_nand'') = Some (rc, st')" "env_wf cfg st'"
    "\<And>m. name_ok m \<Longrightarrow> m \<noteq> ''mtdids'' \<Longrightarrow> getenv cfg st' m = getenv cfg st1 m"
    "getenv cfg st' ''mtdids'' = Some (if rc = 0 then Some ''nand0=mt85xx_nand'' else None)"
    using es.set_plain [OF s1(2) conjunct1 [OF mtd_names(5)] conjunct2 [OF mtd_names(5)] vi] by blast
  have "i4SetEnv L cfg ver h pit (of_nat nr) st = Some (rc, st')"
    unfolding i4SetEnv_def tx Option.bind.bind_lunit s1(1) prod.case if_not_P [OF \<open>rc1 \<noteq> -1\<close>] by (rule s2(1))
  moreover have "getenv cfg st' ''mtdparts'' = Some (if rc1 = 0 then Some t else None)"
    using s2(3) [of "''mtdparts''"] mtd_names(4) s1(3) by simp
  ultimately show ?thesis using s1(1) s2(2,4) by blast
qed

text \<open>C10: \<open>i4SetEnv\<close> stores the partitions of a table in the variables \<open>mtdparts\<close> and \<open>mtdids\<close>; the text of
  \<open>mtdparts\<close>, in spite of its last comma, is read back by the parser as the same partitions (name, size and
  offset) when they follow each other from the start of the flash and have whole kilobytes.\<close>

theorem i4SetEnv_read_back:
  assumes cfg: "reads_decimal (simple_strtoul (ecfg cfg))" "\<forall>k. malloc_ok cfg k"
    and env: "env_wf (ecfg cfg) st" and table: "nr < 2 ^ 32" "shows_items L h pit ver [0..<nr] ps"
    and len: "length (pit_text ps) < 1003"
    and ms: "ready cfg ms" "devices ms = []" "device_ok ms i m ps" "flash_at (core ms) (id_name i) m" "mtd_id i = ''mt85xx_nand''"
    and ps: "in_row None ps" "\<forall>p\<in>set ps. mask_flags p = 0 \<and> p_size p mod 1024 = 0"
  defines "t \<equiv> ''mtdparts=mt85xx_nand:'' @ pit_text ps"
  shows "(\<exists>rc1 st1 rc st'. setenv (ecfg cfg) st ''mtdparts'' (Some t) = Some (rc1, st1) \<and>
      i4SetEnv L (ecfg cfg) ver h pit (of_nat nr) st = Some (rc, st') \<and>
      getenv (ecfg cfg) st' ''mtdparts'' = Some (if rc1 = 0 then Some t else None) \<and>
      getenv (ecfg cfg) st' ''mtdids'' = Some (if rc = 0 then Some ''nand0=mt85xx_nand'' else None)) \<and>
    (\<exists>ms' vs. parse_devices cfg ms (drop 9 t) = Some (0, ms') \<and> device_views ms' (devices ms') = Some vs \<and>
      views vs = views [(i, ps)])"
proof -
  have "drop 9 t = mtd_id i @ '':'' @ pit_text ps" by (simp add: t_def ms(5))
  from parse_items [OF cfg ms(1-4) ps, folded this] i4SetEnv_runs [OF env table len, folded t_def]
  show ?thesis by blast
qed

text \<open>The instance: a table with the partitions \<open>boot\<close> and \<open>root\<close>.\<close>

definition demo_named_mem :: "addr \<Rightarrow> u8" where
  "demo_named_mem = store (\<lambda>_. 0) 1000 (concat (map le_bytes
     [0x11111111, 0x11111111, 40, 40, 2, 0, 0, 0, 0, 0,
      0x746F6F62, 0, 0, 0, 1, 0, 0, 0x10000, 0, 0,  0x746F6F72, 0, 0, 0, 2, 0, 0x10000, 0x20000, 0, 0]))"

abbreviation (input) demo_row :: "part_info list" where
  "demo_row \<equiv> [demo_part 1 ''boot'' 0x10000 0, demo_part 2 ''root'' 0x20000 0x10000]"

definition demo_nand :: mtdids where
  "demo_nand = demo_id\<lparr>mtd_id := ''mt85xx_nand''\<rparr>"

definition demo_nand_state :: mtd_state where
  "demo_nand_state = demo_empty\<lparr>ids := [demo_nand]\<rparr>"

lemma demo_shows_items: "shows_items demo_layout demo_named_mem 1000 V1 [0..<2] demo_row"
proof -
  have i: "pr_get_pit_item_by_idx demo_layout demo_named_mem 1000 (of_nat 0) V1 = 1040"
    "pr_get_pit_item_by_idx demo_layout demo_named_mem 1000 (of_nat 1) V1 = 1080" by code_simp+
  have f: "ld32 demo_named_mem 1060 = 0" "ld32 demo_named_mem 1100 = 0" "mem_str demo_named_mem 1040 = Some ''boot''"
    "mem_str demo_named_mem 1080 = Some ''root''" "ld32 demo_named_mem 1068 = 0x10000" "ld32 demo_named_mem 1108 = 0x20000"
    by code_simp+
  have o': "o_name demo_layout = 0" "o_info demo_layout = 20" "o_size demo_layout = 28" by (simp_all add: demo_layout_def)
  have u: "[0..<2] = [0, 1 :: nat]" by (simp add: upt_rec)
  have "ISUBIVOLUME 0 \<noteq> 4" by (simp add: ISUBIVOLUME_def)
  then show ?thesis unfolding shows_items_def u by (simp add: i [simplified] o' f demo_part_def Let_def)
qed

lemma demo_nand_ready: "ready demo_mtd_cfg demo_nand_state" "devices demo_nand_state = []"
  "flash_at (core demo_nand_state) (id_name demo_nand) (demo_mtd ''nand0'')"
  "device_ok demo_nand_state demo_nand (demo_mtd ''nand0'') demo_row"
proof -
  show "ready demo_mtd_cfg demo_nand_state"
    using demo_ready by (simp add: ready_def demo_nand_state_def ids_ok_def cur_ok_def fresh_ok_def demo_empty_def cur_part_def)
  show "devices demo_nand_state = []" by (simp add: demo_nand_state_def demo_empty_def demo_mtd_state_def)
  show "flash_at (core demo_nand_state) (id_name demo_nand) (demo_mtd ''nand0'')"
    using demo_flash by (simp add: demo_nand_state_def demo_nand_def)
  have "\<forall>p\<in>set demo_row. printable p \<and> fits demo_nand (demo_mtd ''nand0'') p"
    by (simp add: printable_def fits_def demo_part_def demo_nand_def demo_id_def aligned_on_def demo_mtd_def
        MIN_PART_SIZE_def SIZE_REMAINING_def OFFSET_NOT_SPECIFIED_def)
  then show "device_ok demo_nand_state demo_nand (demo_mtd ''nand0'') demo_row"
    by (simp add: device_ok_def demo_nand_state_def) (simp add: demo_nand_def demo_part_def demo_mtd_def)
qed

theorem i4SetEnv_read_back_witness:
  "(\<exists>rc st'. i4SetEnv demo_layout (ecfg demo_mtd_cfg) V1 demo_named_mem 1000 2 (env demo_empty) = Some (rc, st')) \<and>
   (\<exists>ms' vs. parse_devices demo_mtd_cfg demo_nand_state ''mt85xx_nand:64K(boot),128K(root),'' = Some (0, ms') \<and>
      device_views ms' (devices ms') = Some vs \<and> views vs = views [(demo_nand, demo_row)])"
proof -
  have cfg: "reads_decimal (simple_strtoul (ecfg demo_mtd_cfg))" "\<forall>k. malloc_ok demo_mtd_cfg k"
    by (simp_all add: demo_mtd_cfg_def demo_reads_decimal)
  have env: "env_wf (ecfg demo_mtd_cfg) (env demo_empty)" using demo_ready by (simp add: ready_def)
  have t: "pit_text demo_row = ''64K(boot),128K(root),''" by code_simp
  have len: "length (pit_text demo_row) < 1003" unfolding t by simp
  have id: "mtd_id demo_nand = ''mt85xx_nand''" by (simp add: demo_nand_def)
  have row: "in_row None demo_row" "\<forall>p\<in>set demo_row. mask_flags p = 0 \<and> p_size p mod 1024 = 0"
    by (simp_all add: block_end_def demo_part_def)
  have two: "(2 :: nat) < 2 ^ 32" by simp
  from i4SetEnv_read_back [OF cfg env two demo_shows_items len demo_nand_ready(1,2,4,3) id row, unfolded t]
  show ?thesis by auto
qed

end
