(* ===== verification/PitFind.thy ===== *)
theory PitFind
  imports PitTableLaws
begin

text \<open>
  The search for a table on the flash, \<open>i4FindPartTbl\<close> of \<open>PitTable\<close>: it returns, and what it finds is the
  first table in the search area.
\<close>

section \<open>Heads\<close>

lemma le_bytes_word:
  assumes "length bs = 4"
  shows "le_bytes (le_word bs) = bs"
proof -
  obtain b0 b1 b2 b3 where bs: "bs = [b0, b1, b2, b3]"
    using assms by (auto simp: numeral_eq_Suc length_Suc_conv)
  have "(ucast (drop_bit (8 * i) (le_word bs)) :: u8) = bs ! i" if i: "i < 4" for i
  proof (rule bit_word_eqI)
    fix n assume n: "n < LENGTH(8)"
    from i consider "i = 0" | "i = 1" | "i = 2" | "i = 3" by linarith
    then show "bit (ucast (drop_bit (8 * i) (le_word bs)) :: u8) n \<longleftrightarrow> bit (bs ! i) n"
      by cases (use n in \<open>auto simp: bs le_word_def bit_ops dest: bit_imp_le_length\<close>)
  qed
  from this [of 0] this [of 1] this [of 2] this [of 3] show ?thesis by (simp add: le_bytes_def bs)
qed

lemma ld32_iff: "ld32 h p = x \<longleftrightarrow> load h p 4 = le_bytes x"
  using le_bytes_word [of "load h p 4"] le_word_bytes [of x] by (auto simp: ld32_def)

definition has_head :: "u8 list \<Rightarrow> u32 \<Rightarrow> bool" where
  "has_head bs headsig \<longleftrightarrow> take 8 bs = le_bytes headsig @ le_bytes headsig"

lemma check_ver_head:
  assumes "8 \<le> k"
  shows "i4CheckPITVer h p headsig \<noteq> V_ERR \<longleftrightarrow> has_head (load h p k) headsig"
proof -
  have "take 8 (load h p k) = load h p 4 @ load h (p + 4) 4"
    using assms load_add [of h p 8 "k - 8"] load_add [of h p 4 4] by simp
  then show ?thesis by (simp add: i4CheckPITVer_def has_head_def ld32_iff)
qed

section \<open>The search\<close>

text \<open>Device 0 can be opened again and again.\<close>

definition reopens ::
  "('f mtd_world \<Rightarrow> bool) \<Rightarrow> ('f mtd_world \<Rightarrow> u8 list) \<Rightarrow> addr \<Rightarrow> nat \<Rightarrow> nat \<Rightarrow> nat \<Rightarrow> bool" where
  "reopens I C a n j k \<longleftrightarrow> (\<forall>v. I v \<longrightarrow>
     (\<exists>m v1. mtd_get 0 v = Some (a, m, v1) \<and> geometry m n j k \<and> I v1 \<and> C v1 = C v \<and> mem v1 = mem v))"

text \<open>A table of \<open>tb\<close> bytes at the logical offset \<open>x\<close>, in the good blocks from \<open>base\<close> on.\<close>

definition table_found :: "u8 list \<Rightarrow> nat \<Rightarrow> nat \<Rightarrow> u32 \<Rightarrow> nat \<Rightarrow> bool" where
  "table_found G base tb headsig x \<longleftrightarrow> x - base + tb \<le> length G \<and> has_head (slice G (x - base) tb) headsig"

lemma find_loop_finds:
  fixes I :: "'f mtd_world \<Rightarrow> bool" and C :: "'f mtd_world \<Rightarrow> u8 list" and R :: "'f mtd_world \<Rightarrow> 'r" and E :: "'f pit_env"
  assumes rb: "reports_bad I C R (2 ^ j) bad (pe_dev E a)" and rf: "flat_read I C R (op_read (pe_dev E a))"
    and op: "reopens I C a n j k" and reg: "unat (registry_start (pe_board E) reg 0) = s * 2 ^ j" and j: "j < 31"
    and pit: "pit \<noteq> 0" and tb: "table_bytes (pe_layout E) = tb" "8 \<le> tb" "tb < 2 ^ 32"
    and e: "unat (SEARCH_PART_TBL_END (pe_layout E)) = e" "e \<le> n" "n \<le> 2 ^ 31" "k dvd 2 ^ j" "0 < k"
  shows "I w \<Longrightarrow> length (C w) = n \<Longrightarrow> good_from (2 ^ j) bad (C w) s = G \<Longrightarrow> unat i = x \<Longrightarrow> 2 ^ j dvd x \<Longrightarrow> s * 2 ^ j \<le> x \<Longrightarrow>
    \<exists>r w'. find_loop E reg pit headsig tailsig (2 ^ j) i w = Some (r, w') \<and> I w' \<and> C w' = C w \<and>
      (case r of
         None \<Rightarrow> \<forall>t. x + t * 2 ^ j < e \<longrightarrow> \<not> table_found G (s * 2 ^ j) tb headsig (x + t * 2 ^ j)
       | Some nr \<Rightarrow> \<exists>t. x + t * 2 ^ j < e \<and> table_found G (s * 2 ^ j) tb headsig (x + t * 2 ^ j) \<and>
           (\<forall>u<t. \<not> table_found G (s * 2 ^ j) tb headsig (x + u * 2 ^ j)) \<and>
           load (mem w') pit tb = slice G (x + t * 2 ^ j - s * 2 ^ j) tb \<and>
           nr = u4GetPartNum (pe_layout E) (mem w') pit headsig tailsig)"
proof (induction "e - x" arbitrary: w i x rule: less_induct)
  case less
  let ?es = "2 ^ j :: nat" and ?base = "s * 2 ^ j"
  show ?case
  proof (cases "x < e")
    case False
    then have "\<not> i < SEARCH_PART_TBL_END (pe_layout E)" using e(1) less.prems(4) by (simp add: word_less_nat_alt)
    then have "find_loop E reg pit headsig tailsig (2 ^ j) i w = Some (None, w)"
      by (subst find_loop.simps) (rule if_not_P)
    with False less.prems(1) show ?thesis by simp
  next
    case True
    then have cond: "i < SEARCH_PART_TBL_END (pe_layout E)" using e(1) less.prems(4) by (simp add: word_less_nat_alt)
    from op [unfolded reopens_def, rule_format, OF less.prems(1)] obtain m v1 where v1:
      "mtd_get 0 w = Some (a, m, v1)" "geometry m n j k" "I v1" "C v1 = C w" "mem v1 = mem w" by blast
    have al: "read_aligned ?es k (unat i) (unat (of_nat tb :: u32))"
      using dvd_trans [OF e(4) less.prems(5)] less.prems(4) by (simp add: read_aligned_def)
    have ut: "unat (of_nat tb :: u32) = tb" using tb(3) by (simp add: unsigned_of_nat take_bit_nat_eq_self)
    then have t0: "(0 :: u32) < of_nat tb" using tb(2) by (simp add: word_less_nat_alt)
    have xi: "s * ?es \<le> unat i" "unat i < n" "length (C v1) = n" using less.prems True e(2) v1(4) by simp_all
    from nfb_read_blocks [where dev = "pe_dev E" and C = C and I = I and R = R and bad = bad,
        OF v1(2) rb rf v1(1,3) xi(3) reg xi(1,2) pit t0 al] obtain w2 q where r:
      "i4NFBPartitionRead (pe_board E) (pe_dev E) reg 0 i pit (of_nat tb) w =
         Some (if x - ?base + tb \<le> length G then 0 else -1, w2)"
      "I w2" "C w2 = C w" "mem w2 = store (mem w) pit (slice G (x - ?base) q)" "x - ?base + tb \<le> length G \<longrightarrow> q = tb"
      unfolding v1(4,5) less.prems(3,4) ut keeps_def by blast
    have ld: "load (mem w2) pit tb = slice G (x - ?base) tb" if fit: "x - ?base + tb \<le> length G"
    proof -
      have "q = tb" using r(5) fit by blast
      moreover have "length (slice G (x - ?base) tb) = tb" using fit by simp
      ultimately show ?thesis using load_store [of "mem w" pit "slice G (x - ?base) tb"] r(4) by simp
    qed
    have found: "i4CheckPITVer (mem w2) pit headsig \<noteq> V_ERR \<longleftrightarrow> table_found G ?base tb headsig x" if "x - ?base + tb \<le> length G"
      using check_ver_head [OF tb(2), of "mem w2" pit headsig] ld [OF that] that by (simp add: table_found_def)
    show ?thesis
    proof (cases "table_found G ?base tb headsig x")
      case True
      then have fit: "x - ?base + tb \<le> length G" by (simp add: table_found_def)
      have "find_loop E reg pit headsig tailsig (2 ^ j) i w =
          Some (Some (u4GetPartNum (pe_layout E) (mem w2) pit headsig tailsig), w2)"
        using r(1) fit found [OF fit] True cond by (subst find_loop.simps) (simp add: tb(1))
      with r(2,3) ld [OF fit] \<open>x < e\<close> True show ?thesis by (auto intro!: exI [of _ 0])
    next
      case False
      have again: "find_loop E reg pit headsig tailsig (2 ^ j) i w = find_loop E reg pit headsig tailsig (2 ^ j) (i + 2 ^ j) w2"
      proof (cases "x - ?base + tb \<le> length G")
        case True
        with r(1) found [OF True] False cond show ?thesis by (subst find_loop.simps) (simp add: tb(1))
      next
        case f: False
        with r(1) cond show ?thesis by (subst find_loop.simps) (simp add: tb(1))
      qed
      have "?es \<le> 2 ^ 31" using j by (intro power_increasing) simp_all
      then have i': "unat (i + 2 ^ j) = x + ?es"
        using less.prems(4) True e(2,3) j unat_pow2 [of j] by (subst unat_add_32) simp_all
      have d: "e - (x + ?es) < e - x" using \<open>x < e\<close> by (intro diff_less_mono2) simp_all
      have "length (C w2) = n" "good_from ?es bad (C w2) s = G" "2 ^ j dvd x + ?es" "s * ?es \<le> x + ?es"
        using r(3) less.prems by simp_all
      from less.hyps [OF d r(2) this(1,2) i' this(3,4)] obtain res w' where ih:
        "find_loop E reg pit headsig tailsig (2 ^ j) (i + 2 ^ j) w2 = Some (res, w')" "I w'" "C w' = C w2"
        "case res of None \<Rightarrow> \<forall>t. x + ?es + t * 2 ^ j < e \<longrightarrow> \<not> table_found G ?base tb headsig (x + ?es + t * 2 ^ j)
         | Some nr \<Rightarrow> \<exists>t. x + ?es + t * 2 ^ j < e \<and> table_found G ?base tb headsig (x + ?es + t * 2 ^ j) \<and>
           (\<forall>u<t. \<not> table_found G ?base tb headsig (x + ?es + u * 2 ^ j)) \<and>
           load (mem w') pit tb = slice G (x + ?es + t * 2 ^ j - ?base) tb \<and>
           nr = u4GetPartNum (pe_layout E) (mem w') pit headsig tailsig" by blast
      have shift: "x + ?es + t * ?es = x + Suc t * ?es" for t by simp
      have split: "(\<forall>t. P t) \<longleftrightarrow> P 0 \<and> (\<forall>t. P (Suc t))" for P by (metis not0_implies_Suc)
      show ?thesis
      proof (cases res)
        case None
        have "\<forall>t. x + t * ?es < e \<longrightarrow> \<not> table_found G ?base tb headsig (x + t * ?es)"
          using ih(4) False unfolding None option.case shift by (subst split) simp
        with again ih(1-3) r(3) None show ?thesis by auto
      next
        case (Some nr)
        from ih(4) [unfolded Some option.case shift] obtain t where t: "x + Suc t * ?es < e"
          "table_found G ?base tb headsig (x + Suc t * ?es)" "\<forall>u<t. \<not> table_found G ?base tb headsig (x + Suc u * ?es)"
          "load (mem w') pit tb = slice G (x + Suc t * ?es - ?base) tb"
          "nr = u4GetPartNum (pe_layout E) (mem w') pit headsig tailsig" by blast
        have "\<forall>u<Suc t. \<not> table_found G ?base tb headsig (x + u * ?es)"
        proof (intro allI impI)
          fix u assume "u < Suc t"
          then show "\<not> table_found G ?base tb headsig (x + u * ?es)" using t(3) False by (cases u) simp_all
        qed
        with t again ih(1-3) r(3) Some show ?thesis by (auto intro!: exI [of _ "Suc t"])
      qed
    qed
  qed
qed

text \<open>C9: \<open>i4FindPartTbl\<close> returns.  It finds the first table among the block-aligned offsets of the search area,
  counted in good blocks, loads it to the given address and counts its partitions; when it reports that there is
  none, no offset of the area has one.\<close>

theorem find_part_tbl:
  fixes I :: "'f mtd_world \<Rightarrow> bool" and C :: "'f mtd_world \<Rightarrow> u8 list" and R :: "'f mtd_world \<Rightarrow> 'r" and E :: "'f pit_env"
    and headsig tailsig :: u32
  assumes rb: "reports_bad I C R (2 ^ j) bad (pe_dev E a)" and rf: "flat_read I C R (op_read (pe_dev E a))"
    and op: "reopens I C a n j k" and reg: "unat (registry_start (pe_board E) reg 0) = s * 2 ^ j"
    and pit: "pit \<noteq> 0" and tb: "8 \<le> table_bytes (pe_layout E)" "table_bytes (pe_layout E) < 2 ^ 32"
    and e: "unat (SEARCH_PART_TBL_END (pe_layout E)) \<le> n"
    and x: "2 ^ j dvd unat (SEARCH_PART_TBL_START (pe_layout E))" "s * 2 ^ j \<le> unat (SEARCH_PART_TBL_START (pe_layout E))"
    and w: "I w" "length (C w) = n"
  defines "found \<equiv> \<lambda>t. table_found (good_from (2 ^ j) bad (C w) s) (s * 2 ^ j) (table_bytes (pe_layout E)) headsig
      (unat (SEARCH_PART_TBL_START (pe_layout E)) + t * 2 ^ j)"
    and "inside \<equiv> \<lambda>t. unat (SEARCH_PART_TBL_START (pe_layout E)) + t * 2 ^ j < unat (SEARCH_PART_TBL_END (pe_layout E))"
  shows "\<exists>r w'. i4FindPartTbl E reg pit headsig tailsig w = Some (r, w') \<and> I w' \<and> C w' = C w \<and>
    (case r of
       None \<Rightarrow> \<forall>t. inside t \<longrightarrow> \<not> found t
     | Some nr \<Rightarrow> \<exists>t. inside t \<and> found t \<and> (\<forall>u<t. \<not> found u) \<and>
         load (mem w') pit (table_bytes (pe_layout E)) = slice (good_from (2 ^ j) bad (C w) s)
           (unat (SEARCH_PART_TBL_START (pe_layout E)) + t * 2 ^ j - s * 2 ^ j) (table_bytes (pe_layout E)) \<and>
         nr = u4GetPartNum (pe_layout E) (mem w') pit headsig tailsig)"
proof -
  from op [unfolded reopens_def, rule_format, OF w(1)] obtain m v1 where v1:
    "mtd_get 0 w = Some (a, m, v1)" "geometry m n j k" "I v1" "C v1 = C w" "mem v1 = mem w" by blast
  note geo = geometryD [OF v1(2)]
  have es: "erasesize m = 2 ^ j" by (rule geo(3))
  have "i4FindPartTbl E reg pit headsig tailsig w =
      find_loop E reg pit headsig tailsig (2 ^ j) (SEARCH_PART_TBL_START (pe_layout E)) v1"
    using v1(1) pit es by (simp add: i4FindPartTbl_def get_block_size_def)
  moreover have "length (C v1) = n" using v1(4) w(2) by simp
  note find_loop_finds [where C = C and I = I and R = R and bad = bad and E = E and reg = reg and pit = pit and headsig = headsig
      and tailsig = tailsig, OF rb rf op reg geo(2) pit refl tb refl e geo(9,6,5) v1(3) this refl refl x, unfolded v1(4)]
  ultimately show ?thesis unfolding found_def inside_def by simp
qed

text \<open>The instance: the second good block holds a table, behind a bad block.\<close>

definition tiny_layout :: pit_layout where
  "tiny_layout = demo_layout\<lparr>PART_TBL_ITEM_NR_MAX := 1, new_item_bytes := 8, SEARCH_PART_TBL_END := 24\<rparr>"

definition tiny_env :: "(addr \<Rightarrow> u8 list) pit_env" where
  "tiny_env = \<lparr>pe_board = chip_board, pe_layout = tiny_layout, pe_dev = (\<lambda>_. chip_ops (\<lambda>b. b = 1)),
     pe_write_alloc = \<lparr>erase_memory = True, page_memory = None, block_memory = None\<rparr>,
     alloc_orig = None, alloc_adpt = None, alloc_dest = None, alloc_destup = None, alloc_source = None\<rparr>"

definition tiny_world :: "(addr \<Rightarrow> u8 list) mtd_world" where
  "tiny_world = chip_world\<lparr>flash := (\<lambda>s. replicate 16 0 @ le_bytes 0x11111111 @ le_bytes 0x11111111 @ replicate 8 0)\<rparr>"

definition tiny_inv :: "(addr \<Rightarrow> u8 list) mtd_world \<Rightarrow> bool" where
  "tiny_inv w \<longleftrightarrow> length (flash w 1) = 32 \<and>
     (\<exists>u. mtdc w = \<lparr>mtd_table = [Some 1], mtd_objs = [1 \<mapsto> chip_info\<lparr>usecount := u\<rparr>]\<rparr>)"

lemma tiny_invI:
  "length (flash w 1) = 32 \<Longrightarrow> mtdc w = \<lparr>mtd_table = [Some 1], mtd_objs = [1 \<mapsto> chip_info\<lparr>usecount := u\<rparr>]\<rparr> \<Longrightarrow> tiny_inv w"
  unfolding tiny_inv_def by blast

lemma tiny_reopens: "reopens tiny_inv (\<lambda>w. flash w 1) 1 32 3 4"
  unfolding reopens_def
proof (intro allI impI)
  fix v assume v: "tiny_inv v"
  then obtain u where u: "mtdc v = \<lparr>mtd_table = [Some 1], mtd_objs = [1 \<mapsto> chip_info\<lparr>usecount := u\<rparr>]\<rparr>"
    by (auto simp: tiny_inv_def)
  let ?c = "\<lparr>mtd_table = [Some 1], mtd_objs = [1 \<mapsto> chip_info\<lparr>usecount := u + 1\<rparr>]\<rparr>"
  have "mtd_get 0 v = Some (1, chip_info\<lparr>usecount := u + 1\<rparr>, v\<lparr>mtdc := ?c\<rparr>)"
    by (simp add: mtd_get_def get_mtd_device_def u mtd_set_def)
  moreover have "geometry (chip_info\<lparr>usecount := u + 1\<rparr>) 32 3 4" by (simp add: geometry_def chip_info_def)
  moreover have "tiny_inv (v\<lparr>mtdc := ?c\<rparr>)"
    using v by (intro tiny_invI [where u = "u + 1"]) (simp_all add: tiny_inv_def)
  ultimately show "\<exists>m v1. mtd_get 0 v = Some (1, m, v1) \<and> geometry m 32 3 4 \<and> tiny_inv v1 \<and>
      flash v1 1 = flash v 1 \<and> mem v1 = mem v" by auto
qed

theorem find_part_tbl_witness:
  "\<exists>w'. i4FindPartTbl tiny_env False 500 0x11111111 0x22222222 tiny_world =
      Some (Some (u4GetPartNum tiny_layout (mem w') 500 0x11111111 0x22222222), w') \<and>
    load (mem w') 500 8 = replicate 8 0x11"
proof -
  have rb: "reports_bad tiny_inv (\<lambda>w. flash w 1) (\<lambda>w. ()) (2 ^ 3) (\<lambda>b. b = 1) (pe_dev tiny_env 1)"
    by (simp add: tiny_env_def reports_bad_def call_isbad_def chip_ops_def keeps_def)
  have "op_read (pe_dev tiny_env 1) = op_read (ram_ops 1)" by (simp add: tiny_env_def chip_ops_def)
  then have rf: "flat_read tiny_inv (\<lambda>w. flash w 1) (\<lambda>w. ()) (op_read (pe_dev tiny_env 1))"
    using ram_read_flat [of tiny_inv "\<lambda>w. ()" "\<lambda>w. flash w 1" 1] by (simp add: tiny_inv_def)
  have h: "unat (registry_start (pe_board tiny_env) False 0) = 0 * 2 ^ 3" "(500 :: nat) \<noteq> 0"
    "8 \<le> table_bytes (pe_layout tiny_env)" "table_bytes (pe_layout tiny_env) < 2 ^ 32"
    "unat (SEARCH_PART_TBL_END (pe_layout tiny_env)) \<le> 32" "2 ^ 3 dvd unat (SEARCH_PART_TBL_START (pe_layout tiny_env))"
    "0 * 2 ^ 3 \<le> unat (SEARCH_PART_TBL_START (pe_layout tiny_env))"
    by (simp_all add: tiny_env_def tiny_layout_def demo_layout_def table_bytes_def registry_start_def chip_board_def)
  have len: "length (flash tiny_world 1) = 32" by (simp add: tiny_world_def)
  then have w: "tiny_inv tiny_world" "length (flash tiny_world 1) = 32"
    by (auto intro!: tiny_invI [where u = "usecount chip_info"] simp: tiny_world_def chip_world_def)
  have f: "table_bytes tiny_layout = 8" "unat (SEARCH_PART_TBL_START tiny_layout) = 0"
    "unat (SEARCH_PART_TBL_END tiny_layout) = 24" "pe_layout tiny_env = tiny_layout" "(2 :: nat) ^ 3 = 8"
    by (simp_all add: tiny_env_def tiny_layout_def demo_layout_def table_bytes_def)
  define G where "G = good_from (2 ^ 3) (\<lambda>b. b = (1 :: nat)) (flash tiny_world 1) 0"
  have G: "G = replicate 8 0 @ replicate 8 0x11 @ replicate 8 0"
    unfolding G_def by code_simp
  have h1: "has_head (replicate 8 0x11) 0x11111111" by code_simp
  have h0: "\<not> has_head (replicate 8 0) 0x11111111" by code_simp
  have fd: "table_found G 0 8 0x11111111 (1 * 8)" "\<not> table_found G 0 8 0x11111111 (0 * 8)" "\<not> table_found G 0 8 0x11111111 (2 * 8)"
    using h1 h0 by (simp_all add: table_found_def G slice_def)
  from find_part_tbl [where C = "\<lambda>w. flash w 1" and I = tiny_inv and R = "\<lambda>w. ()" and headsig = "0x11111111" and tailsig = "0x22222222",
      OF rb rf tiny_reopens h w, folded G_def, unfolded f, unfolded mult_0 diff_zero add_0]
  obtain r w' where r: "i4FindPartTbl tiny_env False 500 0x11111111 0x22222222 tiny_world = Some (r, w')"
    "case r of None \<Rightarrow> \<forall>t. t * 8 < 24 \<longrightarrow> \<not> table_found G 0 8 0x11111111 (t * 8)
     | Some nr \<Rightarrow> \<exists>t. t * 8 < 24 \<and> table_found G 0 8 0x11111111 (t * 8) \<and> (\<forall>u<t. \<not> table_found G 0 8 0x11111111 (u * 8)) \<and>
         load (mem w') 500 8 = slice G (t * 8) 8 \<and> nr = u4GetPartNum tiny_layout (mem w') 500 0x11111111 0x22222222"
    by blast
  show ?thesis
  proof (cases r)
    case None
    with r(2) fd(1) have False by (auto dest: spec [of _ 1])
    then show ?thesis ..
  next
    case (Some nr)
    with r(2) obtain t where t: "t * 8 < 24" "table_found G 0 8 0x11111111 (t * 8)"
      "load (mem w') 500 8 = slice G (t * 8) 8" "nr = u4GetPartNum tiny_layout (mem w') 500 0x11111111 0x22222222" by auto
    then have "t = 1" using fd(2,3) by (cases "t = 0"; cases "t = 2") auto
    then show ?thesis using t r(1) Some by (simp add: G slice_def)
  qed
qed

end
