(* ===== verification/PitFlags.thy ===== *)
theory PitFlags
  imports PitFind
begin

text \<open>
  The one-byte flags that \<open>drivers/mtd/nand/mt85xx_part_oper.c\<close> keeps on the flash: the settings of the serial
  console, the requests for an upgrade, the USB console and the diagnosis mode, and the flag of
  \<open>read_awm_flag\<close>.  The global \<open>b_get_registry\<close> is an argument and a result; a local variable is 4 bytes of
  memory at an address.
\<close>

section \<open>The functions\<close>

text \<open>\<open>mt85xx_part_tbl_init\<close> belongs to the module of the table; it may change what the table gives.\<close>

record 'f flag_env =
  fe_board :: pit_board
  fe_init :: "'f mtd_world \<Rightarrow> pit_board \<times> 'f mtd_world"
  fe_dev :: "addr \<Rightarrow> 'f mtd_ops"
  fe_alloc :: wr_alloc

definition MISC_CUS_DMS_OUTPUT_OFFSET :: u32 where "MISC_CUS_DMS_OUTPUT_OFFSET = 0xA0"
definition MISC_CUS_NMS_OUTPUT_OFFSET :: u32 where "MISC_CUS_NMS_OUTPUT_OFFSET = MISC_CUS_DMS_OUTPUT_OFFSET + 1"
definition MISC_CUS_NMS_INPUT_OFFSET :: u32 where "MISC_CUS_NMS_INPUT_OFFSET = MISC_CUS_NMS_OUTPUT_OFFSET + 1"

text \<open>The enumeration of the offsets is a sum of sizes; these are its values.\<close>

definition DRV_CFG_D_DIAG_MODE_OFFSET :: u32 where "DRV_CFG_D_DIAG_MODE_OFFSET = 326"
definition DRV_CFG_FORCE_UPG_OFFSET :: u32 where "DRV_CFG_FORCE_UPG_OFFSET = 992"
definition DRV_CFG_USBCLI_MODE_OFFSET :: u32 where "DRV_CFG_USBCLI_MODE_OFFSET = 994"

text \<open>\<open>b_get_registry = v\<close> between \<open>#if SONY_GET_REGISTRY\<close> and \<open>#endif\<close>.\<close>

definition set_registry :: "pit_board \<Rightarrow> bool \<Rightarrow> bool \<Rightarrow> bool" where
  "set_registry B v reg = (if SONY_GET_REGISTRY B then v else reg)"

text \<open>\<open>UINT32 x = 0; i4NFBPartitionRead(0, off, (UINT32)(&x), 1);\<close> with \<open>x\<close> at \<open>p\<close>; the result of the read is not
  used.\<close>

definition read_flag ::
  "'f flag_env \<Rightarrow> pit_board \<Rightarrow> bool \<Rightarrow> addr \<Rightarrow> u32 \<Rightarrow> 'f mtd_world \<Rightarrow> (u32 \<times> 'f mtd_world) option" where
  "read_flag E B reg p off w =
     do { (r, w) \<leftarrow> i4NFBPartitionRead B (fe_dev E) reg 0 off p 1 (st32 p 0 w); Some (ld32 (mem w) p, w) }"

text \<open>\<open>x = v; i4NFBPartitionWrite(0, off, (UINT32)(&x), 1);\<close>\<close>

definition write_flag ::
  "'f flag_env \<Rightarrow> pit_board \<Rightarrow> bool \<Rightarrow> addr \<Rightarrow> u32 \<Rightarrow> u32 \<Rightarrow> 'f mtd_world \<Rightarrow> 'f mtd_world option" where
  "write_flag E B reg p off v w =
     do { (r, w) \<leftarrow> i4NFBPartitionWrite B (fe_alloc E) (fe_dev E) reg 0 off p 1 (st32 p v w); Some w }"

text \<open>The JIG pins and the addresses of the locals, which are apart, are arguments; the result is \<open>b_disable_log\<close>,
  \<open>b_disable_cli\<close> and the value that goes to the register.\<close>

definition log_onoff_control ::
  "'f flag_env \<Rightarrow> bool \<Rightarrow> bool \<Rightarrow> bool \<Rightarrow> addr \<Rightarrow> addr \<Rightarrow> addr \<Rightarrow> 'f mtd_world
    \<Rightarrow> (bool \<times> bool \<times> u32 \<times> 'f mtd_world) option" where
  "log_onoff_control E reg jig0 jig1 pd pn pi w =
     (let B = fe_board E; u4Addr = get_part_addr_by_name B (Some ''mac_addr_1''); diag = (\<not> (jig0 \<or> jig1)) in
      do { (dms_output, w) \<leftarrow> read_flag E B reg pd (u4Addr + MISC_CUS_DMS_OUTPUT_OFFSET) w;
           (nms_output, w) \<leftarrow> read_flag E B reg pn (u4Addr + MISC_CUS_NMS_OUTPUT_OFFSET) w;
           (nms_input, w) \<leftarrow> read_flag E B reg pi (u4Addr + MISC_CUS_NMS_INPUT_OFFSET) w;
           let nolog = (diag \<and> dms_output = 1 \<or> \<not> diag \<and> nms_output = 1);
           let nocli = (\<not> diag \<and> nms_input = 1);
           Some (nolog, nocli, (if nolog then 1 else 0) OR (if nocli then 2 else 0), w) })"

definition b_force_upg_detect ::
  "'f flag_env \<Rightarrow> bool \<Rightarrow> addr \<Rightarrow> 'f mtd_world \<Rightarrow> (int \<times> bool \<times> 'f mtd_world) option" where
  "b_force_upg_detect E reg p w =
     (let B = fe_board E; u4Addr = get_part_addr_by_name B (Some ''fast_init_param''); reg = set_registry B True reg in
      do { (force_upg, w) \<leftarrow> read_flag E B reg p (u4Addr + DRV_CFG_FORCE_UPG_OFFSET) w;
           if force_upg = 1
           then do { w \<leftarrow> write_flag E B reg p (u4Addr + DRV_CFG_FORCE_UPG_OFFSET) 0 w;
                     Some (1, set_registry B False reg, w) }
           else Some (0, reg, w) })"

text \<open>The search for the address, with a second try after \<open>mt85xx_part_tbl_init\<close>.\<close>

definition flag_board :: "'f flag_env \<Rightarrow> 'f mtd_world \<Rightarrow> u32 \<times> pit_board \<times> 'f mtd_world" where
  "flag_board E w =
     (let a = get_part_addr_by_name (fe_board E) (Some ''fast_init_param'') in
      if a = 0 then let (B, w) = fe_init E w in (get_part_addr_by_name B (Some ''fast_init_param''), B, w)
      else (a, fe_board E, w))"

definition b_force_usbcli_mode_set ::
  "'f flag_env \<Rightarrow> bool \<Rightarrow> addr \<Rightarrow> 'f mtd_world \<Rightarrow> (int \<times> bool \<times> 'f mtd_world) option" where
  "b_force_usbcli_mode_set E reg p w =
     (let (u4Addr, B, w) = flag_board E w in
      if u4Addr = 0 then Some (0, reg, w)
      else let reg = set_registry B True reg in
        do { (force_usbcli, w) \<leftarrow> read_flag E B reg p (u4Addr + DRV_CFG_USBCLI_MODE_OFFSET) w;
             if force_usbcli = 0 then Some (0, reg, w)
             else do { w \<leftarrow> write_flag E B reg p (u4Addr + DRV_CFG_USBCLI_MODE_OFFSET) 0 w;
                       Some (0, set_registry B False reg, w) } })"

definition b_force_diag_mode_set ::
  "'f flag_env \<Rightarrow> bool \<Rightarrow> addr \<Rightarrow> 'f mtd_world \<Rightarrow> (int \<times> bool \<times> 'f mtd_world) option" where
  "b_force_diag_mode_set E reg p w =
     (let (u4Addr, B, w) = flag_board E w in
      if u4Addr = 0 then Some (0, reg, w)
      else let reg = set_registry B True reg in
        do { (force_diag, w) \<leftarrow> read_flag E B reg p (u4Addr + DRV_CFG_D_DIAG_MODE_OFFSET) w;
             if force_diag = 1 then Some (0, reg, w)
             else do { w \<leftarrow> write_flag E B reg p (u4Addr + DRV_CFG_D_DIAG_MODE_OFFSET) 1 w;
                       Some (0, set_registry B False reg, w) } })"

text \<open>\<open>tmp\<close> is one byte at \<open>p\<close>; the result tells whether the serial console is switched off.\<close>

definition awm_tmp ::
  "'f flag_env \<Rightarrow> bool \<Rightarrow> addr \<Rightarrow> 'f mtd_world \<Rightarrow> 'f mtd_world option" where
  "awm_tmp E reg p w =
     (let B = fe_board E; u4Addr = get_part_addr_by_name B (Some ''mac_addr_1'');
          u4Size = get_part_size_by_name B (Some ''mac_addr_1'') in
      if u4Addr = 0 \<or> u4Size = 0 then Some (memset p 0xFF 1 w)
      else let u4Size = u4Size - u4Size mod 0x100000; off = u4Addr + drop_bit 1 u4Size in
        do { (r, w) \<leftarrow> i4NFBPartitionRead_NoSkipBad (fe_dev E) 0 off p 1 w;
             if r \<noteq> 0
             then do { (r, w) \<leftarrow> i4NFBPartitionWrite B (fe_alloc E) (fe_dev E) reg 0 off p 1 (memset p 0xCC 1 w);
                       Some w }
             else Some w })"

definition read_awm_flag ::
  "'f flag_env \<Rightarrow> bool \<Rightarrow> addr \<Rightarrow> 'f mtd_world \<Rightarrow> (bool \<times> 'f mtd_world) option" where
  "read_awm_flag E reg p w =
     do { w \<leftarrow> awm_tmp E reg p (memset p 0 1 w); Some (mem w p = 0xCC, w) }"

section \<open>The request for an upgrade\<close>

lemma ld32_byte:
  assumes "load h p 4 = [x, 0, 0, 0]"
  shows "ld32 h p = 1 \<longleftrightarrow> x = 1" "ld32 h p = 0 \<longleftrightarrow> x = 0"
proof -
  have "le_bytes 1 = [1, 0, 0, 0]" "le_bytes 0 = [0, 0, 0, 0]" by (simp_all add: le_bytes_def drop_bit_eq_div)
  with assms show "ld32 h p = 1 \<longleftrightarrow> x = 1" "ld32 h p = 0 \<longleftrightarrow> x = 0" by (simp_all add: ld32_iff)
qed

text \<open>A flag of the registry, which starts at block \<open>s\<close>.\<close>

lemma read_flag_reads:
  assumes wf: "writable_flash I C R pg (2 ^ j) bad a (fe_dev E a)" and op: "reopens I C a n j k"
    and B: "SONY_GET_REGISTRY B" "get_part_addr_by_name B (Some ''fast_init_param'') = A" "unat A = s * 2 ^ j"
    and w: "I w" "length (C w) = n" and p: "p \<noteq> 0"
    and off: "unat off = s * 2 ^ j + d" "unat off < n" "d < length (good_from (2 ^ j) bad (C w) s)"
  shows "\<exists>x w'. read_flag E B True p off w = Some (x, w') \<and> I w' \<and> C w' = C w \<and>
    (x = 1 \<longleftrightarrow> good_from (2 ^ j) bad (C w) s ! d = 1) \<and> (x = 0 \<longleftrightarrow> good_from (2 ^ j) bad (C w) s ! d = 0)"
proof -
  let ?G = "good_from (2 ^ j) bad (C w) s" and ?w = "st32 p 0 w"
  from wf have rb: "reports_bad I C R (2 ^ j) bad (fe_dev E a)" and rf: "flat_read I C R (op_read (fe_dev E a))"
    and mf: "mem_free I C R" by (simp_all add: writable_flash_def)
  note st = rest_effects(1,2) [OF mf, of p 0 w]
  have "I ?w" using w(1) st by simp
  with op obtain m v1 where v1: "mtd_get 0 ?w = Some (a, m, v1)" "geometry m n j k" "I v1" "C v1 = C w" "mem v1 = mem ?w"
    unfolding reopens_def using st(2) by metis
  have reg: "unat (registry_start B True 0) = s * 2 ^ j" using B by (simp add: registry_start_def)
  have "unat off mod 2 ^ j < 2 ^ j" by simp
  then have al: "read_aligned (2 ^ j) k (unat off) (unat (1 :: u32))" by (simp add: read_aligned_def Suc_leI)
  have h: "s * 2 ^ j \<le> unat off" "(0 :: u32) < 1" "length (C v1) = n" using off(1) v1(4) w(2) by simp_all
  from nfb_read_blocks [where dev = "fe_dev E" and C = C and I = I and R = R and bad = bad,
      OF v1(2) rb rf v1(1,3) h(3) reg h(1) off(2) p h(2) al] obtain w2 q where r:
    "i4NFBPartitionRead B (fe_dev E) True 0 off p 1 ?w = Some (if d + 1 \<le> length ?G then 0 else -1, w2)"
    "I w2" "C w2 = C w" "mem w2 = store (mem ?w) p (slice ?G d q)" "d + 1 \<le> length ?G \<longrightarrow> q = 1"
    unfolding v1(4,5) off(1) keeps_def by auto
  have q: "slice ?G d q = [?G ! d]"
  proof -
    have "slice ?G d 1 = [?G ! d]" using off(3) by (simp add: slice_def take_Suc hd_drop_conv_nth)
    then show ?thesis using r(5) off(3) by simp
  qed
  have z: "le_bytes 0 = [0, 0, 0, 0]" by (simp add: le_bytes_def)
  have "load (mem w2) p 4 = [?G ! d, 0, 0, 0]"
    unfolding r(4) q mem_effects z by (simp add: load_def store_def upt_rec)
  note ld = ld32_byte [OF this]
  have "read_flag E B True p off w = Some (ld32 (mem w2) p, w2)" using r(1) by (simp add: read_flag_def)
  with r(2,3) ld show ?thesis by blast
qed

lemma write_flag_writes:
  assumes wf: "writable_flash I C R pg (2 ^ j) bad a (fe_dev E a)" and op: "reopens I C a n j k" and k: "k \<le> 8192"
    and B: "SONY_GET_REGISTRY B" "get_part_addr_by_name B (Some ''fast_init_param'') = A" "unat A = s * 2 ^ j"
    and w: "I w" "length (C w) = n" and p: "p \<noteq> 0"
    and al: "fe_alloc E = \<lparr>erase_memory = True, page_memory = Some tmp, block_memory = Some blk\<rparr>"
    and ap: "buffers_apart tmp blk (2 ^ j) p 1"
    and off: "unat off = s * 2 ^ j + d" "unat off < n" "d < length (good_from (2 ^ j) bad (C w) s)"
  shows "\<exists>w'. write_flag E B True p off v w = Some w' \<and> I w' \<and> length (C w') = n \<and>
    good_from (2 ^ j) bad (C w') s = (good_from (2 ^ j) bad (C w) s)[d := ucast v]"
proof -
  let ?G = "good_from (2 ^ j) bad (C w) s" and ?w = "st32 p v w"
  from wf have mf: "mem_free I C R" by (simp add: writable_flash_def)
  note st = rest_effects(1,2) [OF mf, of p v w]
  have "I ?w" using w(1) st by simp
  with op obtain m v1 where v1: "mtd_get 0 ?w = Some (a, m, v1)" "geometry m n j k" "I v1" "C v1 = C w" "mem v1 = mem ?w"
    unfolding reopens_def using st(2) by metis
  have reg: "unat (registry_start B True 0) = s * 2 ^ j" using B by (simp add: registry_start_def)
  have h: "s * 2 ^ j \<le> unat off" "0 < unat (1 :: u32)" "unat (1 :: u32) < 2 ^ 31" "length (C v1) = n"
    using off(1) v1(4) w(2) by simp_all
  have ap': "buffers_apart tmp blk (2 ^ j) p (unat (1 :: u32))" using ap by simp
  have fit: "unat off - s * 2 ^ j + unat (1 :: u32) \<le> length (good_from (2 ^ j) bad (C v1) s)" using off v1(4) by simp
  from nfb_write_blocks [where dev = "fe_dev E" and C = C and I = I and R = R and bad = bad and pg = pg,
      OF v1(2) wf v1(1,3) h(4) reg h(1) off(2) p h(2,3) k ap' fit] obtain w2 where w2:
    "i4NFBPartitionWrite B (fe_alloc E) (fe_dev E) True 0 off p 1 ?w = Some (0, w2)" "I w2" "length (C w2) = n"
    "good_from (2 ^ j) bad (C w2) s = put_at ?G d (load (mem v1) p 1)"
    unfolding al v1(4) off(1) by auto
  have "load (mem v1) p 1 = [ucast v]"
    unfolding v1(5) mem_effects by (simp add: load_def store_def le_bytes_def)
  then have "good_from (2 ^ j) bad (C w2) s = ?G[d := ucast v]" using w2(4) off(3) by (simp add: put_at_one)
  with w2 show ?thesis by (auto simp: write_flag_def)
qed

text \<open>C31: \<open>b_force_upg_detect\<close> on a flash that does not fail: it returns 1 exactly when the flag of the registry is
  1, and then the flag is cleared and \<open>b_get_registry\<close> is reset; otherwise nothing is written and \<open>b_get_registry\<close>
  stays set, so that later accesses to device 0 count from the registry.\<close>

theorem force_upg_detect_once:
  assumes wf: "writable_flash I C R pg (2 ^ j) bad a (fe_dev E a)" and op: "reopens I C a n j k" and k: "k \<le> 8192"
    and B: "SONY_GET_REGISTRY (fe_board E)" "get_part_addr_by_name (fe_board E) (Some ''fast_init_param'') = A" "unat A = s * 2 ^ j"
    and w: "I w" "length (C w) = n" and p: "p \<noteq> 0" and n: "n \<le> 2 ^ 31"
    and al: "fe_alloc E = \<lparr>erase_memory = True, page_memory = Some tmp, block_memory = Some blk\<rparr>"
    and ap: "buffers_apart tmp blk (2 ^ j) p 1"
    and room: "unat A + 992 < n" "992 < length (good_from (2 ^ j) bad (C w) s)"
  shows "\<exists>w'. b_force_upg_detect E reg p w =
      Some (if good_from (2 ^ j) bad (C w) s ! 992 = 1 then 1 else 0, good_from (2 ^ j) bad (C w) s ! 992 \<noteq> 1, w') \<and>
    good_from (2 ^ j) bad (C w') s = (if good_from (2 ^ j) bad (C w) s ! 992 = 1
      then (good_from (2 ^ j) bad (C w) s)[992 := 0] else good_from (2 ^ j) bad (C w) s)"
proof -
  let ?G = "good_from (2 ^ j) bad (C w) s" and ?off = "A + DRV_CFG_FORCE_UPG_OFFSET"
  have off: "unat ?off = s * 2 ^ j + 992" "unat ?off < n"
    using room(1) B(3) n by (simp_all add: unat_add_32 DRV_CFG_FORCE_UPG_OFFSET_def)
  have reg: "set_registry (fe_board E) True reg = True" "set_registry (fe_board E) False True = False"
    using B(1) by (simp_all add: set_registry_def)
  obtain x w1 where r: "read_flag E (fe_board E) True p ?off w = Some (x, w1)" "I w1" "C w1 = C w" "x = 1 \<longleftrightarrow> ?G ! 992 = 1"
    using read_flag_reads [OF wf op B w p off room(2)] by blast
  show ?thesis
  proof (cases "x = 1")
    case False
    then have "b_force_upg_detect E reg p w = Some (0, True, w1)"
      using r(1) by (simp add: b_force_upg_detect_def B(2) reg Let_def)
    with r(3,4) False show ?thesis by simp
  next
    case True
    have h: "length (C w1) = n" "992 < length (good_from (2 ^ j) bad (C w1) s)" using r(3) w(2) room(2) by simp_all
    obtain w2 where w2: "write_flag E (fe_board E) True p ?off 0 w1 = Some w2"
      "good_from (2 ^ j) bad (C w2) s = (good_from (2 ^ j) bad (C w1) s)[992 := ucast (0 :: u32)]"
      using write_flag_writes [OF wf op k B r(2) h(1) p al ap off h(2)] by blast
    have "b_force_upg_detect E reg p w = Some (1, False, w2)"
      using r(1) w2(1) True by (simp add: b_force_upg_detect_def B(2) reg Let_def)
    with r(3,4) w2(2) True show ?thesis by simp
  qed
qed

text \<open>The instance: a chip of 128 blocks whose registry starts at block 1.\<close>

definition reg_info :: mtd_info where
  "reg_info = chip_info\<lparr>mtd_size := 1024\<rparr>"

definition reg_board :: pit_board where
  "reg_board = \<lparr>SONY_GET_REGISTRY = True,
     mt85xx_get_part_info_by_name = (\<lambda>_. Some \<lparr>pi_id = 1, pi_info = 0, pi_offset = 8, pi_size = 1016\<rparr>)\<rparr>"

definition reg_env :: "(addr \<Rightarrow> u8 list) flag_env" where
  "reg_env = \<lparr>fe_board = reg_board, fe_init = (\<lambda>w. (reg_board, w)), fe_dev = (\<lambda>_. chip_ops (\<lambda>b. False)),
     fe_alloc = \<lparr>erase_memory = True, page_memory = Some 1000, block_memory = Some 10000\<rparr>\<rparr>"

definition reg_world :: "(addr \<Rightarrow> u8 list) mtd_world" where
  "reg_world = ram_world\<lparr>mtdc := \<lparr>mtd_table = [Some 1], mtd_objs = [1 \<mapsto> reg_info]\<rparr>, flash := (\<lambda>s. replicate 1000 0 @ [1] @ replicate 23 0)\<rparr>"

definition reg_inv :: "(addr \<Rightarrow> u8 list) mtd_world \<Rightarrow> bool" where
  "reg_inv w \<longleftrightarrow> length (flash w 1) = 1024 \<and> part_objs w 1 = None \<and>
     (\<exists>u. mtdc w = \<lparr>mtd_table = [Some 1], mtd_objs = [1 \<mapsto> reg_info\<lparr>usecount := u\<rparr>]\<rparr>)"

lemma reg_invI:
  "length (flash w 1) = 1024 \<Longrightarrow> part_objs w 1 = None \<Longrightarrow>
   mtdc w = \<lparr>mtd_table = [Some 1], mtd_objs = [1 \<mapsto> reg_info\<lparr>usecount := u\<rparr>]\<rparr> \<Longrightarrow> reg_inv w"
  unfolding reg_inv_def by blast

lemma reg_reopens: "reopens reg_inv (\<lambda>w. flash w 1) 1 1024 3 4"
  unfolding reopens_def
proof (intro allI impI)
  fix v assume v: "reg_inv v"
  then obtain u where u: "mtdc v = \<lparr>mtd_table = [Some 1], mtd_objs = [1 \<mapsto> reg_info\<lparr>usecount := u\<rparr>]\<rparr>"
    by (auto simp: reg_inv_def)
  let ?c = "\<lparr>mtd_table = [Some 1], mtd_objs = [1 \<mapsto> reg_info\<lparr>usecount := u + 1\<rparr>]\<rparr>"
  have "mtd_get 0 v = Some (1, reg_info\<lparr>usecount := u + 1\<rparr>, v\<lparr>mtdc := ?c\<rparr>)"
    by (simp add: mtd_get_def get_mtd_device_def u mtd_set_def)
  moreover have "geometry (reg_info\<lparr>usecount := u + 1\<rparr>) 1024 3 4" by (simp add: geometry_def reg_info_def chip_info_def)
  moreover have "reg_inv (v\<lparr>mtdc := ?c\<rparr>)"
    using v by (intro reg_invI [where u = "u + 1"]) (simp_all add: reg_inv_def)
  ultimately show "\<exists>m v1. mtd_get 0 v = Some (1, m, v1) \<and> geometry m 1024 3 4 \<and> reg_inv v1 \<and>
      flash v1 1 = flash v 1 \<and> mem v1 = mem v" by auto
qed

lemma reg_writable: "writable_flash reg_inv (\<lambda>w. flash w 1) mtdc and (2 ^ 3) (\<lambda>b. False) 1 (chip_ops (\<lambda>b. False))"
  by (rule chip_writable_inv) (auto simp: reg_inv_def)

lemma good_from_all_good:
  "es dvd length c \<Longrightarrow> 0 < es \<Longrightarrow> good_from es (\<lambda>b. False) c k = drop (k * es) c"
proof (induction "length c div es - k" arbitrary: k)
  case 0
  then have "length c \<le> k * es" by (auto elim!: dvdE)
  with 0 show ?case by (simp add: good_from_end)
next
  case (Suc x)
  then have "k < length c div es" "x = length c div es - Suc k" by simp_all
  with Suc have "good_from es (\<lambda>b. False) c k = slice c (k * es) es @ drop (Suc k * es) c"
    by (simp add: good_from_step)
  also have "\<dots> = drop (k * es) c"
    using append_take_drop_id [of es "drop (k * es) c"] by (simp add: slice_def add.commute)
  finally show ?case .
qed

theorem force_upg_detect_once_witness:
  "\<exists>w'. b_force_upg_detect reg_env False 100 reg_world = Some (1, False, w') \<and>
     good_from (2 ^ 3) (\<lambda>b. False) (flash w' 1) 1 ! 992 = 0"
proof -
  let ?G = "good_from (2 ^ 3) (\<lambda>b. False) (flash reg_world 1) 1"
  have e: "fe_dev reg_env 1 = chip_ops (\<lambda>b. False)" "fe_board reg_env = reg_board"
    "fe_alloc reg_env = \<lparr>erase_memory = True, page_memory = Some 1000, block_memory = Some 10000\<rparr>"
    by (simp_all add: reg_env_def)
  have wf: "writable_flash reg_inv (\<lambda>w. flash w 1) mtdc and (2 ^ 3) (\<lambda>b. False) 1 (fe_dev reg_env 1)"
    unfolding e by (rule reg_writable)
  have b: "SONY_GET_REGISTRY (fe_board reg_env)" "get_part_addr_by_name (fe_board reg_env) (Some ''fast_init_param'') = 8"
    "unat (8 :: u32) = 1 * 2 ^ 3" by (simp_all add: e reg_board_def get_part_addr_by_name_def)
  have len: "length (flash reg_world 1) = 1024" by (simp add: reg_world_def)
  have w: "reg_inv reg_world"
    by (rule reg_invI [where u = "usecount reg_info"]) (use len in \<open>simp_all add: reg_world_def ram_world_def\<close>)
  have h: "(4 :: nat) \<le> 8192" "(100 :: nat) \<noteq> 0" "(1024 :: nat) \<le> 2 ^ 31" "buffers_apart 1000 10000 (2 ^ 3) 100 1"
    "unat (8 :: u32) + 992 < 1024" by (simp_all add: buffers_apart_def apart_def)
  have "?G = drop 8 (flash reg_world 1)" using good_from_all_good [of "2 ^ 3" "flash reg_world 1" 1] len by simp
  then have G: "992 < length ?G" "?G ! 992 = 1" using len by (simp_all add: reg_world_def nth_append)
  from force_upg_detect_once [where C = "\<lambda>w. flash w 1" and I = reg_inv and R = mtdc and reg = False,
      OF wf reg_reopens h(1) b w len h(2,3) e(3) h(4,5) G(1)] G show ?thesis by auto
qed

end
