(* ===== verification/Spec2Isabelle.thy ===== *)
theory Spec2Isabelle
  imports EnvStore ReadLine CmdLine CircBuf NandEcc MtdConcatLaws PitEnv PitFlags
begin

text \<open>
  A verification development for the boot loader under \<open>src/firmware/u-boot\<close>, a U-Boot of 2009 with
  the drivers of a MediaTek board.  It models the code that stands between the user, the environment
  and the flash: the command line, the environment store, the partition tables of the flash and the
  layers of the MTD subsystem.

  \<^bold>\<open>Parts and theories.\<close>
  \<^item> \<open>Prelude\<close>: machine words, bounded memory objects (\<open>rd\<close>, \<open>wr\<close>), C strings and number printing.
  \<^item> \<open>EnvStore\<close>: \<open>common/cmd_nvedit.c\<close> and \<open>common/env_common.c\<close>.  \<open>env_state\<close> holds the environment block
    byte by byte (\<open>env_ptr->data\<close>), its check sum and the cached globals.  \<open>getenv\<close>, \<open>getenv_r\<close>,
    \<open>_do_setenv\<close> (\<open>do_setenv_internal\<close>: delete, append and check-sum phases), \<open>setenv\<close>, \<open>do_printenv\<close>,
    \<open>do_askenv\<close>, \<open>set_default_env\<close>.  The lemmas show that a well-formed block is a list of
    \<open>name=value\<close> entries, that the code operates on that list as a store does, and what happens when
    the block overflows.
  \<^item> \<open>LineEdit\<close> and \<open>ReadLine\<close>: the two line editors of \<open>common/main.c\<close>, with the ring of past lines.
    A key press on the buffer, cursor and console refines an edit of a pair of strings.
  \<^item> \<open>CmdTable\<close>: \<open>common/command.c\<close>: \<open>find_cmd_tbl\<close>, help with its bubble sort, completion, \<open>echo\<close>,
    \<open>test\<close>, \<open>exit\<close>.
  \<^item> \<open>CmdLine\<close>: \<open>run_command\<close>, \<open>parse_line\<close>, \<open>process_macros\<close> and \<open>do_run\<close> of \<open>common/main.c\<close>.
    Commands are looked up in \<open>CmdTable\<close> and variables in \<open>EnvStore\<close>.
  \<^item> \<open>CircBuf\<close>: \<open>common/circbuf.c\<close>, a byte queue that drops the oldest bytes.
  \<^item> \<open>NandEcc\<close>: \<open>drivers/mtd/nand/nand_ecc.c\<close>, the Hamming code over 256 bytes.
  \<^item> \<open>MtdCore\<close>: \<open>drivers/mtd/mtdcore.c\<close>, the registry of flash devices with its use counts, as a step
    relation \<open>core_step\<close> with the invariant \<open>core_ok\<close>.
  \<^item> \<open>MtdParts\<close>, \<open>MtdPartsCmd\<close>, \<open>MtdPartsLaws\<close>: \<open>common/cmd_mtdparts.c\<close>, the partition tables that the
    variables \<open>mtdids\<close>, \<open>mtdparts\<close> and \<open>partition\<close> describe.  The module reads and writes the
    environment (\<open>EnvStore\<close>) and asks the registry (\<open>MtdCore\<close>) for devices.  The lemmas show that the
    lists of partitions stay sorted and valid, that parsing undoes printing, that the recursive-descent
    loops end, and where the code faults.
  \<^item> \<open>MtdOps\<close>: the functions of a flash device as a record \<open>mtd_ops\<close>, the requests that they take, and the
    state \<open>mtd_world\<close> that devices share (registry, memory, partition objects, chips).
  \<^item> \<open>MtdSlave\<close>: \<open>drivers/mtd/mtdpart.c\<close>, partitions as devices, and their creation and removal.
  \<^item> \<open>MtdConcat\<close>: \<open>drivers/mtd/mtdconcat.c\<close>, several devices as one.
  \<^item> \<open>MtdFlat\<close>, \<open>MtdConcatFlat\<close>: the contract \<open>flat_dev\<close> of a flash device (a flat array of bytes to read,
    program and erase) and the proofs that partitions and concatenations keep it.
  \<^item> \<open>MtdSlaveLaws\<close>, \<open>MtdConcatLaws\<close>: the laws of \<open>add_mtd_partitions\<close>, \<open>del_mtd_partitions\<close> and
    \<open>mtd_concat_create\<close>, and the out-of-band reads.
  \<^item> \<open>PitRead\<close>: \<open>i4NFBPartitionRead\<close> of \<open>drivers/mtd/nand/mt85xx_part_oper.c\<close>, which reads around bad blocks,
    and the access functions of the part table.  The contract of the device (\<open>geometry\<close>, \<open>reports_bad\<close>,
    \<open>flat_read\<close>) and the abstraction \<open>good_from\<close>: the contents of the good blocks in a row.
  \<^item> \<open>PitWrite\<close>, \<open>PitPages\<close>, \<open>PitWriteLaws\<close>: \<open>i4NFBPartitionWrite\<close>, which saves, erases and rewrites whole
    blocks (its failure paths included), the filling of one page, and the laws: a write is an update of
    \<open>good_from\<close>, and a read gives back what was written.
  \<^item> \<open>PitTable\<close>, \<open>PitTableLaws\<close>, \<open>PitFind\<close>, \<open>PitEnv\<close>: the partition information tables of the same file, as
    bytes of memory: their two formats, search (\<open>i4FindPartTbl\<close>), comparison (\<open>i4CompareFlashPIT\<close>), the
    adaptive table (\<open>i4SetNewFlashPIT\<close>) and the variables that describe it (\<open>i4SetEnv\<close>), which the
    parser of \<open>MtdPartsLaws\<close> reads back.
  \<^item> \<open>PitFlags\<close>: the one-byte requests that the same file keeps on the flash, over \<open>PitRead\<close> and \<open>PitWrite\<close>.

  \<^bold>\<open>Conventions.\<close>  Integers are words of their C width; \<open>ulong\<close> and pointers have 32 bits, sizes in the
  MTD layers 64.  A function that can fault (an access outside an object, a null or dangling pointer, a
  failing \<open>BUG_ON\<close>, a division by zero) returns an option, and \<open>None\<close> is the fault; C error codes are
  ordinary results.  Loops over data are recursive functions; the loops whose end is not evident
  (\<open>part_parse\<close>, \<open>device_parse\<close>, \<open>parse_mtdparts\<close>, \<open>count_badblocks\<close>, the loops over blocks of \<open>PitRead\<close>,
  \<open>PitWrite\<close> and \<open>PitTable\<close>) are \<open>partial_function (option)\<close>, in which \<open>while (1);\<close> is \<open>None\<close> too, and theorems
  show that they return.  No fuel is used.

  \<^bold>\<open>Parameters.\<close>  What the sources take from elsewhere is an argument of the definitions: \<open>crc32\<close> and
  \<open>simple_strtoul\<close> (in \<open>env_cfg\<close>), the keys that arrive, the handlers of commands, whether an
  allocation succeeds, the functions of the flash drivers, the inline functions of the kernel headers
  that divide by the erase size (in \<open>mtd_lib\<close>), and for the code of the board the part table (\<open>pit_board\<close>),
  the layout and signatures of its tables (\<open>pit_layout\<close>), its allocations (\<open>wr_alloc\<close>, \<open>pit_env\<close>) and the late
  initialisation of the table (\<open>flag_env\<close>).  Hypotheses about them state their documented
  behaviour, and each property that has one is applied to a concrete instance.

  \<^bold>\<open>Not modelled.\<close>  Drivers that only move registers (NAND and NOR controllers, serial, USB, boards),
  vendored code (the allocator, UBI, JFFS2 compressors), the file systems, the image formats, and the
  copies of the MTD and serial drivers that the tree contains twice.  Console output is modelled only
  where it is the purpose of the function (\<open>printenv\<close>, \<open>echo\<close>, \<open>help\<close>).  In the environment store the
  relocation of pointers, in the interpreter the main loop with its boot delay are left out.
\<close>

section \<open>The completer of the command table in the line editor\<close>

text \<open>At every prompt but \<open>CONFIG_SYS_PROMPT\<close> a TAB key starts no completion, which is what the laws of
  \<open>ReadLine\<close> ask for.\<close>

lemma cmd_auto_complete_other_prompt:
  "prompt \<noteq> sys_prompt \<Longrightarrow> no_completion (cmd_auto_complete sys_prompt cbsize sys_maxargs table s) prompt"
  by (simp add: no_completion_def cmd_auto_complete_def)

end
